(* ===== verification/Pega_Prelude.thy ===== *)
theory Pega_Prelude
  imports Main "HOL-Library.AList" "HOL-Library.Word"
begin

text \<open>
  What the components share: the unsigned 64-bit arithmetic of the code
  (\<open>usize\<close> and \<open>u64\<close> values are natural numbers, and each operation writes out what
  Rust's does at the upper bound), instants and durations in nanoseconds, the
  \<open>std::collections::HashMap\<close> operations on association lists with distinct keys,
  \<open>Iterator::map_while\<close>, the block key of \<^verbatim>\<open>pegaflow-common/src/block.rs\<close> and the NUMA
  node of \<^verbatim>\<open>pegaflow-common/src/numa.rs\<close>, and the interface \<open>expiring\<close> of the tables whose
  entries die with time.
\<close>

named_theorems arith_defs \<open>the unsigned 64-bit operations\<close>
named_theorems hm_simps \<open>hash map look-ups after an operation\<close>

section \<open>Unsigned 64-bit arithmetic\<close>

type_synonym usize = nat
type_synonym u64 = nat
type_synonym instant = nat
type_synonym duration = nat
type_synonym byte = "8 word"

definition u64_max :: nat where
  "u64_max = 2 ^ 64 - 1"

definition checked_add :: "nat \<Rightarrow> nat \<Rightarrow> nat option" where
  [arith_defs]: "checked_add a b = (if a + b \<le> u64_max then Some (a + b) else None)"

definition checked_mul :: "nat \<Rightarrow> nat \<Rightarrow> nat option" where
  [arith_defs]: "checked_mul a b = (if a * b \<le> u64_max then Some (a * b) else None)"

definition checked_sub :: "nat \<Rightarrow> nat \<Rightarrow> nat option" where
  [arith_defs]: "checked_sub a b = (if b \<le> a then Some (a - b) else None)"

definition saturating_add :: "nat \<Rightarrow> nat \<Rightarrow> nat" where
  [arith_defs]: "saturating_add a b = min (a + b) u64_max"

definition saturating_mul :: "nat \<Rightarrow> nat \<Rightarrow> nat" where
  [arith_defs]: "saturating_mul a b = min (a * b) u64_max"

definition saturating_sub :: "nat \<Rightarrow> nat \<Rightarrow> nat" where
  [arith_defs]: "saturating_sub a b = a - b"

text \<open>Unchecked \<open>+\<close> and \<open>*\<close> of a release build wrap around.\<close>

definition wrapping_add :: "nat \<Rightarrow> nat \<Rightarrow> nat" where
  [arith_defs]: "wrapping_add a b = (a + b) mod 2 ^ 64"

definition wrapping_mul :: "nat \<Rightarrow> nat \<Rightarrow> nat" where
  [arith_defs]: "wrapping_mul a b = (a * b) mod 2 ^ 64"

definition wrapping_sub :: "nat \<Rightarrow> nat \<Rightarrow> nat" where
  "wrapping_sub a b = (if b \<le> a then a - b else a + 2 ^ 64 - b)"

definition abs_diff :: "nat \<Rightarrow> nat \<Rightarrow> nat" where
  [arith_defs]: "abs_diff a b = (if a \<le> b then b - a else a - b)"

text \<open>The cast \<open>x as i64\<close> reads the 64 bits as two's complement.\<close>

definition as_i64 :: "nat \<Rightarrow> int" where
  "as_i64 n = (if n < 2 ^ 63 then int n else int n - 2 ^ 64)"

text \<open>\<open>Instant::duration_since\<close> and \<open>elapsed\<close> saturate at zero.\<close>

definition duration_since :: "instant \<Rightarrow> instant \<Rightarrow> duration" where
  "duration_since now t = now - t"

text \<open>The sum of an iterator of unsigned values, with the release build's wrap-around.\<close>

definition wrapping_sum :: "nat list \<Rightarrow> nat" where
  "wrapping_sum xs = foldl wrapping_add 0 xs"

section \<open>Hash maps\<close>

type_synonym ('k, 'v) hmap = "('k \<times> 'v) list"

abbreviation hm_get :: "('k, 'v) hmap \<Rightarrow> 'k \<Rightarrow> 'v option" where
  "hm_get m k \<equiv> map_of m k"

abbreviation hm_insert :: "'k \<Rightarrow> 'v \<Rightarrow> ('k, 'v) hmap \<Rightarrow> ('k, 'v) hmap" where
  "hm_insert k v m \<equiv> AList.update k v m"

abbreviation hm_remove :: "'k \<Rightarrow> ('k, 'v) hmap \<Rightarrow> ('k, 'v) hmap" where
  "hm_remove k m \<equiv> AList.delete k m"

definition hm_contains :: "('k, 'v) hmap \<Rightarrow> 'k \<Rightarrow> bool" where
  "hm_contains m k = (case map_of m k of None \<Rightarrow> False | Some _ \<Rightarrow> True)"

definition hm_retain :: "('k \<Rightarrow> 'v \<Rightarrow> bool) \<Rightarrow> ('k, 'v) hmap \<Rightarrow> ('k, 'v) hmap" where
  "hm_retain P m = filter (\<lambda>(k, v). P k v) m"

definition hm_wf :: "('k, 'v) hmap \<Rightarrow> bool" where
  "hm_wf m = distinct (map fst m)"

text \<open>The sum of a weight over the values of a map.\<close>

definition hm_sum :: "('v \<Rightarrow> int) \<Rightarrow> ('k, 'v) hmap \<Rightarrow> int" where
  "hm_sum w m = sum_list (map (\<lambda>(k, v). w v) m)"

section \<open>Iterators\<close>

text \<open>\<open>iter.map_while(f).collect()\<close>: the images up to the first \<open>None\<close>.\<close>

fun map_while :: "('a \<Rightarrow> 'b option) \<Rightarrow> 'a list \<Rightarrow> 'b list" where
  "map_while f [] = []"
| "map_while f (x # xs) = (case f x of None \<Rightarrow> [] | Some y \<Rightarrow> y # map_while f xs)"

section \<open>Keys and nodes\<close>

record block_key =
  namespace :: string
  hash :: "byte list"

definition mk_key :: "string \<Rightarrow> byte list \<Rightarrow> block_key" where
  "mk_key ns h = \<lparr>namespace = ns, hash = h\<rparr>"

type_synonym numa_node = "32 word"

definition NUMA_UNKNOWN :: numa_node where
  "NUMA_UNKNOWN = - 1"

definition is_unknown :: "numa_node \<Rightarrow> bool" where
  "is_unknown n = (n = NUMA_UNKNOWN)"

section \<open>Tables whose entries expire\<close>

text \<open>
  The retain pass of every table that drops entries by age: leases, transfer sessions,
  in-flight blocks, prefetch entries and MetaServer nodes are each swept this way, with their
  own notion of \<open>alive\<close>.
\<close>

definition sweep :: "(instant \<Rightarrow> 'v \<Rightarrow> bool) \<Rightarrow> instant \<Rightarrow> ('k, 'v) hmap \<Rightarrow> ('k, 'v) hmap" where
  "sweep alive now m = hm_retain (\<lambda>_ v. alive now v) m"

section \<open>Lemmas on arithmetic\<close>

lemma checked_add_Some [simp]: "checked_add a b = Some c \<longleftrightarrow> a + b \<le> u64_max \<and> c = a + b"
  by (auto simp: checked_add_def)

lemma checked_mul_Some [simp]: "checked_mul a b = Some c \<longleftrightarrow> a * b \<le> u64_max \<and> c = a * b"
  by (auto simp: checked_mul_def)

lemma checked_sub_Some [simp]: "checked_sub a b = Some c \<longleftrightarrow> b \<le> a \<and> c = a - b"
  by (auto simp: checked_sub_def)

lemma checked_add_None [simp]: "checked_add a b = None \<longleftrightarrow> u64_max < a + b"
  by (auto simp: checked_add_def)

lemma checked_mul_None [simp]: "checked_mul a b = None \<longleftrightarrow> u64_max < a * b"
  by (auto simp: checked_mul_def)

lemma u64_max_less: "n \<le> u64_max \<longleftrightarrow> n < 2 ^ 64"
  by (auto simp: u64_max_def)

lemma wrapping_add_exact [simp]: "a + b \<le> u64_max \<Longrightarrow> wrapping_add a b = a + b"
  by (simp add: wrapping_add_def u64_max_less)

lemma wrapping_mul_exact [simp]: "a * b \<le> u64_max \<Longrightarrow> wrapping_mul a b = a * b"
  by (simp add: wrapping_mul_def u64_max_less)

lemma saturating_add_exact [simp]: "a + b \<le> u64_max \<Longrightarrow> saturating_add a b = a + b"
  by (simp add: saturating_add_def)

lemma saturating_add_zero [simp]: "saturating_add 0 a = min a u64_max"
  by (simp add: saturating_add_def)

lemma as_i64_small [simp]: "n < 2 ^ 63 \<Longrightarrow> as_i64 n = int n"
  by (simp add: as_i64_def)

lemma foldl_wrapping_add: "foldl wrapping_add (a mod 2 ^ 64) xs = (a + sum_list xs) mod 2 ^ 64"
proof (induction xs arbitrary: a)
  case Nil
  then show ?case by simp
next
  case (Cons x xs)
  have "wrapping_add (a mod 2 ^ 64) x = (a + x) mod 2 ^ 64"
    by (simp add: wrapping_add_def mod_add_left_eq)
  with Cons.IH [of "a + x"] show ?case by (simp add: add.assoc)
qed

lemma wrapping_sum_eq: "wrapping_sum xs = sum_list xs mod 2 ^ 64"
  using foldl_wrapping_add [of 0 xs] by (simp add: wrapping_sum_def)

lemma wrapping_sum_exact [simp]: "sum_list xs \<le> u64_max \<Longrightarrow> wrapping_sum xs = sum_list xs"
  by (simp add: wrapping_sum_eq u64_max_less)

lemma foldl_saturating_add:
  "a \<le> u64_max \<Longrightarrow> foldl saturating_add a xs = min (a + sum_list xs) u64_max"
proof (induction xs arbitrary: a)
  case Nil
  then show ?case by simp
next
  case (Cons x xs)
  have "saturating_add a x \<le> u64_max" by (simp add: saturating_add_def)
  from Cons.IH [OF this] show ?case by (simp add: saturating_add_def min_def)
qed

section \<open>Lemmas on hash maps\<close>

lemma hm_contains_iff [hm_simps]: "hm_contains m k \<longleftrightarrow> map_of m k \<noteq> None"
  by (simp add: hm_contains_def split: option.splits)

lemma hm_contains_dom: "hm_contains m k \<longleftrightarrow> k \<in> fst ` set m"
  by (auto simp: hm_contains_iff map_of_eq_None_iff)

lemma hm_wf_Nil [simp]: "hm_wf []"
  by (simp add: hm_wf_def)

lemma hm_wf_Cons [simp]: "hm_wf ((k, v) # m) \<longleftrightarrow> k \<notin> fst ` set m \<and> hm_wf m"
  by (simp add: hm_wf_def)

lemma hm_wf_insert [simp, intro]: "hm_wf m \<Longrightarrow> hm_wf (hm_insert k v m)"
  by (simp add: hm_wf_def distinct_update)

lemma hm_wf_remove [simp, intro]: "hm_wf m \<Longrightarrow> hm_wf (hm_remove k m)"
  by (simp add: hm_wf_def distinct_delete)

lemma hm_wf_retain [simp, intro]: "hm_wf m \<Longrightarrow> hm_wf (hm_retain P m)"
  by (simp add: hm_wf_def hm_retain_def distinct_map_filter)

lemma hm_get_insert [hm_simps]:
  "hm_get (hm_insert k v m) k' = (if k' = k then Some v else hm_get m k')"
  by (simp add: update_conv)

lemma hm_get_remove [hm_simps]:
  "hm_get (hm_remove k m) k' = (if k' = k then None else hm_get m k')"
  by (simp add: delete_conv)

lemma hm_get_retain [hm_simps]:
  assumes "hm_wf m"
  shows "hm_get (hm_retain P m) k =
    (case hm_get m k of None \<Rightarrow> None | Some v \<Rightarrow> if P k v then Some v else None)"
  using assms
proof (induction m)
  case Nil
  then show ?case by (simp add: hm_retain_def)
next
  case (Cons kv m)
  obtain k' v where [simp]: "kv = (k', v)" by force
  have "map_of (hm_retain P m) k' = None" if "k' \<notin> fst ` set m"
    using that by (auto simp: hm_retain_def map_of_eq_None_iff)
  with Cons show ?case
    by (auto simp: hm_retain_def split: option.splits)
qed

lemma hm_get_in_set: "hm_wf m \<Longrightarrow> hm_get m k = Some v \<longleftrightarrow> (k, v) \<in> set m"
  by (simp add: hm_wf_def)

lemma hm_retain_subset: "set (hm_retain P m) \<subseteq> set m"
  by (auto simp: hm_retain_def)

lemma hm_retain_all: "(\<And>k v. (k, v) \<in> set m \<Longrightarrow> P k v) \<Longrightarrow> hm_retain P m = m"
  unfolding hm_retain_def by (induction m) auto

lemma hm_retain_retain: "hm_retain P (hm_retain Q m) = hm_retain (\<lambda>k v. Q k v \<and> P k v) m"
  unfolding hm_retain_def by (induction m) auto

lemma length_hm_retain:
  "length m - length (hm_retain P m) = length (filter (\<lambda>(k, v). \<not> P k v) m)"
proof -
  have "length (filter (\<lambda>(k, v). P k v) m) + length (filter (\<lambda>(k, v). \<not> P k v) m) = length m"
    by (induction m) auto
  then show ?thesis by (simp add: hm_retain_def)
qed

lemma hm_remove_absent [simp]: "k \<notin> fst ` set m \<Longrightarrow> hm_remove k m = m"
  by (simp add: delete_id)

lemma set_hm_insert_subset: "set (hm_insert k v m) \<subseteq> insert (k, v) (set m)"
  by (induction m) auto

lemma set_hm_remove_subset: "set (hm_remove k m) \<subseteq> set m"
  by (auto simp: AList.delete_eq)

lemma hm_insert_absent: "k \<notin> fst ` set m \<Longrightarrow> hm_insert k v m = m @ [(k, v)]"
  by (induction m) auto

lemma set_enumerate0: "set (enumerate 0 xs) = (\<lambda>i. (i, xs ! i)) ` {..<length xs}"
proof (rule set_eqI)
  fix p
  show "p \<in> set (enumerate 0 xs) \<longleftrightarrow> p \<in> (\<lambda>i. (i, xs ! i)) ` {..<length xs}"
    by (cases p) (auto simp: in_set_enumerate_eq)
qed

lemma list_all_update: "list_all P xs \<Longrightarrow> P x \<Longrightarrow> list_all P (xs[i := x])"
  using set_update_subset_insert [of xs i x] by (auto simp: list_all_iff)

lemma list_all_hm_insert [intro]:
  "list_all P m \<Longrightarrow> P (k, v) \<Longrightarrow> list_all P (hm_insert k v m)"
  by (induction m) auto

lemma list_all_hm_remove [intro]: "list_all P m \<Longrightarrow> list_all P (hm_remove k m)"
  by (induction m) auto

lemma list_all_hm_retain [intro]: "list_all P m \<Longrightarrow> list_all P (hm_retain Q m)"
  by (auto simp: list_all_iff hm_retain_def)

lemma hm_remove_insert [simp]: "hm_remove k (hm_insert k v m) = hm_remove k m"
  by (induction m) auto

lemma mk_key_eq [simp]: "mk_key ns h = mk_key ns' h' \<longleftrightarrow> ns = ns' \<and> h = h'"
  by (simp add: mk_key_def)

lemma hm_sum_Nil [simp]: "hm_sum w [] = 0"
  by (simp add: hm_sum_def)

lemma hm_sum_Cons [simp]: "hm_sum w ((k, v) # m) = w v + hm_sum w m"
  by (simp add: hm_sum_def)

lemma hm_sum_append [simp]: "hm_sum w (m @ m') = hm_sum w m + hm_sum w m'"
  by (simp add: hm_sum_def)

lemma hm_sum_insert:
  "hm_wf m \<Longrightarrow> hm_sum w (hm_insert k v m) =
     hm_sum w m + w v - (case hm_get m k of None \<Rightarrow> 0 | Some u \<Rightarrow> w u)"
proof (induction m)
  case (Cons kv m)
  obtain k' u where [simp]: "kv = (k', u)" by force
  show ?case
    using Cons by (cases "k' = k") (auto split: option.splits simp: map_of_eq_None_iff)
qed simp

lemma hm_sum_remove:
  "hm_wf m \<Longrightarrow> hm_sum w (hm_remove k m) =
     hm_sum w m - (case hm_get m k of None \<Rightarrow> 0 | Some u \<Rightarrow> w u)"
proof (induction m)
  case (Cons kv m)
  obtain k' u where [simp]: "kv = (k', u)" by force
  have "map_of m k = None" if "k \<notin> fst ` set m"
    using that by (simp add: map_of_eq_None_iff)
  with Cons show ?case by (cases "k' = k") auto
qed simp

lemma hm_sum_retain:
  "hm_sum w m = hm_sum w (hm_retain P m) + hm_sum w (hm_retain (\<lambda>k v. \<not> P k v) m)"
  unfolding hm_retain_def by (induction m) auto

section \<open>Lemmas on iterators\<close>

lemma map_while_length: "length (map_while f xs) \<le> length xs"
  by (induction xs) (auto split: option.splits)

lemma map_while_hits:
  "map f (take (length (map_while f xs)) xs) = map Some (map_while f xs)"
  by (induction xs) (auto split: option.splits)

lemma map_while_stop:
  "length (map_while f xs) < length xs \<Longrightarrow> f (xs ! length (map_while f xs)) = None"
  by (induction xs) (auto split: option.splits)

lemma map_while_all:
  "(\<And>x. x \<in> set xs \<Longrightarrow> f x \<noteq> None) \<Longrightarrow> map Some (map_while f xs) = map f xs"
  by (induction xs) (auto split: option.splits)

lemma map_while_nth:
  assumes "i < length (map_while f xs)"
  shows "f (xs ! i) = Some (map_while f xs ! i)"
proof -
  have i: "i < length xs" using assms map_while_length [of f xs] by simp
  have "map f (take (length (map_while f xs)) xs) ! i = map Some (map_while f xs) ! i"
    by (simp add: map_while_hits)
  with assms i show ?thesis by simp
qed

text \<open>The scan returns the longest prefix on which every look-up succeeds, and only that.\<close>

lemma map_while_unique:
  assumes "map f (take n xs) = map Some ys" and "n \<le> length xs"
    and "n < length xs \<Longrightarrow> f (xs ! n) = None"
  shows "map_while f xs = ys"
  using assms
proof (induction xs arbitrary: n ys)
  case Nil
  then show ?case by simp
next
  case (Cons x xs)
  show ?case
  proof (cases n)
    case 0
    with Cons.prems show ?thesis by simp
  next
    case (Suc m)
    with Cons.prems(1) obtain y ys' where ys: "ys = y # ys'" and fx: "f x = Some y"
      and rest: "map f (take m xs) = map Some ys'"
      by (cases ys) auto
    have "map_while f xs = ys'"
      using rest Cons.prems(2,3) Suc by (intro Cons.IH [of m]) auto
    with fx ys show ?thesis by simp
  qed
qed

section \<open>The interface of expiring tables\<close>

locale expiring =
  fixes alive :: "instant \<Rightarrow> 'v \<Rightarrow> bool"
  assumes alive_antimono: "t \<le> t' \<Longrightarrow> alive t' v \<Longrightarrow> alive t v"
begin

lemma wf_sweep: "hm_wf m \<Longrightarrow> hm_wf (sweep alive now m)"
  by (simp add: sweep_def)

lemma get_sweep:
  "hm_wf m \<Longrightarrow> hm_get (sweep alive now m) k = Some v \<longleftrightarrow> hm_get m k = Some v \<and> alive now v"
  by (auto simp: sweep_def hm_simps split: option.splits)

lemma get_sweep_None:
  "hm_wf m \<Longrightarrow> hm_get (sweep alive now m) k = None \<longleftrightarrow>
     (\<forall>v. hm_get m k = Some v \<longrightarrow> \<not> alive now v)"
  by (auto simp: sweep_def hm_simps split: option.splits)

lemma get_sweep_eq:
  "hm_wf m \<Longrightarrow> hm_get (sweep alive now m) k =
     (case hm_get m k of None \<Rightarrow> None | Some v \<Rightarrow> if alive now v then Some v else None)"
  by (auto simp: sweep_def hm_simps split: option.splits)

lemma sweep_sweep:
  assumes "t \<le> t'"
  shows "sweep alive t' (sweep alive t m) = sweep alive t' m"
proof -
  have "alive t v \<and> alive t' v \<longleftrightarrow> alive t' v" for v
    using alive_antimono [OF assms] by blast
  then show ?thesis by (simp add: sweep_def hm_retain_retain)
qed

lemma sweep_live: "(\<And>k v. (k, v) \<in> set m \<Longrightarrow> alive now v) \<Longrightarrow> sweep alive now m = m"
  unfolding sweep_def by (rule hm_retain_all)

lemma sweep_removed:
  "length m - length (sweep alive now m) = length (filter (\<lambda>(k, v). \<not> alive now v) m)"
  by (simp add: sweep_def length_hm_retain)

lemma sweep_all_alive: "(k, v) \<in> set (sweep alive now m) \<Longrightarrow> alive now v"
  by (auto simp: sweep_def hm_retain_def)

end

end
