(* ===== verification/Layout.thy ===== *)
theory Layout
  imports Pega_Prelude
begin

text \<open>
  The KV cache layout of one layer, \<^verbatim>\<open>pegaflow-core/src/layout.rs\<close>: construction with all its
  checks, strides for fused buffers, padding for the SSD, and the device ranges of a block.
  Unchecked arithmetic wraps as in a release build; the properties show that it never does.
\<close>

section \<open>Layouts\<close>

datatype segment_layout = Contiguous | Split usize

record block_copy =
  bc_addr :: u64
  bc_bytes :: usize

datatype block_copies = CopyContiguous block_copy | CopySplit block_copy block_copy

record kv_cache_layout =
  l_data_ptr :: u64
  l_size_bytes :: usize
  l_num_blocks :: usize
  l_block_stride_bytes :: usize
  l_segment_bytes :: usize
  l_segments :: usize
  l_padded_segment_bytes :: usize
  l_seg :: segment_layout

datatype layout_error =
    NullDataPtr
  | ZeroSize
  | ZeroShape
  | AddressOverflow
  | BlockSizeOverflow
  | ZeroKvStride
  | SegmentsOverlap usize usize
  | TooManySplitSegments usize usize usize
  | StrideTooSmall usize usize
  | MemoryLayoutOverflow
  | KvOverlapsBlocks usize usize
  | RegionTooSmall usize usize
  | BlockOutOfRange usize usize

definition block_bytes :: "kv_cache_layout \<Rightarrow> usize" where
  "block_bytes l = wrapping_mul (l_segment_bytes l) (l_segments l)"

fun check_distances :: "usize list \<Rightarrow> usize \<Rightarrow> kv_cache_layout \<Rightarrow> layout_error + unit" where
  "check_distances [] kv_stride l = Inr ()"
| "check_distances (distance # ds) kv_stride l =
     (if distance = 0 \<or> l_num_blocks l - 1 < distance then check_distances ds kv_stride l
      else case checked_mul distance (l_block_stride_bytes l) of
          None \<Rightarrow> Inl MemoryLayoutOverflow
        | Some block_distance_bytes \<Rightarrow>
            if abs_diff kv_stride block_distance_bytes < l_segment_bytes l
            then Inl (KvOverlapsBlocks kv_stride distance)
            else check_distances ds kv_stride l)"

definition check_split_segments_disjoint :: "usize \<Rightarrow> kv_cache_layout \<Rightarrow> layout_error + unit" where
  "check_split_segments_disjoint kv_stride l =
     (let nearest = kv_stride div l_block_stride_bytes l
      in check_distances [nearest, saturating_add nearest 1] kv_stride l)"

text \<open>The end of the addressed bytes, or why there is none.\<close>

definition layout_end :: "kv_cache_layout \<Rightarrow> layout_error + usize" where
  "layout_end l =
     (case l_seg l of
        Contiguous \<Rightarrow>
          if l_block_stride_bytes l < block_bytes l
          then Inl (StrideTooSmall (l_block_stride_bytes l) (block_bytes l))
          else (case Option.bind (checked_mul (l_num_blocks l - 1) (l_block_stride_bytes l))
                       (\<lambda>o'. checked_add o' (block_bytes l)) of
                  None \<Rightarrow> Inl MemoryLayoutOverflow
                | Some e \<Rightarrow> Inr e)
      | Split kv_stride \<Rightarrow>
          if l_block_stride_bytes l < l_segment_bytes l
          then Inl (StrideTooSmall (l_block_stride_bytes l) (l_segment_bytes l))
          else (case check_split_segments_disjoint kv_stride l of
                  Inl err \<Rightarrow> Inl err
                | Inr _ \<Rightarrow>
                    (case Option.bind (checked_mul (l_num_blocks l - 1) (l_block_stride_bytes l))
                            (\<lambda>o'. checked_add o' (l_segment_bytes l)) of
                       None \<Rightarrow> Inl MemoryLayoutOverflow
                     | Some last_segment_end \<Rightarrow>
                         (case checked_add kv_stride last_segment_end of
                            None \<Rightarrow> Inl MemoryLayoutOverflow
                          | Some e \<Rightarrow> Inr e))))"

definition check_bounds :: "kv_cache_layout \<Rightarrow> layout_error + unit" where
  "check_bounds l =
     (case layout_end l of
        Inl err \<Rightarrow> Inl err
      | Inr e \<Rightarrow> if l_size_bytes l < e then Inl (RegionTooSmall e (l_size_bytes l)) else Inr ())"

definition choose_segment_layout :: "usize \<Rightarrow> usize \<Rightarrow> usize \<Rightarrow> layout_error + segment_layout" where
  "choose_segment_layout segment_bytes kv_stride segs =
     (if segs = 1 then Inr Contiguous
      else if kv_stride = 0 then Inl ZeroKvStride
      else if kv_stride < segment_bytes then Inl (SegmentsOverlap kv_stride segment_bytes)
      else if kv_stride = segment_bytes then Inr Contiguous
      else if segs = 2 then Inr (Split kv_stride)
      else Inl (TooManySplitSegments kv_stride segment_bytes segs))"

definition layout_new ::
    "u64 \<Rightarrow> usize \<Rightarrow> usize \<Rightarrow> usize \<Rightarrow> usize \<Rightarrow> usize \<Rightarrow> layout_error + kv_cache_layout" where
  "layout_new data_ptr size_bytes num_blocks segment_bytes kv_stride segs =
     (if data_ptr = 0 then Inl NullDataPtr
      else if size_bytes = 0 then Inl ZeroSize
      else if segment_bytes = 0 \<or> num_blocks = 0 \<or> segs = 0 then Inl ZeroShape
      else if checked_add data_ptr size_bytes = None then Inl AddressOverflow
      else case checked_mul segment_bytes segs of
          None \<Rightarrow> Inl BlockSizeOverflow
        | Some bytes \<Rightarrow>
            (case choose_segment_layout segment_bytes kv_stride segs of
               Inl err \<Rightarrow> Inl err
             | Inr sl \<Rightarrow>
                 let l = \<lparr>l_data_ptr = data_ptr, l_size_bytes = size_bytes, l_num_blocks = num_blocks,
                          l_block_stride_bytes = (case sl of Contiguous \<Rightarrow> bytes | Split _ \<Rightarrow> segment_bytes),
                          l_segment_bytes = segment_bytes, l_segments = segs,
                          l_padded_segment_bytes = segment_bytes, l_seg = sl\<rparr>
                 in (case check_bounds l of Inl err \<Rightarrow> Inl err | Inr _ \<Rightarrow> Inr l)))"

definition min_stride :: "kv_cache_layout \<Rightarrow> usize" where
  "min_stride l = (case l_seg l of Contiguous \<Rightarrow> block_bytes l | Split _ \<Rightarrow> l_segment_bytes l)"

definition with_block_stride :: "usize \<Rightarrow> kv_cache_layout \<Rightarrow> layout_error + kv_cache_layout" where
  "with_block_stride stride l =
     (if stride < min_stride l then Inl (StrideTooSmall stride (min_stride l))
      else
        let l' = l\<lparr>l_block_stride_bytes := stride\<rparr>
        in (case check_bounds l' of Inl err \<Rightarrow> Inl err | Inr _ \<Rightarrow> Inr l'))"

text \<open>\<open>next_multiple_of\<close>; \<open>None\<close> is the panic on a zero alignment.\<close>

definition next_multiple_of :: "usize \<Rightarrow> usize \<Rightarrow> usize option" where
  "next_multiple_of n alignment =
     (if alignment = 0 then None
      else Some (if n mod alignment = 0 then n else wrapping_add n (alignment - n mod alignment)))"

definition with_ssd_padding :: "usize \<Rightarrow> kv_cache_layout \<Rightarrow> kv_cache_layout option" where
  "with_ssd_padding alignment l =
     map_option (\<lambda>p. l\<lparr>l_padded_segment_bytes := p\<rparr>) (next_multiple_of (l_segment_bytes l) alignment)"

definition block_copies_of :: "kv_cache_layout \<Rightarrow> usize \<Rightarrow> layout_error + block_copies" where
  "block_copies_of l block_idx =
     (if l_num_blocks l \<le> block_idx then Inl (BlockOutOfRange block_idx (l_num_blocks l))
      else
        let base = wrapping_add (l_data_ptr l) (wrapping_mul block_idx (l_block_stride_bytes l))
        in Inr (case l_seg l of
             Contiguous \<Rightarrow> CopyContiguous \<lparr>bc_addr = base, bc_bytes = block_bytes l\<rparr>
           | Split kv_stride \<Rightarrow>
               CopySplit \<lparr>bc_addr = base, bc_bytes = l_segment_bytes l\<rparr>
                 \<lparr>bc_addr = wrapping_add base kv_stride, bc_bytes = l_segment_bytes l\<rparr>))"

definition is_split :: "kv_cache_layout \<Rightarrow> bool" where
  "is_split l = (case l_seg l of Contiguous \<Rightarrow> False | Split _ \<Rightarrow> True)"

definition padded_block_bytes :: "kv_cache_layout \<Rightarrow> usize" where
  "padded_block_bytes l = wrapping_mul (l_padded_segment_bytes l) (l_segments l)"

section \<open>Well-formed layouts\<close>

text \<open>What construction establishes.\<close>

definition layout_wf :: "kv_cache_layout \<Rightarrow> bool" where
  "layout_wf l \<longleftrightarrow>
     0 < l_num_blocks l \<and> 0 < l_segment_bytes l \<and> 0 < l_segments l \<and>
     l_data_ptr l + l_size_bytes l \<le> u64_max \<and> l_segment_bytes l * l_segments l \<le> u64_max \<and>
     (case l_seg l of Contiguous \<Rightarrow> True | Split kv \<Rightarrow> l_segment_bytes l < kv \<and> l_segments l = 2) \<and>
     check_bounds l = Inr ()"

lemma layout_new_wf: "layout_new p n b s kv g = Inr l \<Longrightarrow> layout_wf l"
  by (auto simp: layout_new_def layout_wf_def choose_segment_layout_def Let_def
      split: if_splits option.splits sum.splits)

lemma with_block_stride_wf: "with_block_stride stride l = Inr l' \<Longrightarrow> layout_wf l \<Longrightarrow> layout_wf l'"
  by (auto simp: with_block_stride_def layout_wf_def Let_def split: if_splits sum.splits segment_layout.splits)

lemma check_distances_padding [simp]:
  "check_distances ds kv (l\<lparr>l_padded_segment_bytes := p\<rparr>) = check_distances ds kv l"
  by (induction ds) (simp_all split: option.split)

lemma block_bytes_padding [simp]: "block_bytes (l\<lparr>l_padded_segment_bytes := p\<rparr>) = block_bytes l"
  by (simp add: block_bytes_def)

lemma check_split_padding [simp]:
  "check_split_segments_disjoint kv (l\<lparr>l_padded_segment_bytes := p\<rparr>) = check_split_segments_disjoint kv l"
  unfolding check_split_segments_disjoint_def check_distances_padding by simp

lemma layout_end_padding [simp]: "layout_end (l\<lparr>l_padded_segment_bytes := p\<rparr>) = layout_end l"
  by (simp add: layout_end_def split: segment_layout.split option.split sum.split)

lemma check_bounds_padding [simp]: "check_bounds (l\<lparr>l_padded_segment_bytes := p\<rparr>) = check_bounds l"
  by (simp add: check_bounds_def split: sum.split)

lemma with_ssd_padding_wf: "with_ssd_padding a l = Some l' \<Longrightarrow> layout_wf l \<Longrightarrow> layout_wf l'"
  by (auto simp: with_ssd_padding_def layout_wf_def split: segment_layout.splits)

text \<open>Every layout the code can build.\<close>

inductive layout_built :: "kv_cache_layout \<Rightarrow> bool" where
  new: "layout_new data_ptr size_bytes num_blocks segment_bytes kv_stride segs = Inr l \<Longrightarrow> layout_built l"
| stride: "layout_built l \<Longrightarrow> with_block_stride s l = Inr l' \<Longrightarrow> layout_built l'"
| padding: "layout_built l \<Longrightarrow> with_ssd_padding alignment l = Some l' \<Longrightarrow> layout_built l'"

lemma layout_built_wf: "layout_built l \<Longrightarrow> layout_wf l"
  by (induction rule: layout_built.induct) (auto intro: layout_new_wf with_block_stride_wf with_ssd_padding_wf)

section \<open>Ranges\<close>

fun copy_list :: "block_copies \<Rightarrow> block_copy list" where
  "copy_list (CopyContiguous c) = [c]"
| "copy_list (CopySplit k v) = [k, v]"

definition copies_apart :: "block_copy \<Rightarrow> block_copy \<Rightarrow> bool" where
  "copies_apart c d \<longleftrightarrow> bc_addr c + bc_bytes c \<le> bc_addr d \<or> bc_addr d + bc_bytes d \<le> bc_addr c"

lemma layout_wf_contiguous:
  assumes "layout_wf l" "l_seg l = Contiguous"
  shows "block_bytes l = l_segment_bytes l * l_segments l" "block_bytes l \<le> l_block_stride_bytes l"
    "(l_num_blocks l - 1) * l_block_stride_bytes l + block_bytes l \<le> l_size_bytes l"
  using assms
  by (auto simp: layout_wf_def block_bytes_def check_bounds_def layout_end_def bind_eq_Some_conv
      split: if_splits sum.splits option.splits)

lemma check_distances_Inr:
  "check_distances ds kv l = Inr u \<longleftrightarrow>
     (\<forall>d \<in> set ds. 0 < d \<longrightarrow> d \<le> l_num_blocks l - 1 \<longrightarrow>
        d * l_block_stride_bytes l \<le> u64_max \<and>
        l_segment_bytes l \<le> abs_diff kv (d * l_block_stride_bytes l))"
  by (induction ds) (auto simp: checked_mul_def not_less split: option.splits if_splits)

lemma layout_wf_split:
  assumes wf: "layout_wf l" and sp: "l_seg l = Split kv"
  shows "l_segment_bytes l \<le> l_block_stride_bytes l" "l_segment_bytes l < kv"
    "kv + ((l_num_blocks l - 1) * l_block_stride_bytes l + l_segment_bytes l) \<le> l_size_bytes l"
    "\<And>d. d \<in> {kv div l_block_stride_bytes l, saturating_add (kv div l_block_stride_bytes l) 1} \<Longrightarrow>
       0 < d \<Longrightarrow> d \<le> l_num_blocks l - 1 \<Longrightarrow> l_segment_bytes l \<le> abs_diff kv (d * l_block_stride_bytes l)"
proof -
  from wf sp obtain e where e: "layout_end l = Inr e" "e \<le> l_size_bytes l"
    by (auto simp: layout_wf_def check_bounds_def split: sum.splits if_splits)
  show "l_segment_bytes l < kv" using wf sp by (simp add: layout_wf_def)
  show "l_segment_bytes l \<le> l_block_stride_bytes l"
    "kv + ((l_num_blocks l - 1) * l_block_stride_bytes l + l_segment_bytes l) \<le> l_size_bytes l"
    using e sp by (auto simp: layout_end_def bind_eq_Some_conv split: if_splits sum.splits option.splits)
  have "check_split_segments_disjoint kv l = Inr ()"
    using e(1) sp by (auto simp: layout_end_def split: if_splits sum.splits)
  then show "\<And>d. d \<in> {kv div l_block_stride_bytes l, saturating_add (kv div l_block_stride_bytes l) 1} \<Longrightarrow>
       0 < d \<Longrightarrow> d \<le> l_num_blocks l - 1 \<Longrightarrow> l_segment_bytes l \<le> abs_diff kv (d * l_block_stride_bytes l)"
    unfolding check_split_segments_disjoint_def check_distances_Inr Let_def by auto
qed

text \<open>Checking the two distances next to the quotient is enough for all distances.\<close>

lemma nearest_distances:
  fixes kv s b n d :: nat
  assumes s: "0 < s" "b \<le> s" and kv: "kv < u64_max"
    and near: "\<And>d. d \<in> {kv div s, saturating_add (kv div s) 1} \<Longrightarrow> 0 < d \<Longrightarrow> d \<le> n \<Longrightarrow> b \<le> abs_diff kv (d * s)"
    and d: "0 < d" "d \<le> n"
  shows "d * s + b \<le> kv \<or> kv + b \<le> d * s"
proof -
  define q where "q = kv div s"
  have q: "q * s \<le> kv" "kv < (q + 1) * s"
    using s(1) dividend_less_div_times [OF s(1), of kv] by (simp_all add: q_def)
  have "q \<le> kv" by (simp add: q_def)
  then have sat: "saturating_add q 1 = q + 1" using kv by (simp add: saturating_add_def)
  show ?thesis
  proof (cases "d \<le> q")
    case True
    show ?thesis
    proof (cases "q \<le> n")
      case True
      then have "b \<le> abs_diff kv (q * s)" using near [of q] \<open>d \<le> q\<close> d(1) by (simp add: q_def [symmetric])
      then have "q * s + b \<le> kv" using q by (auto simp: abs_diff_def split: if_splits)
      moreover have "d * s \<le> q * s" using \<open>d \<le> q\<close> by simp
      ultimately show ?thesis by linarith
    next
      case False
      then have "d + 1 \<le> q" using d(2) by simp
      then have "(d + 1) * s \<le> q * s" by (rule mult_le_mono1)
      then show ?thesis using q(1) s(2) by simp
    qed
  next
    case False
    have "b \<le> abs_diff kv ((q + 1) * s)"
      using False d(2) by (intro near) (simp_all only: q_def [symmetric] sat insert_iff, simp_all)
    then have "kv + b \<le> (q + 1) * s" using q by (auto simp: abs_diff_def split: if_splits)
    moreover have "(q + 1) * s \<le> d * s" using False by (intro mult_le_mono1) simp
    ultimately show ?thesis by linarith
  qed
qed

lemma stride_apart:
  fixes i j s b :: nat
  assumes "i < j" "b \<le> s"
  shows "i * s + b \<le> j * s"
proof -
  have "(i + 1) * s \<le> j * s" using assms(1) by (intro mult_le_mono1) simp
  with assms(2) show ?thesis by simp
qed

lemma block_copies_contiguous:
  assumes wf: "layout_wf l" and sg: "l_seg l = Contiguous" and i: "i < l_num_blocks l"
  shows "block_copies_of l i = Inr (CopyContiguous
      \<lparr>bc_addr = l_data_ptr l + i * l_block_stride_bytes l, bc_bytes = block_bytes l\<rparr>)"
    "i * l_block_stride_bytes l + block_bytes l \<le> l_size_bytes l"
proof -
  have "i * l_block_stride_bytes l \<le> (l_num_blocks l - 1) * l_block_stride_bytes l"
    using i by (intro mult_le_mono1) simp
  then show fits: "i * l_block_stride_bytes l + block_bytes l \<le> l_size_bytes l"
    using layout_wf_contiguous(3) [OF wf sg] by linarith
  have top: "l_data_ptr l + l_size_bytes l \<le> u64_max" using wf by (simp add: layout_wf_def)
  have "wrapping_mul i (l_block_stride_bytes l) = i * l_block_stride_bytes l"
    using fits top by (intro wrapping_mul_exact) linarith
  moreover have "wrapping_add (l_data_ptr l) (i * l_block_stride_bytes l) =
      l_data_ptr l + i * l_block_stride_bytes l"
    using fits top by (intro wrapping_add_exact) linarith
  ultimately show "block_copies_of l i = Inr (CopyContiguous
      \<lparr>bc_addr = l_data_ptr l + i * l_block_stride_bytes l, bc_bytes = block_bytes l\<rparr>)"
    using i sg by (simp add: block_copies_of_def Let_def)
qed

lemma block_copies_split:
  assumes wf: "layout_wf l" and sg: "l_seg l = Split kv" and i: "i < l_num_blocks l"
  shows "block_copies_of l i = Inr (CopySplit
      \<lparr>bc_addr = l_data_ptr l + i * l_block_stride_bytes l, bc_bytes = l_segment_bytes l\<rparr>
      \<lparr>bc_addr = l_data_ptr l + i * l_block_stride_bytes l + kv, bc_bytes = l_segment_bytes l\<rparr>)"
    "kv + i * l_block_stride_bytes l + l_segment_bytes l \<le> l_size_bytes l"
proof -
  have "i * l_block_stride_bytes l \<le> (l_num_blocks l - 1) * l_block_stride_bytes l"
    using i by (intro mult_le_mono1) simp
  then show fits: "kv + i * l_block_stride_bytes l + l_segment_bytes l \<le> l_size_bytes l"
    using layout_wf_split(3) [OF wf sg] by linarith
  have top: "l_data_ptr l + l_size_bytes l \<le> u64_max" using wf by (simp add: layout_wf_def)
  have "wrapping_mul i (l_block_stride_bytes l) = i * l_block_stride_bytes l"
    using fits top by (intro wrapping_mul_exact) linarith
  moreover have "wrapping_add (l_data_ptr l) (i * l_block_stride_bytes l) =
      l_data_ptr l + i * l_block_stride_bytes l"
    using fits top by (intro wrapping_add_exact) linarith
  moreover have "wrapping_add (l_data_ptr l + i * l_block_stride_bytes l) kv =
      l_data_ptr l + i * l_block_stride_bytes l + kv"
    using fits top by (intro wrapping_add_exact) linarith
  ultimately show "block_copies_of l i = Inr (CopySplit
      \<lparr>bc_addr = l_data_ptr l + i * l_block_stride_bytes l, bc_bytes = l_segment_bytes l\<rparr>
      \<lparr>bc_addr = l_data_ptr l + i * l_block_stride_bytes l + kv, bc_bytes = l_segment_bytes l\<rparr>)"
    using i sg by (simp add: block_copies_of_def Let_def)
qed

definition copies_of :: "kv_cache_layout \<Rightarrow> usize \<Rightarrow> block_copy list" where
  "copies_of l i = (case block_copies_of l i of Inl _ \<Rightarrow> [] | Inr cs \<Rightarrow> copy_list cs)"

text \<open>Two different segments of a split layout, by the offsets they start at.\<close>

lemma split_offsets_apart:
  assumes wf: "layout_wf l" and sg: "l_seg l = Split kv" and ij: "i < l_num_blocks l" "j < l_num_blocks l"
  shows "i \<noteq> j \<Longrightarrow> i * l_block_stride_bytes l + l_segment_bytes l \<le> j * l_block_stride_bytes l \<or>
      j * l_block_stride_bytes l + l_segment_bytes l \<le> i * l_block_stride_bytes l"
    "i * l_block_stride_bytes l + l_segment_bytes l \<le> j * l_block_stride_bytes l + kv \<or>
      j * l_block_stride_bytes l + kv + l_segment_bytes l \<le> i * l_block_stride_bytes l"
proof -
  let ?s = "l_block_stride_bytes l" and ?b = "l_segment_bytes l"
  note sp = layout_wf_split [OF wf sg]
  show "i \<noteq> j \<Longrightarrow> i * ?s + ?b \<le> j * ?s \<or> j * ?s + ?b \<le> i * ?s"
    using stride_apart [OF _ sp(1)] by (metis linorder_neqE_nat)
  show "i * ?s + ?b \<le> j * ?s + kv \<or> j * ?s + kv + ?b \<le> i * ?s"
  proof (cases "i \<le> j")
    case True
    then have "i * ?s \<le> j * ?s" by (rule mult_le_mono1)
    then show ?thesis using sp(2) by linarith
  next
    case False
    define d where "d = i - j"
    have d: "0 < d" "d \<le> l_num_blocks l - 1" and i: "i = j + d" using False ij by (simp_all add: d_def)
    have pos: "0 < ?s" using sp(1) wf by (simp add: layout_wf_def)
    have "kv < u64_max" using sp(3) wf by (simp add: layout_wf_def)
    from nearest_distances [OF pos sp(1) this sp(4) d] have "d * ?s + ?b \<le> kv \<or> kv + ?b \<le> d * ?s" .
    then show ?thesis by (auto simp: i add_mult_distrib)
  qed
qed

text \<open>
  C29. Layouts are memory-safe: for every layout the code can build, with any block stride and any
  padding, the device ranges of a valid block index lie inside the registered region (so no address
  computation wraps), no two ranges of different blocks or different segments overlap, and
  an index past the last block is refused.
\<close>

theorem layout_memory_safe:
  assumes "layout_built l"
  shows "(\<forall>i < l_num_blocks l. \<exists>cs. block_copies_of l i = Inr cs \<and>
       (\<forall>c \<in> set (copy_list cs). l_data_ptr l \<le> bc_addr c \<and>
          bc_addr c + bc_bytes c \<le> l_data_ptr l + l_size_bytes l)) \<and>
    (\<forall>i j a b. i < l_num_blocks l \<longrightarrow> j < l_num_blocks l \<longrightarrow>
       a < length (copies_of l i) \<longrightarrow> b < length (copies_of l j) \<longrightarrow> (i, a) \<noteq> (j, b) \<longrightarrow>
       copies_apart (copies_of l i ! a) (copies_of l j ! b)) \<and>
    (\<forall>i \<ge> l_num_blocks l. block_copies_of l i = Inl (BlockOutOfRange i (l_num_blocks l)))"
proof -
  note wf = layout_built_wf [OF assms]
  have out: "\<forall>i \<ge> l_num_blocks l. block_copies_of l i = Inl (BlockOutOfRange i (l_num_blocks l))"
    by (simp add: block_copies_of_def)
  show ?thesis
  proof (cases "l_seg l")
    case Contiguous
    note c = block_copies_contiguous [OF wf Contiguous]
    have "copies_apart (copies_of l i ! a) (copies_of l j ! b)"
      if "i < l_num_blocks l" "j < l_num_blocks l" "a < length (copies_of l i)" "b < length (copies_of l j)"
        "(i, a) \<noteq> (j, b)" for i j a b
    proof -
      have "i \<noteq> j" using that by (auto simp: copies_of_def c(1))
      with stride_apart [OF _ layout_wf_contiguous(2) [OF wf Contiguous]]
      have "i * l_block_stride_bytes l + block_bytes l \<le> j * l_block_stride_bytes l \<or>
          j * l_block_stride_bytes l + block_bytes l \<le> i * l_block_stride_bytes l"
        by (metis linorder_neqE_nat)
      with that show ?thesis by (auto simp: copies_of_def c(1) copies_apart_def)
    qed
    with c out show ?thesis by simp
  next
    case (Split kv)
    note c = block_copies_split [OF wf Split]
    have "copies_apart (copies_of l i ! a) (copies_of l j ! b)"
      if "i < l_num_blocks l" "j < l_num_blocks l" "a < length (copies_of l i)" "b < length (copies_of l j)"
        "(i, a) \<noteq> (j, b)" for i j a b
    proof -
      have "a = 0 \<or> a = 1" "b = 0 \<or> b = 1" using that by (auto simp: copies_of_def c(1))
      then show ?thesis
        using that split_offsets_apart [OF wf Split that(1,2)] split_offsets_apart [OF wf Split that(2,1)]
        by (elim disjE) (auto simp: copies_of_def c(1) copies_apart_def)
    qed
    moreover have "\<exists>cs. block_copies_of l i = Inr cs \<and>
       (\<forall>c \<in> set (copy_list cs). l_data_ptr l \<le> bc_addr c \<and>
          bc_addr c + bc_bytes c \<le> l_data_ptr l + l_size_bytes l)" if "i < l_num_blocks l" for i
      using c [OF that] by auto
    ultimately show ?thesis using out by blast
  qed
qed

lemma layout_memory_safe_witness:
  "\<exists>l. layout_built l \<and> (\<exists>cs. block_copies_of l 3 = Inr cs) \<and>
    block_copies_of l 4 = Inl (BlockOutOfRange 4 4)"
proof -
  define l where "l = \<lparr>l_data_ptr = 4096, l_size_bytes = 1024, l_num_blocks = 4, l_block_stride_bytes = 128,
      l_segment_bytes = 128, l_segments = 2, l_padded_segment_bytes = 128, l_seg = Split 512\<rparr>"
  have "layout_new 4096 1024 4 128 512 2 = Inr l"
    by (simp add: layout_new_def choose_segment_layout_def check_bounds_def layout_end_def
        check_split_segments_disjoint_def checked_add_def checked_mul_def u64_max_def saturating_add_def l_def Let_def)
  then have built: "layout_built l" by (rule layout_built.new)
  note safe = layout_memory_safe [OF built]
  have n: "l_num_blocks l = 4" by (simp add: l_def)
  from conjunct1 [OF safe, rule_format, of 3] n have "\<exists>cs. block_copies_of l 3 = Inr cs" by auto
  moreover from conjunct2 [OF conjunct2 [OF safe], rule_format, of 4] n
  have "block_copies_of l 4 = Inl (BlockOutOfRange 4 4)" by simp
  ultimately show ?thesis using built by blast
qed

section \<open>Padding\<close>

text \<open>
  Padding for the SSD: with a positive alignment and no overflow, the host-side segment size is the least
  multiple of the alignment that holds a segment, so every segment of a block written as one
  vector starts and ends aligned; the device side is not touched.
\<close>

theorem ssd_padding_aligned:
  assumes "0 < alignment" "l_segment_bytes l + alignment \<le> u64_max"
  shows "\<exists>l'. with_ssd_padding alignment l = Some l' \<and>
    alignment dvd l_padded_segment_bytes l' \<and> l_segment_bytes l \<le> l_padded_segment_bytes l' \<and>
    l_padded_segment_bytes l' < l_segment_bytes l + alignment \<and>
    (l_padded_segment_bytes l' * l_segments l \<le> u64_max \<longrightarrow> alignment dvd padded_block_bytes l') \<and>
    block_copies_of l' = block_copies_of l"
proof -
  let ?n = "l_segment_bytes l"
  define p where "p = (if ?n mod alignment = 0 then ?n else ?n + (alignment - ?n mod alignment))"
  have less: "?n mod alignment < alignment" using assms(1) by simp
  have split: "?n = ?n div alignment * alignment + ?n mod alignment" by simp
  have "alignment dvd p"
  proof (cases "?n mod alignment = 0")
    case True
    then show ?thesis by (simp add: p_def mod_0_imp_dvd)
  next
    case False
    then have "p = ?n + (alignment - ?n mod alignment)" by (simp add: p_def)
    also have "\<dots> = ?n div alignment * alignment + alignment" using split less by linarith
    finally show ?thesis by simp
  qed
  moreover have "?n \<le> p" unfolding p_def by (simp only: le_add1 order.refl split: if_split) simp
  moreover have "p < ?n + alignment" using less assms(1) unfolding p_def by (simp only: split: if_split) linarith
  ultimately have p: "alignment dvd p" "?n \<le> p" "p < ?n + alignment" .
  have nm: "next_multiple_of ?n alignment = Some p"
    using assms less by (auto simp: next_multiple_of_def p_def)
  let ?l = "l\<lparr>l_padded_segment_bytes := p\<rparr>"
  have "with_ssd_padding alignment l = Some ?l" by (simp add: with_ssd_padding_def nm)
  moreover have "block_copies_of ?l = block_copies_of l"
    by (rule ext) (simp add: block_copies_of_def Let_def split: segment_layout.split)
  ultimately show ?thesis using p by (intro exI [of _ ?l]) (simp add: padded_block_bytes_def)
qed

lemma ssd_padding_aligned_witness:
  "\<exists>l'. with_ssd_padding 512 \<lparr>l_data_ptr = 4096, l_size_bytes = 1024, l_num_blocks = 4,
      l_block_stride_bytes = 128, l_segment_bytes = 128, l_segments = 2, l_padded_segment_bytes = 128,
      l_seg = Split 512\<rparr> = Some l' \<and> 512 dvd l_padded_segment_bytes l'"
  using ssd_padding_aligned [of 512 "\<lparr>l_data_ptr = 4096, l_size_bytes = 1024, l_num_blocks = 4,
      l_block_stride_bytes = 128, l_segment_bytes = 128, l_segments = 2, l_padded_segment_bytes = 128,
      l_seg = Split 512\<rparr>"]
  by (auto simp: u64_max_def)

end
