(* ===== verification/Blocks.thy ===== *)
theory Blocks
  imports Pega_Prelude
begin

text \<open>
  The block types of \<^verbatim>\<open>pegaflow-core/src/block.rs\<close>, the pinned pointers of
  \<^verbatim>\<open>pegaflow-core/src/pinned_pool.rs\<close> they are built from, and the slot metadata of
  \<^verbatim>\<open>pegaflow-core/src/seal_offload.rs\<close> from which a block is rebuilt. A panic (an
  \<open>assert!\<close>, an \<open>expect\<close>, an index out of range) is the value \<open>None\<close> of the operation that
  can panic. An \<open>Arc\<close> is the value it points to: sealed blocks are immutable.
\<close>

section \<open>Pinned pointers and segments\<close>

record mapped_ptr =
  host :: nat
  device :: nat

record pinned_allocation =
  pa_size :: u64
  pa_ptr :: nat
  pa_device_ptr :: nat

definition mapped_ptr_add :: "mapped_ptr \<Rightarrow> usize \<Rightarrow> mapped_ptr" where
  "mapped_ptr_add p offset = \<lparr>host = host p + offset, device = device p + offset\<rparr>"

definition mapped_ptr_of :: "pinned_allocation \<Rightarrow> mapped_ptr" where
  "mapped_ptr_of a = \<lparr>host = pa_ptr a, device = pa_device_ptr a\<rparr>"

definition mapped_ptr_at :: "pinned_allocation \<Rightarrow> usize \<Rightarrow> usize \<Rightarrow> mapped_ptr option" where
  "mapped_ptr_at a offset len =
     (case checked_add offset len of
        None \<Rightarrow> None
      | Some end' \<Rightarrow>
          if end' \<le> pa_size a then Some (mapped_ptr_add (mapped_ptr_of a) offset) else None)"

definition mapped_ptr_for_host_range ::
    "pinned_allocation \<Rightarrow> nat \<Rightarrow> usize \<Rightarrow> mapped_ptr option" where
  "mapped_ptr_for_host_range a host_ptr len =
     (case checked_sub host_ptr (pa_ptr a) of
        None \<Rightarrow> None
      | Some offset \<Rightarrow> mapped_ptr_at a offset len)"

record segment =
  seg_ptr :: mapped_ptr
  seg_size :: usize
  seg_alloc :: pinned_allocation

definition segment_new :: "nat \<Rightarrow> usize \<Rightarrow> pinned_allocation \<Rightarrow> segment option" where
  "segment_new ptr len a =
     (case mapped_ptr_for_host_range a ptr len of
        None \<Rightarrow> None
      | Some p \<Rightarrow> Some \<lparr>seg_ptr = p, seg_size = len, seg_alloc = a\<rparr>)"

section \<open>Raw blocks\<close>

datatype block_segments = One segment | Two segment segment | Many "segment list"

fun from_vec :: "segment list \<Rightarrow> block_segments" where
  "from_vec [s] = One s"
| "from_vec [s, t] = Two s t"
| "from_vec ss = Many ss"

fun as_slice :: "block_segments \<Rightarrow> segment list" where
  "as_slice (One s) = [s]"
| "as_slice (Two s t) = [s, t]"
| "as_slice (Many ss) = ss"

record raw_block =
  segments :: block_segments
  total_size :: usize

definition raw_new :: "segment list \<Rightarrow> raw_block" where
  "raw_new ss = \<lparr>segments = from_vec ss, total_size = wrapping_sum (map seg_size ss)\<rparr>"

definition single_segment :: "segment \<Rightarrow> raw_block" where
  "single_segment s = \<lparr>segments = One s, total_size = seg_size s\<rparr>"

definition two_segments :: "segment \<Rightarrow> segment \<Rightarrow> raw_block" where
  "two_segments k v = \<lparr>segments = Two k v, total_size = wrapping_add (seg_size k) (seg_size v)\<rparr>"

definition num_segments :: "raw_block \<Rightarrow> usize" where
  "num_segments b = length (as_slice (segments b))"

definition nth_opt :: "'a list \<Rightarrow> nat \<Rightarrow> 'a option" where
  "nth_opt xs i = (if i < length xs then Some (xs ! i) else None)"

definition segment_ptr :: "raw_block \<Rightarrow> usize \<Rightarrow> nat option" where
  "segment_ptr b i = map_option (\<lambda>s. host (seg_ptr s)) (nth_opt (as_slice (segments b)) i)"

definition segment_mapped_ptr :: "raw_block \<Rightarrow> usize \<Rightarrow> mapped_ptr option" where
  "segment_mapped_ptr b i = map_option seg_ptr (nth_opt (as_slice (segments b)) i)"

definition segment_size :: "raw_block \<Rightarrow> usize \<Rightarrow> usize option" where
  "segment_size b i = map_option seg_size (nth_opt (as_slice (segments b)) i)"

definition segment_iovecs :: "raw_block \<Rightarrow> (nat \<times> usize) list" where
  "segment_iovecs b = map (\<lambda>s. (host (seg_ptr s), seg_size s)) (as_slice (segments b))"

definition raw_footprint :: "raw_block \<Rightarrow> u64" where
  "raw_footprint b = total_size b"

text \<open>The layer view: K is segment 0 (an \<open>unwrap\<close>), V is segment 1 if there is one.\<close>

definition k_ptr :: "raw_block \<Rightarrow> nat option" where
  "k_ptr b = segment_ptr b 0"

definition k_size :: "raw_block \<Rightarrow> usize option" where
  "k_size b = segment_size b 0"

definition v_ptr :: "raw_block \<Rightarrow> nat option" where
  "v_ptr b = segment_ptr b 1"

definition v_size :: "raw_block \<Rightarrow> usize option" where
  "v_size b = segment_size b 1"

definition layer_size :: "raw_block \<Rightarrow> usize" where
  "layer_size b = raw_footprint b"

section \<open>Sealed blocks\<close>

record sealed_block =
  sb_slots :: "raw_block list"
  sb_footprint :: u64
  sb_slot_numas :: "numa_node list"

definition get_slot :: "sealed_block \<Rightarrow> usize \<Rightarrow> raw_block option" where
  "get_slot b i = nth_opt (sb_slots b) i"

definition from_slots :: "(raw_block \<times> numa_node) list \<Rightarrow> sealed_block" where
  "from_slots slots =
     \<lparr>sb_slots = map fst slots,
      sb_footprint = foldl saturating_add 0 (map (\<lambda>(b, _). raw_footprint b) slots),
      sb_slot_numas = map snd slots\<rparr>"

definition from_slots_with_footprint ::
    "raw_block list \<Rightarrow> u64 \<Rightarrow> numa_node list \<Rightarrow> sealed_block" where
  "from_slots_with_footprint slots footprint numas =
     \<lparr>sb_slots = slots, sb_footprint = footprint, sb_slot_numas = numas\<rparr>"

definition from_ordered_slot_inserts ::
    "(usize \<times> raw_block) list \<Rightarrow> usize \<Rightarrow> numa_node \<Rightarrow>
     (usize \<times> raw_block) list + sealed_block" where
  "from_ordered_slot_inserts slots total_slots numa =
     (if length slots \<noteq> total_slots
         \<or> list_ex (\<lambda>(expected, slot_id, _). slot_id \<noteq> expected) (enumerate 0 slots)
      then Inl slots
      else Inr (from_slots_with_footprint (map snd slots)
                  (foldl saturating_add 0 (map (\<lambda>(_, b). raw_footprint b) slots))
                  (replicate total_slots numa)))"

section \<open>In-flight blocks\<close>

datatype slot_insert_result = Inserted bool u64 | Duplicate

record inflight_block =
  ib_slots :: "raw_block option list"
  remaining :: usize
  total_slots :: usize
  ib_footprint :: u64
  created_at :: instant
  ib_slot_numas :: "numa_node list"

definition inflight_new :: "usize \<Rightarrow> instant \<Rightarrow> inflight_block" where
  "inflight_new n now =
     \<lparr>ib_slots = replicate n None, remaining = n, total_slots = n, ib_footprint = 0,
      created_at = now, ib_slot_numas = replicate n NUMA_UNKNOWN\<rparr>"

definition inflight_age :: "inflight_block \<Rightarrow> instant \<Rightarrow> duration" where
  "inflight_age ib now = duration_since now (created_at ib)"

definition filled_count :: "inflight_block \<Rightarrow> usize option" where
  "filled_count ib = checked_sub (total_slots ib) (remaining ib)"

definition insert_slot ::
    "usize \<Rightarrow> raw_block \<Rightarrow> numa_node \<Rightarrow> inflight_block \<Rightarrow>
     (inflight_block \<times> slot_insert_result) option" where
  "insert_slot slot_id b numa ib =
     (case nth_opt (ib_slots ib) slot_id of
        None \<Rightarrow> None
      | Some (Some _) \<Rightarrow> Some (ib, Duplicate)
      | Some None \<Rightarrow>
          (if length (ib_slot_numas ib) \<le> slot_id then None
           else case checked_sub (remaining ib) 1 of
               None \<Rightarrow> None
             | Some r \<Rightarrow>
                 Some (ib\<lparr>ib_footprint := wrapping_add (ib_footprint ib) (raw_footprint b),
                          ib_slots := (ib_slots ib)[slot_id := Some b],
                          ib_slot_numas := (ib_slot_numas ib)[slot_id := numa],
                          remaining := r\<rparr>,
                       Inserted (r = 0) (raw_footprint b))))"

definition seal :: "inflight_block \<Rightarrow> sealed_block option" where
  "seal ib =
     (case those (ib_slots ib) of
        None \<Rightarrow> None
      | Some slots \<Rightarrow>
          Some (from_slots_with_footprint slots (ib_footprint ib) (ib_slot_numas ib)))"

section \<open>Slot metadata and rebuilding\<close>

record slot_meta =
  segment_sizes :: "u64 list"
  sm_total_size :: u64
  sm_numa :: numa_node

definition slot_meta_new :: "u64 list \<Rightarrow> numa_node \<Rightarrow> slot_meta" where
  "slot_meta_new sizes numa =
     \<lparr>segment_sizes = sizes, sm_total_size = wrapping_sum sizes, sm_numa = numa\<rparr>"

text \<open>The loop of \<open>reconstruct_raw_block\<close> over the segment sizes.\<close>

fun reconstruct_segments :: "u64 list \<Rightarrow> pinned_allocation \<Rightarrow> usize \<Rightarrow> segment list option" where
  "reconstruct_segments [] a offset = Some []"
| "reconstruct_segments (n # ns) a offset =
     (case segment_new (pa_ptr a + offset) n a of
        None \<Rightarrow> None
      | Some s \<Rightarrow>
          (case reconstruct_segments ns a (wrapping_add offset n) of
             None \<Rightarrow> None
           | Some ss \<Rightarrow> Some (s # ss)))"

definition reconstruct_raw_block ::
    "slot_meta \<Rightarrow> pinned_allocation \<Rightarrow> usize \<Rightarrow> raw_block option" where
  "reconstruct_raw_block m a base_offset =
     map_option raw_new (reconstruct_segments (segment_sizes m) a base_offset)"

definition write_iovecs :: "raw_block \<Rightarrow> (nat \<times> usize) list" where
  "write_iovecs b = segment_iovecs b"

fun read_iovecs_from :: "u64 list \<Rightarrow> nat \<Rightarrow> usize \<Rightarrow> (nat \<times> usize) list" where
  "read_iovecs_from [] base offset = []"
| "read_iovecs_from (n # ns) base offset =
     (base + offset, n) # read_iovecs_from ns base (wrapping_add offset n)"

definition read_iovecs :: "slot_meta \<Rightarrow> nat \<Rightarrow> usize \<Rightarrow> (nat \<times> usize) list" where
  "read_iovecs m base offset = read_iovecs_from (segment_sizes m) base offset"

section \<open>Well-formedness\<close>

text \<open>A raw block's cached size is the sum of its segments' sizes.\<close>

definition raw_wf :: "raw_block \<Rightarrow> bool" where
  "raw_wf b \<longleftrightarrow> total_size b = wrapping_sum (map seg_size (as_slice (segments b)))"

definition opt_footprint :: "raw_block option \<Rightarrow> u64" where
  "opt_footprint s = (case s of None \<Rightarrow> 0 | Some b \<Rightarrow> raw_footprint b)"

definition inflight_wf :: "inflight_block \<Rightarrow> bool" where
  "inflight_wf ib \<longleftrightarrow>
     length (ib_slots ib) = total_slots ib \<and>
     length (ib_slot_numas ib) = total_slots ib \<and>
     remaining ib = length (filter (\<lambda>s. s = None) (ib_slots ib)) \<and>
     ib_footprint ib = wrapping_sum (map opt_footprint (ib_slots ib))"

definition sealed_wf :: "sealed_block \<Rightarrow> bool" where
  "sealed_wf b \<longleftrightarrow> length (sb_slot_numas b) = length (sb_slots b)"

section \<open>Lemmas: segments and raw blocks\<close>

lemma as_slice_from_vec [simp]: "as_slice (from_vec ss) = ss"
  by (cases ss rule: from_vec.cases) auto

lemma nth_opt_Some: "nth_opt xs i = Some x \<longleftrightarrow> i < length xs \<and> xs ! i = x"
  by (auto simp: nth_opt_def)

lemma raw_wf_new [simp]: "raw_wf (raw_new ss)"
  by (simp add: raw_wf_def raw_new_def)

lemma raw_wf_single: "seg_size s \<le> u64_max \<Longrightarrow> raw_wf (single_segment s)"
  by (simp add: raw_wf_def single_segment_def)

lemma raw_wf_two: "raw_wf (two_segments k v)"
  by (simp add: raw_wf_def two_segments_def wrapping_sum_eq wrapping_add_def)

lemma segment_new_Some:
  "segment_new ptr len a = Some s \<longleftrightarrow>
     pa_ptr a \<le> ptr \<and> ptr - pa_ptr a + len \<le> u64_max \<and> ptr + len \<le> pa_ptr a + pa_size a \<and>
     s = \<lparr>seg_ptr = mapped_ptr_add (mapped_ptr_of a) (ptr - pa_ptr a), seg_size = len,
          seg_alloc = a\<rparr>"
  by (cases "pa_ptr a \<le> ptr")
    (auto simp: segment_new_def mapped_ptr_for_host_range_def mapped_ptr_at_def checked_sub_def
      checked_add_def)

text \<open>A segment never leaves its allocation: the bounds assertion of \<open>mapped_ptr_at\<close>.\<close>

lemma segment_new_in_bounds:
  assumes "segment_new ptr len a = Some s"
  shows "host (seg_ptr s) = ptr" "pa_ptr a \<le> ptr" "ptr + len \<le> pa_ptr a + pa_size a"
  using assms by (auto simp: segment_new_Some mapped_ptr_add_def mapped_ptr_of_def)

lemma reconstruct_segments_ok:
  assumes "offset + sum_list ns \<le> pa_size a" "pa_size a \<le> u64_max"
  shows "\<exists>ss. reconstruct_segments ns a offset = Some ss \<and> map seg_size ss = ns \<and>
    map (\<lambda>s. (host (seg_ptr s), seg_size s)) ss = read_iovecs_from ns (pa_ptr a) offset"
  using assms(1)
proof (induction ns arbitrary: offset)
  case Nil
  then show ?case by simp
next
  case (Cons n ns)
  from Cons.prems assms(2) have off: "offset + n \<le> u64_max" by simp
  then have w: "wrapping_add offset n = offset + n" by simp
  from Cons.prems obtain ss where ss: "reconstruct_segments ns a (offset + n) = Some ss"
      "map seg_size ss = ns"
      "map (\<lambda>s. (host (seg_ptr s), seg_size s)) ss = read_iovecs_from ns (pa_ptr a) (offset + n)"
    using Cons.IH [of "offset + n"] by auto
  from off Cons.prems obtain s where s: "segment_new (pa_ptr a + offset) n a = Some s"
    by (simp add: segment_new_Some)
  then have "seg_size s = n" "host (seg_ptr s) = pa_ptr a + offset"
    by (auto simp: segment_new_Some mapped_ptr_add_def mapped_ptr_of_def)
  with s ss w show ?case by simp
qed

text \<open>
  A slot rebuilt from its metadata inside a large enough allocation has the recorded segment
  sizes, and its segments are exactly the ranges the vectored read filled.
\<close>

lemma reconstruct_raw_block_ok:
  assumes "offset + sum_list (segment_sizes m) \<le> pa_size a" "pa_size a \<le> u64_max"
  shows "\<exists>b. reconstruct_raw_block m a offset = Some b \<and>
    map seg_size (as_slice (segments b)) = segment_sizes m \<and>
    write_iovecs b = read_iovecs m (pa_ptr a) offset"
  using reconstruct_segments_ok [OF assms]
  by (auto simp: reconstruct_raw_block_def raw_new_def write_iovecs_def segment_iovecs_def
      read_iovecs_def)

section \<open>Lemmas: in-flight and sealed blocks\<close>

lemma sealed_wf_from_slots [simp]: "sealed_wf (from_slots slots)"
  by (simp add: sealed_wf_def from_slots_def)

lemma those_Some_iff: "those xs = Some ys \<longleftrightarrow> xs = map Some ys"
  by (induction xs arbitrary: ys) (auto split: option.splits)

lemma those_map_Some [simp]: "those (map Some xs) = Some xs"
  by (simp add: those_Some_iff)

lemma those_None_iff: "those xs = None \<longleftrightarrow> None \<in> set xs"
  by (induction xs) (auto split: option.splits)

lemma filter_None_Nil: "filter (\<lambda>s. s = None) xs = [] \<longleftrightarrow> None \<notin> set xs"
  by (induction xs) auto

lemma filter_None_update:
  assumes "i < length xs" "xs ! i = None"
  shows "length (filter (\<lambda>s. s = None) xs) =
    Suc (length (filter (\<lambda>s. s = None) (xs[i := Some b])))"
  using assms
proof (induction xs arbitrary: i)
  case (Cons x xs)
  then show ?case by (cases i) auto
qed simp

lemma sum_opt_footprint_update:
  assumes "i < length xs" "xs ! i = None"
  shows "sum_list (map opt_footprint (xs[i := Some b])) =
    sum_list (map opt_footprint xs) + raw_footprint b"
  using assms
proof (induction xs arbitrary: i)
  case (Cons x xs)
  then show ?case by (cases i) (auto simp: opt_footprint_def)
qed simp

lemma inflight_wf_new [simp]: "inflight_wf (inflight_new n now)"
proof -
  have "opt_footprint None = 0" by (simp add: opt_footprint_def)
  then show ?thesis
    by (simp add: inflight_wf_def inflight_new_def wrapping_sum_eq sum_list_replicate)
qed

lemma insert_slot_cases:
  assumes "inflight_wf ib" and "slot_id < total_slots ib"
  obtains (dup) old where "ib_slots ib ! slot_id = Some old"
      and "insert_slot slot_id b numa ib = Some (ib, Duplicate)"
    | (new) r where "ib_slots ib ! slot_id = None" and "remaining ib = Suc r"
      and "insert_slot slot_id b numa ib =
        Some (ib\<lparr>ib_footprint := wrapping_add (ib_footprint ib) (raw_footprint b),
                 ib_slots := (ib_slots ib)[slot_id := Some b],
                 ib_slot_numas := (ib_slot_numas ib)[slot_id := numa],
                 remaining := r\<rparr>, Inserted (r = 0) (raw_footprint b))"
proof (cases "ib_slots ib ! slot_id")
  case None
  from assms have "slot_id < length (ib_slots ib)" by (simp add: inflight_wf_def)
  with None filter_None_update [of slot_id "ib_slots ib"] assms(1)
  obtain r where r: "remaining ib = Suc r" by (auto simp: inflight_wf_def)
  with None assms show ?thesis
    by (intro new [OF None r]) (auto simp: insert_slot_def nth_opt_def inflight_wf_def checked_sub_def)
next
  case (Some old)
  with assms show ?thesis
    by (intro dup [OF Some]) (auto simp: insert_slot_def nth_opt_def inflight_wf_def)
qed

lemma inflight_wf_step:
  assumes wf: "inflight_wf ib" and i: "slot_id < total_slots ib"
    and none: "ib_slots ib ! slot_id = None" and r: "remaining ib = Suc r"
  shows "inflight_wf (ib\<lparr>ib_footprint := wrapping_add (ib_footprint ib) (raw_footprint b),
                 ib_slots := (ib_slots ib)[slot_id := Some b],
                 ib_slot_numas := (ib_slot_numas ib)[slot_id := numa],
                 remaining := r\<rparr>)"
proof -
  have len: "slot_id < length (ib_slots ib)" using wf i by (simp add: inflight_wf_def)
  have "Suc r = Suc (length (filter (\<lambda>s. s = None) ((ib_slots ib)[slot_id := Some b])))"
    using wf r filter_None_update [OF len none, of b] by (simp add: inflight_wf_def)
  moreover have "wrapping_add (ib_footprint ib) (raw_footprint b) =
      wrapping_sum (map opt_footprint ((ib_slots ib)[slot_id := Some b]))"
    using wf by (simp add: inflight_wf_def wrapping_sum_eq wrapping_add_def mod_add_left_eq
        sum_opt_footprint_update [OF len none])
  ultimately show ?thesis using wf by (simp add: inflight_wf_def)
qed

lemma insert_slot_wf:
  assumes "inflight_wf ib" "slot_id < total_slots ib"
    "insert_slot slot_id b numa ib = Some (ib', res)"
  shows "inflight_wf ib'" "total_slots ib' = total_slots ib" "created_at ib' = created_at ib"
proof -
  have "inflight_wf ib' \<and> total_slots ib' = total_slots ib \<and> created_at ib' = created_at ib"
    using assms(1,2)
  proof (cases rule: insert_slot_cases [where b = b and numa = numa])
    case (dup old)
    then show ?thesis using assms by simp
  next
    case (new r)
    from new(3) assms(3) have ib': "ib' =
        ib\<lparr>ib_footprint := wrapping_add (ib_footprint ib) (raw_footprint b),
           ib_slots := (ib_slots ib)[slot_id := Some b],
           ib_slot_numas := (ib_slot_numas ib)[slot_id := numa], remaining := r\<rparr>" by simp
    show ?thesis
      unfolding ib' using inflight_wf_step [OF assms(1,2) new(1,2)] by simp
  qed
  then show "inflight_wf ib'" "total_slots ib' = total_slots ib" "created_at ib' = created_at ib"
    by simp_all
qed

lemma remaining_zero_iff: "inflight_wf ib \<Longrightarrow> remaining ib = 0 \<longleftrightarrow> None \<notin> set (ib_slots ib)"
  by (simp add: inflight_wf_def filter_None_Nil)

lemma seal_None_iff: "inflight_wf ib \<Longrightarrow> seal ib = None \<longleftrightarrow> remaining ib \<noteq> 0"
  using those_None_iff [of "ib_slots ib"]
  by (auto simp: seal_def remaining_zero_iff split: option.split)

lemma seal_SomeD:
  "inflight_wf ib \<Longrightarrow> seal ib = Some sb \<Longrightarrow>
     length (sb_slots sb) = total_slots ib \<and> sealed_wf sb \<and>
     sb_footprint sb = wrapping_sum (map raw_footprint (sb_slots sb))"
  by (auto simp: seal_def those_Some_iff inflight_wf_def sealed_wf_def opt_footprint_def comp_def
      from_slots_with_footprint_def split: option.splits)

lemma from_ordered_slot_inserts_Inr:
  "from_ordered_slot_inserts slots n numa = Inr sb \<Longrightarrow>
     length slots = n \<and> map fst slots = [0..<n] \<and>
     sb = \<lparr>sb_slots = map snd slots,
           sb_footprint = min (sum_list (map (raw_footprint \<circ> snd) slots)) u64_max,
           sb_slot_numas = replicate n numa\<rparr>"
proof -
  assume *: "from_ordered_slot_inserts slots n numa = Inr sb"
  then have len: "length slots = n"
    and ord: "\<forall>x \<in> set (enumerate 0 slots). fst (snd x) = fst x"
    by (auto simp: from_ordered_slot_inserts_def list_ex_iff split: if_splits)
  have "fst (slots ! i) = i" if "i < n" for i
  proof -
    from that len have "(i, slots ! i) \<in> set (enumerate 0 slots)"
      by (force simp: in_set_enumerate_eq)
    with ord show ?thesis by force
  qed
  then have "map fst slots = [0..<n]"
    using len by (intro nth_equalityI) auto
  moreover have "(\<lambda>(_, b). raw_footprint b) = raw_footprint \<circ> (snd :: usize \<times> raw_block \<Rightarrow> _)"
    by (simp add: fun_eq_iff)
  ultimately show ?thesis
    using * len by (simp add: from_ordered_slot_inserts_def from_slots_with_footprint_def
        foldl_saturating_add split: if_splits)
qed

lemma from_ordered_slot_inserts_Inl:
  "from_ordered_slot_inserts slots n numa = Inl slots' \<Longrightarrow> slots' = slots"
  by (auto simp: from_ordered_slot_inserts_def split: if_splits)

end
