(* ===== verification/Gpu_Copy.thy ===== *)
theory Gpu_Copy
  imports Layout Blocks "HOL-Library.Multiset"
begin

text \<open>
  Copying blocks between a device and pinned host memory: the transfer tasks of
  \<^verbatim>\<open>pegaflow-core/src/gpu_worker.rs\<close>, the copy descriptors of \<^verbatim>\<open>transfer/mod.rs\<close>, the coalescing memcpy backend of
  \<^verbatim>\<open>transfer/memcpy.rs\<close> and the copy kernel of \<^verbatim>\<open>transfer/kernel.rs\<close>. Memory is one byte per address. What a driver call
  answers is an argument, and a call that answers success copies its whole range before the task ends: the code
  synchronizes the stream and only logs a failure to do so. Error texts are shortened; the worker
  threads, logging and bandwidth figures are left out, as are the retry of a failed copy in the Ascend build and the
  error of a backend that is given a stream of the other kind.
\<close>

unbundle bit_operations_syntax

section \<open>Data\<close>

datatype engine_error =
    InstanceMissing string
  | WorkerMissing string int
  | InvalidArgument string
  | DeviceInit string
  | Storage string
  | Poisoned string
  | TopologyMismatch string

record copy_desc =
  cd_device :: u64
  cd_host :: nat
  cd_host_device :: u64
  cd_size :: usize

datatype host_block = Owned raw_block | Cached sealed_block usize usize

record transfer_block =
  tb_block_idx :: usize
  tb_block :: host_block

record layer_transfer_data =
  lt_layer_name :: string
  lt_layout :: kv_cache_layout
  lt_blocks :: "transfer_block list"

text \<open>An unknown slot of a cached block panics.\<close>

fun host_raw :: "host_block \<Rightarrow> raw_block option" where
  "host_raw (Owned b) = Some b"
| "host_raw (Cached sealed slot off) = get_slot sealed slot"

fun host_offset :: "host_block \<Rightarrow> usize" where
  "host_offset (Owned b) = 0"
| "host_offset (Cached sealed slot off) = off"

section \<open>Copy descriptors\<close>

definition desc_at :: "mapped_ptr \<Rightarrow> block_copy \<Rightarrow> copy_desc" where
  "desc_at p c = \<lparr>cd_device = bc_addr c, cd_host = host p, cd_host_device = device p, cd_size = bc_bytes c\<rparr>"

definition v_pointer :: "raw_block \<Rightarrow> usize \<Rightarrow> mapped_ptr \<Rightarrow> usize \<Rightarrow> mapped_ptr" where
  "v_pointer raw off kp k_bytes =
     (case segment_mapped_ptr raw 1 of Some q \<Rightarrow> mapped_ptr_add q off | None \<Rightarrow> mapped_ptr_add kp k_bytes)"

definition block_descs :: "kv_cache_layout \<Rightarrow> transfer_block \<Rightarrow> (engine_error + copy_desc list) option" where
  "block_descs l tb =
     (case block_copies_of l (tb_block_idx tb) of
        Inl e \<Rightarrow> Some (Inl (Storage ''block index out of range''))
      | Inr copies \<Rightarrow>
          (case host_raw (tb_block tb) of
             None \<Rightarrow> None
           | Some raw \<Rightarrow>
               (case segment_mapped_ptr raw 0 of
                  None \<Rightarrow> None
                | Some p \<Rightarrow>
                    let off = host_offset (tb_block tb); kp = mapped_ptr_add p off
                    in Some (Inr (case copies of
                         CopyContiguous c \<Rightarrow> [desc_at kp c]
                       | CopySplit k v \<Rightarrow> [desc_at kp k, desc_at (v_pointer raw off kp (bc_bytes k)) v])))))"

fun layer_descs :: "kv_cache_layout \<Rightarrow> transfer_block list \<Rightarrow> (engine_error + copy_desc list) option" where
  "layer_descs l [] = Some (Inr [])"
| "layer_descs l (tb # tbs) =
     (case block_descs l tb of
        None \<Rightarrow> None
      | Some (Inl e) \<Rightarrow> Some (Inl e)
      | Some (Inr ds) \<Rightarrow> map_option (map_sum id (\<lambda>rest. ds @ rest)) (layer_descs l tbs))"

fun all_descs :: "layer_transfer_data list \<Rightarrow> (engine_error + copy_desc list) option" where
  "all_descs [] = Some (Inr [])"
| "all_descs (layer # layers) =
     (case layer_descs (lt_layout layer) (lt_blocks layer) of
        None \<Rightarrow> None
      | Some (Inl e) \<Rightarrow> Some (Inl e)
      | Some (Inr ds) \<Rightarrow> map_option (map_sum id (\<lambda>rest. ds @ rest)) (all_descs layers))"

definition build_copy_descs :: "layer_transfer_data list \<Rightarrow> (engine_error + copy_desc list \<times> usize) option" where
  "build_copy_descs layers =
     map_option (map_sum id (\<lambda>ds. (ds, wrapping_sum (map cd_size ds)))) (all_descs layers)"

section \<open>Memory and the memcpy backend\<close>

record memory =
  dev_mem :: "nat \<Rightarrow> byte"
  host_mem :: "nat \<Rightarrow> byte"

record merged =
  m_device :: u64
  m_host :: nat
  m_size :: usize

text \<open>The inner loop of coalescing: how far the run starting at \<open>start\<close> reaches, and what is left.\<close>

fun extend_run :: "copy_desc \<Rightarrow> usize \<Rightarrow> copy_desc list \<Rightarrow> usize \<times> copy_desc list" where
  "extend_run start sz [] = (sz, [])"
| "extend_run start sz (next # rest) =
     (if wrapping_add (cd_device start) sz = cd_device next \<and> cd_host start + sz = cd_host next
      then extend_run start (wrapping_add sz (cd_size next)) rest
      else (sz, next # rest))"

lemma extend_run_shorter: "extend_run s n ds = (k, rest) \<Longrightarrow> length rest \<le> length ds"
  by (induction s n ds rule: extend_run.induct) (auto split: if_splits)

function merge_descs :: "copy_desc list \<Rightarrow> merged list" where
  "merge_descs [] = []"
| "merge_descs (start # rest) =
     (case extend_run start (cd_size start) rest of
        (sz, rest') \<Rightarrow> \<lparr>m_device = cd_device start, m_host = cd_host start, m_size = sz\<rparr> # merge_descs rest')"
  by pat_completeness auto
termination by (relation "measure length") (auto dest: extend_run_shorter [OF sym])

text \<open>The bytes a range moves, as pairs of a device address and a host address, in order.\<close>

definition byte_pairs :: "nat \<Rightarrow> nat \<Rightarrow> nat \<Rightarrow> (nat \<times> nat) list" where
  "byte_pairs d h n = map (\<lambda>k. (d + k, h + k)) [0..<n]"

definition to_device :: "memory \<Rightarrow> nat \<times> nat \<Rightarrow> memory" where
  "to_device m p = m\<lparr>dev_mem := (dev_mem m)(fst p := host_mem m (snd p))\<rparr>"

definition to_host :: "memory \<Rightarrow> nat \<times> nat \<Rightarrow> memory" where
  "to_host m p = m\<lparr>host_mem := (host_mem m)(snd p := dev_mem m (fst p))\<rparr>"

text \<open>One driver call per range, until one fails.\<close>

fun issue_copies ::
    "(memory \<Rightarrow> nat \<times> nat \<Rightarrow> memory) \<Rightarrow> (merged \<Rightarrow> bool) \<Rightarrow> merged list \<Rightarrow> memory \<Rightarrow> (string + unit) \<times> memory" where
  "issue_copies move driver [] m = (Inr (), m)"
| "issue_copies move driver (r # rs) m =
     (if driver r then issue_copies move driver rs (foldl move m (byte_pairs (m_device r) (m_host r) (m_size r)))
      else (Inl ''memcpy failed'', m))"

definition memcpy_h2d :: "(merged \<Rightarrow> bool) \<Rightarrow> copy_desc list \<Rightarrow> memory \<Rightarrow> (string + unit) \<times> memory" where
  "memcpy_h2d driver copies m = issue_copies to_device driver (merge_descs copies) m"

definition memcpy_d2h :: "(merged \<Rightarrow> bool) \<Rightarrow> copy_desc list \<Rightarrow> memory \<Rightarrow> (string + unit) \<times> memory" where
  "memcpy_d2h driver copies m = issue_copies to_host driver (merge_descs copies) m"

section \<open>Tasks\<close>

text \<open>
  A task copies what its descriptors say, through a backend that is given as a function. A failure to
  synchronize the stream afterwards is only logged.
\<close>

definition process_task ::
    "(copy_desc list \<Rightarrow> memory \<Rightarrow> (string + unit) \<times> memory) \<Rightarrow> layer_transfer_data list \<Rightarrow> memory \<Rightarrow>
     ((engine_error + unit) \<times> memory) option" where
  "process_task backend layers m =
     (case build_copy_descs layers of
        None \<Rightarrow> None
      | Some (Inl e) \<Rightarrow> Some (Inl e, m)
      | Some (Inr (copies, bytes)) \<Rightarrow>
          (case backend copies m of
             (Inl e, m') \<Rightarrow> Some (Inl (Storage e), m')
           | (Inr _, m') \<Rightarrow> Some (Inr (), m')))"

definition process_load_task ::
    "(merged \<Rightarrow> bool) \<Rightarrow> layer_transfer_data list \<Rightarrow> memory \<Rightarrow> ((engine_error + unit) \<times> memory) option" where
  "process_load_task driver = process_task (memcpy_h2d driver)"

definition process_save_task ::
    "(merged \<Rightarrow> bool) \<Rightarrow> layer_transfer_data list \<Rightarrow> memory \<Rightarrow> ((engine_error + unit) \<times> memory) option" where
  "process_save_task driver = process_task (memcpy_d2h driver)"

section \<open>Coalescing changes nothing\<close>

lemma map_ok: "map_sum id f r = Inr y \<longleftrightarrow> (\<exists>x. r = Inr x \<and> y = f x)"
  by (cases r) auto

definition desc_pairs :: "copy_desc \<Rightarrow> (nat \<times> nat) list" where
  "desc_pairs d = byte_pairs (cd_device d) (cd_host d) (cd_size d)"

definition merged_pairs :: "merged \<Rightarrow> (nat \<times> nat) list" where
  "merged_pairs r = byte_pairs (m_device r) (m_host r) (m_size r)"

definition desc_fits :: "copy_desc \<Rightarrow> bool" where
  "desc_fits d = (cd_device d + cd_size d \<le> u64_max)"

lemma byte_pairs_append: "byte_pairs d h (n + k) = byte_pairs d h n @ byte_pairs (d + n) (h + n) k"
proof -
  have "[0..<n + k] = [0..<n] @ map (\<lambda>i. n + i) [0..<k]"
    using map_add_upt [of n k] upt_add_eq_append [of 0 n k] by (simp add: add.commute)
  thus ?thesis by (simp add: byte_pairs_def add.assoc)
qed

lemma extend_run_pairs:
  assumes "extend_run s n ds = (k, rest)" "list_all desc_fits ds" "cd_device s + n \<le> u64_max"
  shows "byte_pairs (cd_device s) (cd_host s) k @ concat (map desc_pairs rest) =
      byte_pairs (cd_device s) (cd_host s) n @ concat (map desc_pairs ds)
    \<and> list_all desc_fits rest"
  using assms
proof (induction s n ds rule: extend_run.induct)
  case (2 s n d ds)
  show ?case
  proof (cases "wrapping_add (cd_device s) n = cd_device d \<and> cd_host s + n = cd_host d")
    case True
    have at: "cd_device s + n = cd_device d" using True 2(4) by (simp add: wrapping_add_exact)
    moreover have fit: "cd_device s + (n + cd_size d) \<le> u64_max" using 2(3) at by (simp add: desc_fits_def)
    ultimately have "wrapping_add n (cd_size d) = n + cd_size d" by (intro wrapping_add_exact) linarith
    with 2 True fit at show ?thesis by (auto simp: byte_pairs_append desc_pairs_def)
  qed (use 2 in auto)
qed auto

lemma merge_descs_pairs:
  "list_all desc_fits ds \<Longrightarrow> concat (map merged_pairs (merge_descs ds)) = concat (map desc_pairs ds)"
proof (induction ds rule: merge_descs.induct)
  case (2 s ds)
  obtain k rest where e: "extend_run s (cd_size s) ds = (k, rest)" by (rule prod.exhaust)
  from 2(2) have fits: "list_all desc_fits ds" and s: "desc_fits s" by simp_all
  from extend_run_pairs [OF e fits s [unfolded desc_fits_def]] 2(1) [OF e [symmetric]] e show ?case
    by (simp add: merged_pairs_def desc_pairs_def [of s])
qed simp

lemma issue_copies_all:
  "\<forall>r. driver r \<Longrightarrow> issue_copies move driver rs m = (Inr (), foldl move m (concat (map merged_pairs rs)))"
  by (induction rs arbitrary: m) (simp_all add: merged_pairs_def)

lemma issue_copies_ok:
  "issue_copies move driver rs m = (Inr (), m') \<Longrightarrow> m' = foldl move m (concat (map merged_pairs rs))"
  by (induction rs arbitrary: m) (auto simp: merged_pairs_def split: if_splits)

section \<open>The copy kernel\<close>

definition BLOCK_DIM :: nat where "BLOCK_DIM = 256"
definition MAX_GRID :: nat where "MAX_GRID = 65535"

definition as_i32 :: "nat \<Rightarrow> int" where
  "as_i32 n = (let k = n mod 2 ^ 32 in if k < 2 ^ 31 then int k else int k - 2 ^ 32)"

text \<open>The descriptor array: destination, source and size of every copy, one after another.\<close>

definition kernel_descs :: "bool \<Rightarrow> copy_desc list \<Rightarrow> u64 list" where
  "kernel_descs host_is_src copies =
     concat (map (\<lambda>c. if host_is_src then [cd_device c, cd_host_device c, cd_size c]
                      else [cd_host_device c, cd_device c, cd_size c]) copies)"

definition grid_dim :: "nat \<Rightarrow> nat" where
  "grid_dim n = max 1 (min (n mod 2 ^ 32) MAX_GRID)"

text \<open>A loop from \<open>i\<close> below \<open>n\<close> in steps of \<open>step\<close>.\<close>

function strided :: "nat \<Rightarrow> nat \<Rightarrow> nat \<Rightarrow> nat list" where
  "strided i step n = (if i < n \<and> 0 < step then i # strided (i + step) step n else [])"
  by pat_completeness auto
termination by (relation "measure (\<lambda>(i, step, n). n - i)") auto

declare strided.simps [simp del]

text \<open>
  What one thread of a block copies for one descriptor, as pairs of a destination and a source
  byte: sixteen bytes at a time where both addresses are aligned, with the tail byte by byte.
\<close>

definition copy_thread :: "u64 \<Rightarrow> u64 \<Rightarrow> u64 \<Rightarrow> nat \<Rightarrow> (nat \<times> nat) list" where
  "copy_thread dst src sz t =
     (if (dst OR src) AND 15 = 0
      then let n16 = drop_bit 4 sz
           in concat (map (\<lambda>j. byte_pairs (dst + 16 * j) (src + 16 * j) 16) (strided t BLOCK_DIM n16))
              @ map (\<lambda>j. (dst + j, src + j)) (strided (push_bit 4 n16 + t) BLOCK_DIM sz)
      else map (\<lambda>j. (dst + j, src + j)) (strided t BLOCK_DIM sz))"

definition pega_batch_copy :: "u64 list \<Rightarrow> int \<Rightarrow> nat \<Rightarrow> nat \<Rightarrow> nat \<Rightarrow> (nat \<times> nat) list" where
  "pega_batch_copy descs n grid b t =
     concat (map (\<lambda>i. copy_thread (descs ! (3 * i)) (descs ! (3 * i + 1)) (descs ! (3 * i + 2)) t)
       (strided b grid (nat n)))"

text \<open>All threads of all blocks of a launch.\<close>

definition kernel_submit :: "bool \<Rightarrow> copy_desc list \<Rightarrow> (nat \<times> nat) list" where
  "kernel_submit host_is_src copies =
     (if copies = [] then []
      else let n = length copies; grid = grid_dim n; descs = kernel_descs host_is_src copies
           in concat (map (\<lambda>b. concat (map (pega_batch_copy descs (as_i32 n) grid b) [0..<BLOCK_DIM])) [0..<grid]))"

text \<open>In the device's address space both sides of a copy are addresses of one memory.\<close>

definition move_byte :: "(nat \<Rightarrow> byte) \<Rightarrow> nat \<times> nat \<Rightarrow> (nat \<Rightarrow> byte)" where
  "move_byte m p = m(fst p := m (snd p))"

definition kernel_pairs :: "bool \<Rightarrow> copy_desc \<Rightarrow> (nat \<times> nat) list" where
  "kernel_pairs host_is_src c =
     (if host_is_src then byte_pairs (cd_device c) (cd_host_device c) (cd_size c)
      else byte_pairs (cd_host_device c) (cd_device c) (cd_size c))"

lemma mset_concat_append:
  "mset (concat (map (\<lambda>t. g t @ h t) xs)) = mset (concat (map g xs)) + mset (concat (map h xs))"
  by (induction xs) simp_all

lemma mset_concat_cong: "(\<And>x. x \<in> set xs \<Longrightarrow> mset (f x) = mset (g x)) \<Longrightarrow> mset (concat (map f xs)) = mset (concat (map g xs))"
  by (induction xs) simp_all

lemma mset_concat_swap:
  "mset (concat (map (\<lambda>t. concat (map (F t) xs)) ts)) = mset (concat (map (\<lambda>x. concat (map (\<lambda>t. F t x) ts)) xs))"
  by (induction ts) (simp_all add: mset_concat_append)

lemma mset_concat_map: "mset xs = mset ys \<Longrightarrow> mset (concat (map f xs)) = mset (concat (map f ys))"
  by (metis mset_concat mset_map sum_mset_sum_list)

lemma upt_prefix: "concat (map (\<lambda>t. if s + t < n then [s + t] else []) [0..<k]) = [s..<min n (s + k)]"
proof (induction k)
  case (Suc k)
  consider "s + k < n" "Suc (s + k) \<le> n" | "n \<le> s + k" by linarith
  thus ?case by cases (use Suc in \<open>auto simp: min_def\<close>)
qed simp

lemma strided_all:
  assumes "0 < k"
  shows "mset (concat (map (\<lambda>t. strided (s + t) k n) [0..<k])) = mset [s..<n]"
proof (induction "n - s" arbitrary: s rule: less_induct)
  case less
  show ?case
  proof (cases "s < n")
    case False
    hence "strided (s + t) k n = []" for t by (simp add: strided.simps)
    with False show ?thesis by (simp add: concat_eq_Nil_conv)
  next
    case True
    have "strided (s + t) k n = (if s + t < n then [s + t] else []) @ strided (s + k + t) k n" for t
    proof -
      have e: "s + t + k = s + k + t" by simp
      show ?thesis
      proof (cases "s + t < n")
        case True
        thus ?thesis using assms unfolding strided.simps [of "s + t"] e by simp
      next
        case False
        thus ?thesis by (simp add: strided.simps [of "s + t"] strided.simps [of "s + k + t"])
      qed
    qed
    hence "mset (concat (map (\<lambda>t. strided (s + t) k n) [0..<k])) =
        mset [s..<min n (s + k)] + mset (concat (map (\<lambda>t. strided ((s + k) + t) k n) [0..<k]))"
      by (simp only: mset_concat_append upt_prefix)
    also have "\<dots> = mset [s..<min n (s + k)] + mset [s + k..<n]" using less True assms by simp
    also have "\<dots> = mset [s..<n]"
      using True upt_add_eq_append [of s "s + k" "n - (s + k)"] by (cases "s + k \<le> n") (auto simp: min_def)
    finally show ?thesis .
  qed
qed

lemma byte_pairs_blocks: "concat (map (\<lambda>j. byte_pairs (d + 16 * j) (h + 16 * j) 16) [0..<n]) = byte_pairs d h (16 * n)"
proof (induction n)
  case (Suc n)
  have "16 * Suc n = 16 * n + 16" by simp
  with Suc show ?case by (simp only: byte_pairs_append upt_Suc map_append concat_append) (simp add: byte_pairs_def)
qed (simp add: byte_pairs_def)

lemma byte_pairs_tail: "k \<le> n \<Longrightarrow> byte_pairs d h n = byte_pairs d h k @ map (\<lambda>j. (d + j, h + j)) [k..<n]"
  using upt_add_eq_append [of 0 k "n - k"] by (simp add: byte_pairs_def)

lemma concat_map_map: "concat (map (\<lambda>t. map f (g t)) ts) = map f (concat (map g ts))"
  by (induction ts) simp_all

lemma concat_map_concat: "concat (map (\<lambda>t. concat (map f (g t))) ts) = concat (map f (concat (map g ts)))"
  by (induction ts) simp_all

lemma copy_threads_cover:
  "mset (concat (map (copy_thread dst src sz) [0..<BLOCK_DIM])) = mset (byte_pairs dst src sz)"
proof -
  have B: "0 < BLOCK_DIM" by (simp add: BLOCK_DIM_def)
  let ?f = "\<lambda>j. (dst + j, src + j)" and ?F = "\<lambda>j. byte_pairs (dst + 16 * j) (src + 16 * j) 16"
  have cover: "mset (concat (map (\<lambda>t. strided t BLOCK_DIM n) [0..<BLOCK_DIM])) = mset [0..<n]" for n
    using strided_all [OF B, of 0] by simp
  show ?thesis
  proof (cases "(dst OR src) AND 15 = 0")
    case False
    hence "copy_thread dst src sz = (\<lambda>t. map ?f (strided t BLOCK_DIM sz))" by (intro ext) (simp add: copy_thread_def)
    hence "mset (concat (map (copy_thread dst src sz) [0..<BLOCK_DIM]))
        = image_mset ?f (mset (concat (map (\<lambda>t. strided t BLOCK_DIM sz) [0..<BLOCK_DIM])))"
      by (simp only: concat_map_map mset_map)
    thus ?thesis unfolding cover by (simp add: byte_pairs_def)
  next
    case True
    define n16 :: nat where "n16 = drop_bit 4 sz"
    have le: "push_bit 4 n16 \<le> sz" "push_bit 4 n16 = 16 * n16" by (simp_all add: n16_def push_bit_eq_mult drop_bit_eq_div)
    have "copy_thread dst src sz = (\<lambda>t. concat (map ?F (strided t BLOCK_DIM n16))
        @ map ?f (strided (push_bit 4 n16 + t) BLOCK_DIM sz))"
      using True by (intro ext) (simp add: copy_thread_def n16_def Let_def)
    hence "mset (concat (map (copy_thread dst src sz) [0..<BLOCK_DIM]))
        = mset (concat (map ?F (concat (map (\<lambda>t. strided t BLOCK_DIM n16) [0..<BLOCK_DIM]))))
          + image_mset ?f (mset (concat (map (\<lambda>t. strided (push_bit 4 n16 + t) BLOCK_DIM sz) [0..<BLOCK_DIM])))"
      by (simp only: mset_concat_append concat_map_concat concat_map_map mset_map)
    also have "\<dots> = mset (concat (map ?F [0..<n16])) + mset (map ?f [push_bit 4 n16..<sz])"
      unfolding strided_all [OF B] mset_concat_map [OF cover] by simp
    also have "\<dots> = mset (byte_pairs dst src sz)"
      unfolding byte_pairs_blocks byte_pairs_tail [OF le(1), of dst src] le(2) by simp
    finally show ?thesis .
  qed
qed

lemma kernel_descs_nth:
  "i < length cs \<Longrightarrow> kernel_descs h cs ! (3 * i) = (if h then cd_device (cs ! i) else cd_host_device (cs ! i))
     \<and> kernel_descs h cs ! (3 * i + 1) = (if h then cd_host_device (cs ! i) else cd_device (cs ! i))
     \<and> kernel_descs h cs ! (3 * i + 2) = cd_size (cs ! i)"
proof (induction cs arbitrary: i)
  case (Cons c cs)
  show ?case
  proof (cases i)
    case (Suc j)
    with Cons.IH [of j] Cons.prems show ?thesis by (cases h) (simp_all add: kernel_descs_def)
  qed (simp add: kernel_descs_def)
qed simp

lemma as_i32_small: "n < 2 ^ 31 \<Longrightarrow> nat (as_i32 n) = n"
  by (simp add: as_i32_def)

lemma kernel_submit_cover:
  assumes small: "length cs < 2 ^ 31"
  shows "mset (kernel_submit h cs) = mset (concat (map (kernel_pairs h) cs))"
proof (cases "cs = []")
  case False
  let ?n = "length cs" and ?d = "kernel_descs h cs" and ?g = "grid_dim (length cs)"
  let ?F = "\<lambda>i t. copy_thread (?d ! (3 * i)) (?d ! (3 * i + 1)) (?d ! (3 * i + 2)) t"
  have g: "0 < ?g" by (simp add: grid_dim_def)
  have "mset (kernel_submit h cs) =
      mset (concat (map (\<lambda>b. concat (map (\<lambda>i. concat (map (?F i) [0..<BLOCK_DIM])) (strided b ?g ?n))) [0..<?g]))"
  proof -
    have "pega_batch_copy ?d (as_i32 ?n) ?g b = (\<lambda>t. concat (map (\<lambda>i. ?F i t) (strided b ?g ?n)))" for b
      by (intro ext) (simp add: pega_batch_copy_def as_i32_small [OF small])
    hence "kernel_submit h cs =
        concat (map (\<lambda>b. concat (map (\<lambda>t. concat (map (\<lambda>i. ?F i t) (strided b ?g ?n))) [0..<BLOCK_DIM])) [0..<?g])"
      using False by (simp only: kernel_submit_def Let_def if_False)
    thus ?thesis by (simp only:) (rule mset_concat_cong, rule mset_concat_swap)
  qed
  also have "\<dots> = mset (concat (map (\<lambda>i. concat (map (?F i) [0..<BLOCK_DIM])) [0..<?n]))"
    unfolding concat_map_concat by (rule mset_concat_map) (use strided_all [OF g, of 0 ?n] in simp)
  also have "\<dots> = mset (concat (map (\<lambda>i. kernel_pairs h (cs ! i)) [0..<?n]))"
    by (rule mset_concat_cong) (simp add: copy_threads_cover kernel_descs_nth [simplified] kernel_pairs_def)
  also have "map (\<lambda>i. kernel_pairs h (cs ! i)) [0..<?n] = map (kernel_pairs h) cs" by (rule nth_equalityI) simp_all
  finally show ?thesis .
qed (simp add: kernel_submit_def)

lemma moves_at:
  assumes "distinct (map fst ps)" "fst ` set ps \<inter> snd ` set ps = {}"
  shows "foldl move_byte m ps a = (case map_of ps a of Some src \<Rightarrow> m src | None \<Rightarrow> m a)"
  using assms
proof (induction ps arbitrary: m)
  case (Cons p ps)
  have "foldl move_byte (move_byte m p) ps a = (case map_of ps a of Some src \<Rightarrow> move_byte m p src | None \<Rightarrow> move_byte m p a)"
    using Cons by (intro Cons.IH) auto
  moreover have "move_byte m p src = m src" if "map_of ps a = Some src" for src
    using Cons.prems(2) map_of_SomeD [OF that] by (force simp: move_byte_def)
  ultimately have step: "foldl move_byte m (p # ps) a = (case map_of ps a of Some src \<Rightarrow> m src | None \<Rightarrow> move_byte m p a)"
    by (simp split: option.split)
  show ?case
  proof (cases "a = fst p")
    case True
    with Cons.prems(1) have "map_of ps a = None" by (simp add: map_of_eq_None_iff)
    with step True show ?thesis by (simp only: option.case) (simp add: move_byte_def)
  next
    case False
    with step show ?thesis by (simp only: map_of.simps fun_upd_other) (simp add: move_byte_def split: option.split)
  qed
qed simp

text \<open>
  The copy kernel moves exactly the bytes of its batch, whatever the order in which its blocks and
  threads run: every interleaving of the writes of all threads leaves the memory that
  copying the descriptors one after another would leave, provided no destination is written twice and no
  destination is a source.
\<close>

theorem kernel_copies_batch:
  assumes n: "length cs < 2 ^ 31" and run: "mset ps = mset (kernel_submit h cs)"
    and once: "distinct (map fst (concat (map (kernel_pairs h) cs)))"
    and apart: "fst ` set (concat (map (kernel_pairs h) cs)) \<inter> snd ` set (concat (map (kernel_pairs h) cs)) = {}"
  shows "foldl move_byte m ps = foldl move_byte m (concat (map (kernel_pairs h) cs))"
proof
  fix a
  let ?qs = "concat (map (kernel_pairs h) cs)"
  have perm: "mset ps = mset ?qs" using run kernel_submit_cover [OF n] by simp
  hence d: "distinct (map fst ps)" using once by (metis mset_eq_imp_distinct_iff mset_map)
  have s: "set ps = set ?qs" using perm by (rule mset_eq_setD)
  have "map_of ps a = map_of ?qs a"
  proof (cases "map_of ps a")
    case None
    hence "a \<notin> fst ` set ?qs" unfolding map_of_eq_None_iff s .
    with None show ?thesis by (metis map_of_eq_None_iff)
  next
    case (Some b)
    hence "(a, b) \<in> set ?qs" using map_of_SomeD s by metis
    with Some once show ?thesis by (metis map_of_eq_Some_iff)
  qed
  thus "foldl move_byte m ps a = foldl move_byte m ?qs a"
    using moves_at [OF d] moves_at [OF once apart] s apart by simp
qed

section \<open>Saving and loading a block\<close>

definition addresses :: "nat \<Rightarrow> nat \<Rightarrow> nat list" where
  "addresses a n = map (\<lambda>k. a + k) [0..<n]"

text \<open>The device bytes of a block, in the order they are copied, and the host bytes of a transfer's host side.\<close>

definition block_locs :: "kv_cache_layout \<Rightarrow> usize \<Rightarrow> nat list" where
  "block_locs l i = concat (map (\<lambda>c. addresses (bc_addr c) (bc_bytes c)) (copies_of l i))"

definition raw_locs :: "kv_cache_layout \<Rightarrow> raw_block \<Rightarrow> usize \<Rightarrow> nat list" where
  "raw_locs l raw off =
     (case k_ptr raw of
        None \<Rightarrow> []
      | Some k \<Rightarrow>
          if is_split l then addresses (k + off) (l_segment_bytes l)
            @ addresses (case v_ptr raw of Some v \<Rightarrow> v + off | None \<Rightarrow> k + off + l_segment_bytes l) (l_segment_bytes l)
          else addresses (k + off) (block_bytes l))"

fun host_locs :: "kv_cache_layout \<Rightarrow> host_block \<Rightarrow> nat list" where
  "host_locs l (Owned raw) = raw_locs l raw 0"
| "host_locs l (Cached sealed slot off) = (case get_slot sealed slot of None \<Rightarrow> [] | Some raw \<Rightarrow> raw_locs l raw off)"

definition same_geometry :: "kv_cache_layout \<Rightarrow> kv_cache_layout \<Rightarrow> bool" where
  "same_geometry l l' =
     (l_segment_bytes l = l_segment_bytes l' \<and> l_segments l = l_segments l' \<and> is_split l = is_split l')"

lemma host_locs_geometry:
  assumes "same_geometry l l'"
  shows "host_locs l = host_locs l'"
proof
  fix hb
  have "raw_locs l = raw_locs l'"
    using assms by (intro ext) (simp add: raw_locs_def same_geometry_def block_bytes_def split: option.split)
  thus "host_locs l hb = host_locs l' hb" by (cases hb) (simp_all split: option.split)
qed

lemma host_locs_raw: "host_locs l hb = (case host_raw hb of None \<Rightarrow> [] | Some raw \<Rightarrow> raw_locs l raw (host_offset hb))"
  by (cases hb) (simp_all split: option.split)

lemma segment_hosts: "k_ptr raw = map_option host (segment_mapped_ptr raw 0)" "v_ptr raw = map_option host (segment_mapped_ptr raw 1)"
  by (simp_all add: k_ptr_def v_ptr_def segment_ptr_def segment_mapped_ptr_def option.map_comp comp_def)

lemma length_addresses [simp]: "length (addresses a n) = n"
  by (simp add: addresses_def)

lemma byte_pairs_zip: "byte_pairs d h n = zip (addresses d n) (addresses h n)"
  by (simp add: byte_pairs_def addresses_def zip_map_map zip_same_conv_map)

lemma block_descs_pairs:
  assumes "block_descs l tb = Some (Inr ds)" "layout_wf l"
  shows "concat (map desc_pairs ds) = zip (block_locs l (tb_block_idx tb)) (host_locs l (tb_block tb))
    \<and> length (block_locs l (tb_block_idx tb)) = length (host_locs l (tb_block tb))
    \<and> list_all desc_fits ds"
proof -
  let ?i = "tb_block_idx tb"
  obtain cs raw p where c: "block_copies_of l ?i = Inr cs" "host_raw (tb_block tb) = Some raw" "segment_mapped_ptr raw 0 = Some p"
    "ds = (let off = host_offset (tb_block tb); kp = mapped_ptr_add p off
           in case cs of CopyContiguous c \<Rightarrow> [desc_at kp c]
              | CopySplit k v \<Rightarrow> [desc_at kp k, desc_at (v_pointer raw off kp (bc_bytes k)) v])"
    using assms(1) by (auto simp: block_descs_def Let_def split: sum.splits option.splits)
  have i: "?i < l_num_blocks l" using c(1) by (auto simp: block_copies_of_def Let_def split: if_splits)
  have top: "l_data_ptr l + l_size_bytes l \<le> u64_max" using assms(2) by (simp add: layout_wf_def)
  show ?thesis
  proof (cases "l_seg l")
    case Contiguous
    note b = block_copies_contiguous [OF assms(2) Contiguous i]
    with c top Contiguous show ?thesis
      by (auto simp: copies_of_def block_locs_def host_locs_raw raw_locs_def is_split_def Let_def desc_at_def desc_pairs_def
          byte_pairs_zip desc_fits_def segment_hosts v_pointer_def mapped_ptr_add_def split: option.splits)
  next
    case (Split kv)
    note b = block_copies_split [OF assms(2) Split i]
    with c top Split show ?thesis
      by (auto simp: copies_of_def block_locs_def host_locs_raw raw_locs_def is_split_def Let_def desc_at_def desc_pairs_def
          byte_pairs_zip desc_fits_def segment_hosts v_pointer_def mapped_ptr_add_def split: option.splits)
  qed
qed

text \<open>All device and host bytes of a task.\<close>

definition task_blocks :: "layer_transfer_data list \<Rightarrow> (kv_cache_layout \<times> transfer_block) list" where
  "task_blocks layers = concat (map (\<lambda>layer. map (Pair (lt_layout layer)) (lt_blocks layer)) layers)"

definition task_pairs :: "layer_transfer_data list \<Rightarrow> (nat \<times> nat) list" where
  "task_pairs layers =
     concat (map (\<lambda>(l, tb). zip (block_locs l (tb_block_idx tb)) (host_locs l (tb_block tb))) (task_blocks layers))"

definition device_locs :: "layer_transfer_data list \<Rightarrow> nat list" where
  "device_locs layers = concat (map (\<lambda>(l, tb). block_locs l (tb_block_idx tb)) (task_blocks layers))"

definition target_locs :: "layer_transfer_data list \<Rightarrow> nat list" where
  "target_locs layers = concat (map (\<lambda>(l, tb). host_locs l (tb_block tb)) (task_blocks layers))"

definition layouts_ok :: "layer_transfer_data list \<Rightarrow> bool" where
  "layouts_ok layers = (\<forall>layer \<in> set layers. layout_wf (lt_layout layer))"

lemma layer_descs_pairs:
  "layer_descs l tbs = Some (Inr ds) \<Longrightarrow> layout_wf l \<Longrightarrow>
     concat (map desc_pairs ds) = concat (map (\<lambda>tb. zip (block_locs l (tb_block_idx tb)) (host_locs l (tb_block tb))) tbs)
     \<and> (\<forall>tb \<in> set tbs. length (block_locs l (tb_block_idx tb)) = length (host_locs l (tb_block tb)))
     \<and> list_all desc_fits ds"
proof (induction tbs arbitrary: ds)
  case (Cons tb tbs)
  obtain d1 d2 where d: "block_descs l tb = Some (Inr d1)" "layer_descs l tbs = Some (Inr d2)" "ds = d1 @ d2"
    using Cons.prems(1) by (auto simp: map_ok split: option.splits sum.splits)
  from Cons.IH [OF d(2) Cons.prems(2)] block_descs_pairs [OF d(1) Cons.prems(2)] d(3) show ?case by simp
qed simp

lemma all_descs_pairs:
  "all_descs layers = Some (Inr ds) \<Longrightarrow> layouts_ok layers \<Longrightarrow>
     concat (map desc_pairs ds) = task_pairs layers
     \<and> (\<forall>(l, tb) \<in> set (task_blocks layers). length (block_locs l (tb_block_idx tb)) = length (host_locs l (tb_block tb)))
     \<and> list_all desc_fits ds"
proof (induction layers arbitrary: ds)
  case (Cons layer layers)
  obtain d1 d2 where d: "layer_descs (lt_layout layer) (lt_blocks layer) = Some (Inr d1)"
    "all_descs layers = Some (Inr d2)" "ds = d1 @ d2"
    using Cons.prems(1) by (auto simp: map_ok split: option.splits sum.splits)
  have wf: "layout_wf (lt_layout layer)" "layouts_ok layers" using Cons.prems(2) by (simp_all add: layouts_ok_def)
  from Cons.IH [OF d(2) wf(2)] layer_descs_pairs [OF d(1) wf(1)] d(3) show ?case
    by (auto simp: task_pairs_def task_blocks_def comp_def)
qed (simp add: task_pairs_def task_blocks_def)

lemma task_ok:
  assumes "process_task (\<lambda>copies. issue_copies move driver (merge_descs copies)) layers m = Some (Inr (), m')" "layouts_ok layers"
  shows "m' = foldl move m (task_pairs layers)"
    and "map fst (task_pairs layers) = device_locs layers" and "map snd (task_pairs layers) = target_locs layers"
    and "(l, tb) \<in> set (task_blocks layers) \<Longrightarrow> length (block_locs l (tb_block_idx tb)) = length (host_locs l (tb_block tb))"
proof -
  obtain ds where d: "all_descs layers = Some (Inr ds)" "issue_copies move driver (merge_descs ds) m = (Inr (), m')"
    using assms(1) by (auto simp: process_task_def build_copy_descs_def map_ok split: option.splits sum.splits prod.splits)
  note p = all_descs_pairs [OF d(1) assms(2)]
  show "m' = foldl move m (task_pairs layers)"
    using issue_copies_ok [OF d(2)] merge_descs_pairs p by simp
  have q: "map fst (concat (map (\<lambda>(l, tb). zip (block_locs l (tb_block_idx tb)) (host_locs l (tb_block tb))) xs)) =
      concat (map (\<lambda>(l, tb). block_locs l (tb_block_idx tb)) xs)"
    "map snd (concat (map (\<lambda>(l, tb). zip (block_locs l (tb_block_idx tb)) (host_locs l (tb_block tb))) xs)) =
      concat (map (\<lambda>(l, tb). host_locs l (tb_block tb)) xs)"
    if "\<forall>(l, tb) \<in> set xs. length (block_locs l (tb_block_idx tb)) = length (host_locs l (tb_block tb))" for xs
    using that by (induction xs) auto
  show "map fst (task_pairs layers) = device_locs layers" "map snd (task_pairs layers) = target_locs layers"
    unfolding task_pairs_def device_locs_def target_locs_def by (rule q, use p in blast)+
  show "(l, tb) \<in> set (task_blocks layers) \<Longrightarrow> length (block_locs l (tb_block_idx tb)) = length (host_locs l (tb_block tb))"
    using p by blast
qed

lemma task_pair_in:
  assumes "(l, tb) \<in> set (task_blocks layers)" "k < length (block_locs l (tb_block_idx tb))"
    "k < length (host_locs l (tb_block tb))"
  shows "(block_locs l (tb_block_idx tb) ! k, host_locs l (tb_block tb) ! k) \<in> set (task_pairs layers)"
proof -
  let ?z = "zip (block_locs l (tb_block_idx tb)) (host_locs l (tb_block tb))"
  have "?z ! k \<in> set ?z" using assms by (intro nth_mem) simp
  hence "(block_locs l (tb_block_idx tb) ! k, host_locs l (tb_block tb) ! k) \<in> set ?z" using assms by simp
  with assms(1) show ?thesis unfolding task_pairs_def by force
qed

lemma to_host_at:
  "distinct (map snd ps) \<Longrightarrow> p \<in> set ps \<Longrightarrow> host_mem (foldl to_host m ps) (snd p) = dev_mem m (fst p)"
proof (induction ps arbitrary: m)
  case (Cons q ps)
  have same: "dev_mem (to_host m q) = dev_mem m" by (simp add: to_host_def)
  have frame: "snd q \<notin> snd ` set ps \<Longrightarrow> host_mem (foldl to_host m' ps) (snd q) = host_mem m' (snd q)" for m'
    by (induction ps arbitrary: m') (auto simp: to_host_def)
  show ?case
  proof (cases "p = q")
    case True
    with Cons.prems frame [of "to_host m q"] show ?thesis by (simp add: to_host_def [of m q])
  next
    case False
    with Cons show ?thesis by (simp add: same)
  qed
qed simp

lemma to_device_at:
  "distinct (map fst ps) \<Longrightarrow> p \<in> set ps \<Longrightarrow> dev_mem (foldl to_device m ps) (fst p) = host_mem m (snd p)"
proof (induction ps arbitrary: m)
  case (Cons q ps)
  have same: "host_mem (to_device m q) = host_mem m" by (simp add: to_device_def)
  have frame: "fst q \<notin> fst ` set ps \<Longrightarrow> dev_mem (foldl to_device m' ps) (fst q) = dev_mem m' (fst q)" for m'
    by (induction ps arbitrary: m') (auto simp: to_device_def)
  show ?case
  proof (cases "p = q")
    case True
    with Cons.prems frame [of "to_device m q"] show ?thesis by (simp add: to_device_def [of m q])
  next
    case False
    with Cons show ?thesis by (simp add: same)
  qed
qed simp


section \<open>Examples\<close>

text \<open>A layout of two blocks of four bytes, saved block 0 into a page at byte 2 and loaded from there into block 1.\<close>

definition ex_layout :: "u64 \<Rightarrow> kv_cache_layout" where
  "ex_layout base = \<lparr>l_data_ptr = base, l_size_bytes = 8, l_num_blocks = 2, l_block_stride_bytes = 4, l_segment_bytes = 4,
     l_segments = 1, l_padded_segment_bytes = 4, l_seg = Contiguous\<rparr>"

definition ex_page :: pinned_allocation where
  "ex_page = \<lparr>pa_size = 8, pa_ptr = 500, pa_device_ptr = 900\<rparr>"

definition ex_slot :: "usize \<Rightarrow> usize \<Rightarrow> raw_block" where
  "ex_slot off n = single_segment \<lparr>seg_ptr = mapped_ptr_add (mapped_ptr_of ex_page) off, seg_size = n, seg_alloc = ex_page\<rparr>"

definition ex_task :: "u64 \<Rightarrow> usize \<Rightarrow> host_block \<Rightarrow> layer_transfer_data list" where
  "ex_task base i hb = [\<lparr>lt_layer_name = ''l'', lt_layout = ex_layout base, lt_blocks = [\<lparr>tb_block_idx = i, tb_block = hb\<rparr>]\<rparr>]"

definition ex_memory_map :: memory where
  "ex_memory_map = \<lparr>dev_mem = (\<lambda>a. word_of_nat a), host_mem = (\<lambda>_. 0)\<rparr>"

lemmas ex_copy_defs = ex_layout_def ex_page_def ex_slot_def ex_task_def mapped_ptr_add_def mapped_ptr_of_def single_segment_def
  segment_mapped_ptr_def segment_hosts nth_opt_def block_copies_of_def block_bytes_def is_split_def raw_locs_def
  copies_of_def block_locs_def task_blocks_def target_locs_def device_locs_def addresses_def from_slots_def get_slot_def

lemma ex_layout_ok: "layouts_ok (ex_task base i hb)" if "base + 8 \<le> u64_max"
  using that
  by (simp add: layouts_ok_def ex_task_def layout_wf_def ex_layout_def check_bounds_def layout_end_def block_bytes_def arith_defs
      u64_max_def)


end
