(* ===== verification/Lru.thy ===== *)
theory Lru
  imports Pega_Prelude
begin

text \<open>
  The interface of the LRU map the caches are built on (the \<^verbatim>\<open>hashlink\<close> crate, which is
  not part of the repository). The map is a parameter: a record of its operations. The locale
  \<open>lru_map\<close> states its documented behaviour over the iteration order, which runs from the
  least to the most recently used entry. The lists below are the reference behaviour; they
  also are an instance of the interface, on which the locale is interpreted.
\<close>

section \<open>Reference behaviour\<close>

definition list_touch :: "'k \<Rightarrow> ('k \<times> 'v) list \<Rightarrow> ('k \<times> 'v) list" where
  "list_touch k xs =
     (case map_of xs k of None \<Rightarrow> xs | Some v \<Rightarrow> AList.delete k xs @ [(k, v)])"

definition list_put :: "'k \<Rightarrow> 'v \<Rightarrow> ('k \<times> 'v) list \<Rightarrow> ('k \<times> 'v) list" where
  "list_put k v xs = AList.delete k xs @ [(k, v)]"

definition list_pop :: "('k \<times> 'v) list \<Rightarrow> ('k \<times> 'v) option \<times> ('k \<times> 'v) list" where
  "list_pop xs = (case xs of [] \<Rightarrow> (None, []) | x # ys \<Rightarrow> (Some x, ys))"

section \<open>The interface\<close>

record ('l, 'k, 'v) lru_ops =
  lru_new :: 'l
  lru_get :: "'k \<Rightarrow> 'l \<Rightarrow> 'v option \<times> 'l"
  lru_contains_key :: "'k \<Rightarrow> 'l \<Rightarrow> bool"
  lru_insert :: "'k \<Rightarrow> 'v \<Rightarrow> 'l \<Rightarrow> 'l"
  lru_remove_lru :: "'l \<Rightarrow> ('k \<times> 'v) option \<times> 'l"
  lru_iter :: "'l \<Rightarrow> ('k \<times> 'v) list"
  lru_drain :: "'l \<Rightarrow> ('k \<times> 'v) list \<times> 'l"

locale lru_map =
  fixes ops :: "('l, 'k, 'v) lru_ops"
    and inv :: "'l \<Rightarrow> bool"
  assumes inv_new [simp]: "inv (lru_new ops)"
    and iter_new [simp]: "lru_iter ops (lru_new ops) = []"
    and inv_distinct: "inv l \<Longrightarrow> distinct (map fst (lru_iter ops l))"
    and get_result: "inv l \<Longrightarrow> fst (lru_get ops k l) = map_of (lru_iter ops l) k"
    and get_iter: "inv l \<Longrightarrow> lru_iter ops (snd (lru_get ops k l)) = list_touch k (lru_iter ops l)"
    and get_inv: "inv l \<Longrightarrow> inv (snd (lru_get ops k l))"
    and contains_result:
      "inv l \<Longrightarrow> lru_contains_key ops k l \<longleftrightarrow> map_of (lru_iter ops l) k \<noteq> None"
    and insert_iter: "inv l \<Longrightarrow> lru_iter ops (lru_insert ops k v l) = list_put k v (lru_iter ops l)"
    and insert_inv: "inv l \<Longrightarrow> inv (lru_insert ops k v l)"
    and remove_result: "inv l \<Longrightarrow> fst (lru_remove_lru ops l) = fst (list_pop (lru_iter ops l))"
    and remove_iter:
      "inv l \<Longrightarrow> lru_iter ops (snd (lru_remove_lru ops l)) = snd (list_pop (lru_iter ops l))"
    and remove_inv: "inv l \<Longrightarrow> inv (snd (lru_remove_lru ops l))"
    and drain_result: "inv l \<Longrightarrow> fst (lru_drain ops l) = lru_iter ops l"
    and drain_iter: "inv l \<Longrightarrow> lru_iter ops (snd (lru_drain ops l)) = []"
    and drain_inv: "inv l \<Longrightarrow> inv (snd (lru_drain ops l))"

section \<open>Facts about the reference behaviour\<close>

lemma map_of_append_delete [simp]:
  "[k \<mapsto> v] ++ map_of (AList.delete k xs) = (map_of xs)(k \<mapsto> v)"
  by (auto simp: map_add_def delete_conv' fun_eq_iff split: option.splits)

lemma map_of_list_touch [simp]: "map_of (list_touch k xs) = map_of xs"
  by (auto simp: list_touch_def fun_upd_idem split: option.splits)

lemma map_of_list_put [simp]: "map_of (list_put k v xs) = (map_of xs)(k \<mapsto> v)"
  by (simp add: list_put_def)

lemma set_list_touch:
  assumes "distinct (map fst xs)"
  shows "set (list_touch k xs) = set xs"
  using assms
  by (auto simp: list_touch_def AList.delete_eq split: option.splits
      dest: map_of_SomeD eq_key_imp_eq_value)

lemma list_put_absent: "map_of xs k = None \<Longrightarrow> list_put k v xs = xs @ [(k, v)]"
  by (simp add: list_put_def delete_idem map_of_eq_None_iff)

lemma distinct_list_put: "distinct (map fst xs) \<Longrightarrow> distinct (map fst (list_put k v xs))"
  by (auto simp: list_put_def AList.delete_eq distinct_map_filter)

lemma distinct_list_touch: "distinct (map fst xs) \<Longrightarrow> distinct (map fst (list_touch k xs))"
  using distinct_list_put [of xs k] by (auto simp: list_touch_def list_put_def split: option.splits)

lemma distinct_list_pop: "distinct (map fst xs) \<Longrightarrow> distinct (map fst (snd (list_pop xs)))"
  by (cases xs) (auto simp: list_pop_def)

lemma hm_sum_split:
  "distinct (map fst xs) \<Longrightarrow> map_of xs k = Some v \<Longrightarrow>
     hm_sum f xs = f v + hm_sum f (AList.delete k xs)"
  by (simp add: hm_sum_remove hm_wf_def)

lemma hm_sum_list_touch:
  "distinct (map fst xs) \<Longrightarrow> hm_sum f (list_touch k xs) = hm_sum f xs"
  by (simp add: list_touch_def hm_sum_split split: option.split)

section \<open>The list instance\<close>

definition list_lru_ops :: "(('k \<times> 'v) list, 'k, 'v) lru_ops" where
  "list_lru_ops =
     \<lparr>lru_new = [],
      lru_get = (\<lambda>k xs. (map_of xs k, list_touch k xs)),
      lru_contains_key = (\<lambda>k xs. map_of xs k \<noteq> None),
      lru_insert = list_put,
      lru_remove_lru = list_pop,
      lru_iter = (\<lambda>xs. xs),
      lru_drain = (\<lambda>xs. (xs, []))\<rparr>"

interpretation list_lru: lru_map list_lru_ops "\<lambda>xs. distinct (map fst xs)"
  by unfold_locales
    (simp_all add: list_lru_ops_def distinct_list_put distinct_list_touch distinct_list_pop)

end
