(* ===== verification/Tiny_Lfu.thy ===== *)
theory Tiny_Lfu
  imports Lru
begin

text \<open>
  The cache with TinyLFU admission of \<^verbatim>\<open>pegaflow-core/src/cache.rs\<close>: the count-min
  sketch \<open>Estimator\<close>, the ageing window \<open>TinyLfu\<close> and the cache itself. The row hashers (the
  \<^verbatim>\<open>ahash\<close> crate) are function parameters, and so are the two floating point expressions
  of \<open>optimal_paras\<close>. Counters are 8-bit words.
\<close>

unbundle bit_operations_syntax

section \<open>The sketch\<close>

type_synonym 'k hasher = "'k \<Rightarrow> u64"

type_synonym 'k sketch_row = "byte list \<times> 'k hasher"

type_synonym 'k estimator = "'k sketch_row list"

definition DEFAULT_BYTES_PER_VALUE :: usize where
  "DEFAULT_BYTES_PER_VALUE = 128 * 1024 * 1024"

definition optimal_paras :: "(usize \<Rightarrow> usize \<times> usize) \<Rightarrow> usize \<Rightarrow> usize \<times> usize" where
  "optimal_paras float_paras items =
     (max (fst (float_paras items)) 16, max (snd (float_paras items)) 2)"

definition estimator_new :: "usize \<Rightarrow> usize \<Rightarrow> (nat \<Rightarrow> 'k hasher) \<Rightarrow> 'k estimator" where
  "estimator_new hashes slots random = map (\<lambda>i. (replicate slots 0, random i)) [0..<hashes]"

definition estimator_optimal ::
    "(usize \<Rightarrow> usize \<times> usize) \<Rightarrow> (nat \<Rightarrow> 'k hasher) \<Rightarrow> usize \<Rightarrow> 'k estimator" where
  "estimator_optimal float_paras random items =
     (let (slots, hashes) = optimal_paras float_paras items in estimator_new hashes slots random)"

definition estimator_compact ::
    "(usize \<Rightarrow> usize \<times> usize) \<Rightarrow> (nat \<Rightarrow> 'k hasher) \<Rightarrow> usize \<Rightarrow> 'k estimator" where
  "estimator_compact float_paras random items =
     (let (slots, hashes) = optimal_paras float_paras (items div 100)
      in estimator_new hashes slots random)"

text \<open>
  One increment. \<open>incr_cas\<close> is the loop with its interference written out: each iteration
  loads \<open>current\<close> and its compare-and-exchange then observes \<open>seen\<close>; the result \<open>None\<close> says
  that the loop is still running after the given iterations. \<open>incr_no_overflow\<close> is the loop
  without interference, which is how the read cache, under its mutex, runs it.
\<close>

definition next_count :: "byte \<Rightarrow> byte" where
  "next_count current = (if current = 254 then 255 else current + 1)"

fun incr_cas :: "(byte \<times> byte) list \<Rightarrow> (byte \<times> byte) option" where
  "incr_cas [] = None"
| "incr_cas ((current, seen) # env) =
     (if current = 255 then Some (current, current)
      else if seen = current then Some (current, next_count current)
      else if seen = 255 then Some (current, seen)
      else incr_cas env)"

definition incr_no_overflow :: "byte \<Rightarrow> byte \<times> byte" where
  "incr_no_overflow current =
     (if current = 255 then (current, current) else (current, next_count current))"

definition row_counter :: "'k \<Rightarrow> 'k sketch_row \<Rightarrow> byte" where
  "row_counter key row = (case row of (slot, hasher) \<Rightarrow> slot ! (hasher key mod length slot))"

definition row_incr :: "'k \<Rightarrow> 'k sketch_row \<Rightarrow> 'k sketch_row" where
  "row_incr key row =
     (case row of (slot, hasher) \<Rightarrow>
        (let i = hasher key mod length slot
         in (slot[i := snd (incr_no_overflow (slot ! i))], hasher)))"

definition estimator_incr :: "'k \<Rightarrow> 'k estimator \<Rightarrow> byte \<times> 'k estimator" where
  "estimator_incr key est =
     (foldl (\<lambda>m row. min m (snd (incr_no_overflow (row_counter key row)))) 255 est,
      map (row_incr key) est)"

definition estimator_get :: "'k \<Rightarrow> 'k estimator \<Rightarrow> byte" where
  "estimator_get key est = foldl (\<lambda>m row. min m (row_counter key row)) 255 est"

definition row_age :: "nat \<Rightarrow> 'k sketch_row \<Rightarrow> 'k sketch_row" where
  "row_age shift row = (case row of (slot, hasher) \<Rightarrow> (map (drop_bit shift) slot, hasher))"

definition estimator_age :: "nat \<Rightarrow> 'k estimator \<Rightarrow> 'k estimator" where
  "estimator_age shift est = map (row_age shift) est"

section \<open>The ageing window\<close>

record 'k tiny_lfu =
  estimator :: "'k estimator"
  window_counter :: usize
  window_limit :: usize

definition tlfu_new ::
    "(usize \<Rightarrow> usize \<times> usize) \<Rightarrow> (nat \<Rightarrow> 'k hasher) \<Rightarrow> usize \<Rightarrow> 'k tiny_lfu" where
  "tlfu_new float_paras random cache_size =
     \<lparr>estimator = estimator_optimal float_paras random cache_size, window_counter = 0,
      window_limit = wrapping_mul cache_size 8\<rparr>"

definition tlfu_new_compact ::
    "(usize \<Rightarrow> usize \<times> usize) \<Rightarrow> (nat \<Rightarrow> 'k hasher) \<Rightarrow> usize \<Rightarrow> 'k tiny_lfu" where
  "tlfu_new_compact float_paras random cache_size =
     \<lparr>estimator = estimator_compact float_paras random cache_size, window_counter = 0,
      window_limit = wrapping_mul cache_size 8\<rparr>"

definition tlfu_get :: "'k \<Rightarrow> 'k tiny_lfu \<Rightarrow> byte" where
  "tlfu_get key t = estimator_get key (estimator t)"

definition window_over :: "usize \<Rightarrow> usize \<Rightarrow> bool" where
  "window_over window_size limit \<longleftrightarrow>
     window_size = limit \<or> wrapping_mul limit 2 < window_size"

definition tlfu_incr :: "'k \<Rightarrow> 'k tiny_lfu \<Rightarrow> byte \<times> 'k tiny_lfu" where
  "tlfu_incr key t =
     (let window_size = window_counter t;
          t1 = t\<lparr>window_counter := wrapping_add window_size 1\<rparr>;
          t2 = (if window_over window_size (window_limit t)
                then t1\<lparr>window_counter := 0, estimator := estimator_age 1 (estimator t1)\<rparr>
                else t1);
          (m, est) = estimator_incr key (estimator t2)
      in (m, t2\<lparr>estimator := est\<rparr>))"

section \<open>The cache\<close>

datatype cache_insert_outcome = InsertedNew | AlreadyExists | Rejected

record ('l, 'k) tiny_lfu_cache =
  lru :: 'l
  freq :: "'k tiny_lfu option"

definition new_unbounded ::
    "('l, 'k, 'v) lru_ops \<Rightarrow> (usize \<Rightarrow> usize \<times> usize) \<Rightarrow> (nat \<Rightarrow> 'k hasher) \<Rightarrow> usize \<Rightarrow> bool \<Rightarrow>
     usize option \<Rightarrow> ('l, 'k) tiny_lfu_cache" where
  "new_unbounded ops float_paras random capacity_bytes enable_lfu_admission hint =
     (let bytes_per_value =
            (case hint of Some n \<Rightarrow> if 0 < n then n else DEFAULT_BYTES_PER_VALUE
             | None \<Rightarrow> DEFAULT_BYTES_PER_VALUE);
          estimated_items = max 1 (capacity_bytes div bytes_per_value)
      in \<lparr>lru = lru_new ops,
          freq = (if enable_lfu_admission then Some (tlfu_new float_paras random estimated_items)
                  else None)\<rparr>)"

definition cache_get ::
    "('l, 'k, 'v) lru_ops \<Rightarrow> 'k \<Rightarrow> ('l, 'k) tiny_lfu_cache \<Rightarrow>
     'v option \<times> ('l, 'k) tiny_lfu_cache" where
  "cache_get ops key c =
     (let (hit, l) = lru_get ops key (lru c)
      in (hit, c\<lparr>lru := l,
                 freq := (if hit \<noteq> None then map_option (\<lambda>t. snd (tlfu_incr key t)) (freq c)
                          else freq c)\<rparr>))"

definition cache_contains_key :: "('l, 'k, 'v) lru_ops \<Rightarrow> 'k \<Rightarrow> ('l, 'k) tiny_lfu_cache \<Rightarrow> bool" where
  "cache_contains_key ops key c = lru_contains_key ops key (lru c)"

text \<open>The admission test: the candidate is colder than the current LRU victim.\<close>

definition colder_than_victim ::
    "('l, 'k, 'v) lru_ops \<Rightarrow> 'k \<Rightarrow> ('l, 'k) tiny_lfu_cache \<Rightarrow> bool" where
  "colder_than_victim ops key c =
     (case freq c of None \<Rightarrow> False
      | Some t \<Rightarrow>
          (case lru_iter ops (lru c) of [] \<Rightarrow> False
           | (victim_key, _) # _ \<Rightarrow> tlfu_get key t < tlfu_get victim_key t))"

definition cache_insert ::
    "('l, 'k, 'v) lru_ops \<Rightarrow> 'k \<Rightarrow> 'v \<Rightarrow> ('l, 'k) tiny_lfu_cache \<Rightarrow>
     cache_insert_outcome \<times> ('l, 'k) tiny_lfu_cache" where
  "cache_insert ops key v c =
     (let c1 = c\<lparr>freq := map_option (\<lambda>t. snd (tlfu_incr key t)) (freq c)\<rparr>
      in if lru_contains_key ops key (lru c1) then (AlreadyExists, c1)
         else if colder_than_victim ops key c1 then (Rejected, c1)
         else (InsertedNew, c1\<lparr>lru := lru_insert ops key v (lru c1)\<rparr>))"

definition cache_remove_lru ::
    "('l, 'k, 'v) lru_ops \<Rightarrow> ('l, 'k) tiny_lfu_cache \<Rightarrow>
     ('k \<times> 'v) option \<times> ('l, 'k) tiny_lfu_cache" where
  "cache_remove_lru ops c =
     (let (r, l) = lru_remove_lru ops (lru c) in (r, c\<lparr>lru := l\<rparr>))"

definition cache_remove_all ::
    "('l, 'k, 'v) lru_ops \<Rightarrow> ('l, 'k) tiny_lfu_cache \<Rightarrow> ('k \<times> 'v) list \<times> ('l, 'k) tiny_lfu_cache" where
  "cache_remove_all ops c =
     (let (xs, l) = lru_drain ops (lru c) in (xs, c\<lparr>lru := l\<rparr>))"

section \<open>The sketch against exact counters\<close>

text \<open>
  The exact counterpart of the sketch: one saturating counter per key, halved when the window
  closes. It is what the sketch approximates.
\<close>

definition exact_incr :: "usize \<Rightarrow> 'k \<Rightarrow> ('k \<Rightarrow> nat) \<times> usize \<Rightarrow> ('k \<Rightarrow> nat) \<times> usize" where
  "exact_incr limit key s =
     (let (d, w) = s;
          (d1, w1) = (if window_over w limit then (\<lambda>k. d k div 2, 0) else (d, wrapping_add w 1))
      in (d1(key := min 255 (d1 key + 1)), w1))"

definition exact_count :: "usize \<Rightarrow> 'k list \<Rightarrow> 'k \<Rightarrow> nat" where
  "exact_count limit ks = fst (foldl (\<lambda>s k. exact_incr limit k s) (\<lambda>_. 0, 0) ks)"

definition tlfu_run :: "'k list \<Rightarrow> 'k tiny_lfu \<Rightarrow> 'k tiny_lfu" where
  "tlfu_run ks t = foldl (\<lambda>t k. snd (tlfu_incr k t)) t ks"

text \<open>A row separates a key from a list of keys when none of the others shares its counter.\<close>

definition row_separates :: "'k \<Rightarrow> 'k list \<Rightarrow> 'k sketch_row \<Rightarrow> bool" where
  "row_separates key ks row =
     (case row of (slot, hasher) \<Rightarrow>
        list_all (\<lambda>k. k = key \<or> hasher k mod length slot \<noteq> hasher key mod length slot) ks)"

lemma unat_next: "c \<noteq> 255 \<Longrightarrow> unat (next_count c) = unat c + 1"
proof -
  assume c: "c \<noteq> 255"
  have "unat c < 256" using unsigned_less [of c, where ?'a = nat] by simp
  moreover have "unat c \<noteq> 255"
  proof
    assume "unat c = 255"
    then have "unat c = unat (255 :: byte)" by simp
    then have "c = 255" by (simp only: word_unat_eq_iff)
    with c show False by simp
  qed
  ultimately have "unat c + 1 < 256" by simp
  then have "unat (c + 1) = unat c + 1" by (simp add: unat_word_ariths)
  moreover have "next_count c = c + 1" by (simp add: next_count_def)
  ultimately show ?thesis by simp
qed

lemma unat_incr: "unat (snd (incr_no_overflow c)) = min 255 (unat c + 1)"
proof (cases "c = 255")
  case False
  have "unat c < 256" using unsigned_less [of c, where ?'a = nat] by simp
  then have "unat (next_count c) = min 255 (unat c + 1)"
    using unsigned_less [of "next_count c", where ?'a = nat] unat_next [OF False] by simp
  with False show ?thesis by (simp add: incr_no_overflow_def)
qed (simp add: incr_no_overflow_def)

lemma unat_drop: "unat (drop_bit 1 (c :: byte)) = unat c div 2"
  by (simp add: drop_bit_eq_div unat_div_distrib)

lemma incr_cas_alone: "incr_cas [(c, c)] = Some (incr_no_overflow c)"
  by (simp add: incr_no_overflow_def)

lemma unat_fold_min:
  "n \<le> unat (foldl (\<lambda>m r. min m (f r)) (a :: byte) rs) \<longleftrightarrow>
     n \<le> unat a \<and> (\<forall>r \<in> set rs. n \<le> unat (f r))"
proof (induction rs arbitrary: a)
  case (Cons r rs)
  have "unat (min a (f r)) = min (unat a) (unat (f r))"
    by (simp add: min_def word_le_nat_alt)
  with Cons show ?case by auto
qed simp

lemma estimator_get_ge:
  "n \<le> unat (estimator_get key est) \<longleftrightarrow> n \<le> 255 \<and> (\<forall>r \<in> set est. n \<le> unat (row_counter key r))"
  by (simp add: estimator_get_def unat_fold_min)

lemma row_counter_incr:
  "fst row \<noteq> [] \<Longrightarrow> row_counter k (row_incr key row) =
     (if snd row k mod length (fst row) = snd row key mod length (fst row)
      then snd (incr_no_overflow (row_counter k row)) else row_counter k row)"
  by (cases row) (auto simp: row_counter_def row_incr_def Let_def)

lemma row_counter_age:
  "fst row \<noteq> [] \<Longrightarrow>
     row_counter k (row_age 1 row) = drop_bit 1 (row_counter k row)"
  by (cases row) (auto simp: row_counter_def row_age_def)

lemma row_incr_shape [simp]:
  "length (fst (row_incr key row)) = length (fst row)" "snd (row_incr key row) = snd row"
  by (cases row; simp add: row_incr_def Let_def)+

text \<open>
  The relation kept between a row and the exact counters: no counter is below, and the counter
  of a separated key is equal.
\<close>

definition row_rel :: "'k \<Rightarrow> 'k list \<Rightarrow> ('k \<Rightarrow> nat) \<Rightarrow> 'k sketch_row \<Rightarrow> bool" where
  "row_rel key ks d row \<longleftrightarrow>
     fst row \<noteq> [] \<and> (\<forall>k. d k \<le> unat (row_counter k row)) \<and>
     (row_separates key ks row \<longrightarrow> d key = unat (row_counter key row))"

lemma row_rel_incr:
  assumes "row_rel key ks d row" "k \<in> set ks"
  shows "row_rel key ks (d(k := min 255 (d k + 1))) (row_incr k row)"
proof -
  have ne: "fst row \<noteq> []" and le: "\<And>k. d k \<le> unat (row_counter k row)"
    and eq: "row_separates key ks row \<Longrightarrow> d key = unat (row_counter key row)"
    using assms(1) by (auto simp: row_rel_def)
  let ?d = "d(k := min 255 (d k + 1))"
  have "?d j \<le> unat (row_counter j (row_incr k row))" for j
    using le [of j] unsigned_less [of "row_counter j row", where ?'a = nat]
    by (cases "j = k") (auto simp: row_counter_incr [OF ne] unat_incr)
  moreover have "?d key = unat (row_counter key (row_incr k row))"
    if sep: "row_separates key ks (row_incr k row)"
  proof -
    from sep have s: "row_separates key ks row"
      by (cases row) (simp add: row_separates_def row_incr_def Let_def)
    show ?thesis
    proof (cases "k = key")
      case True
      with eq [OF s] show ?thesis by (simp add: row_counter_incr [OF ne] unat_incr)
    next
      case False
      with s assms(2) have "snd row key mod length (fst row) \<noteq> snd row k mod length (fst row)"
        by (cases row) (auto simp: row_separates_def list_all_iff)
      with False eq [OF s] show ?thesis by (simp add: row_counter_incr [OF ne])
    qed
  qed
  moreover have "fst (row_incr k row) \<noteq> []"
    using ne by (metis length_0_conv row_incr_shape(1))
  ultimately show ?thesis unfolding row_rel_def by blast
qed

lemma row_rel_age:
  assumes "row_rel key ks d row"
  shows "row_rel key ks (\<lambda>k. d k div 2) (row_age 1 row)"
proof -
  have ne: "fst row \<noteq> []" using assms by (simp add: row_rel_def)
  have "row_separates key ks (row_age 1 row) =
      row_separates key ks row"
    by (cases row) (simp add: row_separates_def row_age_def)
  moreover have "fst (row_age 1 row) \<noteq> []" using ne by (cases row) (simp add: row_age_def)
  ultimately show ?thesis
    using assms unfolding row_rel_def row_counter_age [OF ne] unat_drop
    by (auto intro: div_le_mono)
qed

lemma tlfu_incr_estimator:
  "estimator (snd (tlfu_incr key t)) =
     map (row_incr key) (if window_over (window_counter t) (window_limit t)
                         then estimator_age 1 (estimator t) else estimator t)"
  "window_counter (snd (tlfu_incr key t)) =
     (if window_over (window_counter t) (window_limit t) then 0
      else wrapping_add (window_counter t) 1)"
  "window_limit (snd (tlfu_incr key t)) = window_limit t"
  by (simp_all add: tlfu_incr_def estimator_incr_def Let_def)

text \<open>The simulation between the sketch and the exact counters.\<close>

definition sketch_rel :: "'k \<Rightarrow> 'k list \<Rightarrow> ('k \<Rightarrow> nat) \<times> usize \<Rightarrow> 'k tiny_lfu \<Rightarrow> bool" where
  "sketch_rel key ks s t \<longleftrightarrow>
     window_counter t = snd s \<and> (\<forall>k. fst s k \<le> 255) \<and>
     (\<forall>row \<in> set (estimator t). row_rel key ks (fst s) row)"

lemma sketch_rel_incr:
  assumes "sketch_rel key ks s t" "k \<in> set ks"
  shows "sketch_rel key ks (exact_incr (window_limit t) k s) (snd (tlfu_incr k t))"
proof -
  obtain d w where s: "s = (d, w)" by (cases s)
  have w: "window_counter t = w" and d: "\<And>k. d k \<le> 255"
    and rows: "\<And>row. row \<in> set (estimator t) \<Longrightarrow> row_rel key ks d row"
    using assms(1) by (auto simp: sketch_rel_def s)
  let ?over = "window_over w (window_limit t)"
  define d1 where "d1 = (if ?over then (\<lambda>k. d k div 2) else d)"
  define est where "est = (if ?over then estimator_age 1 (estimator t) else estimator t)"
  have "row_rel key ks d1 row" if "row \<in> set est" for row
    using that rows by (auto simp: est_def d1_def estimator_age_def row_rel_age [simplified]
        split: if_splits)
  then have "row_rel key ks (d1(k := min 255 (d1 k + 1))) row"
      if "row \<in> set (map (row_incr k) est)" for row
    using that row_rel_incr [OF _ assms(2), of key d1] by auto
  moreover have "(d1(k := min 255 (d1 k + 1))) j \<le> 255" for j
    using d [of j] by (auto simp: d1_def intro: order_trans [OF div_le_dividend])
  moreover have "exact_incr (window_limit t) k s =
      (d1(k := min 255 (d1 k + 1)), if ?over then 0 else wrapping_add w 1)"
    by (simp add: exact_incr_def s d1_def)
  moreover have "estimator (snd (tlfu_incr k t)) = map (row_incr k) est"
    by (simp add: tlfu_incr_estimator est_def w)
  ultimately show ?thesis
    unfolding sketch_rel_def by (simp only: fst_conv snd_conv tlfu_incr_estimator(2) w) blast
qed

lemma sketch_rel_run:
  "sketch_rel key ks s t \<Longrightarrow> set js \<subseteq> set ks \<Longrightarrow>
     sketch_rel key ks (foldl (\<lambda>s k. exact_incr (window_limit t) k s) s js) (tlfu_run js t)"
proof (induction js arbitrary: s t)
  case (Cons j js)
  have "sketch_rel key ks (exact_incr (window_limit t) j s) (snd (tlfu_incr j t))"
    using Cons.prems by (intro sketch_rel_incr) auto
  from Cons.IH [OF this] Cons.prems(2) show ?case
    by (simp add: tlfu_run_def tlfu_incr_estimator(3))
qed (simp add: tlfu_run_def)

lemma estimator_new_rows:
  "row \<in> set (estimator (tlfu_new fp random n)) \<Longrightarrow>
     16 \<le> length (fst row) \<and> (\<forall>c \<in> set (fst row). c = 0)"
  by (auto simp: tlfu_new_def estimator_optimal_def optimal_paras_def estimator_new_def)

lemma sketch_rel_new: "sketch_rel key ks (\<lambda>_. 0, 0) (tlfu_new fp random n)"
proof -
  have "row_rel key ks (\<lambda>_. 0) row" if "row \<in> set (estimator (tlfu_new fp random n))" for row
  proof -
    from estimator_new_rows [OF that] have "fst row \<noteq> []" by auto
    then have "row_counter key row \<in> set (fst row)"
      by (cases row) (simp add: row_counter_def)
    with estimator_new_rows [OF that] have "row_counter key row = 0" by blast
    with \<open>fst row \<noteq> []\<close> show ?thesis by (simp add: row_rel_def)
  qed
  then show ?thesis by (simp add: sketch_rel_def tlfu_new_def)
qed

lemma row_shape_run:
  "map (\<lambda>r. (length (fst r), snd r)) (estimator (tlfu_run ks t)) =
   map (\<lambda>r. (length (fst r), snd r)) (estimator t)"
proof (induction ks arbitrary: t)
  case (Cons k ks)
  have "map (\<lambda>r. (length (fst r), snd r)) (estimator (snd (tlfu_incr k t))) =
      map (\<lambda>r. (length (fst r), snd r)) (estimator t)"
    by (auto simp: tlfu_incr_estimator estimator_age_def row_age_def
        case_prod_beta)
  with Cons [of "snd (tlfu_incr k t)"] show ?case by (simp add: tlfu_run_def)
qed (simp add: tlfu_run_def)

lemma row_separates_run:
  "(\<exists>row \<in> set (estimator (tlfu_run js t)). row_separates key ks row) \<longleftrightarrow>
   (\<exists>row \<in> set (estimator t). row_separates key ks row)"
proof -
  let ?sep = "\<lambda>(n, h). list_all (\<lambda>k. k = key \<or> h k mod n \<noteq> h key mod n) ks"
  have sep: "row_separates key ks row \<longleftrightarrow> ?sep (length (fst row), snd row)" for row
    by (cases row) (simp add: row_separates_def)
  have "(\<exists>row \<in> set rs. row_separates key ks row) \<longleftrightarrow>
      (\<exists>x \<in> set (map (\<lambda>r. (length (fst r), snd r)) rs). ?sep x)" for rs
    unfolding sep by simp
  then show ?thesis by (simp only: row_shape_run)
qed

lemma sketch_rows:
  assumes "row \<in> set (estimator (tlfu_run ks (tlfu_new fp random n)))"
  shows "row_rel key ks (exact_count (wrapping_mul n 8) ks) row"
proof -
  have "window_limit (tlfu_new fp random n) = wrapping_mul n 8" by (simp add: tlfu_new_def)
  with sketch_rel_run [OF sketch_rel_new, of ks ks key fp random n] assms
  show ?thesis by (auto simp: sketch_rel_def exact_count_def)
qed

lemma exact_count_byte: "exact_count limit ks key \<le> 255"
proof -
  have "fst (foldl (\<lambda>s k. exact_incr limit k s) (d, w) ks) key \<le> 255" if "\<And>k. d k \<le> 255" for d w
    using that
  proof (induction ks arbitrary: d w)
    case (Cons k ks)
    obtain d' w' where e: "exact_incr limit k (d, w) = (d', w')" by (rule prod.exhaust)
    have "d' j \<le> 255" for j
    proof -
      have "d j div 2 \<le> 255" using Cons.prems [of j] by (meson div_le_dividend order_trans)
      with e Cons.prems [of j] show ?thesis by (auto simp: exact_incr_def Let_def split: if_splits)
    qed
    from Cons.IH [of d' w', OF this] e show ?case by simp
  qed simp
  thus ?thesis by (simp add: exact_count_def)
qed

lemma estimate_ge: "exact_count (wrapping_mul n 8) ks key \<le> unat (tlfu_get key (tlfu_run ks (tlfu_new fp random n)))"
  using sketch_rows [of _ ks fp random n key] exact_count_byte [of "wrapping_mul n 8" ks key]
  by (auto simp: tlfu_get_def estimator_get_ge row_rel_def)

lemma estimate_separated:
  assumes "\<exists>row \<in> set (estimator (tlfu_run ks (tlfu_new fp random n))). row_separates key ks row"
  shows "unat (tlfu_get key (tlfu_run ks (tlfu_new fp random n))) = exact_count (wrapping_mul n 8) ks key"
proof -
  let ?t = "tlfu_run ks (tlfu_new fp random n)"
  obtain row where row: "row \<in> set (estimator ?t)" "row_separates key ks row" using assms by blast
  have "unat (tlfu_get key ?t) \<le> unat (row_counter key row)"
    using estimator_get_ge [of "unat (tlfu_get key ?t)" key "estimator ?t"] row(1) by (simp add: tlfu_get_def)
  with sketch_rows [OF row(1), of key] row(2) have "unat (tlfu_get key ?t) \<le> exact_count (wrapping_mul n 8) ks key"
    by (simp add: row_rel_def)
  with estimate_ge [of n ks key fp random] show ?thesis by simp
qed

text \<open>
  C14. The frequency sketch never underestimates: whatever accesses it has recorded, ageing
  included, the estimate of a key is at least the exact decayed count of the key, and it is
  exactly that count when one of the sketch's rows gives the key a counter of its own.
\<close>

theorem sketch_estimate:
  "exact_count (wrapping_mul n 8) ks key
      \<le> unat (tlfu_get key (tlfu_run ks (tlfu_new fp random n))) \<and>
   ((\<exists>row \<in> set (estimator (tlfu_run ks (tlfu_new fp random n))). row_separates key ks row) \<longrightarrow>
      unat (tlfu_get key (tlfu_run ks (tlfu_new fp random n)))
        = exact_count (wrapping_mul n 8) ks key)"
  by (simp add: estimate_ge estimate_separated)

lemma sketch_estimate_witness:
  "exact_count 16 [1, 5, 1 :: nat] 1 = 2 \<and>
   unat (tlfu_get 1 (tlfu_run [1, 5, 1] (tlfu_new (\<lambda>n. (n, n)) (\<lambda>i k. k + i) 2))) = 2"
proof -
  have ex: "exact_count 16 [1, 5, 1 :: nat] 1 = 2"
    by (simp add: exact_count_def exact_incr_def window_over_def wrapping_mul_def wrapping_add_def)
  have "\<exists>row \<in> set (estimator (tlfu_run [1, 5, 1] (tlfu_new (\<lambda>n. (n, n)) (\<lambda>i k. k + i) 2))).
      row_separates (1 :: nat) [1, 5, 1] row"
    unfolding row_separates_run
    by (simp add: tlfu_new_def estimator_optimal_def optimal_paras_def estimator_new_def
        row_separates_def upt_rec)
  with sketch_estimate [of 2 "[1, 5, 1 :: nat]" 1 "\<lambda>n. (n, n)" "\<lambda>i k. k + i"] ex
  show ?thesis by (simp add: wrapping_mul_def)
qed

section \<open>The cache over the map interface\<close>

context lru_map begin

lemma cache_get_spec:
  assumes "inv (lru c)"
  shows "fst (cache_get ops key c) = map_of (lru_iter ops (lru c)) key"
    "lru_iter ops (lru (snd (cache_get ops key c))) = list_touch key (lru_iter ops (lru c))"
    "inv (lru (snd (cache_get ops key c)))"
  using assms get_result [OF assms, of key] get_iter [OF assms, of key] get_inv [OF assms, of key]
  by (simp_all add: cache_get_def case_prod_beta)

lemma cache_insert_spec:
  assumes "inv (lru c)"
  shows "inv (lru (snd (cache_insert ops key v c)))"
    "lru_iter ops (lru (snd (cache_insert ops key v c))) =
       (if fst (cache_insert ops key v c) = InsertedNew
        then lru_iter ops (lru c) @ [(key, v)] else lru_iter ops (lru c))"
    "fst (cache_insert ops key v c) = AlreadyExists \<longleftrightarrow> map_of (lru_iter ops (lru c)) key \<noteq> None"
  using assms
  by (auto simp: cache_insert_def Let_def contains_result insert_inv insert_iter list_put_absent)

lemma cache_remove_lru_spec:
  assumes "inv (lru c)"
  shows "inv (lru (snd (cache_remove_lru ops c)))"
    "fst (cache_remove_lru ops c) = fst (list_pop (lru_iter ops (lru c)))"
    "lru_iter ops (lru (snd (cache_remove_lru ops c))) = snd (list_pop (lru_iter ops (lru c)))"
  using assms
  by (simp_all add: cache_remove_lru_def case_prod_beta remove_inv remove_result remove_iter)

lemma cache_remove_all_spec:
  assumes "inv (lru c)"
  shows "inv (lru (snd (cache_remove_all ops c)))"
    "fst (cache_remove_all ops c) = lru_iter ops (lru c)"
    "lru_iter ops (lru (snd (cache_remove_all ops c))) = []"
  using assms
  by (simp_all add: cache_remove_all_def case_prod_beta drain_inv drain_result drain_iter)

end

text \<open>
  C15. Insertion with admission, in a cache whose sketch has recorded the accesses \<open>ks\<close> since it was made. The access is
  always recorded. A key already resident is left alone; a new key becomes the most recently used one unless it is
  rejected, which happens only with admission and only for an estimated count below that of the entry evicted next. With
  the exact decayed counts: a key is rejected only when it has been accessed less often than that entry, if the sketch
  gives that entry a counter of its own; and a key accessed less often is rejected, if the sketch gives the key a counter
  of its own. In no case is another entry evicted, replaced or reordered.
\<close>

theorem cache_insert_admission:
  assumes lru: "lru_map ops I" "I (lru c)"
    and freq: "freq c = (if admission then Some (tlfu_run ks (tlfu_new fp random n)) else None)"
  shows "(let iter = lru_iter ops (lru c); victim = fst (hd iter);
              seen = ks @ [key]; t = tlfu_run seen (tlfu_new fp random n);
              exact = exact_count (wrapping_mul n 8) seen;
              (outcome, c') = cache_insert ops key v c
          in I (lru c') \<and> freq c' = (if admission then Some t else None) \<and>
             lru_iter ops (lru c') = (if outcome = InsertedNew then iter @ [(key, v)] else iter) \<and>
             (outcome = AlreadyExists \<longleftrightarrow> key \<in> fst ` set iter) \<and>
             (outcome = Rejected \<longleftrightarrow>
                admission \<and> iter \<noteq> [] \<and> key \<notin> fst ` set iter \<and> tlfu_get key t < tlfu_get victim t) \<and>
             (outcome = Rejected \<and> (\<exists>row \<in> set (estimator t). row_separates victim seen row) \<longrightarrow> exact key < exact victim) \<and>
             (admission \<and> iter \<noteq> [] \<and> key \<notin> fst ` set iter \<and> exact key < exact victim \<and>
                (\<exists>row \<in> set (estimator t). row_separates key seen row) \<longrightarrow> outcome = Rejected))"
proof -
  let ?iter = "lru_iter ops (lru c)" and ?seen = "ks @ [key]"
  let ?victim = "fst (hd ?iter)" and ?t = "tlfu_run ?seen (tlfu_new fp random n)"
  let ?exact = "exact_count (wrapping_mul n 8) ?seen"
  obtain outcome c' where r: "cache_insert ops key v c = (outcome, c')" by (rule prod.exhaust)
  note spec = lru_map.cache_insert_spec [OF lru, of key v, unfolded r]
  have resident: "lru_contains_key ops key (lru c) \<longleftrightarrow> key \<in> fst ` set ?iter"
    using lru_map.contains_result [OF lru, of key] by (simp add: map_of_eq_None_iff)
  have seen: "map_option (\<lambda>t. snd (tlfu_incr key t)) (freq c) = (if admission then Some ?t else None)"
    by (simp add: freq tlfu_run_def)
  have rej: "outcome = Rejected \<longleftrightarrow>
      admission \<and> ?iter \<noteq> [] \<and> key \<notin> fst ` set ?iter \<and> tlfu_get key ?t < tlfu_get ?victim ?t"
    using r resident
    by (cases ?iter) (auto simp: cache_insert_def seen colder_than_victim_def Let_def split: if_splits)
  have "?exact key < ?exact ?victim" if "outcome = Rejected" "\<exists>row \<in> set (estimator ?t). row_separates ?victim ?seen row"
    using that(1) estimate_ge [of n ?seen key fp random] estimate_separated [OF that(2)]
    by (simp add: rej word_less_nat_alt)
  moreover have "tlfu_get key ?t < tlfu_get ?victim ?t"
    if "?exact key < ?exact ?victim" "\<exists>row \<in> set (estimator ?t). row_separates key ?seen row"
    using that(1) estimate_ge [of n ?seen ?victim fp random] estimate_separated [OF that(2)]
    by (simp add: word_less_nat_alt)
  moreover have "freq c' = (if admission then Some ?t else None)"
    using r seen by (auto simp: cache_insert_def Let_def split: if_splits)
  moreover have "outcome = AlreadyExists \<longleftrightarrow> key \<in> fst ` set ?iter"
    using spec(3) by (simp add: map_of_eq_None_iff)
  ultimately show ?thesis using spec(1,2) rej unfolding Let_def r by simp
qed

text \<open>With 1 accessed twice and the next one evicted, 2 is rejected at its first access.\<close>

definition ex_sketch :: "nat list \<Rightarrow> nat tiny_lfu" where
  "ex_sketch ks = tlfu_run ks (tlfu_new (\<lambda>n. (n, n)) (\<lambda>i k. k + i) 2)"

lemma cache_insert_admission_witness:
  "cache_insert list_lru_ops 2 ''b'' \<lparr>lru = [(1, ''a'')], freq = Some (ex_sketch [1, 1])\<rparr> =
     (Rejected, \<lparr>lru = [(1, ''a'')], freq = Some (ex_sketch [1, 1, 2])\<rparr>)"
proof -
  let ?c = "\<lparr>lru = [(1 :: nat, ''a'')], freq = Some (ex_sketch [1, 1])\<rparr>"
  have counts: "exact_count (wrapping_mul 2 8) [1, 1, 2 :: nat] 2 < exact_count (wrapping_mul 2 8) [1, 1, 2 :: nat] 1"
    by (simp add: exact_count_def exact_incr_def window_over_def wrapping_mul_def wrapping_add_def)
  have own: "\<exists>row \<in> set (estimator (ex_sketch [1, 1, 2])). row_separates (2 :: nat) [1, 1, 2] row"
    unfolding ex_sketch_def row_separates_run
    by (simp add: tlfu_new_def estimator_optimal_def optimal_paras_def estimator_new_def row_separates_def upt_rec)
  obtain outcome c' where r: "cache_insert list_lru_ops 2 ''b'' ?c = (outcome, c')" by (rule prod.exhaust)
  have iter: "lru_iter list_lru_ops l = l" for l :: "(nat \<times> string) list" by (simp add: list_lru_ops_def)
  have "outcome = Rejected \<and> lru c' = [(1, ''a'')] \<and> freq c' = Some (ex_sketch [1, 1, 2])"
    using cache_insert_admission [OF list_lru.lru_map_axioms, of ?c True "[1, 1]" "\<lambda>n. (n, n)" "\<lambda>i k. k + i" 2 2 "''b''"]
      counts own r by (simp add: Let_def iter ex_sketch_def)
  with r show ?thesis by simp
qed

end
