(* ===== verification/Core_Metrics.thy ===== *)
theory Core_Metrics
  imports Pega_Prelude
begin

text \<open>
  The counters and gauges of \<^verbatim>\<open>pegaflow-core/src/metrics.rs\<close> that the storage engine
  maintains. Counters only grow; the gauges (up-down counters of signed 64-bit values) are kept
  as integers, and amounts are cast with \<open>as_i64\<close> as the code casts them.
\<close>

record core_metrics =
  cache_block_insertions :: nat
  cache_resident_bytes :: int
  cache_block_admission_rejections :: nat
  cache_block_evictions :: nat
  cache_block_evictions_still_referenced :: nat
  cache_eviction_reclaimed_bytes :: nat
  pool_alloc_failures :: nat
  pool_capacity_bytes :: int
  pool_used_bytes :: int
  inflight_bytes :: int
  inflight_gc_cleaned :: nat
  transfer_lock_active :: int
  transfer_lock_timeouts_total :: nat
  ssd_prefetch_backpressure_blocks :: nat
  tier_ram :: nat
  tier_rdma :: nat
  tier_ssd :: nat
  tier_miss :: nat
  metaserver_registration_blocks :: nat
  metaserver_registration_queue_full :: nat
  metaserver_registration_failures :: nat
  metaserver_removal_blocks :: nat
  metaserver_removal_queue_full :: nat
  metaserver_removal_failures :: nat
  metaserver_session_resets :: nat
  metaserver_heartbeat_failures :: nat
  metaserver_unregister_failures :: nat

definition no_metrics :: core_metrics where
  "no_metrics =
     \<lparr>cache_block_insertions = 0, cache_resident_bytes = 0, cache_block_admission_rejections = 0,
      cache_block_evictions = 0, cache_block_evictions_still_referenced = 0,
      cache_eviction_reclaimed_bytes = 0, pool_alloc_failures = 0, pool_capacity_bytes = 0,
      pool_used_bytes = 0, inflight_bytes = 0,
      inflight_gc_cleaned = 0, transfer_lock_active = 0, transfer_lock_timeouts_total = 0,
      ssd_prefetch_backpressure_blocks = 0, tier_ram = 0, tier_rdma = 0, tier_ssd = 0,
      tier_miss = 0, metaserver_registration_blocks = 0,
      metaserver_registration_queue_full = 0,
      metaserver_registration_failures = 0,
      metaserver_removal_blocks = 0,
      metaserver_removal_queue_full = 0,
      metaserver_removal_failures = 0,
      metaserver_session_resets = 0,
      metaserver_heartbeat_failures = 0,
      metaserver_unregister_failures = 0\<rparr>"

text \<open>
  The pool gauges are moved only by amounts that \<^verbatim>\<open>i64::try_from\<close> accepts.
\<close>

definition gauge_plus :: "u64 \<Rightarrow> int \<Rightarrow> int" where
  "gauge_plus n v = (if n < 2 ^ 63 then v + int n else v)"

definition gauge_minus :: "u64 \<Rightarrow> int \<Rightarrow> int" where
  "gauge_minus n v = (if n < 2 ^ 63 then v - int n else v)"

definition record_cache_tier_block_requests ::
    "usize \<Rightarrow> usize \<Rightarrow> usize \<Rightarrow> usize \<Rightarrow> core_metrics \<Rightarrow> core_metrics" where
  "record_cache_tier_block_requests ram rdma ssd miss m =
     (let m1 = (if 0 < ram then m\<lparr>tier_ram := tier_ram m + ram\<rparr> else m);
          m2 = (if 0 < rdma then m1\<lparr>tier_rdma := tier_rdma m1 + rdma\<rparr> else m1);
          m3 = (if 0 < ssd then m2\<lparr>tier_ssd := tier_ssd m2 + ssd\<rparr> else m2)
      in if 0 < miss then m3\<lparr>tier_miss := tier_miss m3 + miss\<rparr> else m3)"

definition tier_total :: "core_metrics \<Rightarrow> nat" where
  "tier_total m = tier_ram m + tier_rdma m + tier_ssd m + tier_miss m"

lemma tier_total_record:
  "tier_total (record_cache_tier_block_requests ram rdma ssd miss m) =
     tier_total m + ram + rdma + ssd + miss"
  by (auto simp: tier_total_def record_cache_tier_block_requests_def Let_def)

end
