(* ===== verification/Read_Cache.thy ===== *)
theory Read_Cache
  imports Tiny_Lfu Blocks Core_Metrics "HOL-Library.Sublist"
begin

text \<open>
  The resident read cache of \<^verbatim>\<open>pegaflow-core/src/storage/read_cache.rs\<close>. Every operation
  runs under the cache's mutex, so it is a function from the cache state (and the metrics it
  updates) to the new state.
\<close>

type_synonym 'l read_cache = "('l, block_key) tiny_lfu_cache"
type_synonym 'l block_lru = "('l, block_key, sealed_block) lru_ops"
type_synonym 'l rc_state = "'l read_cache \<times> core_metrics"

section \<open>Operations\<close>

definition read_cache_new ::
    "'l block_lru \<Rightarrow> (usize \<Rightarrow> usize \<times> usize) \<Rightarrow> (nat \<Rightarrow> block_key hasher) \<Rightarrow> usize \<Rightarrow> bool \<Rightarrow>
     usize option \<Rightarrow> 'l read_cache" where
  "read_cache_new ops float_paras random capacity_bytes enable_lfu_admission value_size_hint =
     new_unbounded ops float_paras random capacity_bytes enable_lfu_admission value_size_hint"

definition contains_keys :: "'l block_lru \<Rightarrow> block_key list \<Rightarrow> 'l read_cache \<Rightarrow> bool list" where
  "contains_keys ops keys c = map (\<lambda>k. cache_contains_key ops k c) keys"

fun get_prefix_loop ::
    "'l block_lru \<Rightarrow> block_key list \<Rightarrow> usize \<Rightarrow> sealed_block list \<Rightarrow> 'l read_cache \<Rightarrow>
     (usize \<times> sealed_block list) \<times> 'l read_cache" where
  "get_prefix_loop ops [] hit blocks c = ((hit, blocks), c)"
| "get_prefix_loop ops (key # keys) hit blocks c =
     (case cache_get ops key c of
        (Some b, c') \<Rightarrow> get_prefix_loop ops keys (hit + 1) (blocks @ [b]) c'
      | (None, c') \<Rightarrow> ((hit, blocks), c'))"

definition get_prefix_blocks ::
    "'l block_lru \<Rightarrow> block_key list \<Rightarrow> 'l read_cache \<Rightarrow>
     (usize \<times> sealed_block list) \<times> 'l read_cache" where
  "get_prefix_blocks ops keys c = get_prefix_loop ops keys 0 [] c"

definition insert_block ::
    "'l block_lru \<Rightarrow> block_key \<Rightarrow> sealed_block \<Rightarrow> 'l rc_state \<Rightarrow> 'l rc_state" where
  "insert_block ops key b s =
     (let (c, m) = s; footprint_bytes = sb_footprint b; (outcome, c') = cache_insert ops key b c
      in case outcome of
           InsertedNew \<Rightarrow>
             (c', m\<lparr>cache_block_insertions := cache_block_insertions m + 1,
                    cache_resident_bytes := cache_resident_bytes m + as_i64 footprint_bytes\<rparr>)
         | AlreadyExists \<Rightarrow> (c', m)
         | Rejected \<Rightarrow>
             (c', m\<lparr>cache_block_admission_rejections := cache_block_admission_rejections m + 1\<rparr>))"

definition batch_insert ::
    "'l block_lru \<Rightarrow> (block_key \<times> sealed_block) list \<Rightarrow> 'l rc_state \<Rightarrow> 'l rc_state" where
  "batch_insert ops blocks s = foldl (\<lambda>s (key, b). insert_block ops key b s) s blocks"

definition batch_insert_refs ::
    "'l block_lru \<Rightarrow> (block_key \<times> sealed_block) list \<Rightarrow> 'l rc_state \<Rightarrow> 'l rc_state" where
  "batch_insert_refs ops blocks s = foldl (\<lambda>s (key, b). insert_block ops key b s) s blocks"

fun get_blocks ::
    "'l block_lru \<Rightarrow> block_key list \<Rightarrow> 'l read_cache \<Rightarrow>
     (block_key \<times> sealed_block) list \<times> 'l read_cache" where
  "get_blocks ops [] c = ([], c)"
| "get_blocks ops (key # keys) c =
     (let (hit, c1) = cache_get ops key c; (found, c2) = get_blocks ops keys c1
      in (case hit of Some b \<Rightarrow> (key, b) # found | None \<Rightarrow> found, c2))"

fun remove_lru_batch ::
    "'l block_lru \<Rightarrow> usize \<Rightarrow> 'l read_cache \<Rightarrow> (block_key \<times> sealed_block) list \<times> 'l read_cache" where
  "remove_lru_batch ops 0 c = ([], c)"
| "remove_lru_batch ops (Suc n) c =
     (case cache_remove_lru ops c of
        (None, c') \<Rightarrow> ([], c')
      | (Some kv, c') \<Rightarrow> (let (kvs, c'') = remove_lru_batch ops n c' in (kv # kvs, c'')))"

definition rc_remove_all ::
    "'l block_lru \<Rightarrow> 'l read_cache \<Rightarrow> (block_key \<times> sealed_block) list \<times> 'l read_cache" where
  "rc_remove_all ops c = cache_remove_all ops c"

section \<open>Contents\<close>

text \<open>The resident entries, in eviction order, and the bytes the gauge should show for them.\<close>

definition resident :: "'l block_lru \<Rightarrow> 'l read_cache \<Rightarrow> (block_key \<times> sealed_block) list" where
  "resident ops c = lru_iter ops (lru c)"

definition resident_bytes :: "(block_key \<times> sealed_block) list \<Rightarrow> int" where
  "resident_bytes kvs = hm_sum (\<lambda>b. as_i64 (sb_footprint b)) kvs"

lemma resident_bytes_simps [simp]:
  "resident_bytes [] = 0"
  "resident_bytes ((k, b) # kvs) = as_i64 (sb_footprint b) + resident_bytes kvs"
  "resident_bytes (kvs @ kvs') = resident_bytes kvs + resident_bytes kvs'"
  by (simp_all add: resident_bytes_def)

section \<open>Behaviour over the map interface\<close>

text \<open>Adding entries whose keys are absent, in order: what admission without rejections does.\<close>

definition add_new :: "('k \<times> 'v) list \<Rightarrow> ('k \<times> 'v) list \<Rightarrow> ('k \<times> 'v) list" where
  "add_new kvs xs =
     foldl (\<lambda>xs (k, v). if map_of xs k = None then xs @ [(k, v)] else xs) xs kvs"

lemma add_new_keys_mono: "fst ` set xs \<subseteq> fst ` set (add_new kvs xs)"
proof (induction kvs arbitrary: xs)
  case (Cons kv kvs)
  show ?case
    using Cons [of "if map_of xs (fst kv) = None then xs @ [kv] else xs"]
    by (cases kv) (auto simp: add_new_def split: if_splits)
qed (simp add: add_new_def)

lemma add_new_keys: "fst ` set kvs \<subseteq> fst ` set (add_new kvs xs)"
proof (induction kvs arbitrary: xs)
  case (Cons kv kvs)
  define ys where "ys = (if map_of xs (fst kv) = None then xs @ [kv] else xs)"
  have eq: "add_new (kv # kvs) xs = add_new kvs ys"
    by (cases kv) (simp add: add_new_def ys_def)
  have "fst kv \<in> fst ` set ys" by (auto simp: ys_def map_of_eq_None_iff)
  then have "fst kv \<in> fst ` set (add_new kvs ys)" using add_new_keys_mono [of ys kvs] by (rule rev_subsetD)
  with Cons [of ys] show ?case by (simp add: eq)
qed (simp add: add_new_def)

locale block_lru_map = lru_map ops inv
  for ops :: "'l block_lru" and inv :: "'l \<Rightarrow> bool"
begin

lemma cache_get_resident:
  assumes "inv (lru c)" "cache_get ops key c = (hit, c')"
  shows "hit = map_of (resident ops c) key" "inv (lru c')"
    "resident ops c' = list_touch key (resident ops c)"
  using cache_get_spec [OF assms(1), of key] assms(2) by (simp_all add: resident_def)

lemma distinct_resident: "inv (lru c) \<Longrightarrow> distinct (map fst (resident ops c))"
  by (simp add: resident_def inv_distinct)

lemma get_prefix_loop_spec:
  assumes "inv (lru c)" "get_prefix_loop ops keys hit bs c = ((h, bs'), c')"
  shows "bs' = bs @ map_while (map_of (resident ops c)) keys \<and>
     h = hit + length (map_while (map_of (resident ops c)) keys) \<and>
     inv (lru c') \<and> set (resident ops c') = set (resident ops c)"
  using assms
proof (induction keys arbitrary: hit bs c)
  case (Cons key keys)
  obtain r c1 where g: "cache_get ops key c = (r, c1)" by (cases "cache_get ops key c")
  note spec = cache_get_resident [OF Cons.prems(1) g]
  have set1: "set (resident ops c1) = set (resident ops c)"
    by (simp add: spec set_list_touch distinct_resident Cons.prems(1))
  show ?case
  proof (cases r)
    case None
    with spec(1) have "map_of (resident ops c) key = None" by simp
    with None Cons.prems(2) g spec(2) set1 show ?thesis by auto
  next
    case (Some b)
    with Cons.prems(2) g
    have "get_prefix_loop ops keys (hit + 1) (bs @ [b]) c1 = ((h, bs'), c')" by simp
    note IH = Cons.IH [OF spec(2) this]
    from Some spec(1) have "map_of (resident ops c) key = Some b" by simp
    with IH set1 show ?thesis by (simp add: spec(3))
  qed
qed simp

lemma get_blocks_spec:
  assumes "inv (lru c)" "get_blocks ops keys c = (found, c')"
  shows "found = List.map_filter (\<lambda>k. map_option (Pair k) (map_of (resident ops c) k)) keys \<and>
     inv (lru c') \<and> set (resident ops c') = set (resident ops c)"
  using assms
proof (induction keys arbitrary: c found)
  case (Cons key keys)
  obtain r c1 where g: "cache_get ops key c = (r, c1)" by (cases "cache_get ops key c")
  note spec = cache_get_resident [OF Cons.prems(1) g]
  have set1: "set (resident ops c1) = set (resident ops c)"
    by (simp add: spec set_list_touch distinct_resident Cons.prems(1))
  obtain f where f: "get_blocks ops keys c1 = (f, c')"
    using Cons.prems(2) g by (auto split: prod.splits)
  have "found = (case map_of (resident ops c) key of Some b \<Rightarrow> (key, b) # f | None \<Rightarrow> f)"
    using Cons.prems(2) g f spec(1) by simp
  with Cons.IH [OF spec(2) f] set1 show ?case
    by (simp add: spec(3) List.map_filter_simps split: option.split)
qed (simp add: List.map_filter_simps)

lemma insert_block_spec:
  assumes "inv (lru c)" "insert_block ops key b (c, m) = (c', m')"
  shows "inv (lru c') \<and>
    (resident ops c' = resident ops c \<and> cache_resident_bytes m' = cache_resident_bytes m \<and>
       (map_of (resident ops c) key = None \<longrightarrow> freq c \<noteq> None) \<or>
     map_of (resident ops c) key = None \<and> resident ops c' = resident ops c @ [(key, b)] \<and>
       cache_resident_bytes m' = cache_resident_bytes m + as_i64 (sb_footprint b)) \<and>
    (freq c' = None \<longleftrightarrow> freq c = None)"
proof -
  obtain out c1 where ci: "cache_insert ops key b c = (out, c1)" by (cases "cache_insert ops key b c")
  have rej: "freq c \<noteq> None" if "out = Rejected"
    using ci that by (auto simp: cache_insert_def Let_def colder_than_victim_def
        split: if_splits option.splits)
  have fr: "freq c1 = None \<longleftrightarrow> freq c = None"
    using ci by (auto simp: cache_insert_def Let_def split: if_splits)
  from cache_insert_spec [OF assms(1), of key b] assms(2) ci rej fr show ?thesis
    by (cases out) (auto simp: insert_block_def resident_def)
qed

lemma batch_insert_spec:
  assumes "inv (lru c)" "batch_insert ops kvs (c, m) = (c', m')"
  shows "inv (lru c') \<and>
    (\<exists>new. subseq new kvs \<and> resident ops c' = resident ops c @ new \<and>
       cache_resident_bytes m' = cache_resident_bytes m + resident_bytes new) \<and>
    (freq c = None \<longrightarrow> resident ops c' = add_new kvs (resident ops c))"
  using assms
proof (induction kvs arbitrary: c m)
  case (Cons kv kvs)
  obtain key b where kv: "kv = (key, b)" by (cases kv)
  obtain c1 m1 where i: "insert_block ops key b (c, m) = (c1, m1)"
    by (cases "insert_block ops key b (c, m)")
  have rest: "batch_insert ops kvs (c1, m1) = (c', m')"
    using Cons.prems(2) by (simp add: batch_insert_def kv i)
  note spec = insert_block_spec [OF Cons.prems(1) i]
  have inv1: "inv (lru c1)" and fr: "freq c1 = None \<longleftrightarrow> freq c = None"
    using spec by blast+
  note IH = Cons.IH [OF inv1 rest]
  have inv': "inv (lru c')"
    and adds: "freq c1 = None \<longrightarrow> resident ops c' = add_new kvs (resident ops c1)"
    using IH by simp_all
  from IH obtain new where new: "subseq new kvs" "resident ops c' = resident ops c1 @ new"
      "cache_resident_bytes m' = cache_resident_bytes m1 + resident_bytes new"
    by (elim conjE exE)
  from spec consider
      (skip) "resident ops c1 = resident ops c" "cache_resident_bytes m1 = cache_resident_bytes m"
        "map_of (resident ops c) key = None \<longrightarrow> freq c \<noteq> None"
    | (add) "map_of (resident ops c) key = None" "resident ops c1 = resident ops c @ [(key, b)]"
        "cache_resident_bytes m1 = cache_resident_bytes m + as_i64 (sb_footprint b)"
    by argo
  then show ?case
  proof cases
    case skip
    have "resident ops c' = add_new (kv # kvs) (resident ops c)" if "freq c = None"
      using that skip(1,3) adds fr by (auto simp: add_new_def kv)
    moreover have "subseq new (kv # kvs)" using new(1) by (rule list_emb_Cons)
    ultimately show ?thesis using new(2,3) inv' skip(1,2) by auto
  next
    case add
    have "resident ops c' = add_new (kv # kvs) (resident ops c)" if "freq c = None"
      using that add(1,2) adds fr by (simp add: add_new_def kv)
    moreover have "subseq ((key, b) # new) (kv # kvs)" using new(1) by (simp add: kv)
    moreover have "resident ops c' = resident ops c @ (key, b) # new" by (simp add: new(2) add(2))
    moreover have "cache_resident_bytes m' =
        cache_resident_bytes m + resident_bytes ((key, b) # new)"
      by (simp add: new(3) add(3))
    ultimately show ?thesis using inv' by blast
  qed
qed (auto simp: batch_insert_def add_new_def)

lemma remove_lru_batch_spec:
  assumes "inv (lru c)" "remove_lru_batch ops n c = (kvs, c')"
  shows "kvs = take n (resident ops c) \<and> resident ops c' = drop n (resident ops c) \<and> inv (lru c')"
  using assms
proof (induction n arbitrary: c kvs)
  case (Suc n)
  obtain r c1 where g: "cache_remove_lru ops c = (r, c1)" by (cases "cache_remove_lru ops c")
  have spec: "inv (lru c1)" "r = fst (list_pop (resident ops c))"
      "resident ops c1 = snd (list_pop (resident ops c))"
    using cache_remove_lru_spec [OF Suc.prems(1)] g by (simp_all add: resident_def)
  show ?case
  proof (cases "resident ops c")
    case Nil
    with spec Suc.prems(2) g show ?thesis by (auto simp: list_pop_def)
  next
    case (Cons x xs)
    obtain ys where ys: "remove_lru_batch ops n c1 = (ys, c')" "kvs = x # ys"
      using Suc.prems(2) g spec Cons by (auto simp: list_pop_def split: prod.splits)
    from Suc.IH [OF spec(1) ys(1)] spec ys Cons show ?thesis by (auto simp: list_pop_def)
  qed
qed simp

lemma rc_remove_all_spec:
  assumes "inv (lru c)" "rc_remove_all ops c = (kvs, c')"
  shows "kvs = resident ops c" "resident ops c' = []" "inv (lru c')"
  using cache_remove_all_spec [OF assms(1)] assms(2) by (simp_all add: rc_remove_all_def resident_def)

lemma contains_keys_spec:
  assumes "inv (lru c)"
  shows "contains_keys ops keys c = map (\<lambda>k. k \<in> fst ` set (resident ops c)) keys"
  using assms
  by (simp add: contains_keys_def cache_contains_key_def contains_result resident_def
      map_of_eq_None_iff)

end

interpretation list_blocks: block_lru_map list_lru_ops "\<lambda>xs. distinct (map fst xs)"
  by unfold_locales

section \<open>Properties\<close>

text \<open>
  C13. The prefix scan returns the blocks of the longest resident prefix: the hit count is the
  number of blocks, block \<open>i\<close> is the resident block of key \<open>i\<close>, every key before the end of
  the prefix is resident and the key after it, if any, is not. The scan changes only the
  recency order: the same entries are resident afterwards.
\<close>

theorem get_prefix_blocks_longest:
  assumes "block_lru_map ops I" "I (lru c)"
    and scan: "get_prefix_blocks ops keys c = ((hit, blocks), c')"
  shows "hit = length blocks \<and> hit \<le> length keys \<and>
    (\<forall>i < hit. map_of (resident ops c) (keys ! i) = Some (blocks ! i)) \<and>
    (hit < length keys \<longrightarrow> map_of (resident ops c) (keys ! hit) = None) \<and>
    I (lru c') \<and> set (resident ops c') = set (resident ops c)"
proof -
  have "blocks = map_while (map_of (resident ops c)) keys \<and> hit = length blocks \<and>
      I (lru c') \<and> set (resident ops c') = set (resident ops c)"
    using block_lru_map.get_prefix_loop_spec [OF assms(1,2)] scan
    by (fastforce simp: get_prefix_blocks_def)
  then show ?thesis
    using map_while_length [of "map_of (resident ops c)" keys]
      map_while_stop [of "map_of (resident ops c)" keys]
    by (auto intro: map_while_nth)
qed

lemma get_prefix_blocks_longest_witness:
  "\<exists>c'. get_prefix_blocks list_lru_ops [mk_key ''m'' [1], mk_key ''m'' [2], mk_key ''m'' [1]]
      \<lparr>lru = [(mk_key ''m'' [1], from_slots [])], freq = None\<rparr> = ((1, [from_slots []]), c') \<and>
    set (resident list_lru_ops c') = {(mk_key ''m'' [1], from_slots [])}"
proof -
  let ?c = "\<lparr>lru = [(mk_key ''m'' [1], from_slots [])], freq = None\<rparr>"
  have eq: "get_prefix_blocks list_lru_ops [mk_key ''m'' [1], mk_key ''m'' [2], mk_key ''m'' [1]] ?c
      = ((1, [from_slots []]), ?c)"
    by (simp add: get_prefix_blocks_def cache_get_def list_lru_ops_def list_touch_def mk_key_def)
  with get_prefix_blocks_longest [OF list_blocks.block_lru_map_axioms _ eq] show ?thesis
    by (simp add: resident_def list_lru_ops_def)
qed

text \<open>
  Batch insertion is first-writer-wins and keeps the resident-bytes gauge exact: entries
  already resident stay as they are, some of the offered entries are appended in their order,
  and the gauge moves by exactly the footprints of the entries that became resident. Without
  the admission filter every offered key is resident afterwards.
\<close>

theorem batch_insert_accounting:
  assumes "block_lru_map ops I" "I (lru c)"
    and ins: "batch_insert ops kvs (c, m) = (c', m')"
  shows "I (lru c') \<and> distinct (map fst (resident ops c')) \<and>
    take (length (resident ops c)) (resident ops c') = resident ops c \<and>
    subseq (drop (length (resident ops c)) (resident ops c')) kvs \<and>
    cache_resident_bytes m' - resident_bytes (resident ops c') =
      cache_resident_bytes m - resident_bytes (resident ops c) \<and>
    (freq c = None \<longrightarrow> fst ` set kvs \<subseteq> fst ` set (resident ops c'))"
proof -
  note spec = block_lru_map.batch_insert_spec [OF assms]
  have "fst ` set kvs \<subseteq> fst ` set (add_new kvs xs)" for xs :: "(block_key \<times> sealed_block) list"
    by (rule add_new_keys)
  moreover have "distinct (map fst (resident ops c'))"
    using spec block_lru_map.distinct_resident [OF assms(1)] by blast
  ultimately show ?thesis using spec by auto
qed

lemma batch_insert_accounting_witness:
  "\<exists>m'. batch_insert list_lru_ops [(mk_key ''m'' [1], from_slots []), (mk_key ''m'' [2], from_slots_with_footprint [] 5 [])]
      (\<lparr>lru = [(mk_key ''m'' [1], from_slots [])], freq = None\<rparr>, no_metrics) =
      (\<lparr>lru = [(mk_key ''m'' [1], from_slots []), (mk_key ''m'' [2], from_slots_with_footprint [] 5 [])], freq = None\<rparr>, m')
    \<and> cache_resident_bytes m' = 5"
proof -
  let ?c = "\<lparr>lru = [(mk_key ''m'' [1], from_slots [])], freq = None\<rparr>"
  let ?c' = "\<lparr>lru = [(mk_key ''m'' [1], from_slots []), (mk_key ''m'' [2], from_slots_with_footprint [] 5 [])], freq = None\<rparr>"
  have eq: "batch_insert list_lru_ops
       [(mk_key ''m'' [1], from_slots []), (mk_key ''m'' [2], from_slots_with_footprint [] 5 [])] (?c, no_metrics) =
      (?c', no_metrics\<lparr>cache_block_insertions := 1, cache_resident_bytes := 5\<rparr>)"
    by (simp add: batch_insert_def insert_block_def cache_insert_def list_lru_ops_def
        colder_than_victim_def list_put_def mk_key_def no_metrics_def from_slots_def as_i64_def
        from_slots_with_footprint_def)
  with batch_insert_accounting [OF list_blocks.block_lru_map_axioms _ eq] show ?thesis
    by (simp add: resident_def list_lru_ops_def no_metrics_def from_slots_def
        from_slots_with_footprint_def as_i64_def)
qed

end
