(* ===== verification/Offload_Entries.thy ===== *)
theory Offload_Entries
  imports Blocks "HOL-Library.Multiset"
begin

text \<open>
  Grouping a saved batch by block hash, from \<^verbatim>\<open>pegaflow-core/src/offload.rs\<close>: the part of
  the save path that the insert worker runs. The iteration order of a hash map is not
  specified, so the fallback grouping takes the order as a parameter.
\<close>

type_synonym block_hash = "byte list"
type_synonym slot_inserts = "(usize \<times> raw_block) list"
type_synonym insert_entries = "(block_key \<times> slot_inserts) list"

record raw_save_layer =
  slot_id :: usize
  padded_block_size :: usize
  layer_blocks :: "raw_block list"
  block_hashes :: "block_hash list"

record raw_save_batch =
  batch_namespace :: string
  batch_total_slots :: usize
  batch_numa_node :: numa_node
  batch_layers :: "raw_save_layer list"

section \<open>Operations\<close>

fun can_use_ordered_fast_path :: "raw_save_layer list \<Rightarrow> bool" where
  "can_use_ordered_fast_path [] = False"
| "can_use_ordered_fast_path (first_layer # layers) =
     list_all (\<lambda>layer. block_hashes layer = block_hashes first_layer) (first_layer # layers)"

text \<open>The inner loop over one layer's blocks; an index out of range panics.\<close>

fun push_layer_blocks ::
    "usize \<Rightarrow> usize \<Rightarrow> raw_block list \<Rightarrow> slot_inserts list \<Rightarrow> slot_inserts list option" where
  "push_layer_blocks sid idx [] per_block = Some per_block"
| "push_layer_blocks sid idx (b # bs) per_block =
     (if idx < length per_block
      then push_layer_blocks sid (idx + 1) bs (per_block[idx := per_block ! idx @ [(sid, b)]])
      else None)"

fun push_layers :: "raw_save_layer list \<Rightarrow> slot_inserts list \<Rightarrow> slot_inserts list option" where
  "push_layers [] per_block = Some per_block"
| "push_layers (l # ls) per_block =
     (case push_layer_blocks (slot_id l) 0 (layer_blocks l) per_block of
        None \<Rightarrow> None
      | Some per_block' \<Rightarrow> push_layers ls per_block')"

definition build_ordered_insert_entries ::
    "string \<Rightarrow> raw_save_layer list \<Rightarrow> insert_entries option" where
  "build_ordered_insert_entries ns layers =
     (let hashes = (case layers of [] \<Rightarrow> [] | l # _ \<Rightarrow> block_hashes l)
      in case push_layers layers (replicate (length hashes) []) of
           None \<Rightarrow> None
         | Some per_block \<Rightarrow> Some (map (\<lambda>(h, slots). (mk_key ns h, slots)) (zip hashes per_block)))"

definition entry_push :: "block_hash \<Rightarrow> usize \<times> raw_block \<Rightarrow> (block_hash, slot_inserts) hmap \<Rightarrow>
    (block_hash, slot_inserts) hmap" where
  "entry_push h x m =
     hm_insert h ((case hm_get m h of None \<Rightarrow> [] | Some xs \<Rightarrow> xs) @ [x]) m"

definition push_layer_hashed ::
    "raw_save_layer \<Rightarrow> (block_hash, slot_inserts) hmap \<Rightarrow> (block_hash, slot_inserts) hmap" where
  "push_layer_hashed l m =
     foldl (\<lambda>m (b, h). entry_push h (slot_id l, b) m) m (zip (layer_blocks l) (block_hashes l))"

definition build_hashed_insert_entries ::
    "((block_hash, slot_inserts) hmap \<Rightarrow> (block_hash, slot_inserts) hmap) \<Rightarrow> string \<Rightarrow>
     raw_save_layer list \<Rightarrow> insert_entries" where
  "build_hashed_insert_entries order ns layers =
     map (\<lambda>(h, slots). (mk_key ns h, slots))
       (order (foldl (\<lambda>m l. push_layer_hashed l m) [] layers))"

definition build_insert_entries ::
    "((block_hash, slot_inserts) hmap \<Rightarrow> (block_hash, slot_inserts) hmap) \<Rightarrow> raw_save_batch \<Rightarrow>
     (insert_entries \<times> u64 \<times> usize) option" where
  "build_insert_entries order batch =
     (let layers = batch_layers batch;
          total_blocks = foldl wrapping_add 0 (map (\<lambda>l. length (block_hashes l)) layers);
          total_bytes = foldl wrapping_add 0
            (map (\<lambda>l. saturating_mul (padded_block_size l) (length (block_hashes l))) layers);
          entries = (if can_use_ordered_fast_path layers
                     then build_ordered_insert_entries (batch_namespace batch) layers
                     else Some (build_hashed_insert_entries order (batch_namespace batch) layers))
      in map_option (\<lambda>es. (es, total_bytes, total_blocks)) entries)"

section \<open>The grouping both paths compute\<close>

text \<open>The slots saved for one hash: layer by layer, in the order of the layers.\<close>

definition layer_slots :: "block_hash \<Rightarrow> raw_save_layer \<Rightarrow> slot_inserts" where
  "layer_slots h l =
     map (\<lambda>(b, _). (slot_id l, b))
       (filter (\<lambda>(_, h'). h' = h) (zip (layer_blocks l) (block_hashes l)))"

definition grouped_slots :: "raw_save_layer list \<Rightarrow> block_hash \<Rightarrow> slot_inserts" where
  "grouped_slots layers h = concat (map (layer_slots h) layers)"

definition saved_hashes :: "raw_save_layer list \<Rightarrow> block_hash set" where
  "saved_hashes layers = (\<Union>l \<in> set layers. set (block_hashes l))"

text \<open>A layer has a hash for each block; the hashes may repeat, since a batch joins the blocks of several requests.\<close>

definition layer_wf :: "raw_save_layer \<Rightarrow> bool" where
  "layer_wf l \<longleftrightarrow> length (layer_blocks l) = length (block_hashes l)"

section \<open>The fallback path\<close>

lemma hm_wf_entry_push: "hm_wf m \<Longrightarrow> hm_wf (entry_push h x m)"
  by (simp add: entry_push_def hm_wf_insert)

lemma get_entry_push:
  "hm_get (entry_push h x m) k =
     (if k = h then Some ((case hm_get m h of None \<Rightarrow> [] | Some xs \<Rightarrow> xs) @ [x]) else hm_get m k)"
  by (simp add: entry_push_def hm_simps)

lemma push_pairs:
  assumes "hm_wf m"
  shows "hm_wf (foldl (\<lambda>m (b, h). entry_push h (sid, b) m) m ps) \<and>
    hm_get (foldl (\<lambda>m (b, h). entry_push h (sid, b) m) m ps) k =
    (if k \<in> snd ` set ps
     then Some ((case hm_get m k of None \<Rightarrow> [] | Some xs \<Rightarrow> xs) @
                map (\<lambda>(b, _). (sid, b)) (filter (\<lambda>(_, h). h = k) ps))
     else hm_get m k)"
  using assms
proof (induction ps arbitrary: m)
  case (Cons p ps)
  obtain b h where p: "p = (b, h)" by (cases p)
  have wf: "hm_wf (entry_push h (sid, b) m)" using Cons.prems by (rule hm_wf_entry_push)
  have "h \<notin> snd ` set ps \<Longrightarrow> filter (\<lambda>(_, h'). h' = h) ps = []"
    by (force simp: filter_empty_conv)
  with Cons.IH [OF wf] show ?case
    by (cases "k = h") (auto simp: p get_entry_push)
qed simp

lemma push_layer_hashed_get:
  assumes "hm_wf m" "layer_wf l"
  shows "hm_wf (push_layer_hashed l m)"
    "hm_get (push_layer_hashed l m) k =
      (if k \<in> set (block_hashes l)
       then Some ((case hm_get m k of None \<Rightarrow> [] | Some xs \<Rightarrow> xs) @ layer_slots k l) else hm_get m k)"
proof -
  have "snd ` set (zip (layer_blocks l) (block_hashes l)) = set (block_hashes l)"
    using assms(2) by (metis layer_wf_def list.set_map map_snd_zip)
  with push_pairs [OF assms(1), of "slot_id l" "zip (layer_blocks l) (block_hashes l)" k]
  show "hm_wf (push_layer_hashed l m)"
    "hm_get (push_layer_hashed l m) k =
      (if k \<in> set (block_hashes l)
       then Some ((case hm_get m k of None \<Rightarrow> [] | Some xs \<Rightarrow> xs) @ layer_slots k l) else hm_get m k)"
    by (simp_all add: push_layer_hashed_def layer_slots_def)
qed

lemma layer_slots_absent: "h \<notin> set (block_hashes l) \<Longrightarrow> layer_slots h l = []"
  by (auto simp: layer_slots_def filter_empty_conv dest: set_zip_rightD)

lemma push_layers_hashed_get:
  assumes "hm_wf m" "list_all layer_wf layers"
  shows "hm_wf (foldl (\<lambda>m l. push_layer_hashed l m) m layers) \<and>
    hm_get (foldl (\<lambda>m l. push_layer_hashed l m) m layers) k =
      (if k \<in> saved_hashes layers
       then Some ((case hm_get m k of None \<Rightarrow> [] | Some xs \<Rightarrow> xs) @ grouped_slots layers k)
       else hm_get m k)"
  using assms
proof (induction layers arbitrary: m)
  case (Cons l layers)
  then have l: "layer_wf l" and ls: "list_all layer_wf layers" by simp_all
  note push = push_layer_hashed_get [OF Cons.prems(1) l]
  show ?case
    using Cons.IH [OF push(1) ls]
    by (auto simp: push(2) saved_hashes_def grouped_slots_def layer_slots_absent)
qed (simp add: saved_hashes_def grouped_slots_def)

section \<open>The ordered path\<close>

lemma push_layer_blocks_nth:
  assumes "idx + length bs \<le> length pb"
  shows "\<exists>pb'. push_layer_blocks sid idx bs pb = Some pb' \<and> length pb' = length pb \<and>
    (\<forall>j < length pb. pb' ! j =
       pb ! j @ (if idx \<le> j \<and> j < idx + length bs then [(sid, bs ! (j - idx))] else []))"
  using assms
proof (induction bs arbitrary: idx pb)
  case (Cons b bs)
  let ?pb = "pb[idx := pb ! idx @ [(sid, b)]]"
  from Cons.prems have idx: "idx < length pb" and le: "idx + 1 + length bs \<le> length ?pb" by auto
  from Cons.IH [OF le] obtain pb' where pb': "push_layer_blocks sid (idx + 1) bs ?pb = Some pb'"
      "length pb' = length pb"
      "\<And>j. j < length pb \<Longrightarrow> pb' ! j = ?pb ! j @
        (if idx + 1 \<le> j \<and> j < idx + 1 + length bs then [(sid, bs ! (j - (idx + 1)))] else [])"
    by auto
  have "pb' ! j = pb ! j @
      (if idx \<le> j \<and> j < idx + length (b # bs) then [(sid, (b # bs) ! (j - idx))] else [])"
    if "j < length pb" for j
    using pb'(3) [OF that] idx by (cases "j \<le> idx") (auto simp: nth_list_update nth_Cons')
  with pb' idx show ?case by auto
qed auto

lemma push_layers_nth:
  assumes "\<forall>l \<in> set layers. length (layer_blocks l) = length pb"
  shows "\<exists>pb'. push_layers layers pb = Some pb' \<and> length pb' = length pb \<and>
    (\<forall>j < length pb. pb' ! j = pb ! j @ map (\<lambda>l. (slot_id l, layer_blocks l ! j)) layers)"
  using assms
proof (induction layers arbitrary: pb)
  case (Cons l layers)
  obtain p1 where p1: "push_layer_blocks (slot_id l) 0 (layer_blocks l) pb = Some p1"
      "length p1 = length pb"
      "\<And>j. j < length pb \<Longrightarrow> p1 ! j = pb ! j @ [(slot_id l, layer_blocks l ! j)]"
    using push_layer_blocks_nth [of 0 "layer_blocks l" pb "slot_id l"] Cons.prems by auto
  obtain p2 where "push_layers layers p1 = Some p2" "length p2 = length pb"
      "\<And>j. j < length pb \<Longrightarrow>
        p2 ! j = p1 ! j @ map (\<lambda>l. (slot_id l, layer_blocks l ! j)) layers"
    using Cons.IH [of p1] Cons.prems p1(2) by auto
  with p1 show ?case by auto
qed simp

lemma filter_zip_distinct:
  assumes "length bs = length hs" "distinct hs" "j < length hs"
  shows "filter (\<lambda>(_, h). h = hs ! j) (zip bs hs) = [(bs ! j, hs ! j)]"
  using assms
proof (induction bs hs arbitrary: j rule: list_induct2)
  case (Cons b bs h hs)
  show ?case
  proof (cases j)
    case 0
    have "filter (\<lambda>(_, h'). h' = h) (zip bs hs) = []"
      using Cons.prems(1) by (auto simp: filter_empty_conv dest: set_zip_rightD)
    with 0 show ?thesis by simp
  next
    case (Suc i)
    with Cons show ?thesis by auto
  qed
qed simp

lemma layer_slots_nth:
  "layer_wf l \<Longrightarrow> distinct (block_hashes l) \<Longrightarrow> j < length (block_hashes l) \<Longrightarrow>
     layer_slots (block_hashes l ! j) l = [(slot_id l, layer_blocks l ! j)]"
  using filter_zip_distinct [of "layer_blocks l" "block_hashes l" j]
  by (simp add: layer_slots_def layer_wf_def)

text \<open>With repeated hashes, a hash's slots are those at all its places.\<close>

lemma layer_slots_places:
  assumes "layer_wf l"
  shows "layer_slots h l =
    map (\<lambda>j. (slot_id l, layer_blocks l ! j)) (filter (\<lambda>j. block_hashes l ! j = h) [0..<length (block_hashes l)])"
proof -
  have "zip (layer_blocks l) (block_hashes l) = map (\<lambda>j. (layer_blocks l ! j, block_hashes l ! j)) [0..<length (block_hashes l)]"
    using assms by (intro nth_equalityI) (simp_all add: layer_wf_def)
  thus ?thesis by (simp add: layer_slots_def filter_map comp_def)
qed

lemma places_by_layer:
  "mset (concat (map (\<lambda>j. map (f j) ls) js)) = mset (concat (map (\<lambda>l. map (\<lambda>j. f j l) js) ls))"
proof (induction js)
  case (Cons j js)
  have "mset (concat (map (\<lambda>l. map (\<lambda>j. f j l) (j # js)) ls)) = mset (map (f j) ls) + mset (concat (map (\<lambda>l. map (\<lambda>j. f j l) js) ls))"
    by (induction ls) auto
  with Cons show ?case by simp
qed (induction ls, simp_all)

text \<open>All slots in the entries of one key.\<close>

definition slots_under :: "'k \<Rightarrow> ('k \<times> slot_inserts) list \<Rightarrow> slot_inserts" where
  "slots_under k es = concat (map snd (filter (\<lambda>e. fst e = k) es))"

lemma slots_under_distinct: "distinct (map fst es) \<Longrightarrow> slots_under k es = (case map_of es k of None \<Rightarrow> [] | Some xs \<Rightarrow> xs)"
proof (induction es)
  case (Cons e es)
  have "fst e \<notin> fst ` set es" using Cons.prems by auto
  hence "filter (\<lambda>e'. fst e' = fst e) es = []" by (metis (mono_tags, lifting) filter_False imageI)
  with Cons show ?case by (cases e) (auto simp: slots_under_def)
qed (simp add: slots_under_def)

lemma slots_under_mk_key: "slots_under (mk_key ns h) (map (\<lambda>(h, x). (mk_key ns h, x)) xs) = slots_under h xs"
  by (induction xs) (auto simp: slots_under_def)

lemma map_of_mk_key:
  "map_of (map (\<lambda>(h, x). (mk_key ns h, x)) xs) (mk_key ns h) = map_of xs h"
  by (induction xs) auto

lemma fst_mk_key: "map fst (map (\<lambda>(h, x). (mk_key ns h, x)) xs) = map (mk_key ns) (map fst xs)"
  by (induction xs) auto

lemma distinct_mk_key: "distinct (map (mk_key ns) hs) \<longleftrightarrow> distinct hs"
  by (auto simp: distinct_map inj_on_def)

text \<open>The ordered path makes one entry for each place of the common list of hashes.\<close>

definition ordered_entries :: "raw_save_layer list \<Rightarrow> (block_hash \<times> slot_inserts) list" where
  "ordered_entries layers =
     (let hs = block_hashes (hd layers)
      in map (\<lambda>j. (hs ! j, map (\<lambda>l. (slot_id l, layer_blocks l ! j)) layers)) [0..<length hs])"

lemma build_ordered_places:
  assumes ord: "can_use_ordered_fast_path layers" and wf: "list_all layer_wf layers"
  shows "build_ordered_insert_entries ns layers = Some (map (\<lambda>(h, x). (mk_key ns h, x)) (ordered_entries layers))"
proof -
  let ?hs = "block_hashes (hd layers)"
  obtain l ls where layers: "layers = l # ls" using ord by (cases layers) auto
  have "\<forall>l' \<in> set layers. length (layer_blocks l') = length (replicate (length ?hs) [])"
    using wf ord by (auto simp: layers layer_wf_def list_all_iff)
  from push_layers_nth [OF this] obtain pb where pb: "push_layers layers (replicate (length ?hs) []) = Some pb"
      "length pb = length ?hs"
      "\<And>j. j < length ?hs \<Longrightarrow> pb ! j = map (\<lambda>l. (slot_id l, layer_blocks l ! j)) layers"
    by auto
  have "zip ?hs pb = ordered_entries layers"
    using pb(2,3) by (intro nth_equalityI) (simp_all add: ordered_entries_def Let_def)
  with pb(1) show ?thesis by (simp add: build_ordered_insert_entries_def layers)
qed

lemma ordered_keys: "map fst (ordered_entries layers) = block_hashes (hd layers)"
  by (intro nth_equalityI) (simp_all add: ordered_entries_def Let_def)

lemma ordered_saved: "can_use_ordered_fast_path layers \<Longrightarrow> saved_hashes layers = set (block_hashes (hd layers))"
  by (cases layers) (auto simp: saved_hashes_def list_all_iff)

lemma ordered_slots_under:
  assumes ord: "can_use_ordered_fast_path layers" and wf: "list_all layer_wf layers"
  shows "mset (slots_under h (ordered_entries layers)) = mset (grouped_slots layers h)"
proof -
  let ?hs = "block_hashes (hd layers)" and ?f = "\<lambda>j l. (slot_id l, layer_blocks l ! j)"
  let ?js = "filter (\<lambda>j. ?hs ! j = h) [0..<length ?hs]"
  have same: "block_hashes l = ?hs" if "l \<in> set layers" for l
    using ord that by (cases layers) (auto simp: list_all_iff)
  have "slots_under h (ordered_entries layers) = concat (map (\<lambda>j. map (?f j) layers) ?js)"
    by (simp add: slots_under_def ordered_entries_def Let_def filter_map comp_def)
  moreover have "grouped_slots layers h = concat (map (\<lambda>l. map (\<lambda>j. ?f j l) ?js) layers)"
    unfolding grouped_slots_def
  proof (intro arg_cong [of _ _ concat] map_cong refl)
    fix l assume l: "l \<in> set layers"
    have "layer_wf l" using wf l by (simp add: list_all_iff)
    from layer_slots_places [OF this, of h] show "layer_slots h l = map (\<lambda>j. ?f j l) ?js"
      unfolding same [OF l] .
  qed
  ultimately show ?thesis using places_by_layer [of ?f layers ?js] by simp
qed

lemma ordered_grouped:
  assumes ord: "can_use_ordered_fast_path layers" and wf: "list_all layer_wf layers" and d: "distinct (block_hashes (hd layers))"
    and h: "h \<in> saved_hashes layers"
  shows "map_of (ordered_entries layers) h = Some (grouped_slots layers h)"
proof -
  let ?hs = "block_hashes (hd layers)"
  obtain j where j: "j < length ?hs" "?hs ! j = h"
    using h unfolding ordered_saved [OF ord] by (auto simp: in_set_conv_nth)
  have "layer_slots h l = [(slot_id l, layer_blocks l ! j)]" if "l \<in> set layers" for l
  proof -
    have "block_hashes l = ?hs" using ord that by (cases layers) (auto simp: list_all_iff)
    with layer_slots_nth [of l j] wf that d j show ?thesis by (auto simp: list_all_iff)
  qed
  hence "grouped_slots layers h = map (\<lambda>l. (slot_id l, layer_blocks l ! j)) layers"
    by (simp add: grouped_slots_def cong: map_cong)
  moreover have "ordered_entries layers ! j = (h, map (\<lambda>l. (slot_id l, layer_blocks l ! j)) layers)"
    "j < length (ordered_entries layers)"
    using j by (simp_all add: ordered_entries_def Let_def)
  ultimately have "(h, grouped_slots layers h) \<in> set (ordered_entries layers)" using nth_mem by fastforce
  moreover have "distinct (map fst (ordered_entries layers))" unfolding ordered_keys by (rule d)
  ultimately show ?thesis by simp
qed

lemma build_hashed_grouped:
  assumes wf: "list_all layer_wf layers" and order: "\<And>m. mset (order m) = mset m"
  shows "\<exists>xs. build_hashed_insert_entries order ns layers = map (\<lambda>(h, x). (mk_key ns h, x)) xs \<and>
    distinct (map fst xs) \<and> fst ` set xs = saved_hashes layers \<and>
    (\<forall>h \<in> saved_hashes layers. map_of xs h = Some (grouped_slots layers h))"
proof -
  define m where "m = foldl (\<lambda>m l. push_layer_hashed l m) [] layers"
  have m: "hm_wf m" "\<And>k. hm_get m k =
      (if k \<in> saved_hashes layers then Some (grouped_slots layers k) else None)"
    using push_layers_hashed_get [OF hm_wf_Nil wf] by (simp_all add: m_def)
  have ms: "mset (map fst (order m)) = mset (map fst m)" using order [of m] by (simp add: mset_map)
  then have d: "distinct (map fst (order m))"
    using m(1) by (metis hm_wf_def mset_eq_imp_distinct_iff)
  have st: "set (order m) = set m" using order [of m] by (rule mset_eq_setD)
  have mo: "map_of (order m) = map_of m"
    using d m(1) st by (intro map_of_eqI) (auto simp: hm_wf_def map_of_eq_Some_iff)
  have "fst ` set m = saved_hashes layers"
    using m(2) by (auto simp: dom_map_of_conv_image_fst [symmetric] split: if_splits)
  with d mo m(2) st show ?thesis
    by (intro exI [of _ "order m"]) (simp add: build_hashed_insert_entries_def m_def)
qed

section \<open>Bytes of a batch\<close>

definition slots_bytes :: "slot_inserts \<Rightarrow> nat" where
  "slots_bytes slots = sum_list (map (raw_footprint \<circ> snd) slots)"

definition batch_bytes :: "raw_save_batch \<Rightarrow> nat" where
  "batch_bytes batch =
     sum_list (map (\<lambda>l. sum_list (map raw_footprint (layer_blocks l))) (batch_layers batch))"

text \<open>
  Neither path loses or duplicates a saved block, and every slot id comes from a layer. No
  distinctness of the hashes is needed here.
\<close>

definition slots_total :: "slot_inserts list \<Rightarrow> nat" where
  "slots_total pb = sum_list (map slots_bytes pb)"

lemma slots_bytes_snoc [simp]: "slots_bytes (xs @ [(sid, b)]) = slots_bytes xs + raw_footprint b"
  by (simp add: slots_bytes_def)

lemma slots_total_update:
  "i < length pb \<Longrightarrow> slots_total (pb[i := pb ! i @ [(sid, b)]]) = slots_total pb + raw_footprint b"
proof (induction pb arbitrary: i)
  case (Cons x pb)
  then show ?case by (cases i) (auto simp: slots_total_def)
qed simp

lemma push_layer_blocks_total:
  assumes "idx + length bs \<le> length pb" "list_all (list_all (\<lambda>(sid, _). sid < n)) pb" "sid < n"
  shows "\<exists>pb'. push_layer_blocks sid idx bs pb = Some pb' \<and> length pb' = length pb \<and>
    slots_total pb' = slots_total pb + sum_list (map raw_footprint bs) \<and>
    list_all (list_all (\<lambda>(sid, _). sid < n)) pb'"
  using assms
proof (induction bs arbitrary: idx pb)
  case (Cons b bs)
  let ?pb = "pb[idx := pb ! idx @ [(sid, b)]]"
  have idx: "idx < length pb" using Cons.prems(1) by simp
  have all: "list_all (list_all (\<lambda>(sid, _). sid < n)) ?pb"
    using Cons.prems(2,3) nth_mem [OF idx] by (intro list_all_update) (auto simp: list_all_iff)
  have "idx + 1 + length bs \<le> length ?pb" using Cons.prems(1) by simp
  from Cons.IH [OF this all Cons.prems(3)] idx show ?case by (auto simp: slots_total_update)
qed auto

lemma push_layers_total:
  assumes "\<forall>l \<in> set layers. length (layer_blocks l) = length pb \<and> slot_id l < n"
    "list_all (list_all (\<lambda>(sid, _). sid < n)) pb"
  shows "\<exists>pb'. push_layers layers pb = Some pb' \<and> length pb' = length pb \<and>
    slots_total pb' = slots_total pb +
      sum_list (map (\<lambda>l. sum_list (map raw_footprint (layer_blocks l))) layers) \<and>
    list_all (list_all (\<lambda>(sid, _). sid < n)) pb'"
  using assms
proof (induction layers arbitrary: pb)
  case (Cons l layers)
  obtain p1 where p1: "push_layer_blocks (slot_id l) 0 (layer_blocks l) pb = Some p1"
      "length p1 = length pb" "slots_total p1 = slots_total pb + sum_list (map raw_footprint (layer_blocks l))"
      "list_all (list_all (\<lambda>(sid, _). sid < n)) p1"
    using push_layer_blocks_total [of 0 "layer_blocks l" pb n "slot_id l"] Cons.prems by auto
  from Cons.IH [OF _ p1(4)] Cons.prems(1) p1 show ?case by auto
qed auto

definition hashed_total :: "(block_hash, slot_inserts) hmap \<Rightarrow> int" where
  "hashed_total m = hm_sum (\<lambda>slots. int (slots_bytes slots)) m"

lemma entry_push_total:
  assumes "hm_wf m"
  shows "hashed_total (entry_push h (sid, b) m) = hashed_total m + int (raw_footprint b)"
proof -
  have "slots_bytes [] = 0" by (simp add: slots_bytes_def)
  with assms slots_bytes_snoc [of "[]" sid b] show ?thesis
    by (auto simp: hashed_total_def entry_push_def hm_sum_insert split: option.split)
qed

lemma push_pairs_total:
  assumes "hm_wf m" "list_all (\<lambda>(_, slots). list_all (\<lambda>(sid, _). sid < n) slots) m" "sid < n"
  shows "hashed_total (foldl (\<lambda>m (b, h). entry_push h (sid, b) m) m ps) =
      hashed_total m + int (sum_list (map (raw_footprint \<circ> fst) ps)) \<and>
    hm_wf (foldl (\<lambda>m (b, h). entry_push h (sid, b) m) m ps) \<and>
    list_all (\<lambda>(_, slots). list_all (\<lambda>(sid, _). sid < n) slots)
      (foldl (\<lambda>m (b, h). entry_push h (sid, b) m) m ps)"
  using assms
proof (induction ps arbitrary: m)
  case (Cons p ps)
  obtain b h where p: "p = (b, h)" by (cases p)
  have "list_all (\<lambda>(sid, _). sid < n) ((case hm_get m h of None \<Rightarrow> [] | Some xs \<Rightarrow> xs) @ [(sid, b)])"
  proof (cases "hm_get m h")
    case (Some xs)
    then have "(h, xs) \<in> set m" by (rule map_of_SomeD)
    with Cons.prems(2,3) Some show ?thesis by (auto simp: list_all_iff)
  qed (use Cons.prems(3) in simp)
  then have "list_all (\<lambda>(_, slots). list_all (\<lambda>(sid, _). sid < n) slots) (entry_push h (sid, b) m)"
    unfolding entry_push_def using Cons.prems(2) by (intro list_all_hm_insert) auto
  from Cons.IH [OF hm_wf_entry_push [OF Cons.prems(1)] this Cons.prems(3)] show ?case
    by (simp add: p entry_push_total [OF Cons.prems(1)])
qed simp

lemma push_layers_hashed_total:
  assumes "\<forall>l \<in> set layers. length (layer_blocks l) = length (block_hashes l) \<and> slot_id l < n"
    "hm_wf m" "list_all (\<lambda>(_, slots). list_all (\<lambda>(sid, _). sid < n) slots) m"
  shows "hashed_total (foldl (\<lambda>m l. push_layer_hashed l m) m layers) = hashed_total m +
      int (sum_list (map (\<lambda>l. sum_list (map raw_footprint (layer_blocks l))) layers)) \<and>
    list_all (\<lambda>(_, slots). list_all (\<lambda>(sid, _). sid < n) slots)
      (foldl (\<lambda>m l. push_layer_hashed l m) m layers)"
  using assms
proof (induction layers arbitrary: m)
  case (Cons l layers)
  have "map (raw_footprint \<circ> fst) (zip (layer_blocks l) (block_hashes l)) =
      map raw_footprint (layer_blocks l)"
    using Cons.prems(1) by (simp flip: map_map)
  with push_pairs_total [OF Cons.prems(2,3), of "slot_id l" "zip (layer_blocks l) (block_hashes l)"]
    Cons.prems(1)
  have "hashed_total (push_layer_hashed l m) =
      hashed_total m + int (sum_list (map raw_footprint (layer_blocks l)))"
    "hm_wf (push_layer_hashed l m)"
    "list_all (\<lambda>(_, slots). list_all (\<lambda>(sid, _). sid < n) slots) (push_layer_hashed l m)"
    by (simp_all add: push_layer_hashed_def)
  with Cons.IH [of "push_layer_hashed l m"] Cons.prems(1) show ?case by simp
qed simp

lemma build_insert_entries_bytes:
  assumes ls: "list_all (\<lambda>l. length (layer_blocks l) = length (block_hashes l) \<and> slot_id l < n)
      (batch_layers batch)"
    and order: "\<And>m. mset (order m) = mset m"
  obtains es bytes blocks where "build_insert_entries order batch = Some (es, bytes, blocks)"
    "sum_list (map (slots_bytes \<circ> snd) es) = batch_bytes batch"
    "list_all (\<lambda>(_, slots). list_all (\<lambda>(sid, _). sid < n) slots) es"
proof -
  let ?ls = "batch_layers batch" and ?ns = "batch_namespace batch"
  have "\<exists>xs. (if can_use_ordered_fast_path ?ls then build_ordered_insert_entries ?ns ?ls
      else Some (build_hashed_insert_entries order ?ns ?ls)) =
      Some (map (\<lambda>(h, x). (mk_key ?ns h, x)) xs) \<and>
    sum_list (map (slots_bytes \<circ> snd) xs) = batch_bytes batch \<and>
    list_all (\<lambda>(_, slots). list_all (\<lambda>(sid, _). sid < n) slots) xs"
  proof (cases "can_use_ordered_fast_path ?ls")
    case True
    then obtain l ls' where l: "?ls = l # ls'" by (cases ?ls) auto
    let ?hs = "block_hashes l"
    have "\<forall>l' \<in> set ?ls. length (layer_blocks l') = length (replicate (length ?hs) []) \<and> slot_id l' < n"
      using True ls by (auto simp: l list_all_iff)
    from push_layers_total [OF this] obtain pb where
      pb: "push_layers ?ls (replicate (length ?hs) []) = Some pb" "length pb = length ?hs"
        "slots_total pb = batch_bytes batch" "list_all (list_all (\<lambda>(sid, _). sid < n)) pb"
      by (auto simp: slots_total_def batch_bytes_def slots_bytes_def sum_list_replicate list_all_iff)
    have "map (slots_bytes \<circ> snd) (zip ?hs pb) = map slots_bytes pb"
      using pb(2) by (simp flip: map_map)
    with True pb l show ?thesis
      by (intro exI [of _ "zip ?hs pb"])
        (auto simp: build_ordered_insert_entries_def slots_total_def list_all_iff dest: set_zip_rightD)
  next
    case False
    define m where "m = foldl (\<lambda>m l. push_layer_hashed l m) [] ?ls"
    have m: "hashed_total m = int (batch_bytes batch)"
        "list_all (\<lambda>(_, slots). list_all (\<lambda>(sid, _). sid < n) slots) m"
      using push_layers_hashed_total [of ?ls n "[]"] ls
      by (simp_all add: m_def list_all_iff hashed_total_def batch_bytes_def)
    have "hashed_total m = int (sum_list (map (slots_bytes \<circ> snd) m))"
      unfolding hashed_total_def hm_sum_def by (induction m) auto
    moreover have "sum_list (map (slots_bytes \<circ> snd) (order m)) = sum_list (map (slots_bytes \<circ> snd) m)"
      using order [of m] by (metis mset_map sum_mset_sum_list)
    moreover have "set (order m) = set m" using order [of m] by (rule mset_eq_setD)
    ultimately show ?thesis
      using m False by (intro exI [of _ "order m"])
        (simp add: build_hashed_insert_entries_def m_def list_all_iff)
  qed
  then obtain xs where xs: "(if can_use_ordered_fast_path ?ls then build_ordered_insert_entries ?ns ?ls
      else Some (build_hashed_insert_entries order ?ns ?ls)) =
      Some (map (\<lambda>(h, x). (mk_key ?ns h, x)) xs)"
    "sum_list (map (slots_bytes \<circ> snd) xs) = batch_bytes batch"
    "list_all (\<lambda>(_, slots). list_all (\<lambda>(sid, _). sid < n) slots) xs"
    by blast
  have "map (slots_bytes \<circ> snd) (map (\<lambda>(h, x). (mk_key ?ns h, x)) xs) = map (slots_bytes \<circ> snd) xs"
    by auto
  with xs show thesis
    by (intro that [of "map (\<lambda>(h, x). (mk_key ?ns h, x)) xs"])
      (auto simp: build_insert_entries_def Let_def list_all_iff simp del: map_map)
qed

section \<open>The property\<close>

text \<open>
  C16. Grouping a saved batch never panics when every layer has a hash for each block. Whichever of the two paths is
  taken and however the hashes repeat, the entries' keys are those of the saved hashes, and the entries of a hash hold
  exactly the slots saved for it, each once. Unless the layers all list the same hashes and this list has a repetition,
  there is exactly one entry for each saved hash, with its slots layer by layer in the order of the layers. When the
  layers all list the same hashes, the entries are those of the list's places, one by one: a hash that occurs twice gets
  two entries.
\<close>

theorem build_insert_entries_grouped:
  assumes wf: "list_all layer_wf (batch_layers batch)"
    and order: "\<And>m. mset (order m) = mset m"
  shows "\<exists>entries bytes blocks.
    build_insert_entries order batch = Some (entries, bytes, blocks) \<and>
    fst ` set entries = mk_key (batch_namespace batch) ` saved_hashes (batch_layers batch) \<and>
    (\<forall>h. mset (slots_under (mk_key (batch_namespace batch) h) entries) = mset (grouped_slots (batch_layers batch) h)) \<and>
    (\<not> can_use_ordered_fast_path (batch_layers batch) \<or> distinct (block_hashes (hd (batch_layers batch))) \<longrightarrow>
       distinct (map fst entries) \<and>
       (\<forall>h \<in> saved_hashes (batch_layers batch).
          map_of entries (mk_key (batch_namespace batch) h) = Some (grouped_slots (batch_layers batch) h))) \<and>
    (can_use_ordered_fast_path (batch_layers batch) \<longrightarrow>
       map fst entries = map (mk_key (batch_namespace batch)) (block_hashes (hd (batch_layers batch))) \<and>
       (\<forall>j < length entries. snd (entries ! j) = map (\<lambda>l. (slot_id l, layer_blocks l ! j)) (batch_layers batch)))"
proof (cases "can_use_ordered_fast_path (batch_layers batch)")
  case True
  let ?ls = "batch_layers batch" and ?ns = "batch_namespace batch"
  let ?es = "map (\<lambda>(h, x). (mk_key ?ns h, x)) (ordered_entries ?ls)"
  obtain bytes blocks where b: "build_insert_entries order batch = Some (?es, bytes, blocks)"
    using True build_ordered_places [OF True wf] by (simp add: build_insert_entries_def Let_def)
  have keys: "map fst ?es = map (mk_key ?ns) (block_hashes (hd ?ls))" unfolding fst_mk_key ordered_keys ..
  have saved: "fst ` set ?es = mk_key ?ns ` saved_hashes ?ls"
    using arg_cong [OF keys, of set] unfolding list.set_map ordered_saved [OF True] .
  show ?thesis
  proof (rule exI [of _ ?es], intro exI conjI impI allI ballI)
    show "mset (slots_under (mk_key ?ns h) ?es) = mset (grouped_slots ?ls h)" for h
      unfolding slots_under_mk_key by (rule ordered_slots_under [OF True wf])
    assume "\<not> can_use_ordered_fast_path ?ls \<or> distinct (block_hashes (hd ?ls))"
    with True have d: "distinct (block_hashes (hd ?ls))" by simp
    show "distinct (map fst ?es)" unfolding keys distinct_mk_key by (rule d)
    show "map_of ?es (mk_key ?ns h) = Some (grouped_slots ?ls h)" if "h \<in> saved_hashes ?ls" for h
      unfolding map_of_mk_key by (rule ordered_grouped [OF True wf d that])
  next
    show "snd (?es ! j) = map (\<lambda>l. (slot_id l, layer_blocks l ! j)) ?ls" if "j < length ?es" for j
      using that by (simp add: ordered_entries_def Let_def)
  qed (rule b saved keys)+
next
  case False
  let ?ls = "batch_layers batch" and ?ns = "batch_namespace batch"
  obtain xs where xs: "build_hashed_insert_entries order ?ns ?ls = map (\<lambda>(h, x). (mk_key ?ns h, x)) xs"
      "distinct (map fst xs)" "fst ` set xs = saved_hashes ?ls"
      "\<forall>h \<in> saved_hashes ?ls. map_of xs h = Some (grouped_slots ?ls h)"
    using build_hashed_grouped [OF wf order, of ?ns] by blast
  let ?es = "map (\<lambda>(h, x). (mk_key ?ns h, x)) xs"
  obtain bytes blocks where b: "build_insert_entries order batch = Some (?es, bytes, blocks)"
    using False xs(1) by (simp add: build_insert_entries_def Let_def)
  have keys: "fst ` set ?es = mk_key ?ns ` saved_hashes ?ls" unfolding xs(3) [symmetric] by force
  have under: "slots_under h xs = grouped_slots ?ls h" for h
  proof (cases "h \<in> saved_hashes ?ls")
    case True
    hence "map_of xs h = Some (grouped_slots ?ls h)" using xs(4) by blast
    thus ?thesis by (simp add: slots_under_distinct [OF xs(2)])
  next
    case False
    hence "map_of xs h = None" using xs(3) by (simp add: map_of_eq_None_iff)
    moreover have "grouped_slots ?ls h = []"
      using False layer_slots_absent by (auto simp: grouped_slots_def saved_hashes_def)
    ultimately show ?thesis by (simp add: slots_under_distinct [OF xs(2)])
  qed
  show ?thesis
  proof (rule exI [of _ ?es], intro exI conjI impI allI ballI)
    show "mset (slots_under (mk_key ?ns h) ?es) = mset (grouped_slots ?ls h)" for h
      unfolding slots_under_mk_key under ..
    show "distinct (map fst ?es)" unfolding fst_mk_key distinct_mk_key by (rule xs(2))
    show "map_of ?es (mk_key ?ns h) = Some (grouped_slots ?ls h)" if "h \<in> saved_hashes ?ls" for h
      unfolding map_of_mk_key using xs(4) that by blast
  qed (use False b keys in simp_all)
qed

text \<open>Two layers saved for different blocks, and a layer saved twice for one hash.\<close>

definition ex_repeated :: raw_save_batch where
  "ex_repeated = \<lparr>batch_namespace = ''m'', batch_total_slots = 1, batch_numa_node = 0,
     batch_layers = [\<lparr>slot_id = 0, padded_block_size = 4, layer_blocks = [raw_new [], raw_new []], block_hashes = [[7], [7]]\<rparr>]\<rparr>"

lemma build_insert_entries_grouped_witness:
  "\<exists>bytes blocks bytes' blocks'. build_insert_entries (\<lambda>m. m)
     \<lparr>batch_namespace = ''m'', batch_total_slots = 2, batch_numa_node = 0, batch_layers =
       [\<lparr>slot_id = 0, padded_block_size = 4, layer_blocks = [raw_new []], block_hashes = [[7]]\<rparr>,
        \<lparr>slot_id = 1, padded_block_size = 4, layer_blocks = [raw_new [], raw_new []],
         block_hashes = [[8], [7]]\<rparr>]\<rparr> =
     Some ([(mk_key ''m'' [7], [(0, raw_new []), (1, raw_new [])]),
            (mk_key ''m'' [8], [(1, raw_new [])])], bytes, blocks) \<and>
     distinct [mk_key ''m'' [7], mk_key ''m'' [8 :: byte]] \<and>
     build_insert_entries (\<lambda>m. m) ex_repeated =
       Some ([(mk_key ''m'' [7], [(0, raw_new [])]), (mk_key ''m'' [7], [(0, raw_new [])])], bytes', blocks')"
proof -
  let ?b = "\<lparr>batch_namespace = ''m'', batch_total_slots = 2, batch_numa_node = 0, batch_layers =
       [\<lparr>slot_id = 0, padded_block_size = 4, layer_blocks = [raw_new []], block_hashes = [[7]]\<rparr>,
        \<lparr>slot_id = 1, padded_block_size = 4, layer_blocks = [raw_new [], raw_new []],
         block_hashes = [[8], [7]]\<rparr>]\<rparr>"
  have "list_all layer_wf (batch_layers ?b)" by (simp add: layer_wf_def)
  from build_insert_entries_grouped [OF this, of "\<lambda>m. m"] obtain entries bytes blocks where
    *: "build_insert_entries (\<lambda>m. m) ?b = Some (entries, bytes, blocks)" "distinct (map fst entries)"
    by auto
  then have e: "entries = [(mk_key ''m'' [7], [(0, raw_new []), (1, raw_new [])]),
            (mk_key ''m'' [8], [(1, raw_new [])])]"
    by (simp add: build_insert_entries_def build_hashed_insert_entries_def push_layer_hashed_def
        entry_push_def)
  have wf: "list_all layer_wf (batch_layers ex_repeated)" and ord: "can_use_ordered_fast_path (batch_layers ex_repeated)"
    by (simp_all add: ex_repeated_def layer_wf_def)
  from build_insert_entries_grouped [OF wf, of "\<lambda>m. m"] ord obtain es bytes' blocks' where
    r: "build_insert_entries (\<lambda>m. m) ex_repeated = Some (es, bytes', blocks')"
      "map fst es = map (mk_key (batch_namespace ex_repeated)) (block_hashes (hd (batch_layers ex_repeated)))"
      "\<forall>j < length es. snd (es ! j) = map (\<lambda>l. (slot_id l, layer_blocks l ! j)) (batch_layers ex_repeated)"
    by auto
  from r(2) have k: "map fst es = [mk_key ''m'' [7], mk_key ''m'' [7]]" by (simp add: ex_repeated_def)
  then obtain x y where es: "es = [(mk_key ''m'' [7], x), (mk_key ''m'' [7], y)]"
    by (cases es; cases "tl es") auto
  with r(3) have "x = [(0, raw_new [])]" "y = [(0, raw_new [])]" by (auto simp: ex_repeated_def All_less_Suc2)
  with es r(1) * show ?thesis unfolding e by auto
qed

end
