(* ===== verification/Write_Path.thy ===== *)
theory Write_Path
  imports Read_Cache Offload_Entries
begin

text \<open>
  The insert worker of \<^verbatim>\<open>pegaflow-core/src/storage/write_path.rs\<close>. The worker thread owns
  the map of in-flight blocks and consumes one command after another. Its dependencies (the
  read cache, the SSD store, the MetaServer client) are reached through a weak pointer, whose
  upgrade may fail: \<open>deps_alive\<close>. What is handed to the SSD store and to the MetaServer client
  is recorded in order.
\<close>

section \<open>State\<close>

type_synonym inflight_map = "(block_key, inflight_block) hmap"

datatype insert_worker_command = RawInsert raw_save_batch | Flush nat | Gc duration nat

datatype worker_reply = FlushDone nat | GcDone nat usize

record 'l insert_deps =
  read_cache :: "'l read_cache"
  has_ssd :: bool
  has_metaserver :: bool

record 'l write_state =
  inflight :: inflight_map
  deps :: "'l insert_deps"
  deps_alive :: bool
  metrics :: core_metrics
  ssd_ingested :: "(block_key \<times> sealed_block) list list"
  registered :: "(string \<times> block_hash list) list"
  replies :: "worker_reply list"

text \<open>The accumulators of one batch.\<close>

record batch_acc =
  sealed_blocks :: "(block_key \<times> sealed_block) list"
  bytes_added :: u64
  bytes_removed :: u64
  fast_path_seals :: usize

section \<open>Filling one block\<close>

text \<open>The slot loop of \<open>insert_partial_slots\<close>: the block, the \<open>completed\<close> flag, the bytes added.\<close>

fun fill_slots ::
    "slot_inserts \<Rightarrow> numa_node \<Rightarrow> bool \<Rightarrow> u64 \<Rightarrow> inflight_block \<Rightarrow>
     (inflight_block \<times> bool \<times> u64) option" where
  "fill_slots [] numa completed added ib = Some (ib, completed, added)"
| "fill_slots ((sid, b) # slots) numa completed added ib =
     (case insert_slot sid b numa ib of
        None \<Rightarrow> None
      | Some (ib', Inserted c fp) \<Rightarrow>
          (if c then Some (ib', c, saturating_add added fp)
           else fill_slots slots numa c (saturating_add added fp) ib')
      | Some (ib', Duplicate) \<Rightarrow> fill_slots slots numa completed added ib')"

definition insert_partial_slots ::
    "instant \<Rightarrow> block_key \<Rightarrow> slot_inserts \<Rightarrow> usize \<Rightarrow> numa_node \<Rightarrow> inflight_map \<times> batch_acc \<Rightarrow>
     (inflight_map \<times> batch_acc) option" where
  "insert_partial_slots now key slots n numa s =
     (let (m, acc) = s
      in case (case hm_get m key of
                 None \<Rightarrow> Some (inflight_new n now)
               | Some ib \<Rightarrow> if total_slots ib \<noteq> n then None else Some ib) of
           None \<Rightarrow> Some (m, acc)
         | Some ib \<Rightarrow>
             (case fill_slots slots numa False (bytes_added acc) ib of
                None \<Rightarrow> None
              | Some (ib', completed, added) \<Rightarrow>
                  if completed
                  then (case seal ib' of
                          None \<Rightarrow> None
                        | Some sb \<Rightarrow>
                            Some (hm_remove key (hm_insert key ib' m),
                                  acc\<lparr>bytes_added := added,
                                      bytes_removed :=
                                        saturating_add (bytes_removed acc) (ib_footprint ib'),
                                      sealed_blocks := sealed_blocks acc @ [(key, sb)]\<rparr>))
                  else Some (hm_insert key ib' m, acc\<lparr>bytes_added := added\<rparr>)))"

section \<open>Processing a batch\<close>

definition process_entry ::
    "(block_key \<Rightarrow> bool) \<Rightarrow> instant \<Rightarrow> usize \<Rightarrow> numa_node \<Rightarrow> block_key \<times> slot_inserts \<Rightarrow>
     inflight_map \<times> batch_acc \<Rightarrow> (inflight_map \<times> batch_acc) option" where
  "process_entry is_resident now n numa entry s =
     (let (key, slots) = entry; (m, acc) = s
      in if is_resident key then Some s
         else if \<not> hm_contains m key
         then (case from_ordered_slot_inserts slots n numa of
                 Inr sb \<Rightarrow>
                   Some (m, acc\<lparr>fast_path_seals := fast_path_seals acc + 1,
                                sealed_blocks := sealed_blocks acc @ [(key, sb)]\<rparr>)
               | Inl slots' \<Rightarrow> insert_partial_slots now key slots' n numa s)
         else insert_partial_slots now key slots n numa s)"

fun process_entries ::
    "(block_key \<Rightarrow> bool) \<Rightarrow> instant \<Rightarrow> usize \<Rightarrow> numa_node \<Rightarrow> insert_entries \<Rightarrow>
     inflight_map \<times> batch_acc \<Rightarrow> (inflight_map \<times> batch_acc) option" where
  "process_entries is_resident now n numa [] s = Some s"
| "process_entries is_resident now n numa (e # es) s =
     (case process_entry is_resident now n numa e s of
        None \<Rightarrow> None
      | Some s' \<Rightarrow> process_entries is_resident now n numa es s')"

definition register_block_hashes ::
    "string \<Rightarrow> (block_key \<times> sealed_block) list \<Rightarrow> 'l write_state \<Rightarrow> 'l write_state" where
  "register_block_hashes ns blocks s =
     s\<lparr>registered := registered s @ [(ns, map (\<lambda>(key, _). hash key) blocks)]\<rparr>"

definition send_backing_batches ::
    "string \<Rightarrow> (block_key \<times> sealed_block) list \<Rightarrow> 'l write_state \<Rightarrow> 'l write_state" where
  "send_backing_batches ns blocks s =
     (if blocks = [] then s
      else if \<not> has_ssd (deps s) \<and> \<not> has_metaserver (deps s) then s
      else
        let s1 = (if has_ssd (deps s) then s\<lparr>ssd_ingested := ssd_ingested s @ [blocks]\<rparr> else s)
        in if has_metaserver (deps s) then register_block_hashes ns blocks s1 else s1)"

definition no_acc :: batch_acc where
  "no_acc = \<lparr>sealed_blocks = [], bytes_added = 0, bytes_removed = 0, fast_path_seals = 0\<rparr>"

text \<open>The gauge update after the entry loop.\<close>

definition account_inflight :: "batch_acc \<Rightarrow> core_metrics \<Rightarrow> core_metrics" where
  "account_inflight acc m =
     (let m1 = (if 0 < bytes_added acc
                then m\<lparr>inflight_bytes := inflight_bytes m + as_i64 (bytes_added acc)\<rparr> else m)
      in if 0 < bytes_removed acc
         then m1\<lparr>inflight_bytes := inflight_bytes m1 - as_i64 (bytes_removed acc)\<rparr> else m1)"

definition publish_sealed ::
    "'l block_lru \<Rightarrow> string \<Rightarrow> (block_key \<times> sealed_block) list \<Rightarrow> 'l write_state \<Rightarrow> 'l write_state" where
  "publish_sealed ops ns blocks s =
     (if blocks \<noteq> [] \<and> deps_alive s
      then let (c, m) = batch_insert_refs ops blocks (read_cache (deps s), metrics s)
           in send_backing_batches ns blocks
                (s\<lparr>deps := (deps s)\<lparr>read_cache := c\<rparr>, metrics := m\<rparr>)
      else s)"

definition process_insert_batch ::
    "'l block_lru \<Rightarrow> instant \<Rightarrow> insert_entries \<Rightarrow> usize \<Rightarrow> numa_node \<Rightarrow> string \<Rightarrow> 'l write_state \<Rightarrow>
     (usize \<times> 'l write_state) option" where
  "process_insert_batch ops now entries n numa ns s =
     (let is_resident = (\<lambda>key. deps_alive s \<and> hd (contains_keys ops [key] (read_cache (deps s))))
      in case process_entries is_resident now n numa entries (inflight s, no_acc) of
           None \<Rightarrow> None
         | Some (m, acc) \<Rightarrow>
             Some (fast_path_seals acc,
                   publish_sealed ops ns (sealed_blocks acc)
                     (s\<lparr>inflight := m, metrics := account_inflight acc (metrics s)\<rparr>)))"

definition process_raw_save_batch ::
    "'l block_lru \<Rightarrow> ((block_hash, slot_inserts) hmap \<Rightarrow> (block_hash, slot_inserts) hmap) \<Rightarrow>
     instant \<Rightarrow> raw_save_batch \<Rightarrow> 'l write_state \<Rightarrow> 'l write_state option" where
  "process_raw_save_batch ops order now batch s =
     (case build_insert_entries order batch of
        None \<Rightarrow> None
      | Some (entries, _, _) \<Rightarrow>
          map_option snd (process_insert_batch ops now entries (batch_total_slots batch)
            (batch_numa_node batch) (batch_namespace batch) s))"

section \<open>Garbage collection and the worker loop\<close>

definition inflight_alive :: "duration \<Rightarrow> instant \<Rightarrow> inflight_block \<Rightarrow> bool" where
  "inflight_alive max_age now ib \<longleftrightarrow> \<not> max_age < inflight_age ib now"

definition gc_inflight :: "duration \<Rightarrow> instant \<Rightarrow> 'l write_state \<Rightarrow> usize \<times> 'l write_state" where
  "gc_inflight max_age now s =
     (let before = length (inflight s);
          stale = hm_retain (\<lambda>_ ib. \<not> inflight_alive max_age now ib) (inflight s);
          kept = sweep (inflight_alive max_age) now (inflight s);
          m = (metrics s)\<lparr>inflight_bytes := inflight_bytes (metrics s)
                 - hm_sum (\<lambda>ib. as_i64 (ib_footprint ib)) stale\<rparr>;
          cleaned = before - length kept
      in (cleaned,
          s\<lparr>inflight := kept,
            metrics := (if 0 < cleaned
                        then m\<lparr>inflight_gc_cleaned := inflight_gc_cleaned m + cleaned\<rparr>
                        else m)\<rparr>))"

definition worker_step ::
    "'l block_lru \<Rightarrow> ((block_hash, slot_inserts) hmap \<Rightarrow> (block_hash, slot_inserts) hmap) \<Rightarrow>
     instant \<times> insert_worker_command \<Rightarrow> 'l write_state \<Rightarrow> 'l write_state option" where
  "worker_step ops order timed_cmd s =
     (case timed_cmd of (now, cmd) \<Rightarrow>
        (case cmd of
           RawInsert batch \<Rightarrow> process_raw_save_batch ops order now batch s
         | Flush token \<Rightarrow> Some (s\<lparr>replies := replies s @ [FlushDone token]\<rparr>)
         | Gc max_age token \<Rightarrow>
             (let (cleaned, s') = gc_inflight max_age now s
              in Some (s'\<lparr>replies := replies s' @ [GcDone token cleaned]\<rparr>))))"

fun worker_run ::
    "'l block_lru \<Rightarrow> ((block_hash, slot_inserts) hmap \<Rightarrow> (block_hash, slot_inserts) hmap) \<Rightarrow>
     (instant \<times> insert_worker_command) list \<Rightarrow> 'l write_state \<Rightarrow> 'l write_state option" where
  "worker_run ops order [] s = Some s"
| "worker_run ops order (c # cs) s =
     (case worker_step ops order c s of None \<Rightarrow> None | Some s' \<Rightarrow> worker_run ops order cs s')"

text \<open>
  The loop of the worker thread: each blocking \<open>recv\<close> is followed by draining the channel, so
  the commands arrive in chunks.
\<close>

fun insert_worker_loop ::
    "'l block_lru \<Rightarrow> ((block_hash, slot_inserts) hmap \<Rightarrow> (block_hash, slot_inserts) hmap) \<Rightarrow>
     (instant \<times> insert_worker_command) list list \<Rightarrow> 'l write_state \<Rightarrow> 'l write_state option" where
  "insert_worker_loop ops order [] s = Some s"
| "insert_worker_loop ops order (cmds # chunks) s =
     (case worker_run ops order cmds s of
        None \<Rightarrow> None
      | Some s' \<Rightarrow> insert_worker_loop ops order chunks s')"

section \<open>Filling one block: behaviour\<close>

text \<open>What the slot loop leaves in slot \<open>i\<close>: the first writer wins.\<close>

definition slot_after :: "raw_block option list \<Rightarrow> slot_inserts \<Rightarrow> nat \<Rightarrow> raw_block option" where
  "slot_after old slots i = (case old ! i of Some b \<Rightarrow> Some b | None \<Rightarrow> map_of slots i)"

definition numa_after ::
    "raw_block option list \<Rightarrow> numa_node list \<Rightarrow> slot_inserts \<Rightarrow> numa_node \<Rightarrow> nat \<Rightarrow> numa_node" where
  "numa_after old numas slots numa i =
     (if old ! i = None \<and> map_of slots i \<noteq> None then numa else numas ! i)"

definition filled_bytes :: "inflight_block \<Rightarrow> nat" where
  "filled_bytes ib = sum_list (map opt_footprint (ib_slots ib))"

definition slot_ids_ok :: "slot_inserts \<Rightarrow> usize \<Rightarrow> bool" where
  "slot_ids_ok slots n \<longleftrightarrow> list_all (\<lambda>(sid, _). sid < n) slots"

definition fill_result ::
    "slot_inserts \<Rightarrow> numa_node \<Rightarrow> u64 \<Rightarrow> inflight_block \<Rightarrow> inflight_block \<times> bool \<times> u64 \<Rightarrow> bool" where
  "fill_result slots numa added ib r \<longleftrightarrow>
     (case r of (ib', completed, added') \<Rightarrow>
        inflight_wf ib' \<and> total_slots ib' = total_slots ib \<and> created_at ib' = created_at ib \<and>
        (completed \<longleftrightarrow> remaining ib' = 0) \<and>
        (\<forall>i < total_slots ib. ib_slots ib' ! i = slot_after (ib_slots ib) slots i \<and>
           ib_slot_numas ib' ! i = numa_after (ib_slots ib) (ib_slot_numas ib) slots numa i) \<and>
        filled_bytes ib \<le> filled_bytes ib' \<and> filled_bytes ib' \<le> filled_bytes ib + slots_bytes slots \<and>
        added' = min (added + (filled_bytes ib' - filled_bytes ib)) u64_max)"

lemma wf_nth_Some: "inflight_wf ib \<Longrightarrow> remaining ib = 0 \<Longrightarrow> i < total_slots ib \<Longrightarrow> ib_slots ib ! i \<noteq> None"
  using remaining_zero_iff [of ib] nth_mem [of i "ib_slots ib"] by (metis inflight_wf_def)

lemma fill_slots_result:
  assumes "inflight_wf ib" "0 < remaining ib" "slot_ids_ok slots (total_slots ib)" "added \<le> u64_max"
  shows "\<exists>r. fill_slots slots numa False added ib = Some r \<and> fill_result slots numa added ib r"
  using assms
proof (induction slots arbitrary: ib added)
  case Nil
  then show ?case
    by (auto simp: fill_result_def slot_after_def numa_after_def slots_bytes_def split: option.splits)
next
  case (Cons slot slots)
  obtain sid b where slot: "slot = (sid, b)" by (cases slot)
  from Cons.prems(3) have sid: "sid < total_slots ib" and ok: "slot_ids_ok slots (total_slots ib)"
    by (auto simp: slot slot_ids_ok_def)
  have lens: "length (ib_slots ib) = total_slots ib" "length (ib_slot_numas ib) = total_slots ib"
    using Cons.prems(1) by (auto simp: inflight_wf_def)
  show ?case
    using Cons.prems(1) sid
  proof (cases rule: insert_slot_cases [where b = b and numa = numa])
    case (dup old)
    obtain r where r: "fill_slots slots numa False added ib = Some r"
        "fill_result slots numa added ib r"
      using Cons.IH [OF Cons.prems(1,2) ok Cons.prems(4)] by blast
    have "slot_after (ib_slots ib) (slot # slots) i = slot_after (ib_slots ib) slots i"
      "numa_after (ib_slots ib) (ib_slot_numas ib) (slot # slots) numa i =
        numa_after (ib_slots ib) (ib_slot_numas ib) slots numa i" for i
      using dup(1) by (auto simp: slot_after_def numa_after_def slot split: option.splits)
    with r(2) have "fill_result (slot # slots) numa added ib r"
      by (auto simp: fill_result_def slots_bytes_def)
    with r(1) dup(2) show ?thesis by (simp add: slot)
  next
    case (new n)
    define ib1 where "ib1 = ib\<lparr>ib_footprint := wrapping_add (ib_footprint ib) (raw_footprint b),
        ib_slots := (ib_slots ib)[sid := Some b], ib_slot_numas := (ib_slot_numas ib)[sid := numa],
        remaining := n\<rparr>"
    have wf1: "inflight_wf ib1"
      unfolding ib1_def by (rule inflight_wf_step [OF Cons.prems(1) sid new(1,2)])
    have same: "total_slots ib1 = total_slots ib" "created_at ib1 = created_at ib"
        "remaining ib1 = n" "ib_slots ib1 = (ib_slots ib)[sid := Some b]"
        "ib_slot_numas ib1 = (ib_slot_numas ib)[sid := numa]"
      by (simp_all add: ib1_def)
    have bytes: "filled_bytes ib1 = filled_bytes ib + raw_footprint b"
      using sum_opt_footprint_update [of sid "ib_slots ib" b] sid lens new(1)
      by (simp add: filled_bytes_def same)
    have step1: "slot_after (ib_slots ib1) slots i = slot_after (ib_slots ib) (slot # slots) i"
      if "i < total_slots ib" for i
      using that new(1) lens by (cases "i = sid") (auto simp: slot_after_def slot same split: option.split)
    have step2: "numa_after (ib_slots ib1) (ib_slot_numas ib1) slots numa i =
        numa_after (ib_slots ib) (ib_slot_numas ib) (slot # slots) numa i"
      if "i < total_slots ib" for i
      using that new(1) lens by (cases "i = sid") (simp_all add: numa_after_def slot same)
    note step = step1 step2
    have ins: "insert_slot sid b numa ib = Some (ib1, Inserted (n = 0) (raw_footprint b))"
      using new(3) by (simp add: ib1_def)
    show ?thesis
    proof (cases "n = 0")
      case True
      have "ib_slots ib1 ! i = slot_after (ib_slots ib1) slots i \<and>
          ib_slot_numas ib1 ! i = numa_after (ib_slots ib1) (ib_slot_numas ib1) slots numa i"
        if "i < total_slots ib" for i
        using wf_nth_Some [OF wf1, of i] that True
        by (auto simp: slot_after_def numa_after_def same split: option.splits)
      with step wf1 same bytes True Cons.prems(4)
      have "fill_result (slot # slots) numa added ib (ib1, True, saturating_add added (raw_footprint b))"
        by (auto simp: fill_result_def slots_bytes_def slot saturating_add_def)
      with ins True show ?thesis by (simp add: slot)
    next
      case False
      let ?added = "saturating_add added (raw_footprint b)"
      have "?added \<le> u64_max" by (simp add: saturating_add_def)
      then obtain r where r: "fill_slots slots numa False ?added ib1 = Some r"
          "fill_result slots numa ?added ib1 r"
        using Cons.IH [OF wf1, of ?added] same ok False by auto
      from r(2) step same bytes have "fill_result (slot # slots) numa added ib r"
        by (cases r) (auto simp: fill_result_def slots_bytes_def slot saturating_add_def)
      with r(1) ins False show ?thesis by (simp add: slot)
    qed
  qed
qed

section \<open>One entry: invariant and accounting\<close>

definition inflight_inv :: "inflight_map \<Rightarrow> bool" where
  "inflight_inv m \<longleftrightarrow>
     hm_wf m \<and> list_all (\<lambda>(_, ib). inflight_wf ib \<and> 0 < remaining ib) m"

definition inflight_total :: "inflight_map \<Rightarrow> int" where
  "inflight_total m = hm_sum (\<lambda>ib. int (filled_bytes ib)) m"

text \<open>The slots already held for a key: none if the key is not in flight.\<close>

definition held_block :: "instant \<Rightarrow> usize \<Rightarrow> inflight_map \<Rightarrow> block_key \<Rightarrow> inflight_block" where
  "held_block now n m key = (case hm_get m key of None \<Rightarrow> inflight_new n now | Some ib \<Rightarrow> ib)"

lemma inflight_inv_get:
  "inflight_inv m \<Longrightarrow> hm_get m key = Some ib \<Longrightarrow> inflight_wf ib \<and> 0 < remaining ib"
  by (auto simp: inflight_inv_def list_all_iff dest!: map_of_SomeD)

lemma inflight_inv_insert:
  "inflight_inv m \<Longrightarrow> inflight_wf ib \<Longrightarrow> 0 < remaining ib \<Longrightarrow> inflight_inv (hm_insert key ib m)"
  by (auto simp: inflight_inv_def)

lemma inflight_inv_remove: "inflight_inv m \<Longrightarrow> inflight_inv (hm_remove key m)"
  by (auto simp: inflight_inv_def)

lemma inflight_total_nonneg: "0 \<le> inflight_total m"
  unfolding inflight_total_def hm_sum_def by (rule sum_list_nonneg) auto

lemma held_block_wf:
  assumes "inflight_inv m" "hm_get m key = None \<Longrightarrow> 0 < n"
  shows "inflight_wf (held_block now n m key)" "0 < remaining (held_block now n m key)"
proof -
  have "inflight_wf (held_block now n m key) \<and> 0 < remaining (held_block now n m key)"
  proof (cases "hm_get m key")
    case None
    with assms(2) show ?thesis by (simp add: held_block_def) (simp add: inflight_new_def)
  next
    case (Some ib)
    with inflight_inv_get [OF assms(1)] show ?thesis by (simp add: held_block_def)
  qed
  then show "inflight_wf (held_block now n m key)" "0 < remaining (held_block now n m key)" by simp_all
qed

lemma held_bytes:
  assumes "inflight_inv m"
  shows "inflight_total m = int (filled_bytes (held_block now n m key)) + inflight_total (hm_remove key m)"
proof -
  have "filled_bytes (inflight_new n now) = 0"
    by (simp add: filled_bytes_def inflight_new_def opt_footprint_def sum_list_replicate)
  then show ?thesis
    using assms by (auto simp: inflight_total_def hm_sum_remove inflight_inv_def held_block_def
        split: option.splits)
qed

lemma insert_partial_slots_eq:
  assumes inv: "inflight_inv m" and n: "hm_get m key = None \<Longrightarrow> 0 < n"
    and same: "\<And>ib. hm_get m key = Some ib \<Longrightarrow> total_slots ib = n"
    and ids: "slot_ids_ok slots n" and added: "bytes_added acc \<le> u64_max"
  obtains ib' completed added' where
    "fill_result slots numa (bytes_added acc) (held_block now n m key) (ib', completed, added')"
    "total_slots ib' = n"
    "insert_partial_slots now key slots n numa (m, acc) =
       (if completed
        then Some (hm_remove key m,
          acc\<lparr>bytes_added := added',
              bytes_removed := saturating_add (bytes_removed acc) (ib_footprint ib'),
              sealed_blocks := sealed_blocks acc @ [(key, the (seal ib'))]\<rparr>)
        else Some (hm_insert key ib' m, acc\<lparr>bytes_added := added'\<rparr>))"
proof -
  let ?ib = "held_block now n m key"
  have tot: "total_slots ?ib = n"
    using same by (auto simp: held_block_def inflight_new_def split: option.splits)
  have wf: "inflight_wf ?ib" "0 < remaining ?ib"
    by (rule held_block_wf [OF inv], rule n, assumption)+
  have "slot_ids_ok slots (total_slots ?ib)" using ids tot by simp
  from fill_slots_result [OF wf this added, of numa] obtain r where
    r: "fill_slots slots numa False (bytes_added acc) ?ib = Some r"
      "fill_result slots numa (bytes_added acc) ?ib r"
    by (elim exE conjE)
  obtain ib' completed added' where "r = (ib', completed, added')" by (cases r)
  with r have
    fill: "fill_slots slots numa False (bytes_added acc) ?ib = Some (ib', completed, added')"
      "fill_result slots numa (bytes_added acc) ?ib (ib', completed, added')"
    by simp_all
  have pick: "(case hm_get m key of None \<Rightarrow> Some (inflight_new n now)
      | Some ib \<Rightarrow> if total_slots ib \<noteq> n then None else Some ib) = Some ?ib"
    using same by (auto simp: held_block_def split: option.splits)
  have "\<exists>sb. seal ib' = Some sb" if completed
    using fill(2) that seal_None_iff [of ib'] by (auto simp: fill_result_def)
  with fill pick tot show ?thesis
    by (intro that [of ib' completed added'])
      (auto simp: insert_partial_slots_def fill_result_def)
qed

lemma footprint_exact: "inflight_wf ib \<Longrightarrow> filled_bytes ib \<le> u64_max \<Longrightarrow> ib_footprint ib = filled_bytes ib"
  by (simp add: inflight_wf_def filled_bytes_def wrapping_sum_exact)

text \<open>The relation one entry keeps between the in-flight map and the accumulators.\<close>

definition entry_ok :: "nat \<Rightarrow> inflight_map \<times> batch_acc \<Rightarrow> inflight_map \<times> batch_acc \<Rightarrow> bool" where
  "entry_ok bytes s s' \<longleftrightarrow>
     inflight_inv (fst s') \<and>
     bytes_added (snd s) \<le> bytes_added (snd s') \<and>
     bytes_added (snd s') \<le> bytes_added (snd s) + bytes \<and>
     inflight_total (fst s') + int (bytes_removed (snd s')) - int (bytes_added (snd s')) =
       inflight_total (fst s) + int (bytes_removed (snd s)) - int (bytes_added (snd s))"

lemma insert_partial_slots_ok:
  assumes inv: "inflight_inv m" and n: "hm_get m key = None \<Longrightarrow> 0 < n"
    and ids: "slot_ids_ok slots n"
    and bytes: "inflight_total m + int (bytes_removed acc) + int (slots_bytes slots) \<le> int u64_max"
      "bytes_added acc + slots_bytes slots \<le> u64_max"
  shows "\<exists>s'. insert_partial_slots now key slots n numa (m, acc) = Some s' \<and>
    entry_ok (slots_bytes slots) (m, acc) s'"
proof (cases "\<exists>ib. hm_get m key = Some ib \<and> total_slots ib \<noteq> n")
  case True
  with inv show ?thesis by (auto simp: insert_partial_slots_def entry_ok_def)
next
  case False
  then have same: "\<And>ib. hm_get m key = Some ib \<Longrightarrow> total_slots ib = n" by auto
  from bytes(2) have "bytes_added acc \<le> u64_max" by simp
  from insert_partial_slots_eq [OF inv n same ids this] obtain ib' completed added' where
    fill: "fill_result slots numa (bytes_added acc) (held_block now n m key) (ib', completed, added')"
    and eq: "insert_partial_slots now key slots n numa (m, acc) =
       (if completed
        then Some (hm_remove key m,
          acc\<lparr>bytes_added := added',
              bytes_removed := saturating_add (bytes_removed acc) (ib_footprint ib'),
              sealed_blocks := sealed_blocks acc @ [(key, the (seal ib'))]\<rparr>)
        else Some (hm_insert key ib' m, acc\<lparr>bytes_added := added'\<rparr>))"
    by metis
  let ?old = "filled_bytes (held_block now n m key)" and ?rest = "inflight_total (hm_remove key m)"
  have tot: "inflight_total m = int ?old + ?rest" by (rule held_bytes [OF inv])
  have le: "?old \<le> filled_bytes ib'" "filled_bytes ib' \<le> ?old + slots_bytes slots" "inflight_wf ib'"
    using fill by (auto simp: fill_result_def)
  have added: "added' = bytes_added acc + (filled_bytes ib' - ?old)"
    using fill le(1,2) bytes(2) by (auto simp: fill_result_def)
  have "0 \<le> ?rest" by (rule inflight_total_nonneg)
  then have small: "filled_bytes ib' + bytes_removed acc \<le> u64_max"
    using bytes(1) tot le by linarith
  then have fp: "ib_footprint ib' = filled_bytes ib'" using footprint_exact [OF le(3)] by simp
  show ?thesis
  proof (cases completed)
    case True
    with eq inv tot le added small fp show ?thesis
      by (auto simp: entry_ok_def inflight_inv_remove)
  next
    case False
    then have "0 < remaining ib'" using fill by (auto simp: fill_result_def)
    moreover have "inflight_total (hm_insert key ib' m) = int (filled_bytes ib') + ?rest"
      using inv tot
      by (auto simp: inflight_total_def hm_sum_insert hm_sum_remove inflight_inv_def)
    ultimately show ?thesis
      using False eq inv tot le added by (auto simp: entry_ok_def inflight_inv_insert)
  qed
qed

section \<open>A batch\<close>

definition entries_bytes :: "insert_entries \<Rightarrow> nat" where
  "entries_bytes es = sum_list (map (slots_bytes \<circ> snd) es)"

definition entries_ok :: "usize \<Rightarrow> insert_entries \<Rightarrow> bool" where
  "entries_ok n es \<longleftrightarrow> list_all (\<lambda>(_, slots). slot_ids_ok slots n) es"

lemma process_entry_ok:
  assumes inv: "inflight_inv m" and ids: "slot_ids_ok slots n"
    and bytes: "inflight_total m + int (bytes_removed acc) + int (slots_bytes slots) \<le> int u64_max"
      "bytes_added acc + slots_bytes slots \<le> u64_max"
  shows "\<exists>s'. process_entry is_resident now n numa (key, slots) (m, acc) = Some s' \<and>
    entry_ok (slots_bytes slots) (m, acc) s'"
proof -
  have refl: "entry_ok (slots_bytes slots) (m, acc) (m, acc\<lparr>fast_path_seals := x, sealed_blocks := y\<rparr>)"
      "entry_ok (slots_bytes slots) (m, acc) (m, acc)" for x y
    using inv by (simp_all add: entry_ok_def)
  consider (resident) "is_resident key" | (held) "\<not> is_resident key" "hm_contains m key"
    | (fast) sb where "\<not> is_resident key" "\<not> hm_contains m key"
        "from_ordered_slot_inserts slots n numa = Inr sb"
    | (slow) "\<not> is_resident key" "\<not> hm_contains m key"
        "from_ordered_slot_inserts slots n numa = Inl slots"
    using from_ordered_slot_inserts_Inl by (metis sum.exhaust)
  then show ?thesis
  proof cases
    case resident
    then show ?thesis using refl by (simp add: process_entry_def)
  next
    case held
    then have "hm_get m key \<noteq> None" by (simp add: hm_contains_iff)
    then have "\<exists>s'. insert_partial_slots now key slots n numa (m, acc) = Some s' \<and>
        entry_ok (slots_bytes slots) (m, acc) s'"
      by (intro insert_partial_slots_ok [OF inv _ ids bytes]) simp
    then show ?thesis
      using held
      by (simp add: process_entry_def)
  next
    case (fast sb)
    then show ?thesis using refl(1) by (simp add: process_entry_def)
  next
    case slow
    then have "0 < n"
      using ids by (cases slots; cases n) (auto simp: from_ordered_slot_inserts_def slot_ids_ok_def)
    then show ?thesis
      using insert_partial_slots_ok [OF inv _ ids bytes, of key now numa] slow
      by (simp add: process_entry_def)
  qed
qed

lemma process_entries_ok:
  assumes "inflight_inv m" "entries_ok n es"
    "inflight_total m + int (bytes_removed acc) + int (entries_bytes es) \<le> int u64_max"
    "bytes_added acc + entries_bytes es \<le> u64_max"
  shows "\<exists>s'. process_entries is_resident now n numa es (m, acc) = Some s' \<and>
    entry_ok (entries_bytes es) (m, acc) s'"
  using assms
proof (induction es arbitrary: m acc)
  case (Cons e es)
  obtain key slots where e: "e = (key, slots)" by (cases e)
  have ids: "slot_ids_ok slots n" "entries_ok n es" using Cons.prems(2) by (auto simp: entries_ok_def e)
  have b: "entries_bytes (e # es) = slots_bytes slots + entries_bytes es"
    by (simp add: entries_bytes_def e)
  have b1: "inflight_total m + int (bytes_removed acc) + int (slots_bytes slots) \<le> int u64_max"
    "bytes_added acc + slots_bytes slots \<le> u64_max"
    using Cons.prems(3,4) unfolding b by auto
  obtain m1 acc1 where s1: "process_entry is_resident now n numa e (m, acc) = Some (m1, acc1)"
      "entry_ok (slots_bytes slots) (m, acc) (m1, acc1)"
    using process_entry_ok [OF Cons.prems(1) ids(1) b1, of is_resident now numa key]
    by (auto simp: e)
  have "inflight_total m1 + int (bytes_removed acc1) + int (entries_bytes es) \<le> int u64_max"
    "bytes_added acc1 + entries_bytes es \<le> u64_max"
    using s1(2) Cons.prems(3,4) unfolding entry_ok_def b by auto
  from Cons.IH [OF _ ids(2) this] s1(2) obtain s2 where
    "process_entries is_resident now n numa es (m1, acc1) = Some s2"
    "entry_ok (entries_bytes es) (m1, acc1) s2"
    by (auto simp: entry_ok_def)
  with s1 show ?case unfolding b by (auto simp: entry_ok_def)
qed (simp add: entry_ok_def)

section \<open>The invariant of the worker\<close>

definition pipeline_inv :: "'l block_lru \<Rightarrow> ('l \<Rightarrow> bool) \<Rightarrow> 'l write_state \<Rightarrow> bool" where
  "pipeline_inv ops I s \<longleftrightarrow>
     inflight_inv (inflight s) \<and> I (lru (read_cache (deps s))) \<and>
     inflight_bytes (metrics s) = inflight_total (inflight s) \<and>
     cache_resident_bytes (metrics s) = resident_bytes (resident ops (read_cache (deps s)))"

lemma batch_insert_refs_eq: "batch_insert_refs = batch_insert"
  by (simp add: fun_eq_iff batch_insert_refs_def batch_insert_def)

lemma batch_insert_inflight_bytes:
  "batch_insert ops kvs (c, m) = (c', m') \<Longrightarrow> inflight_bytes m' = inflight_bytes m"
proof (induction kvs arbitrary: c m)
  case (Cons kv kvs)
  obtain c1 m1 where 1: "(case kv of (key, b) \<Rightarrow> insert_block ops key b (c, m)) = (c1, m1)"
    by (cases "case kv of (key, b) \<Rightarrow> insert_block ops key b (c, m)")
  then have "inflight_bytes m1 = inflight_bytes m"
    by (auto simp: insert_block_def Let_def split: prod.splits cache_insert_outcome.splits)
  with Cons.IH [of c1 m1] Cons.prems 1 show ?case by (simp add: batch_insert_def case_prod_beta)
qed (simp add: batch_insert_def)

lemma send_backing_batches_same [simp]:
  "inflight (send_backing_batches ns bs s) = inflight s"
  "deps (send_backing_batches ns bs s) = deps s"
  "metrics (send_backing_batches ns bs s) = metrics s"
  by (simp_all add: send_backing_batches_def register_block_hashes_def Let_def)

lemma publish_sealed_inv:
  assumes "block_lru_map ops I" "pipeline_inv ops I s"
  shows "pipeline_inv ops I (publish_sealed ops ns bs s)"
    "inflight (publish_sealed ops ns bs s) = inflight s"
proof -
  obtain c m where ins: "batch_insert ops bs (read_cache (deps s), metrics s) = (c, m)"
    by (cases "batch_insert ops bs (read_cache (deps s), metrics s)")
  have I: "I (lru (read_cache (deps s)))" using assms(2) by (simp add: pipeline_inv_def)
  from block_lru_map.batch_insert_spec [OF assms(1) I ins] batch_insert_inflight_bytes [OF ins]
  have "I (lru c)" "cache_resident_bytes m - resident_bytes (resident ops c) =
      cache_resident_bytes (metrics s) - resident_bytes (resident ops (read_cache (deps s)))"
      "inflight_bytes m = inflight_bytes (metrics s)"
    by auto
  with assms(2) ins show "pipeline_inv ops I (publish_sealed ops ns bs s)"
    "inflight (publish_sealed ops ns bs s) = inflight s"
    by (auto simp: publish_sealed_def batch_insert_refs_eq pipeline_inv_def)
qed

lemma process_insert_batch_ok:
  assumes lru: "block_lru_map ops I" and inv: "pipeline_inv ops I s" and ids: "entries_ok n es"
    and bytes: "inflight_total (inflight s) + int (entries_bytes es) < 2 ^ 63"
  shows "\<exists>r s'. process_insert_batch ops now es n numa ns s = Some (r, s') \<and> pipeline_inv ops I s' \<and>
    inflight_total (inflight s') \<le> inflight_total (inflight s) + int (entries_bytes es)"
proof -
  define res where "res = (\<lambda>key. deps_alive s \<and> hd (contains_keys ops [key] (read_cache (deps s))))"
  have i: "inflight_inv (inflight s)" using inv by (simp add: pipeline_inv_def)
  have "inflight_total (inflight s) + int (bytes_removed no_acc) + int (entries_bytes es) \<le> int u64_max"
    "bytes_added no_acc + entries_bytes es \<le> u64_max"
    using bytes inflight_total_nonneg [of "inflight s"] by (simp_all add: no_acc_def u64_max_def)
  from process_entries_ok [OF i ids this, of res now numa] obtain m acc where
    run: "process_entries res now n numa es (inflight s, no_acc) = Some (m, acc)"
      "entry_ok (entries_bytes es) (inflight s, no_acc) (m, acc)"
    by auto
  then have ok: "inflight_inv m" "bytes_added acc \<le> entries_bytes es"
      "inflight_total m + int (bytes_removed acc) - int (bytes_added acc) = inflight_total (inflight s)"
    by (auto simp: entry_ok_def no_acc_def)
  with bytes inflight_total_nonneg [of m] inflight_total_nonneg [of "inflight s"]
  have "int (bytes_added acc) < 2 ^ 63" "int (bytes_removed acc) < 2 ^ 63" by linarith+
  then have small: "bytes_added acc < 2 ^ 63" "bytes_removed acc < 2 ^ 63" by simp_all
  let ?s = "s\<lparr>inflight := m, metrics := account_inflight acc (metrics s)\<rparr>"
  have "inflight_bytes (account_inflight acc (metrics s)) =
      inflight_bytes (metrics s) + int (bytes_added acc) - int (bytes_removed acc)"
    "cache_resident_bytes (account_inflight acc (metrics s)) = cache_resident_bytes (metrics s)"
    using small by (simp_all add: account_inflight_def Let_def)
  with inv ok have "pipeline_inv ops I ?s" by (simp add: pipeline_inv_def)
  from publish_sealed_inv [OF lru this, of ns "sealed_blocks acc"] run(1) ok bytes show ?thesis
    by (auto simp: process_insert_batch_def res_def [symmetric])
qed

section \<open>Commands\<close>

definition batch_wf :: "raw_save_batch \<Rightarrow> bool" where
  "batch_wf batch \<longleftrightarrow>
     list_all (\<lambda>l. length (layer_blocks l) = length (block_hashes l) \<and>
                    slot_id l < batch_total_slots batch) (batch_layers batch)"

fun cmd_wf :: "insert_worker_command \<Rightarrow> bool" where
  "cmd_wf (RawInsert batch) = batch_wf batch"
| "cmd_wf _ = True"

fun cmd_bytes :: "insert_worker_command \<Rightarrow> nat" where
  "cmd_bytes (RawInsert batch) = batch_bytes batch"
| "cmd_bytes _ = 0"

lemma process_raw_save_batch_ok:
  assumes lru: "block_lru_map ops I" and inv: "pipeline_inv ops I s" and wf: "batch_wf batch"
    and order: "\<And>m. mset (order m) = mset m"
    and bytes: "inflight_total (inflight s) + int (batch_bytes batch) < 2 ^ 63"
  shows "\<exists>s'. process_raw_save_batch ops order now batch s = Some s' \<and> pipeline_inv ops I s' \<and>
    inflight_total (inflight s') \<le> inflight_total (inflight s) + int (batch_bytes batch)"
proof -
  obtain es b k where es: "build_insert_entries order batch = Some (es, b, k)"
      "entries_bytes es = batch_bytes batch" "entries_ok (batch_total_slots batch) es"
    unfolding entries_bytes_def entries_ok_def slot_ids_ok_def
    by (rule build_insert_entries_bytes [where order = order, OF wf [unfolded batch_wf_def] order])
  have "inflight_total (inflight s) + int (entries_bytes es) < 2 ^ 63" using es(2) bytes by linarith
  from process_insert_batch_ok [OF lru inv es(3) this, of now "batch_numa_node batch" "batch_namespace batch"]
  obtain r s' where "process_insert_batch ops now es (batch_total_slots batch) (batch_numa_node batch)
        (batch_namespace batch) s = Some (r, s')" "pipeline_inv ops I s'"
      "inflight_total (inflight s') \<le> inflight_total (inflight s) + int (entries_bytes es)"
    by (elim exE conjE)
  with es show ?thesis by (simp add: process_raw_save_batch_def)
qed

interpretation inflight_expiry: expiring "inflight_alive max_age"
  by unfold_locales (auto simp: inflight_alive_def inflight_age_def duration_since_def)

lemma inflight_total_elem:
  "(k, ib) \<in> set m \<Longrightarrow> int (filled_bytes ib) \<le> inflight_total m"
proof (induction m)
  case (Cons x m)
  obtain k' ib' where x: "x = (k', ib')" by (cases x)
  show ?case
    using Cons inflight_total_nonneg [of m] by (auto simp: inflight_total_def x)
qed simp

lemma hm_sum_cong:
  "(\<And>k v. (k, v) \<in> set m \<Longrightarrow> f v = g v) \<Longrightarrow> hm_sum f m = hm_sum g m"
  unfolding hm_sum_def by (intro arg_cong [of _ _ sum_list] map_cong) auto

lemma gc_inflight_ok:
  assumes inv: "pipeline_inv ops I s" and bytes: "inflight_total (inflight s) < 2 ^ 63"
    and gc: "gc_inflight max_age now s = (cleaned, s')"
  shows "pipeline_inv ops I s'"
    "inflight s' = sweep (inflight_alive max_age) now (inflight s)"
    "inflight_total (inflight s') \<le> inflight_total (inflight s)"
proof -
  define stale where "stale = hm_retain (\<lambda>_ ib. \<not> inflight_alive max_age now ib) (inflight s)"
  define kept where "kept = sweep (inflight_alive max_age) now (inflight s)"
  have i: "inflight_inv (inflight s)" using inv by (simp add: pipeline_inv_def)
  have "as_i64 (ib_footprint ib) = int (filled_bytes ib)" if "(k, ib) \<in> set (inflight s)" for k ib
  proof -
    have "int (filled_bytes ib) < 2 ^ 63" using inflight_total_elem [OF that] bytes by simp
    then have "filled_bytes ib < 2 ^ 63" by simp
    moreover have "inflight_wf ib" using i that by (auto simp: inflight_inv_def list_all_iff)
    ultimately show ?thesis using footprint_exact [of ib] by (simp add: u64_max_def)
  qed
  then have st: "hm_sum (\<lambda>ib. as_i64 (ib_footprint ib)) stale = inflight_total stale"
    unfolding inflight_total_def stale_def hm_retain_def by (intro hm_sum_cong) auto
  have split: "inflight_total (inflight s) = inflight_total kept + inflight_total stale"
    using hm_sum_retain [of "\<lambda>ib. int (filled_bytes ib)" "inflight s" "\<lambda>_. inflight_alive max_age now"]
    by (simp add: inflight_total_def kept_def stale_def sweep_def)
  have s': "inflight s' = kept" "deps s' = deps s"
    "inflight_bytes (metrics s') = inflight_bytes (metrics s) - inflight_total stale"
    "cache_resident_bytes (metrics s') = cache_resident_bytes (metrics s)"
    using gc st by (auto simp: gc_inflight_def Let_def kept_def stale_def split: if_splits)
  have "inflight_inv kept" using i by (auto simp: inflight_inv_def kept_def sweep_def)
  with inv s' split show "pipeline_inv ops I s'" by (simp add: pipeline_inv_def)
  show "inflight s' = sweep (inflight_alive max_age) now (inflight s)"
    using s' by (simp add: kept_def)
  show "inflight_total (inflight s') \<le> inflight_total (inflight s)"
    using s' split inflight_total_nonneg [of stale] by simp
qed

lemma worker_step_ok:
  assumes lru: "block_lru_map ops I" and inv: "pipeline_inv ops I s" and wf: "cmd_wf cmd"
    and order: "\<And>m. mset (order m) = mset m"
    and bytes: "inflight_total (inflight s) + int (cmd_bytes cmd) < 2 ^ 63"
  shows "\<exists>s'. worker_step ops order (now, cmd) s = Some s' \<and> pipeline_inv ops I s' \<and>
    inflight_total (inflight s') \<le> inflight_total (inflight s) + int (cmd_bytes cmd)"
proof (cases cmd)
  case (RawInsert batch)
  with process_raw_save_batch_ok [where order = order, OF lru inv _ order, of batch] wf bytes show ?thesis
    by (simp add: worker_step_def)
next
  case (Flush token)
  with inv show ?thesis by (simp add: worker_step_def pipeline_inv_def)
next
  case (Gc max_age token)
  obtain n s' where gc: "gc_inflight max_age now s = (n, s')" by (cases "gc_inflight max_age now s")
  have "inflight_total (inflight s) < 2 ^ 63" using bytes Gc by simp
  note ok = gc_inflight_ok [OF inv this gc]
  from ok(1,3) Gc gc show ?thesis by (simp add: worker_step_def pipeline_inv_def)
qed

lemma worker_run_ok:
  assumes lru: "block_lru_map ops I" and order: "\<And>m. mset (order m) = mset m"
  shows "pipeline_inv ops I s \<Longrightarrow> list_all (\<lambda>(_, cmd). cmd_wf cmd) cmds \<Longrightarrow>
    inflight_total (inflight s) + int (sum_list (map (\<lambda>(_, cmd). cmd_bytes cmd) cmds)) < 2 ^ 63 \<Longrightarrow>
    \<exists>s'. worker_run ops order cmds s = Some s' \<and> pipeline_inv ops I s'"
proof (induction cmds arbitrary: s)
  case (Cons c cmds)
  obtain now cmd where c: "c = (now, cmd)" by (cases c)
  have "inflight_total (inflight s) + int (cmd_bytes cmd) < 2 ^ 63" using Cons.prems(3) c by simp
  from worker_step_ok [where order = order, OF lru Cons.prems(1) _ order this, of now] Cons.prems(2) c
  obtain s1 where "worker_step ops order c s = Some s1" "pipeline_inv ops I s1"
      "inflight_total (inflight s1) \<le> inflight_total (inflight s) + int (cmd_bytes cmd)"
    by auto
  with Cons.IH [of s1] Cons.prems(2,3) c show ?case by auto
qed simp

lemma worker_run_append:
  "worker_run ops order (cs @ ds) s =
     (case worker_run ops order cs s of None \<Rightarrow> None | Some s' \<Rightarrow> worker_run ops order ds s')"
  by (induction cs arbitrary: s) (auto split: option.splits)

lemma insert_worker_loop_concat:
  "insert_worker_loop ops order chunks s = worker_run ops order (concat chunks) s"
  by (induction chunks arbitrary: s) (auto simp: worker_run_append split: option.splits)

section \<open>Properties\<close>

text \<open>
  C5. The insert worker. Whatever commands it receives and however they are chunked, the worker
  never panics: the in-flight map keeps only well-formed, incomplete blocks under distinct
  keys, the in-flight gauge equals the bytes of the slots held in flight, and the resident
  gauge equals the bytes of the resident blocks. The byte totals are assumed to fit a signed
  64-bit gauge; saved layers name slots below the batch's slot count.
\<close>

theorem insert_worker_safe:
  assumes lru: "block_lru_map ops I" and order: "\<And>m. mset (order m) = mset m"
    and inv: "pipeline_inv ops I s"
    and wf: "list_all (\<lambda>(_, cmd). cmd_wf cmd) (concat chunks)"
    and bytes: "inflight_total (inflight s)
      + int (sum_list (map (\<lambda>(_, cmd). cmd_bytes cmd) (concat chunks))) < 2 ^ 63"
  shows "\<exists>s'. insert_worker_loop ops order chunks s = Some s' \<and> pipeline_inv ops I s'"
  unfolding insert_worker_loop_concat
  by (rule worker_run_ok [where order = order, OF lru order inv wf bytes])

definition empty_write_state :: "(block_key \<times> sealed_block) list write_state" where
  "empty_write_state =
     \<lparr>inflight = [], deps = \<lparr>read_cache = \<lparr>lru = [], freq = None\<rparr>, has_ssd = True,
        has_metaserver = True\<rparr>, deps_alive = True, metrics = no_metrics, ssd_ingested = [],
      registered = [], replies = []\<rparr>"

lemma empty_write_state_inv:
  "pipeline_inv list_lru_ops (\<lambda>xs. distinct (map fst xs)) empty_write_state"
  by (simp add: pipeline_inv_def empty_write_state_def inflight_inv_def inflight_total_def
      no_metrics_def resident_def list_lru_ops_def)

lemma insert_worker_safe_witness:
  "\<exists>s'. insert_worker_loop list_lru_ops (\<lambda>m. m)
      [[(1, RawInsert \<lparr>batch_namespace = ''m'', batch_total_slots = 2, batch_numa_node = 0,
          batch_layers = [\<lparr>slot_id = 1, padded_block_size = 4, layer_blocks = [raw_new []],
                           block_hashes = [[7]]\<rparr>]\<rparr>), (2, Flush 0)], [(3, Gc 1 0)]]
      empty_write_state = Some s' \<and>
    pipeline_inv list_lru_ops (\<lambda>xs. distinct (map fst xs)) s'"
  by (rule insert_worker_safe [OF list_blocks.block_lru_map_axioms _ empty_write_state_inv])
    (simp_all add: batch_wf_def batch_bytes_def raw_footprint_def raw_new_def
      empty_write_state_def inflight_total_def wrapping_sum_eq)

text \<open>
  C11. Assembling a block from slots. The slots of one entry are merged into what is already held
  for the key, the first writer of a slot winning. When every slot is then present the block
  leaves the in-flight map and is sealed with exactly these slots, in slot order; otherwise it
  stays in flight holding them. Other keys are not touched.
\<close>

theorem insert_partial_slots_assembles:
  assumes inv: "inflight_inv m" and "0 < n"
    and same: "\<And>ib. hm_get m key = Some ib \<Longrightarrow> total_slots ib = n"
    and ids: "slot_ids_ok slots n" and added: "bytes_added acc \<le> u64_max"
    and merged: "merged = map (slot_after (ib_slots (held_block now n m key)) slots) [0..<n]"
  shows "\<exists>m' acc'. insert_partial_slots now key slots n numa (m, acc) = Some (m', acc') \<and>
    (\<forall>k. k \<noteq> key \<longrightarrow> hm_get m' k = hm_get m k) \<and>
    (if None \<notin> set merged
     then hm_get m' key = None \<and>
       (\<exists>sb. sealed_blocks acc' = sealed_blocks acc @ [(key, sb)] \<and> map Some (sb_slots sb) = merged)
     else sealed_blocks acc' = sealed_blocks acc \<and>
       (\<exists>ib. hm_get m' key = Some ib \<and> ib_slots ib = merged))"
proof -
  from insert_partial_slots_eq [where now = now and numa = numa and key = key,
      OF inv \<open>0 < n\<close> same ids added]
  obtain ib' completed added' where
    fill: "fill_result slots numa (bytes_added acc) (held_block now n m key) (ib', completed, added')"
      "total_slots ib' = n"
    and eq: "insert_partial_slots now key slots n numa (m, acc) =
       (if completed
        then Some (hm_remove key m,
          acc\<lparr>bytes_added := added',
              bytes_removed := saturating_add (bytes_removed acc) (ib_footprint ib'),
              sealed_blocks := sealed_blocks acc @ [(key, the (seal ib'))]\<rparr>)
        else Some (hm_insert key ib' m, acc\<lparr>bytes_added := added'\<rparr>))"
    by metis
  have wf: "inflight_wf ib'" and c: "completed \<longleftrightarrow> remaining ib' = 0"
    using fill(1) by (auto simp: fill_result_def)
  have slots: "ib_slots ib' = merged"
    using fill wf by (intro nth_equalityI) (auto simp: merged inflight_wf_def fill_result_def)
  have fin: "completed \<longleftrightarrow> None \<notin> set merged"
    using remaining_zero_iff [OF wf] c slots by simp
  have "map Some (sb_slots (the (seal ib'))) = merged" if completed
    using that fin those_None_iff [of merged] those_Some_iff [of merged] slots
    by (auto simp: seal_def from_slots_with_footprint_def split: option.split)
  with eq fin slots show ?thesis
    using inv by (cases completed) (auto simp: hm_simps inflight_inv_def)
qed

lemma insert_partial_slots_assembles_witness:
  "\<exists>m' acc'. insert_partial_slots 0 (mk_key ''m'' [7]) [(1, raw_new []), (0, raw_new []), (1, raw_new [])]
      2 0 ([], no_acc) = Some (m', acc') \<and> hm_get m' (mk_key ''m'' [7]) = None \<and>
    (\<exists>sb. sealed_blocks acc' = [(mk_key ''m'' [7], sb)] \<and>
       map Some (sb_slots sb) = [Some (raw_new []), Some (raw_new [])])"
proof -
  let ?slots = "[(1, raw_new []), (0, raw_new []), (1, raw_new [])]"
  have "map (slot_after (ib_slots (held_block 0 2 [] (mk_key ''m'' [7]))) ?slots) [0..<2] =
      [Some (raw_new []), Some (raw_new [])]"
    by (simp add: slot_after_def held_block_def inflight_new_def upt_rec)
  from insert_partial_slots_assembles [of "[]" 2 "mk_key ''m'' [7]" ?slots no_acc _ 0 0, OF _ _ _ _ _ this [symmetric]]
  show ?thesis by (auto simp: inflight_inv_def slot_ids_ok_def no_acc_def)
qed

text \<open>
  C12. The ordered fast path is an optimisation only: for a block that is not in flight and whose
  slots arrive complete and in order, sealing directly gives exactly the block that inserting
  slot by slot and sealing would have given, as long as the footprints do not overflow 64 bits.
\<close>

theorem ordered_fast_path_equiv:
  assumes fast: "from_ordered_slot_inserts slots n numa = Inr sb"
    and fresh: "hm_get m key = None" and inv: "inflight_inv m" and n: "0 < n"
    and bytes: "bytes_added acc \<le> u64_max" "slots_bytes slots \<le> u64_max"
  shows "\<exists>acc'. insert_partial_slots now key slots n numa (m, acc) = Some (m, acc') \<and>
    sealed_blocks acc' = sealed_blocks acc @ [(key, sb)]"
proof -
  have f: "length slots = n" "map fst slots = [0..<n]"
    and sb: "sb = \<lparr>sb_slots = map snd slots, sb_footprint = min (slots_bytes slots) u64_max,
      sb_slot_numas = replicate n numa\<rparr>"
    using from_ordered_slot_inserts_Inr [OF fast] by (simp_all add: slots_bytes_def)
  have ids: "slot_ids_ok slots n"
  proof -
    have "fst x < n" if "x \<in> set slots" for x
      using that f(2) by (metis atLeastLessThan_iff image_eqI list.set_map set_upt)
    then show ?thesis by (auto simp: slot_ids_ok_def list_all_iff)
  qed
  have get: "map_of slots i = Some (snd (slots ! i))" if "i < n" for i
  proof (rule map_of_is_SomeI)
    show "distinct (map fst slots)" by (simp add: f(2))
    have "fst (slots ! i) = i" using that f by (metis nth_map nth_upt plus_nat.add_0)
    then show "(i, snd (slots ! i)) \<in> set slots"
      using that f(1) by (metis nth_mem prod.collapse)
  qed
  let ?ib = "inflight_new n now"
  have held: "held_block now n m key = ?ib" using fresh by (simp add: held_block_def)
  from insert_partial_slots_eq [where now = now and numa = numa and key = key,
      OF inv n _ ids bytes(1)] fresh
  obtain ib' completed added' where
    fill: "fill_result slots numa (bytes_added acc) ?ib (ib', completed, added')" "total_slots ib' = n"
    and eq: "insert_partial_slots now key slots n numa (m, acc) =
       (if completed
        then Some (hm_remove key m,
          acc\<lparr>bytes_added := added',
              bytes_removed := saturating_add (bytes_removed acc) (ib_footprint ib'),
              sealed_blocks := sealed_blocks acc @ [(key, the (seal ib'))]\<rparr>)
        else Some (hm_insert key ib' m, acc\<lparr>bytes_added := added'\<rparr>))"
    unfolding held by (metis option.distinct(1))
  have wf: "inflight_wf ib'" and lens: "length (ib_slots ib') = n" "length (ib_slot_numas ib') = n"
    using fill by (auto simp: fill_result_def inflight_wf_def)
  have slots: "ib_slots ib' = map Some (map snd slots)"
    using fill(1) lens f(1) get
    by (intro nth_equalityI) (auto simp: fill_result_def inflight_new_def slot_after_def)
  have numas: "ib_slot_numas ib' = replicate n numa"
    using fill(1) lens get
    by (intro nth_equalityI) (auto simp: fill_result_def inflight_new_def numa_after_def)
  have "filled_bytes ib' = slots_bytes slots"
    by (simp add: filled_bytes_def slots slots_bytes_def opt_footprint_def comp_def)
  then have fp: "ib_footprint ib' = slots_bytes slots" using footprint_exact [OF wf] bytes(2) by simp
  have seal: "seal ib' = Some sb"
    using bytes(2) by (simp add: seal_def slots fp numas sb from_slots_with_footprint_def del: map_map)
  then have completed using seal_None_iff [OF wf] fill(1) by (simp add: fill_result_def)
  moreover have "hm_remove key m = m" using fresh by (simp add: map_of_eq_None_iff)
  ultimately show ?thesis using eq seal by simp
qed

lemma ordered_fast_path_equiv_witness:
  "\<exists>sb acc'. from_ordered_slot_inserts [(0, raw_new []), (1, raw_new [])] 2 3 = Inr sb \<and>
    insert_partial_slots 0 (mk_key ''m'' [7]) [(0, raw_new []), (1, raw_new [])] 2 3 ([], no_acc) =
      Some ([], acc') \<and> sealed_blocks acc' = [(mk_key ''m'' [7], sb)]"
proof -
  obtain sb where sb: "from_ordered_slot_inserts [(0, raw_new []), (1, raw_new [])] 2 3 = Inr sb"
    by (simp add: from_ordered_slot_inserts_def)
  from ordered_fast_path_equiv [OF this, of "[]" "mk_key ''m'' [7]" no_acc 0] sb show ?thesis
    by (auto simp: inflight_inv_def no_acc_def slots_bytes_def raw_footprint_def raw_new_def
        wrapping_sum_eq)
qed

text \<open>
  Garbage collection of in-flight blocks removes exactly the blocks older than the limit and
  leaves the others as they are, returns their number, and subtracts exactly their bytes from
  the in-flight gauge, which stays equal to the bytes held.
\<close>

theorem gc_inflight_exact:
  assumes inv: "pipeline_inv ops I s" and bytes: "inflight_total (inflight s) < 2 ^ 63"
    and gc: "gc_inflight max_age now s = (cleaned, s')"
  shows "(\<forall>key. hm_get (inflight s') key =
      (case hm_get (inflight s) key of
         None \<Rightarrow> None
       | Some ib \<Rightarrow> if max_age < duration_since now (created_at ib) then None else Some ib)) \<and>
    cleaned + length (inflight s') = length (inflight s) \<and>
    inflight_bytes (metrics s') = inflight_total (inflight s') \<and>
    inflight_gc_cleaned (metrics s') = inflight_gc_cleaned (metrics s) + cleaned"
proof -
  note ok = gc_inflight_ok [OF assms]
  have wf: "hm_wf (inflight s)" using inv by (simp add: pipeline_inv_def inflight_inv_def)
  have "length (sweep (inflight_alive max_age) now (inflight s)) \<le> length (inflight s)"
    by (simp add: sweep_def hm_retain_def)
  then have "cleaned + length (inflight s') = length (inflight s)"
    using gc ok(2) by (auto simp: gc_inflight_def Let_def)
  moreover have "inflight_bytes (metrics s') = inflight_total (inflight s')"
    using ok(1) by (simp add: pipeline_inv_def)
  moreover have "inflight_gc_cleaned (metrics s') = inflight_gc_cleaned (metrics s) + cleaned"
    using gc by (auto simp: gc_inflight_def Let_def split: if_splits)
  ultimately show ?thesis
    unfolding ok(2) using inflight_expiry.get_sweep_eq [OF wf, of max_age now]
    by (auto simp: inflight_alive_def inflight_age_def split: option.split)
qed

lemma gc_inflight_exact_witness:
  "\<exists>s'. gc_inflight 5 20 (empty_write_state\<lparr>inflight := [(mk_key ''m'' [7], inflight_new 2 3),
        (mk_key ''m'' [8], inflight_new 2 17)]\<rparr>) = (1, s') \<and>
     hm_get (inflight s') (mk_key ''m'' [7]) = None \<and>
     hm_get (inflight s') (mk_key ''m'' [8]) = Some (inflight_new 2 17)"
proof -
  let ?s = "empty_write_state\<lparr>inflight := [(mk_key ''m'' [7], inflight_new 2 3),
        (mk_key ''m'' [8], inflight_new 2 17)]\<rparr>"
  have fb: "filled_bytes (inflight_new 2 t) = 0" for t
    by (simp add: filled_bytes_def inflight_new_def opt_footprint_def sum_list_replicate)
  then have inv: "pipeline_inv list_lru_ops (\<lambda>xs. distinct (map fst xs)) ?s"
      "inflight_total (inflight ?s) < 2 ^ 63"
    using empty_write_state_inv
    by (simp_all add: pipeline_inv_def inflight_inv_def inflight_total_def empty_write_state_def)
      (simp_all add: inflight_new_def no_metrics_def)
  obtain s' where gc: "gc_inflight 5 20 ?s = (1, s')"
    by (simp add: gc_inflight_def sweep_def hm_retain_def inflight_alive_def inflight_age_def
        inflight_new_def duration_since_def Let_def)
  from gc_inflight_exact [OF inv gc] gc show ?thesis by (auto simp: duration_since_def inflight_new_def)
qed

text \<open>
  The flush barrier. However the channel is drained into chunks, the reply to a flush is
  sent in the state in which every command enqueued before it has been processed and none of
  the commands behind it has.
\<close>

theorem flush_barrier:
  assumes "concat chunks = before @ (now, Flush token) # behind"
  shows "insert_worker_loop ops order chunks s =
    (case worker_run ops order before s of
       None \<Rightarrow> None
     | Some s1 \<Rightarrow> worker_run ops order behind (s1\<lparr>replies := replies s1 @ [FlushDone token]\<rparr>))"
  unfolding insert_worker_loop_concat assms
  by (simp add: worker_run_append worker_step_def split: option.split)

lemma flush_barrier_witness:
  "insert_worker_loop list_lru_ops (\<lambda>m. m) [[(1, Gc 1 0)], [(2, Flush 9), (3, Flush 10)]]
      empty_write_state =
    Some (empty_write_state\<lparr>replies := [GcDone 0 0, FlushDone 9, FlushDone 10]\<rparr>)"
  by (subst flush_barrier [of _ "[(1, Gc 1 0)]" 2 9 "[(3, Flush 10)]"])
    (simp_all add: worker_step_def gc_inflight_def empty_write_state_def sweep_def hm_retain_def
      no_metrics_def)

end
