(* ===== verification/Ssd_Ring.thy ===== *)
theory Ssd_Ring
  imports Blocks
begin

text \<open>
  The SSD ring buffer of \<^verbatim>\<open>pegaflow-core/src/backing/ssd_cache.rs\<close>: space allocation in the
  shards' rings, the index with its two-phase commit, and tail pruning. Offsets are 64-bit:
  the additions wrap as in a release build. A panic is \<open>None\<close>.
\<close>

section \<open>State\<close>

record ssd_index_entry =
  shard_id :: usize
  begin_off :: u64
  entry_len :: u64
  file_offset :: u64
  entry_slots :: "slot_meta list"

datatype ssd_entry_state = Writing ssd_index_entry | Committed ssd_index_entry

fun entry_of :: "ssd_entry_state \<Rightarrow> ssd_index_entry" where
  "entry_of (Writing e) = e"
| "entry_of (Committed e) = e"

record ssd_shard_ring =
  capacity :: u64
  head_off :: u64
  tail_off :: u64
  order :: "block_key list"

record ssd_ring_buffer =
  shards :: "ssd_shard_ring list"
  next_shard :: usize
  entries :: "(block_key, ssd_entry_state) hmap"

record write_info =
  wi_key :: block_key
  wi_block :: sealed_block
  wi_entry :: ssd_index_entry

section \<open>Operations\<close>

definition new_sharded :: "u64 list \<Rightarrow> ssd_ring_buffer option" where
  "new_sharded shard_capacities =
     (if shard_capacities = [] then None
      else Some \<lparr>shards = map (\<lambda>c. \<lparr>capacity = c, head_off = 0, tail_off = 0, order = []\<rparr>)
                  shard_capacities,
                next_shard = 0, entries = []\<rparr>)"

definition ring_new :: "u64 \<Rightarrow> ssd_ring_buffer option" where
  "ring_new cap = new_sharded [cap]"

definition is_offset_valid :: "ssd_ring_buffer \<Rightarrow> ssd_index_entry \<Rightarrow> bool" where
  "is_offset_valid r e =
     (case nth_opt (shards r) (shard_id e) of
        None \<Rightarrow> False
      | Some sh \<Rightarrow> tail_off sh \<le> begin_off e)"

definition ring_get :: "ssd_ring_buffer \<Rightarrow> block_key \<Rightarrow> ssd_index_entry option" where
  "ring_get r key =
     (case hm_get (entries r) key of
        Some (Committed e) \<Rightarrow> if is_offset_valid r e then Some e else None
      | _ \<Rightarrow> None)"

text \<open>The pruning loop: pop the front of the shard's order while it is expired or unknown.\<close>

fun prune_order ::
    "u64 \<Rightarrow> block_key list \<Rightarrow> (block_key, ssd_entry_state) hmap \<Rightarrow>
     block_key list \<times> (block_key, ssd_entry_state) hmap" where
  "prune_order new_tail [] es = ([], es)"
| "prune_order new_tail (key # keys) es =
     (case hm_get es key of
        Some st \<Rightarrow>
          if new_tail \<le> begin_off (entry_of st) then (key # keys, es)
          else prune_order new_tail keys (hm_remove key es)
      | None \<Rightarrow> prune_order new_tail keys (hm_remove key es))"

definition advance_tail :: "usize \<Rightarrow> u64 \<Rightarrow> ssd_ring_buffer \<Rightarrow> ssd_ring_buffer option" where
  "advance_tail sid new_tail r =
     (case nth_opt (shards r) sid of
        None \<Rightarrow> None
      | Some sh \<Rightarrow>
          if new_tail \<le> tail_off sh then Some r
          else
            let (order', es) = prune_order new_tail (order sh) (entries r)
            in Some (r\<lparr>shards := (shards r)[sid := sh\<lparr>tail_off := new_tail, order := order'\<rparr>],
                       entries := es\<rparr>))"

text \<open>The result is the panic \<open>None\<close>, or the new ring with the space found, if any.\<close>

definition allocate_contiguous ::
    "usize \<Rightarrow> u64 \<Rightarrow> ssd_ring_buffer \<Rightarrow> (ssd_ring_buffer \<times> (u64 \<times> u64) option) option" where
  "allocate_contiguous sid len r =
     (case nth_opt (shards r) sid of
        None \<Rightarrow> None
      | Some sh \<Rightarrow>
          if capacity sh < len then Some (r, None)
          else if capacity sh = 0 then None
          else
            let phys = head_off sh mod capacity sh;
                space_until_end = capacity sh - phys;
                start = (if space_until_end < len then wrapping_add (head_off sh) space_until_end
                         else head_off sh);
                new_head = wrapping_add start len;
                new_tail = saturating_sub new_head (capacity sh);
                r1 = r\<lparr>shards := (shards r)[sid := sh\<lparr>head_off := new_head\<rparr>]\<rparr>
            in map_option (\<lambda>r2. (r2, Some (start, start mod capacity sh)))
                 (advance_tail sid new_tail r1))"

definition ring_commit :: "block_key \<Rightarrow> bool \<Rightarrow> ssd_ring_buffer \<Rightarrow> bool \<times> ssd_ring_buffer" where
  "ring_commit key success r =
     (case hm_get (entries r) key of
        None \<Rightarrow> (False, r)
      | Some (Committed _) \<Rightarrow> (True, r)
      | Some (Writing e) \<Rightarrow>
          if \<not> is_offset_valid r e then (False, r\<lparr>entries := hm_remove key (entries r)\<rparr>)
          else if success then (True, r\<lparr>entries := hm_insert key (Committed e) (entries r)\<rparr>)
          else (False, r\<lparr>entries := hm_remove key (entries r)\<rparr>))"

definition slot_metas :: "sealed_block \<Rightarrow> slot_meta list" where
  "slot_metas b =
     map (\<lambda>(i, s). slot_meta_new (map (\<lambda>j. the (segment_size s j)) [0..<num_segments s])
                     (sb_slot_numas b ! i))
       (enumerate 0 (sb_slots b))"

definition prepare_one ::
    "block_key \<times> sealed_block \<Rightarrow> ssd_ring_buffer \<Rightarrow> (ssd_ring_buffer \<times> write_info list) option" where
  "prepare_one kb r =
     (let (key, b) = kb; len = sb_footprint b; sid = next_shard r
      in case allocate_contiguous sid len r of
           None \<Rightarrow> None
         | Some (r1, None) \<Rightarrow> Some (r1, [])
         | Some (r1, Some (start, off)) \<Rightarrow>
             if length (sb_slot_numas b) \<noteq> length (sb_slots b) then None
             else
               let e = \<lparr>shard_id = sid, begin_off = start, entry_len = len, file_offset = off,
                        entry_slots = slot_metas b\<rparr>;
                   sh = shards r1 ! sid
               in Some (r1\<lparr>next_shard := (next_shard r1 + 1) mod length (shards r1),
                           entries := hm_insert key (Writing e) (entries r1),
                           shards := (shards r1)[sid := sh\<lparr>order := order sh @ [key]\<rparr>]\<rparr>,
                        [\<lparr>wi_key = key, wi_block = b, wi_entry = e\<rparr>]))"

fun prepare_loop ::
    "(block_key \<times> sealed_block) list \<Rightarrow> ssd_ring_buffer \<Rightarrow>
     (ssd_ring_buffer \<times> write_info list) option" where
  "prepare_loop [] r = Some (r, [])"
| "prepare_loop (kb # kbs) r =
     (case prepare_one kb r of
        None \<Rightarrow> None
      | Some (r1, ws) \<Rightarrow>
          (case prepare_loop kbs r1 of
             None \<Rightarrow> None
           | Some (r2, ws') \<Rightarrow> Some (r2, ws @ ws')))"

definition prepare_batch ::
    "(block_key \<times> sealed_block) list \<Rightarrow> ssd_ring_buffer \<Rightarrow>
     (ssd_ring_buffer \<times> write_info list) option" where
  "prepare_batch candidates r =
     (let to_write = filter (\<lambda>(k, _). \<not> hm_contains (entries r) k) candidates
      in prepare_loop to_write r)"

section \<open>Invariant\<close>

definition shard_ok :: "ssd_shard_ring \<Rightarrow> bool" where
  "shard_ok sh \<longleftrightarrow> tail_off sh \<le> head_off sh \<and> head_off sh - tail_off sh \<le> capacity sh"

text \<open>An entry lies in its shard's written part, contiguously inside the cache file.\<close>

definition entry_ok :: "ssd_ring_buffer \<Rightarrow> ssd_index_entry \<Rightarrow> bool" where
  "entry_ok r e \<longleftrightarrow>
     shard_id e < length (shards r) \<and>
     begin_off e + entry_len e \<le> head_off (shards r ! shard_id e) \<and>
     file_offset e = begin_off e mod capacity (shards r ! shard_id e) \<and>
     file_offset e + entry_len e \<le> capacity (shards r ! shard_id e)"

definition logically_apart :: "ssd_index_entry \<Rightarrow> ssd_index_entry \<Rightarrow> bool" where
  "logically_apart e f \<longleftrightarrow>
     shard_id e \<noteq> shard_id f \<or> begin_off e + entry_len e \<le> begin_off f \<or>
     begin_off f + entry_len f \<le> begin_off e"

definition physically_apart :: "ssd_index_entry \<Rightarrow> ssd_index_entry \<Rightarrow> bool" where
  "physically_apart e f \<longleftrightarrow>
     shard_id e \<noteq> shard_id f \<or> file_offset e + entry_len e \<le> file_offset f \<or>
     file_offset f + entry_len f \<le> file_offset e"

definition ring_inv :: "ssd_ring_buffer \<Rightarrow> bool" where
  "ring_inv r \<longleftrightarrow>
     hm_wf (entries r) \<and> next_shard r < length (shards r) \<and>
     (\<forall>sh \<in> set (shards r). shard_ok sh) \<and>
     (\<forall>k st. hm_get (entries r) k = Some st \<longrightarrow>
        entry_ok r (entry_of st) \<and> k \<in> set (order (shards r ! shard_id (entry_of st)))) \<and>
     (\<forall>k st k' st'. hm_get (entries r) k = Some st \<longrightarrow> hm_get (entries r) k' = Some st' \<longrightarrow>
        k \<noteq> k' \<longrightarrow> logically_apart (entry_of st) (entry_of st'))"

text \<open>Room for \<open>n\<close> more allocations before a logical offset could pass \<open>2 ^ 64\<close>.\<close>

definition ring_room :: "nat \<Rightarrow> ssd_ring_buffer \<Rightarrow> bool" where
  "ring_room n r \<longleftrightarrow> (\<forall>sh \<in> set (shards r). head_off sh + 2 * n * capacity sh \<le> u64_max)"

section \<open>Pruning and allocation\<close>

lemma prune_order_spec:
  assumes "hm_wf es" "prune_order nt ks es = (ks', es')"
  shows "hm_wf es' \<and> (\<forall>k st. hm_get es' k = Some st \<longrightarrow> hm_get es k = Some st) \<and>
    (\<forall>k. k \<in> set ks \<longrightarrow> hm_get es' k \<noteq> None \<longrightarrow> k \<in> set ks') \<and>
    (\<exists>popped. ks = popped @ ks' \<and> (\<forall>k \<in> set popped. hm_get es' k = None))"
  using assms
proof (induction ks arbitrary: es)
  case (Cons k ks)
  show ?case
  proof (cases "prune_order nt (k # ks) es = (k # ks, es)")
    case True
    with Cons.prems show ?thesis by auto
  next
    case False
    then have step: "prune_order nt ks (hm_remove k es) = (ks', es')"
      using Cons.prems(2) by (auto split: option.splits if_splits)
    have wf: "hm_wf (hm_remove k es)" using Cons.prems(1) by simp
    note IH = Cons.IH [OF wf step]
    then have sub: "\<And>j st. hm_get es' j = Some st \<Longrightarrow> j \<noteq> k \<and> hm_get es j = Some st"
      using Cons.prems(1) by (fastforce simp: hm_simps split: if_splits)
    then have "hm_get es' k = None" by (cases "hm_get es' k") auto
    with IH sub show ?thesis
      by (auto intro: exI [of _ "k # popped" for popped])
  qed
qed auto

lemma alloc_start:
  fixes head cap len :: nat
  assumes "0 < cap" "len \<le> cap"
  defines "start \<equiv> if cap - head mod cap < len then head + (cap - head mod cap) else head"
  shows "head \<le> start" "start \<le> head + cap" "start mod cap + len \<le> cap"
proof -
  have lt: "head mod cap < cap" using assms(1) by simp
  show "head \<le> start" "start \<le> head + cap" by (auto simp: start_def)
  have "(head + (cap - head mod cap)) mod cap = 0"
  proof -
    define m p where "m = head mod cap" and "p = cap * (head div cap)"
    have "head = p + m" by (simp add: m_def p_def)
    moreover have "m < cap" using lt by (simp add: m_def)
    ultimately have "head + (cap - m) = p + cap" by simp
    then show ?thesis by (simp add: m_def p_def)
  qed
  with assms lt show "start mod cap + len \<le> cap" by (auto simp: start_def)
qed

lemma allocate_contiguous_spec:
  assumes inv: "ring_inv r" and sid: "sid < length (shards r)" and room: "ring_room 1 r"
    and len: "len \<le> capacity (shards r ! sid)" and cap: "0 < capacity (shards r ! sid)"
  obtains r2 start sh2 where
    "allocate_contiguous sid len r = Some (r2, Some (start, start mod capacity (shards r ! sid)))"
    "shards r2 = (shards r)[sid := sh2]" "next_shard r2 = next_shard r"
    "capacity sh2 = capacity (shards r ! sid)" "shard_ok sh2"
    "head_off (shards r ! sid) \<le> start" "head_off sh2 = start + len"
    "start + len \<le> head_off (shards r ! sid) + 2 * capacity (shards r ! sid)"
    "start mod capacity (shards r ! sid) + len \<le> capacity (shards r ! sid)"
    "tail_off sh2 \<le> start"
    "hm_wf (entries r2)"
    "\<And>k st. hm_get (entries r2) k = Some st \<Longrightarrow> hm_get (entries r) k = Some st"
    "\<And>k. k \<in> set (order (shards r ! sid)) \<Longrightarrow> hm_get (entries r2) k \<noteq> None \<Longrightarrow>
       k \<in> set (order sh2)"
proof -
  define sh where "sh = shards r ! sid"
  have mem: "sh \<in> set (shards r)" using sid by (simp add: sh_def)
  have ok: "shard_ok sh" "hm_wf (entries r)" using inv mem by (auto simp: ring_inv_def)
  have big: "head_off sh + 2 * capacity sh \<le> u64_max" using room mem by (auto simp: ring_room_def)
  define start where "start = (if capacity sh - head_off sh mod capacity sh < len
      then head_off sh + (capacity sh - head_off sh mod capacity sh) else head_off sh)"
  have st: "head_off sh \<le> start" "start \<le> head_off sh + capacity sh"
      "start mod capacity sh + len \<le> capacity sh"
    unfolding start_def using alloc_start [of "capacity sh" len "head_off sh"] cap len
    by (simp_all only: sh_def)
  define new_head where "new_head = start + len"
  have w: "(if capacity sh - head_off sh mod capacity sh < len
      then wrapping_add (head_off sh) (capacity sh - head_off sh mod capacity sh)
      else head_off sh) = start"
    using big by (auto simp: start_def)
  have nh: "wrapping_add start len = new_head"
    using big st(2) len by (simp add: new_head_def sh_def)
  define r1 where "r1 = r\<lparr>shards := (shards r)[sid := sh\<lparr>head_off := new_head\<rparr>]\<rparr>"
  let ?nt = "new_head - capacity sh"
  have alloc: "allocate_contiguous sid len r =
      map_option (\<lambda>r2. (r2, Some (start, start mod capacity sh))) (advance_tail sid ?nt r1)"
    using sid len cap
    by (simp add: allocate_contiguous_def nth_opt_def Let_def sh_def [symmetric] w nh r1_def
        saturating_sub_def)
  obtain ord es where pr: "prune_order ?nt (order sh) (entries r) = (ord, es)"
    by (cases "prune_order ?nt (order sh) (entries r)")
  define sh2 where "sh2 = (if ?nt \<le> tail_off sh then sh\<lparr>head_off := new_head\<rparr>
      else sh\<lparr>head_off := new_head, tail_off := ?nt, order := ord\<rparr>)"
  define es2 where "es2 = (if ?nt \<le> tail_off sh then entries r else es)"
  define r2 where "r2 = r\<lparr>shards := (shards r)[sid := sh2], entries := es2\<rparr>"
  have adv: "advance_tail sid ?nt r1 = Some r2"
    using sid pr by (simp add: advance_tail_def nth_opt_def r1_def r2_def sh2_def es2_def)
  note prune = prune_order_spec [OF ok(2) pr]
  have le: "len \<le> capacity sh" using len by (simp add: sh_def)
  have sub: "hm_get (entries r) k = Some st" if "hm_get es2 k = Some st" for k st
    using that prune by (auto simp: es2_def split: if_splits)
  have keep: "k \<in> set (order sh2)" if "k \<in> set (order sh)" "hm_get es2 k \<noteq> None" for k
    using that prune by (auto simp: es2_def sh2_def split: if_splits)
  show thesis
  proof (rule that [of r2 start sh2])
    show "allocate_contiguous sid len r = Some (r2, Some (start, start mod capacity (shards r ! sid)))"
      by (simp add: alloc adv flip: sh_def)
    show "shards r2 = (shards r)[sid := sh2]" "next_shard r2 = next_shard r" by (simp_all add: r2_def)
    show "capacity sh2 = capacity (shards r ! sid)" "head_off sh2 = start + len"
      by (simp_all add: sh2_def sh_def new_head_def)
    show "shard_ok sh2"
      using ok(1) st(1) by (auto simp: sh2_def shard_ok_def new_head_def)
    show "head_off (shards r ! sid) \<le> start"
      "start mod capacity (shards r ! sid) + len \<le> capacity (shards r ! sid)"
      using st by (simp_all add: sh_def)
    show "start + len \<le> head_off (shards r ! sid) + 2 * capacity (shards r ! sid)"
      using st(2) le by (simp add: sh_def)
    show "tail_off sh2 \<le> start"
      using ok(1) st(1) le by (auto simp: sh2_def shard_ok_def new_head_def)
    show "hm_wf (entries r2)" using ok(2) prune by (simp add: r2_def es2_def)
    show "hm_get (entries r) k = Some st" if "hm_get (entries r2) k = Some st" for k st
      using sub that by (simp add: r2_def)
    show "k \<in> set (order sh2)" if "k \<in> set (order (shards r ! sid))" "hm_get (entries r2) k \<noteq> None" for k
      using keep that by (simp add: r2_def sh_def)
  qed
qed

section \<open>The invariant is preserved\<close>

lemma ring_invI:
  assumes "hm_wf (entries r)" "next_shard r < length (shards r)"
    "\<And>sh. sh \<in> set (shards r) \<Longrightarrow> shard_ok sh"
    "\<And>k st. hm_get (entries r) k = Some st \<Longrightarrow>
       entry_ok r (entry_of st) \<and> k \<in> set (order (shards r ! shard_id (entry_of st)))"
    "\<And>k st k' st'. hm_get (entries r) k = Some st \<Longrightarrow> hm_get (entries r) k' = Some st' \<Longrightarrow>
       k \<noteq> k' \<Longrightarrow> logically_apart (entry_of st) (entry_of st')"
  shows "ring_inv r"
  unfolding ring_inv_def using assms by (intro conjI allI impI ballI) simp_all

lemma ring_invD:
  assumes "ring_inv r"
  shows "hm_wf (entries r)" "next_shard r < length (shards r)"
    "\<And>sh. sh \<in> set (shards r) \<Longrightarrow> shard_ok sh"
    "\<And>k st. hm_get (entries r) k = Some st \<Longrightarrow>
       entry_ok r (entry_of st) \<and> k \<in> set (order (shards r ! shard_id (entry_of st)))"
    "\<And>k st k' st'. hm_get (entries r) k = Some st \<Longrightarrow> hm_get (entries r) k' = Some st' \<Longrightarrow>
       k \<noteq> k' \<Longrightarrow> logically_apart (entry_of st) (entry_of st')"
  using assms unfolding ring_inv_def by simp_all

definition caps :: "ssd_ring_buffer \<Rightarrow> u64 list" where
  "caps r = map capacity (shards r)"

lemma entry_ok_mono:
  assumes "entry_ok r e" "sid < length (shards r)" "shards r' = (shards r)[sid := sh2]"
    "capacity sh2 = capacity (shards r ! sid)" "head_off (shards r ! sid) \<le> head_off sh2"
  shows "entry_ok r' e"
  using assms by (cases "shard_id e = sid") (auto simp: entry_ok_def)

lemma ring_room_step:
  assumes "ring_room (Suc n) r" "sid < length (shards r)" "shards r' = (shards r)[sid := sh2]"
    "capacity sh2 = capacity (shards r ! sid)"
    "head_off sh2 \<le> head_off (shards r ! sid) + 2 * capacity (shards r ! sid)"
  shows "ring_room n r'"
  unfolding ring_room_def
proof
  fix sh
  assume "sh \<in> set (shards r')"
  then consider "sh = sh2" | "sh \<in> set (shards r)"
    using assms(3) set_update_subset_insert [of "shards r" sid sh2] by auto
  then show "head_off sh + 2 * n * capacity sh \<le> u64_max"
  proof cases
    case 1
    have "head_off (shards r ! sid) + 2 * Suc n * capacity (shards r ! sid) \<le> u64_max"
      using assms(1,2) by (auto simp: ring_room_def)
    with 1 assms(4,5) show ?thesis by (simp add: algebra_simps)
  next
    case 2
    then have "head_off sh + 2 * Suc n * capacity sh \<le> u64_max"
      using assms(1) by (auto simp: ring_room_def)
    then show ?thesis by (simp add: algebra_simps)
  qed
qed

lemma ring_room_le:
  assumes "ring_room n r" "m \<le> n"
  shows "ring_room m r"
  unfolding ring_room_def
proof
  fix sh
  assume "sh \<in> set (shards r)"
  then have "head_off sh + 2 * n * capacity sh \<le> u64_max" using assms(1) by (auto simp: ring_room_def)
  moreover have "2 * m * capacity sh \<le> 2 * n * capacity sh" using assms(2) by simp
  ultimately show "head_off sh + 2 * m * capacity sh \<le> u64_max" by linarith
qed

lemma prepare_one_ok:
  assumes inv: "ring_inv r" and room: "ring_room (Suc n) r" and wf: "sealed_wf b"
    and caps: "\<forall>c \<in> set (caps r). 0 < c"
  shows "\<exists>r' ws. prepare_one (key, b) r = Some (r', ws) \<and> ring_inv r' \<and> ring_room n r' \<and>
    caps r' = caps r"
proof -
  define sid where "sid = next_shard r"
  have sid: "sid < length (shards r)" using ring_invD(2) [OF inv] by (simp add: sid_def)
  have room1: "ring_room 1 r" by (rule ring_room_le [OF room]) simp
  have cap: "0 < capacity (shards r ! sid)" using caps sid by (auto simp: caps_def)
  show ?thesis
  proof (cases "sb_footprint b \<le> capacity (shards r ! sid)")
    case False
    then have "prepare_one (key, b) r = Some (r, [])"
      using sid by (simp add: prepare_one_def allocate_contiguous_def nth_opt_def sid_def [symmetric])
    with inv room show ?thesis by (auto intro: ring_room_le)
  next
    case True
    obtain r2 start sh2 where al:
      "allocate_contiguous sid (sb_footprint b) r =
         Some (r2, Some (start, start mod capacity (shards r ! sid)))"
      "shards r2 = (shards r)[sid := sh2]" "next_shard r2 = next_shard r"
      "capacity sh2 = capacity (shards r ! sid)" "shard_ok sh2"
      "head_off (shards r ! sid) \<le> start" "head_off sh2 = start + sb_footprint b"
      "start + sb_footprint b \<le> head_off (shards r ! sid) + 2 * capacity (shards r ! sid)"
      "start mod capacity (shards r ! sid) + sb_footprint b \<le> capacity (shards r ! sid)"
      "tail_off sh2 \<le> start" "hm_wf (entries r2)"
      "\<And>k st. hm_get (entries r2) k = Some st \<Longrightarrow> hm_get (entries r) k = Some st"
      "\<And>k. k \<in> set (order (shards r ! sid)) \<Longrightarrow> hm_get (entries r2) k \<noteq> None \<Longrightarrow>
         k \<in> set (order sh2)"
      using allocate_contiguous_spec [OF inv sid room1 True cap] by blast
    define e where "e = \<lparr>shard_id = sid, begin_off = start, entry_len = sb_footprint b,
      file_offset = start mod capacity (shards r ! sid), entry_slots = slot_metas b\<rparr>"
    define sh3 where "sh3 = sh2\<lparr>order := order sh2 @ [key]\<rparr>"
    define r3 where "r3 = r2\<lparr>next_shard := (next_shard r2 + 1) mod length (shards r2),
        entries := hm_insert key (Writing e) (entries r2), shards := (shards r)[sid := sh3]\<rparr>"
    have prep: "prepare_one (key, b) r =
        Some (r3, [\<lparr>wi_key = key, wi_block = b, wi_entry = e\<rparr>])"
      using al(1,2) wf sid
      by (simp add: prepare_one_def sid_def [symmetric] Let_def sealed_wf_def e_def r3_def sh3_def)
    have sh3: "shards r3 = (shards r)[sid := sh3]" "capacity sh3 = capacity (shards r ! sid)"
        "head_off sh3 = start + sb_footprint b" "shard_ok sh3"
      using al(4,5,7) by (simp_all add: r3_def sh3_def shard_ok_def)
    have head: "head_off (shards r ! sid) \<le> head_off sh3" using al(6) sh3(3) by simp
    have get: "hm_get (entries r3) k = (if k = key then Some (Writing e) else hm_get (entries r2) k)" for k
      by (simp add: r3_def hm_simps)
    have e_ok: "entry_ok r3 e" using sid al(9) sh3 by (simp add: entry_ok_def e_def)
    have old: "entry_ok r (entry_of st) \<and> k \<in> set (order (shards r ! shard_id (entry_of st)))"
      if "hm_get (entries r) k = Some st" for k st
      by (rule ring_invD(4) [OF inv that])
    have kept: "entry_ok r3 (entry_of st) \<and> k \<in> set (order (shards r3 ! shard_id (entry_of st)))"
      if "hm_get (entries r3) k = Some st" for k st
    proof (cases "k = key")
      case True
      with that get e_ok sid show ?thesis by (auto simp: e_def sh3(1) sh3_def)
    next
      case False
      with that get have r2: "hm_get (entries r2) k = Some st" by simp
      note o = old [OF al(12) [OF r2]]
      have "entry_ok r3 (entry_of st)" by (rule entry_ok_mono [OF conjunct1 [OF o] sid sh3(1,2) head])
      moreover have "k \<in> set (order (shards r3 ! shard_id (entry_of st)))"
        using o al(13) [of k] r2 sid by (cases "shard_id (entry_of st) = sid") (auto simp: sh3(1) sh3_def)
      ultimately show ?thesis by blast
    qed
    have new_apart: "logically_apart e (entry_of st) \<and> logically_apart (entry_of st) e"
      if "hm_get (entries r2) k = Some st" for k st
      using old [OF al(12) [OF that]] al(6) by (auto simp: logically_apart_def e_def entry_ok_def)
    have apart: "logically_apart (entry_of st) (entry_of st')"
      if "hm_get (entries r3) k = Some st" "hm_get (entries r3) k' = Some st'" "k \<noteq> k'" for k st k' st'
    proof -
      have "logically_apart (entry_of st) (entry_of st')"
        if "hm_get (entries r2) k = Some st" "hm_get (entries r2) k' = Some st'"
        by (rule ring_invD(5) [OF inv al(12) [OF that(1)] al(12) [OF that(2)] \<open>k \<noteq> k'\<close>])
      with that new_apart get show ?thesis by (cases "k = key"; cases "k' = key") auto
    qed
    have shs: "shard_ok sh" if "sh \<in> set (shards r3)" for sh
      using that ring_invD(3) [OF inv, of sh] sh3 set_update_subset_insert [of "shards r" sid sh3]
      by auto
    have wf3: "hm_wf (entries r3)" using al(11) by (simp add: r3_def)
    have "0 < length (shards r)" using sid by (rule le_less_trans [OF zero_le])
    then have next3: "next_shard r3 < length (shards r3)" using al(2) by (simp add: r3_def)
    have "ring_inv r3" by (rule ring_invI [OF wf3 next3 shs kept apart])
    moreover have "ring_room n r3"
      by (rule ring_room_step [OF room sid sh3(1,2)]) (use al(8) sh3(3) in simp)
    moreover have "caps r3 = caps r"
      unfolding caps_def sh3(1) map_update sh3(2) using sid
      by (metis list_update_id map_update)
    ultimately show ?thesis using prep by blast
  qed
qed

lemma prepare_loop_ok:
  assumes "ring_inv r" "ring_room (length kbs + n) r" "\<forall>c \<in> set (caps r). 0 < c"
    "list_all (\<lambda>(_, b). sealed_wf b) kbs"
  shows "\<exists>r' ws. prepare_loop kbs r = Some (r', ws) \<and> ring_inv r' \<and> ring_room n r' \<and> caps r' = caps r"
  using assms
proof (induction kbs arbitrary: r)
  case (Cons kb kbs)
  obtain k b where kb: "kb = (k, b)" by (cases kb)
  have "ring_room (Suc (length kbs + n)) r" "sealed_wf b" using Cons.prems(2,4) by (simp_all add: kb)
  from prepare_one_ok [OF Cons.prems(1) this Cons.prems(3), of k] obtain r1 ws where
    1: "prepare_one kb r = Some (r1, ws)" "ring_inv r1" "ring_room (length kbs + n) r1" "caps r1 = caps r"
    by (auto simp: kb)
  with Cons.IH [of r1] Cons.prems(3,4) show ?case by (auto simp: kb)
qed auto

lemma prepare_batch_ok:
  assumes inv: "ring_inv r" and room: "ring_room (length kbs + n) r"
    and caps: "\<forall>c \<in> set (caps r). 0 < c" and wf: "list_all (\<lambda>(_, b). sealed_wf b) kbs"
  shows "\<exists>r' ws. prepare_batch kbs r = Some (r', ws) \<and> ring_inv r' \<and> ring_room n r' \<and> caps r' = caps r"
proof -
  let ?kbs = "filter (\<lambda>(k, _). \<not> hm_contains (entries r) k) kbs"
  have "ring_room (length ?kbs + n) r"
    by (rule ring_room_le [OF room]) simp
  moreover have "list_all (\<lambda>(_, b). sealed_wf b) ?kbs" using wf by (auto simp: list_all_iff)
  ultimately show ?thesis
    unfolding prepare_batch_def Let_def by (intro prepare_loop_ok inv caps)
qed

lemma ring_inv_entries:
  assumes "ring_inv r" "hm_wf es"
    "\<And>k st. hm_get es k = Some st \<Longrightarrow> \<exists>st'. hm_get (entries r) k = Some st' \<and> entry_of st = entry_of st'"
  shows "ring_inv (r\<lparr>entries := es\<rparr>)"
proof -
  have ok: "entry_ok (r\<lparr>entries := es\<rparr>) e = entry_ok r e" for e by (simp add: entry_ok_def)
  show ?thesis
  proof (rule ring_invI)
    fix k st
    assume "hm_get (entries (r\<lparr>entries := es\<rparr>)) k = Some st"
    then obtain st' where st': "hm_get (entries r) k = Some st'" "entry_of st = entry_of st'"
      using assms(3) by auto
    with ring_invD(4) [OF assms(1) st'(1)]
    show "entry_ok (r\<lparr>entries := es\<rparr>) (entry_of st) \<and>
        k \<in> set (order (shards (r\<lparr>entries := es\<rparr>) ! shard_id (entry_of st)))"
      by (simp add: ok)
    fix k2 st2
    assume "hm_get (entries (r\<lparr>entries := es\<rparr>)) k2 = Some st2" "k \<noteq> k2"
    then obtain st2' where "hm_get (entries r) k2 = Some st2'" "entry_of st2 = entry_of st2'"
      using assms(3) by auto
    with ring_invD(5) [OF assms(1) st'(1)] st'(2) \<open>k \<noteq> k2\<close>
    show "logically_apart (entry_of st) (entry_of st2)" by metis
  qed (use assms(2) ring_invD(2,3) [OF assms(1)] in auto)
qed

lemma ring_commit_ok:
  assumes inv: "ring_inv r" and c: "ring_commit key success r = (ok, r')"
  shows "ring_inv r'" "shards r' = shards r"
proof -
  have wf: "hm_wf (entries r)" using inv by (simp add: ring_inv_def)
  have rem: "ring_inv (r\<lparr>entries := hm_remove key (entries r)\<rparr>)"
    using wf by (intro ring_inv_entries [OF inv]) (auto simp: hm_simps split: if_splits)
  have com: "ring_inv (r\<lparr>entries := hm_insert key (Committed e) (entries r)\<rparr>)"
    if "hm_get (entries r) key = Some (Writing e)" for e
    using wf that by (intro ring_inv_entries [OF inv]) (auto simp: hm_simps split: if_splits)
  show "ring_inv r'" "shards r' = shards r"
    using c inv rem com
    by (auto simp: ring_commit_def split: option.splits ssd_entry_state.splits if_splits)
qed

section \<open>Runs\<close>

datatype ring_op = Prepare "(block_key \<times> sealed_block) list" | Commit block_key bool

fun ring_op_step :: "ring_op \<Rightarrow> ssd_ring_buffer \<Rightarrow> ssd_ring_buffer option" where
  "ring_op_step (Prepare kbs) r = map_option fst (prepare_batch kbs r)"
| "ring_op_step (Commit key success) r = Some (snd (ring_commit key success r))"

fun ring_run :: "ring_op list \<Rightarrow> ssd_ring_buffer \<Rightarrow> ssd_ring_buffer option" where
  "ring_run [] r = Some r"
| "ring_run (p # ps) r =
     (case ring_op_step p r of None \<Rightarrow> None | Some r' \<Rightarrow> ring_run ps r')"

fun prepared_blocks :: "ring_op \<Rightarrow> (block_key \<times> sealed_block) list" where
  "prepared_blocks (Prepare kbs) = kbs"
| "prepared_blocks (Commit _ _) = []"

definition run_blocks :: "ring_op list \<Rightarrow> (block_key \<times> sealed_block) list" where
  "run_blocks ps = concat (map prepared_blocks ps)"

lemma ring_run_ok:
  assumes "ring_inv r" "ring_room (length (run_blocks ps)) r" "\<forall>c \<in> set (caps r). 0 < c"
    "list_all (\<lambda>(_, b). sealed_wf b) (run_blocks ps)"
  shows "\<exists>r'. ring_run ps r = Some r' \<and> ring_inv r' \<and> caps r' = caps r"
  using assms
proof (induction ps arbitrary: r)
  case (Cons p ps)
  show ?case
  proof (cases p)
    case (Prepare kbs)
    have "ring_room (length kbs + length (run_blocks ps)) r" "list_all (\<lambda>(_, b). sealed_wf b) kbs"
      using Cons.prems(2,4) Prepare by (auto simp: run_blocks_def)
    from prepare_batch_ok [OF Cons.prems(1) this(1) Cons.prems(3) this(2)] obtain r1 ws where
      "prepare_batch kbs r = Some (r1, ws)" "ring_inv r1" "ring_room (length (run_blocks ps)) r1"
      "caps r1 = caps r"
      by blast
    with Cons.IH [of r1] Cons.prems(3,4) Prepare show ?thesis by (auto simp: run_blocks_def)
  next
    case (Commit key success)
    obtain ok r1 where c: "ring_commit key success r = (ok, r1)" by (cases "ring_commit key success r")
    note r1 = ring_commit_ok [OF Cons.prems(1) c]
    have "ring_room (length (run_blocks ps)) r1" "caps r1 = caps r"
      using Cons.prems(2) Commit r1(2) by (simp_all add: run_blocks_def ring_room_def caps_def)
    with Cons.IH [OF r1(1)] Cons.prems(3,4) Commit c show ?thesis by (auto simp: run_blocks_def)
  qed
qed auto

lemma new_sharded_ok:
  assumes "new_sharded cs = Some r"
  shows "ring_inv r" "caps r = cs"
    "\<And>n. \<forall>c \<in> set cs. 2 * n * c \<le> u64_max \<Longrightarrow> ring_room n r"
  using assms
  by (auto simp: new_sharded_def ring_inv_def shard_ok_def caps_def ring_room_def comp_def
      split: if_splits)

text \<open>Logically apart entries of one window of the ring are apart in the file.\<close>

lemma window_apart:
  fixes b1 b2 l1 cap tl hd :: nat
  assumes "b1 + l1 \<le> b2" "tl \<le> b1" "b2 + l2 \<le> hd" "hd - tl \<le> cap"
    "b1 mod cap + l1 \<le> cap" "b2 mod cap + l2 \<le> cap"
  shows "b1 mod cap + l1 \<le> b2 mod cap \<or> b2 mod cap + l2 \<le> b1 mod cap"
proof (cases "b1 div cap = b2 div cap")
  case True
  have "b1 = cap * (b1 div cap) + b1 mod cap" "b2 = cap * (b1 div cap) + b2 mod cap"
    using True by (metis mult_div_mod_eq)+
  with assms(1) show ?thesis by linarith
next
  case False
  have "b1 div cap \<le> b2 div cap" using assms(1) by (intro div_le_mono) simp
  with False have "b1 div cap + 1 \<le> b2 div cap" by simp
  then have "cap * (b1 div cap + 1) \<le> cap * (b2 div cap)" by (rule mult_le_mono2)
  then have "cap * (b1 div cap) + cap \<le> cap * (b2 div cap)" by (simp add: distrib_left)
  moreover have "cap * (b1 div cap) + b1 mod cap = b1" "cap * (b2 div cap) + b2 mod cap = b2"
    by simp_all
  moreover have "b2 + l2 \<le> b1 + cap" using assms by linarith
  ultimately have "b2 mod cap + l2 \<le> b1 mod cap" by linarith
  then show ?thesis ..
qed

lemma valid_entries_apart:
  assumes inv: "ring_inv r"
    and e: "hm_get (entries r) k = Some st" "is_offset_valid r (entry_of st)"
    and f: "hm_get (entries r) k' = Some st'" "is_offset_valid r (entry_of st')"
    and "k \<noteq> k'"
  shows "physically_apart (entry_of st) (entry_of st')"
proof (cases "shard_id (entry_of st) = shard_id (entry_of st')")
  case True
  define sh where "sh = shards r ! shard_id (entry_of st)"
  note ok = ring_invD(4) [OF inv e(1), THEN conjunct1] ring_invD(4) [OF inv f(1), THEN conjunct1]
  have "shard_ok sh" using ring_invD(3) [OF inv, of sh] ok(1) by (simp add: sh_def entry_ok_def)
  then have win: "head_off sh - tail_off sh \<le> capacity sh" by (simp add: shard_ok_def)
  have tails: "tail_off sh \<le> begin_off (entry_of st)" "tail_off sh \<le> begin_off (entry_of st')"
    using e(2) f(2) ok True by (auto simp: is_offset_valid_def nth_opt_def sh_def entry_ok_def)
  have "logically_apart (entry_of st) (entry_of st')" by (rule ring_invD(5) [OF inv e(1) f(1) \<open>k \<noteq> k'\<close>])
  then consider "begin_off (entry_of st) + entry_len (entry_of st) \<le> begin_off (entry_of st')"
    | "begin_off (entry_of st') + entry_len (entry_of st') \<le> begin_off (entry_of st)"
    using True by (auto simp: logically_apart_def)
  then show ?thesis
    using window_apart [of "begin_off (entry_of st)" "entry_len (entry_of st)"
        "begin_off (entry_of st')" "tail_off sh" "entry_len (entry_of st')" "head_off sh" "capacity sh"]
      window_apart [of "begin_off (entry_of st')" "entry_len (entry_of st')"
        "begin_off (entry_of st)" "tail_off sh" "entry_len (entry_of st)" "head_off sh" "capacity sh"]
      win tails ok True
    by cases (auto simp: physically_apart_def entry_ok_def sh_def)
qed (simp add: physically_apart_def)

section \<open>Properties\<close>

text \<open>
  C17. The SSD ring never panics and never lets two live entries share bytes: after any sequence
  of batch preparations and commits on a fresh ring, any two entries whose offsets are still
  valid, readable or being written, occupy disjoint byte ranges of their cache file, and every
  entry lies within the capacity of its file. The runs considered end before a logical offset
  reaches \<open>2 ^ 64\<close>.
\<close>

theorem ssd_ring_no_overlap:
  assumes new: "new_sharded cs = Some r0" and caps: "\<forall>c \<in> set cs. 0 < c"
    and room: "\<forall>c \<in> set cs. 2 * length (run_blocks ps) * c \<le> u64_max"
    and wf: "list_all (\<lambda>(_, b). sealed_wf b) (run_blocks ps)"
  shows "\<exists>r. ring_run ps r0 = Some r \<and>
    (\<forall>k st. hm_get (entries r) k = Some st \<longrightarrow>
       shard_id (entry_of st) < length cs \<and>
       file_offset (entry_of st) + entry_len (entry_of st) \<le> cs ! shard_id (entry_of st)) \<and>
    (\<forall>k k' st st'. k \<noteq> k' \<longrightarrow>
       hm_get (entries r) k = Some st \<longrightarrow> is_offset_valid r (entry_of st) \<longrightarrow>
       hm_get (entries r) k' = Some st' \<longrightarrow> is_offset_valid r (entry_of st') \<longrightarrow>
       physically_apart (entry_of st) (entry_of st'))"
proof -
  note n = new_sharded_ok [OF new]
  obtain r where r: "ring_run ps r0 = Some r" "ring_inv r" "caps r = cs"
    using ring_run_ok [OF n(1) n(3) [OF room] _ wf] caps n(2) by auto
  have "shard_id (entry_of st) < length cs \<and>
      file_offset (entry_of st) + entry_len (entry_of st) \<le> cs ! shard_id (entry_of st)"
    if "hm_get (entries r) k = Some st" for k st
    using ring_invD(4) [OF r(2) that] unfolding r(3) [symmetric] by (auto simp: entry_ok_def caps_def)
  with r(1) valid_entries_apart [OF r(2)] show ?thesis by blast
qed

lemma ssd_ring_no_overlap_witness:
  "\<exists>r. ring_run [Prepare [(mk_key ''m'' [1], from_slots_with_footprint [] 6 []),
                         (mk_key ''m'' [2], from_slots_with_footprint [] 3 []),
                         (mk_key ''m'' [3], from_slots_with_footprint [] 5 [])],
                Commit (mk_key ''m'' [3]) True]
      \<lparr>shards = [\<lparr>capacity = 10, head_off = 0, tail_off = 0, order = []\<rparr>], next_shard = 0,
       entries = []\<rparr> = Some r \<and>
    ring_get r (mk_key ''m'' [3]) \<noteq> None \<and> ring_get r (mk_key ''m'' [1]) = None"
proof -
  let ?r0 = "\<lparr>shards = [\<lparr>capacity = 10, head_off = 0, tail_off = 0, order = []\<rparr>], next_shard = 0,
       entries = []\<rparr>"
  let ?ps = "[Prepare [(mk_key ''m'' [1], from_slots_with_footprint [] 6 []),
                         (mk_key ''m'' [2], from_slots_with_footprint [] 3 []),
                         (mk_key ''m'' [3], from_slots_with_footprint [] 5 [])],
                Commit (mk_key ''m'' [3]) True]"
  have "new_sharded [10] = Some ?r0" by (simp add: new_sharded_def)
  from ssd_ring_no_overlap [OF this, of ?ps] obtain r where r: "ring_run ?ps ?r0 = Some r"
    by (auto simp: run_blocks_def u64_max_def sealed_wf_def from_slots_with_footprint_def)
  have "ring_get (the (ring_run ?ps ?r0)) (mk_key ''m'' [3]) \<noteq> None \<and>
      ring_get (the (ring_run ?ps ?r0)) (mk_key ''m'' [1]) = None"
    by (simp add: prepare_batch_def prepare_one_def allocate_contiguous_def advance_tail_def
        nth_opt_def from_slots_with_footprint_def saturating_sub_def wrapping_add_def hm_contains_def
        ring_commit_def ring_get_def is_offset_valid_def slot_metas_def Let_def)
  with r show ?thesis by auto
qed

text \<open>
  Two-phase commit. A block prepared for writing is not readable. Committing it successfully
  while its range is still valid makes exactly the prepared entry readable; a failed or late
  commit removes it. Commits never touch other keys.
\<close>

theorem ssd_two_phase_commit:
  assumes "ring_inv r" and e: "hm_get (entries r) key = Some (Writing e)"
    and c: "ring_commit key success r = (ok, r')"
  shows "ring_get r key = None \<and>
    ok = (success \<and> is_offset_valid r e) \<and>
    ring_get r' key = (if success \<and> is_offset_valid r e then Some e else None) \<and>
    (\<forall>k. k \<noteq> key \<longrightarrow> ring_get r' k = ring_get r k)"
proof -
  have wf: "hm_wf (entries r)" by (rule ring_invD(1) [OF assms(1)])
  have v: "is_offset_valid (r\<lparr>entries := es\<rparr>) x = is_offset_valid r x" for es x
    by (simp add: is_offset_valid_def)
  have get: "ring_get (r\<lparr>entries := es\<rparr>) k = ring_get r k"
    if "hm_get es k = hm_get (entries r) k" for es k
    using that by (simp add: ring_get_def v split: option.split ssd_entry_state.split)
  have none: "ring_get (r\<lparr>entries := hm_remove key (entries r)\<rparr>) key = None"
    using wf by (simp add: ring_get_def hm_simps)
  have some: "ring_get (r\<lparr>entries := hm_insert key (Committed e) (entries r)\<rparr>) key =
      (if is_offset_valid r e then Some e else None)"
    using wf by (simp add: ring_get_def hm_simps v)
  have "ring_get r key = None" by (simp add: ring_get_def e)
  with c e wf none some show ?thesis
    by (cases "is_offset_valid r e"; cases success)
      (auto simp: ring_commit_def hm_simps intro!: get)
qed

lemma ssd_two_phase_commit_witness:
  "\<exists>r'. ring_commit (mk_key ''m'' [1]) True
      \<lparr>shards = [\<lparr>capacity = 10, head_off = 4, tail_off = 0, order = [mk_key ''m'' [1]]\<rparr>],
       next_shard = 0, entries = [(mk_key ''m'' [1], Writing \<lparr>shard_id = 0, begin_off = 0,
         entry_len = 4, file_offset = 0, entry_slots = []\<rparr>)]\<rparr> = (True, r') \<and>
    ring_get r' (mk_key ''m'' [1]) = Some \<lparr>shard_id = 0, begin_off = 0, entry_len = 4,
      file_offset = 0, entry_slots = []\<rparr>"
proof -
  let ?e = "\<lparr>shard_id = 0, begin_off = 0, entry_len = 4, file_offset = 0, entry_slots = []\<rparr>"
  let ?r = "\<lparr>shards = [\<lparr>capacity = 10, head_off = 4, tail_off = 0, order = [mk_key ''m'' [1]]\<rparr>],
       next_shard = 0, entries = [(mk_key ''m'' [1], Writing ?e)]\<rparr>"
  have inv: "ring_inv ?r"
    by (auto simp: ring_inv_def shard_ok_def entry_ok_def split: if_splits)
  have valid: "is_offset_valid ?r ?e" by (simp add: is_offset_valid_def nth_opt_def)
  obtain ok r' where c: "ring_commit (mk_key ''m'' [1]) True ?r = (ok, r')"
    by (cases "ring_commit (mk_key ''m'' [1]) True ?r")
  from ssd_two_phase_commit [OF inv _ c, of ?e] valid c show ?thesis by auto
qed

end
