(* ===== verification/Ssd_Store.thy ===== *)
theory Ssd_Store
  imports Ssd_Ring "HOL-Library.Multiset"
begin

text \<open>
  The SSD backing store of \<^verbatim>\<open>pegaflow-core/src/backing/ssd.rs\<close> and the prefetch pipeline of
  \<^verbatim>\<open>ssd_cache.rs\<close>: sizing of the shards, prefix lookups, grouping of the slots to read by
  NUMA node, placing them in pinned allocations, and rebuilding the blocks. Opening files and
  issuing the reads is outside the model; their results are parameters.
\<close>

section \<open>Shards and files\<close>

definition SSD_ALIGNMENT :: usize where
  "SSD_ALIGNMENT = 512"

datatype io_error = InvalidInput

text \<open>The outer \<open>None\<close> is the panic of a division by zero.\<close>

definition aligned_shard_capacity :: "u64 \<Rightarrow> usize \<Rightarrow> (io_error + u64) option" where
  "aligned_shard_capacity capacity_bytes shard_count =
     (if shard_count = 0 then None
      else
        let raw = capacity_bytes div shard_count;
            cap = raw div SSD_ALIGNMENT * SSD_ALIGNMENT
        in Some (if cap = 0 then Inl InvalidInput else Inr cap))"

text \<open>The shard numbers of the files, in the order in which they are opened.\<close>

definition cache_file_shards :: "usize \<Rightarrow> usize \<Rightarrow> (usize \<times> usize) list" where
  "cache_file_shards paths shards_per_path =
     concat (map (\<lambda>path_id. map (\<lambda>local. (path_id, path_id * shards_per_path + local))
       [0..<shards_per_path]) [0..<paths])"

text \<open>The ring a store starts with; opening the files succeeds or fails outside the model.\<close>

definition ssd_store_ring ::
    "u64 \<Rightarrow> usize \<Rightarrow> usize \<Rightarrow> (io_error + unit) \<Rightarrow> (io_error + ssd_ring_buffer) option" where
  "ssd_store_ring capacity_bytes paths shards_per_path opened =
     (let total_shards = paths * shards_per_path
      in case aligned_shard_capacity capacity_bytes total_shards of
           None \<Rightarrow> None
         | Some (Inl err) \<Rightarrow> Some (Inl err)
         | Some (Inr cap) \<Rightarrow>
             (if paths = 0 then Some (Inl InvalidInput)
              else case opened of
                  Inl err \<Rightarrow> Some (Inl err)
                | Inr _ \<Rightarrow> map_option Inr (new_sharded (replicate total_shards cap))))"

section \<open>Lookups\<close>

record prefetch_request =
  pr_key :: block_key
  pr_entry :: ssd_index_entry

definition prefix_len :: "ssd_ring_buffer \<Rightarrow> block_key list \<Rightarrow> usize" where
  "prefix_len r keys = length (map_while (\<lambda>k. map_option (\<lambda>_. ()) (ring_get r k)) keys)"

definition prefix_requests :: "ssd_ring_buffer \<Rightarrow> block_key list \<Rightarrow> prefetch_request list" where
  "prefix_requests r keys =
     map_while (\<lambda>k. map_option (\<lambda>e. \<lparr>pr_key = k, pr_entry = e\<rparr>) (ring_get r k)) keys"

text \<open>
  What a submission leads to: nothing found, the batch dropped because the queue is full (the
  result channel then delivers no blocks), or the batch handed to the dispatcher.
\<close>

datatype submission = Delivered "(block_key \<times> sealed_block) list" | Queued "prefetch_request list"

definition submit_prefix ::
    "ssd_ring_buffer \<Rightarrow> bool \<Rightarrow> block_key list \<Rightarrow> usize \<times> submission" where
  "submit_prefix r queue_full keys =
     (let requests = prefix_requests r keys; found = length requests
      in if found = 0 then (0, Delivered [])
         else if queue_full then (found, Delivered [])
         else (found, Queued requests))"

text \<open>The completion channel delivers the blocks, or is closed (\<open>None\<close>).\<close>

definition prefetch_prefix ::
    "usize \<Rightarrow> (block_key \<times> sealed_block) list option \<Rightarrow> usize \<times> (block_key \<times> sealed_block) list" where
  "prefetch_prefix found done_rx =
     (if found = 0 then (0, [])
      else case done_rx of Some blocks \<Rightarrow> (found, blocks) | None \<Rightarrow> (found, []))"

section \<open>Grouping and placing slots\<close>

record slot_ref =
  sr_block_idx :: usize
  sr_slot_idx :: usize
  sr_size :: u64

type_synonym slot_alloc = "pinned_allocation \<times> usize"

definition numa_key :: "bool \<Rightarrow> slot_meta \<Rightarrow> numa_node option" where
  "numa_key is_numa m =
     (if is_numa then (if is_unknown (sm_numa m) then None else Some (sm_numa m)) else None)"

definition request_refs :: "bool \<Rightarrow> usize \<Rightarrow> prefetch_request \<Rightarrow> (numa_node option \<times> slot_ref) list" where
  "request_refs is_numa block_idx req =
     map (\<lambda>(slot_idx, m).
            (numa_key is_numa m,
             \<lparr>sr_block_idx = block_idx, sr_slot_idx = slot_idx, sr_size = sm_total_size m\<rparr>))
       (enumerate 0 (entry_slots (pr_entry req)))"

definition all_refs :: "bool \<Rightarrow> prefetch_request list \<Rightarrow> (numa_node option \<times> slot_ref) list" where
  "all_refs is_numa requests =
     concat (map (\<lambda>(i, req). request_refs is_numa i req) (enumerate 0 requests))"

definition group_push ::
    "numa_node option \<times> slot_ref \<Rightarrow> (numa_node option, slot_ref list) hmap \<Rightarrow>
     (numa_node option, slot_ref list) hmap" where
  "group_push kr groups =
     hm_insert (fst kr) ((case hm_get groups (fst kr) of None \<Rightarrow> [] | Some rs \<Rightarrow> rs) @ [snd kr]) groups"

definition group_slots_by_numa ::
    "bool \<Rightarrow> prefetch_request list \<Rightarrow> (numa_node option, slot_ref list) hmap" where
  "group_slots_by_numa is_numa requests = foldl (\<lambda>g kr. group_push kr g) [] (all_refs is_numa requests)"

text \<open>Assigning consecutive offsets of one allocation to the slots of a group.\<close>

fun assign_refs ::
    "slot_ref list \<Rightarrow> pinned_allocation \<Rightarrow> usize \<Rightarrow> slot_alloc option list list \<Rightarrow>
     slot_alloc option list list option" where
  "assign_refs [] a offset sa = Some sa"
| "assign_refs (r # rs) a offset sa =
     (if sr_block_idx r < length sa \<and> sr_slot_idx r < length (sa ! sr_block_idx r)
      then assign_refs rs a (wrapping_add offset (sr_size r))
             (sa[sr_block_idx r := (sa ! sr_block_idx r)[sr_slot_idx r := Some (a, offset)]])
      else None)"

datatype dispatch_result =
    AllocFailed
  | Placed "slot_alloc option list list"

fun assign_groups ::
    "(u64 \<Rightarrow> numa_node option \<Rightarrow> pinned_allocation option) \<Rightarrow>
     (numa_node option \<times> slot_ref list) list \<Rightarrow> slot_alloc option list list \<Rightarrow>
     dispatch_result option" where
  "assign_groups alloc [] sa = Some (Placed sa)"
| "assign_groups alloc ((numa, refs) # groups) sa =
     (case alloc (wrapping_sum (map sr_size refs)) numa of
        None \<Rightarrow> Some AllocFailed
      | Some a \<Rightarrow>
          (case assign_refs refs a 0 sa of
             None \<Rightarrow> None
           | Some sa' \<Rightarrow> assign_groups alloc groups sa'))"

record prefetch_task =
  pt_key :: block_key
  pt_entry :: ssd_index_entry
  pt_allocs :: "slot_alloc list"

text \<open>
  The dispatcher on one batch: no task and an empty result when an allocation fails, else one
  task per request (an unplaced slot panics).
\<close>

definition dispatch_prefetch_batch ::
    "((numa_node option, slot_ref list) hmap \<Rightarrow> (numa_node option \<times> slot_ref list) list) \<Rightarrow>
     (u64 \<Rightarrow> numa_node option \<Rightarrow> pinned_allocation option) \<Rightarrow> bool \<Rightarrow> prefetch_request list \<Rightarrow>
     prefetch_task list option option" where
  "dispatch_prefetch_batch iter alloc is_numa requests =
     (let groups = iter (group_slots_by_numa is_numa requests);
          empty = map (\<lambda>req. replicate (length (entry_slots (pr_entry req))) None) requests
      in case assign_groups alloc groups empty of
           None \<Rightarrow> None
         | Some AllocFailed \<Rightarrow> Some None
         | Some (Placed sa) \<Rightarrow>
             map_option Some (those (map (\<lambda>(i, req).
               map_option (\<lambda>as. \<lparr>pt_key = pr_key req, pt_entry = pr_entry req, pt_allocs = as\<rparr>)
                 (those (sa ! i))) (enumerate 0 requests))))"

section \<open>Completing a batch\<close>

record batch_context =
  bc_results :: "(block_key \<times> sealed_block) list"
  bc_remaining :: usize
  bc_sent :: "(block_key \<times> sealed_block) list option"

definition batch_context_new :: "usize \<Rightarrow> batch_context" where
  "batch_context_new n = \<lparr>bc_results = [], bc_remaining = n, bc_sent = None\<rparr>"

definition complete_one ::
    "block_key \<times> sealed_block option \<Rightarrow> batch_context \<Rightarrow> batch_context" where
  "complete_one kb ctx =
     (let (key, b) = kb;
          ctx1 = (case b of Some x \<Rightarrow> ctx\<lparr>bc_results := bc_results ctx @ [(key, x)]\<rparr> | None \<Rightarrow> ctx);
          last_one = (bc_remaining ctx1 = 1);
          ctx2 = ctx1\<lparr>bc_remaining := (bc_remaining ctx1 + u64_max) mod (u64_max + 1)\<rparr>
      in if last_one \<and> bc_sent ctx2 = None
         then ctx2\<lparr>bc_sent := Some (bc_results ctx2), bc_results := []\<rparr>
         else ctx2)"

section \<open>Reading and rebuilding\<close>

definition rebuild_sealed_block_per_slot ::
    "slot_alloc list \<Rightarrow> slot_meta list \<Rightarrow> sealed_block option" where
  "rebuild_sealed_block_per_slot allocs metas =
     map_option from_slots
       (those (map (\<lambda>(m, a, offset). map_option (\<lambda>raw. (raw, sm_numa m)) (reconstruct_raw_block m a offset))
          (zip metas allocs)))"

definition task_iovecs :: "prefetch_task \<Rightarrow> (nat \<times> usize) list" where
  "task_iovecs t =
     concat (map (\<lambda>(m, a, offset). read_iovecs m (pa_ptr a) offset)
       (zip (entry_slots (pt_entry t)) (pt_allocs t)))"

text \<open>
  The outcome of the read: submitting it failed, or the completion channel delivered the number
  of bytes read, an error, or nothing. The outer \<open>None\<close> is a panic while rebuilding.
\<close>

datatype read_outcome = SubmitFailed | ReadBytes usize | ReadError | ReadClosed

definition execute_prefetch ::
    "prefetch_task \<Rightarrow> read_outcome \<Rightarrow> (block_key \<times> ssd_index_entry \<times> sealed_block option) option" where
  "execute_prefetch t outcome =
     (let give = (\<lambda>b. (pt_key t, pt_entry t, b))
      in case outcome of
           ReadBytes n \<Rightarrow>
             (if n = entry_len (pt_entry t)
              then map_option (give \<circ> Some)
                     (rebuild_sealed_block_per_slot (pt_allocs t) (entry_slots (pt_entry t)))
              else Some (give None))
         | _ \<Rightarrow> Some (give None))"

text \<open>The worker's completion: a block read from a range that was overwritten is discarded.\<close>

definition finish_prefetch ::
    "ssd_ring_buffer option \<Rightarrow> block_key \<times> ssd_index_entry \<times> sealed_block option \<Rightarrow>
     batch_context \<Rightarrow> batch_context" where
  "finish_prefetch store res ctx =
     (let (key, e, b) = res;
          valid = (case store of None \<Rightarrow> False | Some r \<Rightarrow> is_offset_valid r e)
      in complete_one (key, if b \<noteq> None \<and> \<not> valid then None else b) ctx)"

text \<open>
  Handing the tasks to the worker: when the task channel closes after \<open>accepted\<close> tasks, the
  others are completed without a block.
\<close>

definition enqueue_tasks ::
    "usize \<Rightarrow> prefetch_task list \<Rightarrow> batch_context \<Rightarrow> prefetch_task list \<times> batch_context \<times> bool" where
  "enqueue_tasks accepted tasks ctx =
     (take accepted tasks,
      foldl (\<lambda>c t. complete_one (pt_key t, None) c) ctx (drop accepted tasks),
      length tasks \<le> accepted)"

section \<open>Placement: lemmas\<close>

definition ref_idx :: "slot_ref \<Rightarrow> usize \<times> usize" where
  "ref_idx r = (sr_block_idx r, sr_slot_idx r)"

definition look :: "slot_alloc option list list \<Rightarrow> usize \<times> usize \<Rightarrow> slot_alloc option" where
  "look sa p = sa ! fst p ! snd p"

definition in_dims :: "usize list \<Rightarrow> usize \<times> usize \<Rightarrow> bool" where
  "in_dims dims p \<longleftrightarrow> fst p < length dims \<and> snd p < dims ! fst p"

fun ref_offs :: "slot_ref list \<Rightarrow> usize \<Rightarrow> (slot_ref \<times> usize) list" where
  "ref_offs [] offset = []"
| "ref_offs (r # rs) offset = (r, offset) # ref_offs rs (wrapping_add offset (sr_size r))"

definition refs_bytes :: "slot_ref list \<Rightarrow> nat" where
  "refs_bytes rs = sum_list (map sr_size rs)"

lemma fst_ref_offs: "map fst (ref_offs rs offset) = rs"
  by (induction rs arbitrary: offset) auto

lemma ref_offs_bounds:
  assumes "offset + refs_bytes rs \<le> u64_max" "(r, off) \<in> set (ref_offs rs offset)"
  shows "offset \<le> off \<and> off + sr_size r \<le> offset + refs_bytes rs"
  using assms
proof (induction rs arbitrary: offset)
  case (Cons x rs)
  then have w: "wrapping_add offset (sr_size x) = offset + sr_size x"
    by (simp add: refs_bytes_def)
  show ?case
  proof (cases "(r, off) = (x, offset)")
    case False
    with Cons.prems w have "(r, off) \<in> set (ref_offs rs (offset + sr_size x))" by auto
    from Cons.IH [OF _ this] Cons.prems(1) show ?thesis by (simp add: refs_bytes_def)
  qed (simp add: refs_bytes_def)
qed simp

lemma ref_offs_apart:
  assumes "offset + refs_bytes rs \<le> u64_max"
    "(r, off) \<in> set (ref_offs rs offset)" "(r', off') \<in> set (ref_offs rs offset)" "r \<noteq> r'"
  shows "off + sr_size r \<le> off' \<or> off' + sr_size r' \<le> off"
  using assms
proof (induction rs arbitrary: offset)
  case (Cons x rs)
  have w: "wrapping_add offset (sr_size x) = offset + sr_size x"
    and le: "offset + sr_size x + refs_bytes rs \<le> u64_max"
    using Cons.prems(1) by (simp_all add: refs_bytes_def)
  have later: "offset + sr_size x \<le> o1" if "(r1, o1) \<in> set (ref_offs rs (offset + sr_size x))" for r1 o1
    using ref_offs_bounds [OF le that] by simp
  from Cons.prems(2-4) w consider
      (here) "r = x" "off = offset" "(r', off') \<in> set (ref_offs rs (offset + sr_size x))"
    | (there) "r' = x" "off' = offset" "(r, off) \<in> set (ref_offs rs (offset + sr_size x))"
    | (both) "(r, off) \<in> set (ref_offs rs (offset + sr_size x))"
        "(r', off') \<in> set (ref_offs rs (offset + sr_size x))"
    by auto
  then show ?case
  proof cases
    case here
    then show ?thesis using later [OF here(3)] by simp
  next
    case there
    then show ?thesis using later [OF there(3)] by simp
  next
    case both
    then show ?thesis using Cons.IH [OF le both Cons.prems(4)] by simp
  qed
qed simp

lemma look_update:
  assumes "in_dims (map length sa) p" "in_dims (map length sa) q"
  shows "look (sa[fst p := (sa ! fst p)[snd p := v]]) q = (if q = p then v else look sa q)"
  using assms by (cases p; cases q) (auto simp: look_def in_dims_def nth_list_update)

lemma dims_update: "map length (sa[i := (sa ! i)[j := v]]) = map length sa"
  by (metis length_list_update list_update_id map_update)

lemma assign_refs_spec:
  assumes "\<forall>r \<in> set rs. in_dims (map length sa) (ref_idx r)" "distinct (map ref_idx rs)"
  shows "\<exists>sa'. assign_refs rs a offset sa = Some sa' \<and> map length sa' = map length sa \<and>
    (\<forall>(r, off) \<in> set (ref_offs rs offset). look sa' (ref_idx r) = Some (a, off)) \<and>
    (\<forall>p. in_dims (map length sa) p \<longrightarrow> p \<notin> ref_idx ` set rs \<longrightarrow> look sa' p = look sa p)"
  using assms
proof (induction rs arbitrary: offset sa)
  case (Cons r rs)
  let ?sa = "sa[sr_block_idx r := (sa ! sr_block_idx r)[sr_slot_idx r := Some (a, offset)]]"
  have r: "in_dims (map length sa) (ref_idx r)" using Cons.prems(1) by simp
  have upd: "look ?sa q = (if q = ref_idx r then Some (a, offset) else look sa q)"
    if "in_dims (map length sa) q" for q
    using look_update [OF r that, of "Some (a, offset)"] by (simp add: ref_idx_def)
  have dims: "map length ?sa = map length sa" by (rule dims_update)
  from Cons.IH [of ?sa "wrapping_add offset (sr_size r)"] Cons.prems dims obtain sa' where
    sa': "assign_refs rs a (wrapping_add offset (sr_size r)) ?sa = Some sa'"
      "map length sa' = map length sa"
      "\<forall>(r, off) \<in> set (ref_offs rs (wrapping_add offset (sr_size r))). look sa' (ref_idx r) = Some (a, off)"
      "\<forall>p. in_dims (map length sa) p \<longrightarrow> p \<notin> ref_idx ` set rs \<longrightarrow> look sa' p = look ?sa p"
    by (auto simp del: map_update)
  have "ref_idx r \<notin> ref_idx ` set rs" using Cons.prems(2) by simp
  with sa'(4) r have "look sa' (ref_idx r) = look ?sa (ref_idx r)" by blast
  with upd [OF r] have "look sa' (ref_idx r) = Some (a, offset)" by simp
  moreover have "look sa' p = look sa p"
    if "in_dims (map length sa) p" "p \<notin> ref_idx ` set (r # rs)" for p
    using sa'(4) [rule_format, OF that(1)] upd [OF that(1)] that(2) by auto
  moreover have "assign_refs (r # rs) a offset sa = Some sa'"
    using sa'(1) r by (auto simp: in_dims_def ref_idx_def)
  ultimately show ?case using sa'(2,3) by auto
qed auto

lemma assign_groups_spec:
  assumes "\<forall>(k, rs) \<in> set gs. \<forall>r \<in> set rs. in_dims (map length sa) (ref_idx r)"
    "distinct (map ref_idx (concat (map snd gs)))"
  shows "assign_groups alloc gs sa = Some AllocFailed \<or>
    (\<exists>sa'. assign_groups alloc gs sa = Some (Placed sa') \<and> map length sa' = map length sa \<and>
      (\<forall>(k, rs) \<in> set gs. \<exists>a. alloc (wrapping_sum (map sr_size rs)) k = Some a \<and>
         (\<forall>(r, off) \<in> set (ref_offs rs 0). look sa' (ref_idx r) = Some (a, off))) \<and>
      (\<forall>p. in_dims (map length sa) p \<longrightarrow> p \<notin> ref_idx ` set (concat (map snd gs)) \<longrightarrow>
         look sa' p = look sa p))"
  using assms
proof (induction gs arbitrary: sa)
  case (Cons g gs)
  obtain k rs where g: "g = (k, rs)" by (cases g)
  show ?case
  proof (cases "alloc (wrapping_sum (map sr_size rs)) k")
    case None
    then show ?thesis by (simp add: g)
  next
    case (Some a)
    have rs: "\<forall>r \<in> set rs. in_dims (map length sa) (ref_idx r)" "distinct (map ref_idx rs)"
      using Cons.prems by (auto simp: g)
    from assign_refs_spec [OF rs, of a 0] obtain s1 where
      s1: "assign_refs rs a 0 sa = Some s1" "map length s1 = map length sa"
        "\<And>r off. (r, off) \<in> set (ref_offs rs 0) \<Longrightarrow> look s1 (ref_idx r) = Some (a, off)"
        "\<And>p. in_dims (map length sa) p \<Longrightarrow> p \<notin> ref_idx ` set rs \<Longrightarrow> look s1 p = look sa p"
      by fast
    have prem: "\<forall>(k, rs) \<in> set gs. \<forall>r \<in> set rs. in_dims (map length s1) (ref_idx r)"
      "distinct (map ref_idx (concat (map snd gs)))"
      using Cons.prems s1(2) by (auto simp: g)
    show ?thesis
    proof (cases "assign_groups alloc gs s1 = Some AllocFailed")
      case True
      then show ?thesis using Some s1(1) by (simp add: g)
    next
      case False
      with Cons.IH [OF prem] obtain sa' where
        sa': "assign_groups alloc gs s1 = Some (Placed sa')" "map length sa' = map length s1"
          "\<forall>(k, rs) \<in> set gs. \<exists>a. alloc (wrapping_sum (map sr_size rs)) k = Some a \<and>
             (\<forall>(r, off) \<in> set (ref_offs rs 0). look sa' (ref_idx r) = Some (a, off))"
          "\<And>p. in_dims (map length s1) p \<Longrightarrow> p \<notin> ref_idx ` set (concat (map snd gs)) \<Longrightarrow>
             look sa' p = look s1 p"
        by blast
      have "look sa' (ref_idx r) = Some (a, off)" if "(r, off) \<in> set (ref_offs rs 0)" for r off
      proof -
        have "r \<in> set rs" using that by (metis fst_conv fst_ref_offs image_eqI list.set_map)
        moreover from this have "ref_idx r \<notin> ref_idx ` set (concat (map snd gs))"
          using Cons.prems(2) by (auto simp: g)
        ultimately show ?thesis using sa'(4) s1(2,3) that rs(1) by metis
      qed
      moreover have "look sa' p = look sa p"
        if "in_dims (map length sa) p" "p \<notin> ref_idx ` set (concat (map snd (g # gs)))" for p
      proof -
        have "p \<notin> ref_idx ` set rs" "p \<notin> ref_idx ` set (concat (map snd gs))"
          using that(2) by (auto simp: g image_Un)
        then show ?thesis using sa'(4) [of p] s1(4) [of p] that(1) by (simp add: s1(2))
      qed
      ultimately show ?thesis
        using Some s1(1,2) sa'(1,2,3) by (auto simp: g)
    qed
  qed
qed auto

section \<open>Grouping: lemmas\<close>

definition group_inv ::
    "(numa_node option \<times> slot_ref) list \<Rightarrow> (numa_node option, slot_ref list) hmap \<Rightarrow> bool" where
  "group_inv refs g \<longleftrightarrow>
     hm_wf g \<and> mset (concat (map snd g)) = mset (map snd refs) \<and>
     (\<forall>(k, rs) \<in> set g. \<forall>r \<in> set rs. (k, r) \<in> set refs)"

lemma mset_concat_insert:
  assumes "hm_wf g"
  shows "mset (concat (map snd (hm_insert k ((case hm_get g k of None \<Rightarrow> [] | Some rs \<Rightarrow> rs) @ [r]) g))) =
    mset (concat (map snd g)) + {#r#}"
  using assms
proof (induction g)
  case (Cons x g)
  obtain k' rs where x: "x = (k', rs)" by (cases x)
  with Cons show ?case by (cases "k' = k") auto
qed simp

lemma group_inv_push:
  assumes "group_inv refs g"
  shows "group_inv (refs @ [kr]) (group_push kr g)"
proof -
  obtain k r where kr: "kr = (k, r)" by (cases kr)
  let ?rs = "(case hm_get g k of None \<Rightarrow> [] | Some rs \<Rightarrow> rs) @ [r]"
  have wf: "hm_wf g" and old: "\<And>k rs r. (k, rs) \<in> set g \<Longrightarrow> r \<in> set rs \<Longrightarrow> (k, r) \<in> set refs"
    using assms by (auto simp: group_inv_def)
  have "list_all (\<lambda>(k, rs). \<forall>r \<in> set rs. (k, r) \<in> set (refs @ [kr])) (hm_insert k ?rs g)"
  proof (intro list_all_hm_insert)
    show "list_all (\<lambda>(k, rs). \<forall>r \<in> set rs. (k, r) \<in> set (refs @ [kr])) g"
      using old by (auto simp: list_all_iff)
    show "case (k, ?rs) of (k, rs) \<Rightarrow> \<forall>r \<in> set rs. (k, r) \<in> set (refs @ [kr])"
      using old by (auto simp: kr split: option.splits dest: map_of_SomeD [OF sym])
  qed
  with wf mset_concat_insert [OF wf, of k r] assms show ?thesis
    by (simp add: group_inv_def group_push_def kr list_all_iff)
qed

lemma group_inv_fold:
  "group_inv seen g \<Longrightarrow> group_inv (seen @ refs) (foldl (\<lambda>g kr. group_push kr g) g refs)"
proof (induction refs arbitrary: seen g)
  case (Cons kr refs)
  from Cons.IH [OF group_inv_push [OF Cons.prems]] show ?case by simp
qed simp

lemma group_slots_inv: "group_inv (all_refs is_numa reqs) (group_slots_by_numa is_numa reqs)"
  using group_inv_fold [of "[]" "[]" "all_refs is_numa reqs"]
  by (simp add: group_slots_by_numa_def group_inv_def)

lemma all_refs_mem:
  "(k, r) \<in> set (all_refs is_numa reqs) \<longleftrightarrow>
     (\<exists>i j. i < length reqs \<and> j < length (entry_slots (pr_entry (reqs ! i))) \<and>
        k = numa_key is_numa (entry_slots (pr_entry (reqs ! i)) ! j) \<and>
        r = \<lparr>sr_block_idx = i, sr_slot_idx = j,
             sr_size = sm_total_size (entry_slots (pr_entry (reqs ! i)) ! j)\<rparr>)"
  by (auto simp: all_refs_def request_refs_def set_enumerate0 image_iff)

lemma distinct_all_refs: "distinct (map (ref_idx \<circ> snd) (all_refs is_numa reqs))"
proof -
  have idx: "map (ref_idx \<circ> snd) (request_refs is_numa i req) =
      map (Pair i) [0..<length (entry_slots (pr_entry req))]" for i req
    by (rule nth_equalityI) (simp_all add: request_refs_def ref_idx_def nth_enumerate_eq)
  have "distinct (concat (map (\<lambda>(i, req). map (Pair i) [0..<length (entry_slots (pr_entry req))])
      (enumerate n reqs)))" for n
  proof (induction reqs arbitrary: n)
    case (Cons r reqs)
    then show ?case by (fastforce simp: distinct_map inj_on_def in_set_enumerate_eq)
  qed simp
  moreover have "map (ref_idx \<circ> snd) (all_refs is_numa reqs) =
      concat (map (\<lambda>(i, req). map (Pair i) [0..<length (entry_slots (pr_entry req))]) (enumerate 0 reqs))"
    unfolding all_refs_def map_concat map_map
    by (rule arg_cong [of _ _ concat], rule map_cong) (auto simp: idx [unfolded comp_def] comp_def)
  ultimately show ?thesis by metis
qed

section \<open>The dispatcher\<close>

definition requests_bytes :: "prefetch_request list \<Rightarrow> nat" where
  "requests_bytes reqs =
     sum_list (map (\<lambda>req. sum_list (map sm_total_size (entry_slots (pr_entry req)))) reqs)"

lemma refs_bytes_all: "refs_bytes (map snd (all_refs is_numa reqs)) = requests_bytes reqs"
proof -
  have one: "map (sr_size \<circ> snd) (request_refs is_numa i req) = map sm_total_size (entry_slots (pr_entry req))"
    for i req
    by (rule nth_equalityI) (simp_all add: request_refs_def nth_enumerate_eq)
  have "sum_list (map (sr_size \<circ> snd) (concat (map (\<lambda>(i, req). request_refs is_numa i req) (enumerate n reqs)))) =
      requests_bytes reqs" for n
    by (induction reqs arbitrary: n) (simp_all add: one requests_bytes_def)
  then show ?thesis by (simp add: refs_bytes_def all_refs_def)
qed

lemma member_bytes_le:
  assumes "(k, rs) \<in> set gs"
  shows "refs_bytes rs \<le> refs_bytes (concat (map snd gs))"
  using assms by (induction gs) (auto simp: refs_bytes_def)

definition disjoint_ranges :: "usize \<Rightarrow> u64 \<Rightarrow> usize \<Rightarrow> u64 \<Rightarrow> bool" where
  "disjoint_ranges off n off' n' \<longleftrightarrow> off + n \<le> off' \<or> off' + n' \<le> off"

text \<open>The pinned allocator hands out at least the bytes asked for.\<close>

definition alloc_ok :: "(u64 \<Rightarrow> numa_node option \<Rightarrow> pinned_allocation option) \<Rightarrow> bool" where
  "alloc_ok alloc \<longleftrightarrow> (\<forall>n numa a. alloc n numa = Some a \<longrightarrow> n \<le> pa_size a)"

definition slot_ref_at :: "prefetch_request list \<Rightarrow> usize \<times> usize \<Rightarrow> slot_ref" where
  "slot_ref_at reqs p =
     \<lparr>sr_block_idx = fst p, sr_slot_idx = snd p,
      sr_size = sm_total_size (entry_slots (pr_entry (reqs ! fst p)) ! snd p)\<rparr>"

definition key_at :: "bool \<Rightarrow> prefetch_request list \<Rightarrow> usize \<times> usize \<Rightarrow> numa_node option" where
  "key_at is_numa reqs p = numa_key is_numa (entry_slots (pr_entry (reqs ! fst p)) ! snd p)"

definition dims_of :: "prefetch_request list \<Rightarrow> usize list" where
  "dims_of reqs = map (\<lambda>req. length (entry_slots (pr_entry req))) reqs"

lemma ref_idx_at [simp]: "ref_idx (slot_ref_at reqs p) = p"
  by (simp add: ref_idx_def slot_ref_at_def)

lemma all_refs_at:
  "(k, r) \<in> set (all_refs is_numa reqs) \<longleftrightarrow>
     (\<exists>p. in_dims (dims_of reqs) p \<and> k = key_at is_numa reqs p \<and> r = slot_ref_at reqs p)"
  by (auto simp: all_refs_mem in_dims_def dims_of_def key_at_def slot_ref_at_def)

lemma mset_concat_perm:
  assumes "mset gs = mset hs"
  shows "mset (concat (map snd gs)) = mset (concat (map snd hs))"
proof -
  have "mset (concat (map snd xs)) = sum_mset (image_mset (mset \<circ> snd) (mset xs))"
    for xs :: "('a \<times> 'b list) list"
    by (induction xs) auto
  with assms show ?thesis by simp
qed

lemma refs_bytes_perm:
  assumes "mset rs = mset rs'"
  shows "refs_bytes rs = refs_bytes rs'"
proof -
  have "refs_bytes xs = sum_mset (image_mset sr_size (mset xs))" for xs
    by (induction xs) (auto simp: refs_bytes_def)
  with assms show ?thesis by simp
qed

lemma groups_facts:
  assumes "mset gs = mset (group_slots_by_numa is_numa reqs)"
  shows "mset (concat (map snd gs)) = mset (map snd (all_refs is_numa reqs))"
    "\<And>k rs r. (k, rs) \<in> set gs \<Longrightarrow> r \<in> set rs \<Longrightarrow> (k, r) \<in> set (all_refs is_numa reqs)"
    "\<And>k rs rs'. (k, rs) \<in> set gs \<Longrightarrow> (k, rs') \<in> set gs \<Longrightarrow> rs = rs'"
proof -
  have g: "group_inv (all_refs is_numa reqs) (group_slots_by_numa is_numa reqs)"
    by (rule group_slots_inv)
  have sets: "set gs = set (group_slots_by_numa is_numa reqs)" using assms by (rule mset_eq_setD)
  show "mset (concat (map snd gs)) = mset (map snd (all_refs is_numa reqs))"
    using mset_concat_perm [OF assms] g by (simp add: group_inv_def)
  show "(k, r) \<in> set (all_refs is_numa reqs)" if "(k, rs) \<in> set gs" "r \<in> set rs" for k rs r
    using g that unfolding group_inv_def sets by blast
  show "rs = rs'" if "(k, rs) \<in> set gs" "(k, rs') \<in> set gs" for k rs rs'
    using g that unfolding group_inv_def sets hm_wf_def by (blast intro: eq_key_imp_eq_value)
qed

lemma groups_distinct:
  assumes "mset gs = mset (group_slots_by_numa is_numa reqs)"
  shows "distinct (map ref_idx (concat (map snd gs)))"
proof -
  have "mset (map ref_idx (concat (map snd gs))) = mset (map ref_idx (map snd (all_refs is_numa reqs)))"
    using groups_facts(1) [OF assms] by (simp only: mset_map)
  then have "distinct (map ref_idx (concat (map snd gs))) \<longleftrightarrow>
      distinct (map ref_idx (map snd (all_refs is_numa reqs)))"
    by (rule mset_eq_imp_distinct_iff)
  then show ?thesis using distinct_all_refs [of is_numa reqs] by (simp del: map_concat)
qed

lemma groups_place:
  assumes g: "mset gs = mset (group_slots_by_numa is_numa reqs)" and p: "in_dims (dims_of reqs) p"
  shows "\<exists>rs. (key_at is_numa reqs p, rs) \<in> set gs \<and> slot_ref_at reqs p \<in> set rs"
proof -
  have "slot_ref_at reqs p \<in> set (map snd (all_refs is_numa reqs))"
    using p all_refs_at [of "key_at is_numa reqs p" "slot_ref_at reqs p" is_numa reqs]
    by (metis image_eqI list.set_map snd_conv)
  then have "slot_ref_at reqs p \<in> set (concat (map snd gs))"
    using mset_eq_setD [OF groups_facts(1) [OF g]] by simp
  then obtain k rs where kr: "(k, rs) \<in> set gs" "slot_ref_at reqs p \<in> set rs" by auto
  from groups_facts(2) [OF g kr] obtain q where
    "k = key_at is_numa reqs q" "slot_ref_at reqs p = slot_ref_at reqs q"
    by (auto simp: all_refs_at)
  then have "k = key_at is_numa reqs p" by (metis ref_idx_at)
  with kr show ?thesis by blast
qed

lemma groups_bytes:
  assumes "mset gs = mset (group_slots_by_numa is_numa reqs)" "(k, rs) \<in> set gs"
  shows "refs_bytes rs \<le> requests_bytes reqs"
  using member_bytes_le [OF assms(2)] refs_bytes_perm [OF groups_facts(1) [OF assms(1)]]
  by (simp add: refs_bytes_all)

lemma ref_offs_mem: "r \<in> set rs \<Longrightarrow> \<exists>off. (r, off) \<in> set (ref_offs rs offset)"
  by (induction rs arbitrary: offset) auto

text \<open>What a successful placement guarantees of every slot and of every two slots of a group.\<close>

lemma assign_groups_placed:
  assumes g: "mset gs = mset (group_slots_by_numa is_numa reqs)"
    and bytes: "requests_bytes reqs \<le> u64_max"
    and alloc: "alloc_ok alloc"
    and run: "assign_groups alloc gs
      (map (\<lambda>req. replicate (length (entry_slots (pr_entry req))) None) reqs) = Some (Placed sa)"
  shows "map length sa = dims_of reqs"
    "\<And>p. in_dims (dims_of reqs) p \<Longrightarrow> \<exists>rs a off. (key_at is_numa reqs p, rs) \<in> set gs \<and>
       (slot_ref_at reqs p, off) \<in> set (ref_offs rs 0) \<and> refs_bytes rs \<le> pa_size a \<and>
       (\<forall>(r, off) \<in> set (ref_offs rs 0). look sa (ref_idx r) = Some (a, off))"
proof -
  let ?sa0 = "map (\<lambda>req. replicate (length (entry_slots (pr_entry req))) None) reqs"
  have len0: "map length ?sa0 = dims_of reqs" by (simp add: dims_of_def comp_def)
  have "\<forall>(k, rs) \<in> set gs. \<forall>r \<in> set rs. in_dims (map length ?sa0) (ref_idx r)"
    unfolding len0 using groups_facts(2) [OF g] by (fastforce simp: all_refs_at)
  note spec = assign_groups_spec [OF this groups_distinct [OF g], of alloc]
  then have sa: "map length sa = dims_of reqs"
    "\<forall>(k, rs) \<in> set gs. \<exists>a. alloc (wrapping_sum (map sr_size rs)) k = Some a \<and>
       (\<forall>(r, off) \<in> set (ref_offs rs 0). look sa (ref_idx r) = Some (a, off))"
    unfolding len0 run by simp_all
  show "map length sa = dims_of reqs" by (rule sa(1))
  fix p
  assume "in_dims (dims_of reqs) p"
  from groups_place [OF g this] obtain rs where
    rs: "(key_at is_numa reqs p, rs) \<in> set gs" "slot_ref_at reqs p \<in> set rs" by blast
  from sa(2) rs(1) obtain a where
    a: "alloc (wrapping_sum (map sr_size rs)) (key_at is_numa reqs p) = Some a"
      "\<forall>(r, off) \<in> set (ref_offs rs 0). look sa (ref_idx r) = Some (a, off)"
    by blast
  have "refs_bytes rs \<le> u64_max" using groups_bytes [OF g rs(1)] bytes by simp
  with a(1) alloc have "refs_bytes rs \<le> pa_size a"
    by (fastforce simp: alloc_ok_def refs_bytes_def wrapping_sum_exact)
  with rs a(2) ref_offs_mem [OF rs(2), of 0] show "\<exists>rs a off. (key_at is_numa reqs p, rs) \<in> set gs \<and>
       (slot_ref_at reqs p, off) \<in> set (ref_offs rs 0) \<and> refs_bytes rs \<le> pa_size a \<and>
       (\<forall>(r, off) \<in> set (ref_offs rs 0). look sa (ref_idx r) = Some (a, off))"
    by blast
qed

lemma placed_slot:
  assumes "mset gs = mset (group_slots_by_numa is_numa reqs)" "requests_bytes reqs \<le> u64_max"
    "alloc_ok alloc"
    "assign_groups alloc gs
      (map (\<lambda>req. replicate (length (entry_slots (pr_entry req))) None) reqs) = Some (Placed sa)"
    and p: "in_dims (dims_of reqs) p"
  shows "\<exists>a off. look sa p = Some (a, off) \<and> off + sr_size (slot_ref_at reqs p) \<le> pa_size a"
proof -
  from assign_groups_placed(2) [OF assms] obtain rs a off where
    rs: "(key_at is_numa reqs p, rs) \<in> set gs" "(slot_ref_at reqs p, off) \<in> set (ref_offs rs 0)"
      "refs_bytes rs \<le> pa_size a" "\<forall>(r, off) \<in> set (ref_offs rs 0). look sa (ref_idx r) = Some (a, off)"
    by blast
  have "0 + refs_bytes rs \<le> u64_max" using groups_bytes [OF assms(1) rs(1)] assms(2) by simp
  from ref_offs_bounds [OF this rs(2)] rs(3) have "off + sr_size (slot_ref_at reqs p) \<le> pa_size a"
    by simp
  moreover have "look sa p = Some (a, off)" using rs(2,4) by fastforce
  ultimately show ?thesis by blast
qed

lemma placed_slots_apart:
  assumes g: "mset gs = mset (group_slots_by_numa is_numa reqs)" and b: "requests_bytes reqs \<le> u64_max"
    and al: "alloc_ok alloc"
    and run: "assign_groups alloc gs
      (map (\<lambda>req. replicate (length (entry_slots (pr_entry req))) None) reqs) = Some (Placed sa)"
    and p: "in_dims (dims_of reqs) p" and q: "in_dims (dims_of reqs) q" and "p \<noteq> q"
    and key: "key_at is_numa reqs p = key_at is_numa reqs q"
  shows "\<exists>a off off'. look sa p = Some (a, off) \<and> look sa q = Some (a, off') \<and>
    disjoint_ranges off (sr_size (slot_ref_at reqs p)) off' (sr_size (slot_ref_at reqs q))"
proof -
  note placed = assign_groups_placed(2) [OF g b al run]
  from placed [OF p] obtain rs a off where
    rs: "(key_at is_numa reqs p, rs) \<in> set gs" "(slot_ref_at reqs p, off) \<in> set (ref_offs rs 0)"
      "\<forall>(r, off) \<in> set (ref_offs rs 0). look sa (ref_idx r) = Some (a, off)"
    by blast
  from placed [OF q] obtain rs' off' where
    rs': "(key_at is_numa reqs q, rs') \<in> set gs" "(slot_ref_at reqs q, off') \<in> set (ref_offs rs' 0)"
    by blast
  have [simp]: "rs' = rs" using groups_facts(3) [OF g] rs(1) rs'(1) key by metis
  have le: "0 + refs_bytes rs \<le> u64_max" using groups_bytes [OF g rs(1)] b by simp
  have ne: "slot_ref_at reqs p \<noteq> slot_ref_at reqs q" using \<open>p \<noteq> q\<close> by (metis ref_idx_at)
  have "(slot_ref_at reqs q, off') \<in> set (ref_offs rs 0)" using rs'(2) by simp
  from ref_offs_apart [OF le rs(2) this ne]
  have "disjoint_ranges off (sr_size (slot_ref_at reqs p)) off' (sr_size (slot_ref_at reqs q))"
    unfolding disjoint_ranges_def .
  moreover have "look sa p = Some (a, off)" "look sa q = Some (a, off')"
    using rs(2,3) rs'(2) by fastforce+
  ultimately show ?thesis by blast
qed

lemma placed_row:
  assumes g: "mset gs = mset (group_slots_by_numa is_numa reqs)" and b: "requests_bytes reqs \<le> u64_max"
    and al: "alloc_ok alloc"
    and run: "assign_groups alloc gs
      (map (\<lambda>req. replicate (length (entry_slots (pr_entry req))) None) reqs) = Some (Placed sa)"
    and i: "i < length reqs"
  shows "length (sa ! i) = dims_of reqs ! i" "those (sa ! i) = Some (map the (sa ! i))"
proof -
  have dims: "map length sa = dims_of reqs" by (rule assign_groups_placed(1) [OF g b al run])
  from arg_cong [OF this, of length] have len: "length sa = length reqs" by (simp add: dims_of_def)
  with arg_cong [OF dims, of "\<lambda>xs. xs ! i"] i show li: "length (sa ! i) = dims_of reqs ! i" by simp
  have "sa ! i ! j \<noteq> None" if "j < length (sa ! i)" for j
  proof -
    have "in_dims (dims_of reqs) (i, j)" using i li that by (simp add: in_dims_def dims_of_def)
    from placed_slot [OF g b al run this] show ?thesis by (auto simp: look_def)
  qed
  then have "sa ! i = map Some (map the (sa ! i))" by (intro nth_equalityI) auto
  then show "those (sa ! i) = Some (map the (sa ! i))" by (simp only: those_Some_iff)
qed

section \<open>Properties\<close>

text \<open>
  C18. Placing the slots of a prefetch batch. The dispatcher never panics. If every allocation
  succeeds there is one task per request, with one place per slot: the slot's bytes lie inside
  the allocation, and two slots of the same NUMA group lie in the same allocation at disjoint
  ranges. If an allocation fails the whole batch yields no task.
\<close>

theorem dispatch_places_slots:
  assumes iter: "mset (iter (group_slots_by_numa is_numa reqs)) = mset (group_slots_by_numa is_numa reqs)"
    and bytes: "requests_bytes reqs \<le> u64_max" and alloc: "alloc_ok alloc"
  shows "\<exists>res. dispatch_prefetch_batch iter alloc is_numa reqs = Some res \<and>
    (\<forall>tasks. res = Some tasks \<longrightarrow>
       map pt_key tasks = map pr_key reqs \<and> map pt_entry tasks = map pr_entry reqs \<and>
       map (length \<circ> pt_allocs) tasks = dims_of reqs \<and>
       (\<forall>p. in_dims (dims_of reqs) p \<longrightarrow>
          (case pt_allocs (tasks ! fst p) ! snd p of (a, off) \<Rightarrow>
             off + sr_size (slot_ref_at reqs p) \<le> pa_size a)) \<and>
       (\<forall>p q. in_dims (dims_of reqs) p \<longrightarrow> in_dims (dims_of reqs) q \<longrightarrow> p \<noteq> q \<longrightarrow>
          key_at is_numa reqs p = key_at is_numa reqs q \<longrightarrow>
          (case (pt_allocs (tasks ! fst p) ! snd p, pt_allocs (tasks ! fst q) ! snd q) of
             ((a, off), (a', off')) \<Rightarrow> a = a' \<and>
               disjoint_ranges off (sr_size (slot_ref_at reqs p)) off' (sr_size (slot_ref_at reqs q)))))"
proof -
  let ?gs = "iter (group_slots_by_numa is_numa reqs)"
  let ?sa0 = "map (\<lambda>req. replicate (length (entry_slots (pr_entry req))) None) reqs"
  have len0: "map length ?sa0 = dims_of reqs" by (simp add: dims_of_def comp_def)
  have "\<forall>(k, rs) \<in> set ?gs. \<forall>r \<in> set rs. in_dims (map length ?sa0) (ref_idx r)"
    unfolding len0 using groups_facts(2) [OF iter] by (fastforce simp: all_refs_at)
  from assign_groups_spec [OF this groups_distinct [OF iter], of alloc]
  consider (fail) "assign_groups alloc ?gs ?sa0 = Some AllocFailed"
    | (placed) sa where "assign_groups alloc ?gs ?sa0 = Some (Placed sa)"
    by blast
  then show ?thesis
  proof cases
    case fail
    then show ?thesis by (simp add: dispatch_prefetch_batch_def Let_def)
  next
    case (placed sa)
    note slot = placed_slot [OF iter bytes alloc placed]
    note apart = placed_slots_apart [OF iter bytes alloc placed]
    note row = placed_row [OF iter bytes alloc placed]
    define tasks where "tasks = map (\<lambda>(i, req).
      \<lparr>pt_key = pr_key req, pt_entry = pr_entry req, pt_allocs = map the (sa ! i)\<rparr>) (enumerate 0 reqs)"
    have "map (\<lambda>(i, req). map_option (\<lambda>as. \<lparr>pt_key = pr_key req, pt_entry = pr_entry req, pt_allocs = as\<rparr>)
        (those (sa ! i))) (enumerate 0 reqs) = map Some tasks"
      unfolding tasks_def map_map
      by (rule map_cong) (auto simp: set_enumerate0 row(2))
    then have run: "dispatch_prefetch_batch iter alloc is_numa reqs = Some (Some tasks)"
      using placed by (simp add: dispatch_prefetch_batch_def Let_def)
    have tn: "tasks ! i = \<lparr>pt_key = pr_key (reqs ! i), pt_entry = pr_entry (reqs ! i),
        pt_allocs = map the (sa ! i)\<rparr>" if "i < length reqs" for i
      using that by (simp add: tasks_def nth_enumerate_eq)
    have tl: "length tasks = length reqs" by (simp add: tasks_def)
    have look: "pt_allocs (tasks ! fst p) ! snd p = v" if "in_dims (dims_of reqs) p" "look sa p = Some v" for p v
    proof -
      have i: "fst p < length reqs" "snd p < dims_of reqs ! fst p"
        using that(1) by (auto simp: in_dims_def dims_of_def)
      with row(1) [OF i(1)] tn [OF i(1)] that(2) show ?thesis by (simp add: look_def)
    qed
    have keys: "map pt_key tasks = map pr_key reqs"
      by (rule nth_equalityI) (simp_all add: tl tn)
    have entries: "map pt_entry tasks = map pr_entry reqs"
      by (rule nth_equalityI) (simp_all add: tl tn)
    have lens: "map (length \<circ> pt_allocs) tasks = dims_of reqs"
      by (rule nth_equalityI) (simp_all add: tl tn row(1), simp add: dims_of_def)
    have fits: "case pt_allocs (tasks ! fst p) ! snd p of (a, off) \<Rightarrow>
        off + sr_size (slot_ref_at reqs p) \<le> pa_size a" if p: "in_dims (dims_of reqs) p" for p
    proof -
      obtain a off where "look sa p = Some (a, off)" "off + sr_size (slot_ref_at reqs p) \<le> pa_size a"
        using slot [OF p] by blast
      with look [OF p] show ?thesis by simp
    qed
    have disj: "case (pt_allocs (tasks ! fst p) ! snd p, pt_allocs (tasks ! fst q) ! snd q) of
        ((a, off), (a', off')) \<Rightarrow> a = a' \<and>
          disjoint_ranges off (sr_size (slot_ref_at reqs p)) off' (sr_size (slot_ref_at reqs q))"
      if pq: "in_dims (dims_of reqs) p" "in_dims (dims_of reqs) q" "p \<noteq> q"
        "key_at is_numa reqs p = key_at is_numa reqs q" for p q
    proof -
      obtain a off off' where "look sa p = Some (a, off)" "look sa q = Some (a, off')"
        "disjoint_ranges off (sr_size (slot_ref_at reqs p)) off' (sr_size (slot_ref_at reqs q))"
        using apart [OF pq] by blast
      with look [OF pq(1)] look [OF pq(2)] show ?thesis by simp
    qed
    show ?thesis
      unfolding run
      by (intro exI [of _ "Some tasks"] conjI [OF refl], simp only: option.inject simp_thms)
        (intro conjI allI impI keys entries lens fits disj; assumption)
  qed
qed

lemma dispatch_places_slots_witness:
  "\<exists>tasks. dispatch_prefetch_batch (\<lambda>g. g)
      (\<lambda>n _. Some \<lparr>pa_size = n, pa_ptr = 4096, pa_device_ptr = 4096\<rparr>) False
      [\<lparr>pr_key = mk_key ''m'' [1], pr_entry = \<lparr>shard_id = 0, begin_off = 0, entry_len = 7, file_offset = 0,
         entry_slots = [slot_meta_new [4] 0, slot_meta_new [1, 2] 1]\<rparr>\<rparr>] = Some (Some tasks) \<and>
    map (length \<circ> pt_allocs) tasks = [2]"
proof -
  let ?reqs = "[\<lparr>pr_key = mk_key ''m'' [1], pr_entry = \<lparr>shard_id = 0, begin_off = 0, entry_len = 7,
      file_offset = 0, entry_slots = [slot_meta_new [4] 0, slot_meta_new [1, 2] 1]\<rparr>\<rparr>]"
  let ?al = "\<lambda>n _. Some \<lparr>pa_size = n, pa_ptr = 4096, pa_device_ptr = 4096\<rparr>"
  have b: "requests_bytes ?reqs \<le> u64_max"
    by (simp add: requests_bytes_def slot_meta_new_def wrapping_sum_eq u64_max_def)
  have al: "alloc_ok ?al" by (simp add: alloc_ok_def)
  obtain tasks where t: "dispatch_prefetch_batch (\<lambda>g. g) ?al False ?reqs = Some (Some tasks)"
    by (simp add: dispatch_prefetch_batch_def group_slots_by_numa_def all_refs_def request_refs_def
        numa_key_def group_push_def)
  from dispatch_places_slots [of "\<lambda>g. g" False ?reqs ?al, OF refl b al] t show ?thesis
    by (auto simp: dims_of_def)
qed

abbreviation delivered :: "(block_key \<times> sealed_block option) list \<Rightarrow> (block_key \<times> sealed_block) list" where
  "delivered \<equiv> List.map_filter (\<lambda>(k, b). map_option (Pair k) b)"

lemma complete_one_step:
  assumes "0 < m" "m \<le> u64_max"
  shows "complete_one (k, b) \<lparr>bc_results = acc, bc_remaining = m, bc_sent = None\<rparr> =
    (if m = 1 then \<lparr>bc_results = [], bc_remaining = 0, bc_sent = Some (acc @ delivered [(k, b)])\<rparr>
     else \<lparr>bc_results = acc @ delivered [(k, b)], bc_remaining = m - 1, bc_sent = None\<rparr>)"
proof -
  have "m + u64_max = (m - 1) + (u64_max + 1)" using assms by simp
  moreover have "m - 1 < u64_max + 1" using assms by simp
  ultimately have "(m + u64_max) mod (u64_max + 1) = m - 1" by (simp only: mod_add_self2 mod_less)
  then show ?thesis
    by (cases b) (simp_all add: complete_one_def List.map_filter_simps Let_def)
qed

lemma map_filter_Cons: "List.map_filter f (x # xs) = List.map_filter f [x] @ List.map_filter f xs"
  by (simp add: List.map_filter_simps split: option.split)

lemma complete_all:
  assumes "0 < m" "m \<le> u64_max" "length results \<le> m"
  shows "foldl (\<lambda>c r. complete_one r c) \<lparr>bc_results = acc, bc_remaining = m, bc_sent = None\<rparr> results =
      (if length results = m
       then \<lparr>bc_results = [], bc_remaining = 0, bc_sent = Some (acc @ delivered results)\<rparr>
       else \<lparr>bc_results = acc @ delivered results, bc_remaining = m - length results, bc_sent = None\<rparr>)"
  using assms
proof (induction results arbitrary: acc m)
  case (Cons r results)
  obtain k b where r: "r = (k, b)" by (cases r)
  define d where "d = delivered [(k, b)]"
  have cons: "delivered ((k, b) # results) = d @ delivered results"
    unfolding d_def by (rule map_filter_Cons)
  show ?case
  proof (cases "m = 1")
    case True
    with Cons.prems have "results = []" by simp
    with True show ?thesis using Cons.prems(2) by (simp only: r foldl_Cons foldl_Nil complete_one_step) simp
  next
    case False
    have "0 < m - 1" "m - 1 \<le> u64_max" "length results \<le> m - 1" using False Cons.prems by auto
    note IH = Cons.IH [OF this, of "acc @ d"]
    have "complete_one (k, b) \<lparr>bc_results = acc, bc_remaining = m, bc_sent = None\<rparr> =
        \<lparr>bc_results = acc @ d, bc_remaining = m - 1, bc_sent = None\<rparr>"
      using False unfolding d_def by (simp only: complete_one_step [OF Cons.prems(1,2)] if_False)
    with IH False Cons.prems(1) show ?thesis by (simp add: r cons del: map_filter_simps) arith
  qed
qed (simp add: List.map_filter_simps)

text \<open>
  C19. A prefetch batch is answered exactly once: whatever order the reads of its blocks complete
  in, nothing is sent before the last one, and the last completion sends precisely the blocks
  that were read successfully, in the order of completion.
\<close>

theorem batch_completes_once:
  assumes "0 < n" "n \<le> u64_max" "length results \<le> n"
  shows "bc_sent (foldl (\<lambda>c r. complete_one r c) (batch_context_new n) results) =
    (if length results = n
     then Some (List.map_filter (\<lambda>(k, b). map_option (Pair k) b) results) else None)"
  using complete_all [OF assms, of "[]"] by (simp add: batch_context_new_def)

lemma batch_completes_once_witness:
  "bc_sent (foldl (\<lambda>c r. complete_one r c) (batch_context_new 2)
      [(mk_key ''m'' [2], None), (mk_key ''m'' [1], Some (from_slots []))]) =
    Some [(mk_key ''m'' [1], from_slots [])]"
  using batch_completes_once [of 2 "[(mk_key ''m'' [2], None), (mk_key ''m'' [1], Some (from_slots []))]"]
  by (simp add: u64_max_def List.map_filter_simps)

section \<open>The round trip through the SSD\<close>

lemma slot_metas_nth:
  assumes "i < length (sb_slots b)"
  shows "segment_sizes (slot_metas b ! i) = map seg_size (as_slice (segments (sb_slots b ! i)))"
    "sm_numa (slot_metas b ! i) = sb_slot_numas b ! i"
    "sm_total_size (slot_metas b ! i) = wrapping_sum (map seg_size (as_slice (segments (sb_slots b ! i))))"
proof -
  have "map (\<lambda>j. the (segment_size s j)) [0..<num_segments s] = map seg_size (as_slice (segments s))" for s
    by (rule nth_equalityI) (simp_all add: segment_size_def num_segments_def nth_opt_def)
  with assms show "segment_sizes (slot_metas b ! i) = map seg_size (as_slice (segments (sb_slots b ! i)))"
    "sm_numa (slot_metas b ! i) = sb_slot_numas b ! i"
    "sm_total_size (slot_metas b ! i) = wrapping_sum (map seg_size (as_slice (segments (sb_slots b ! i))))"
    by (simp_all add: slot_metas_def nth_enumerate_eq slot_meta_new_def)
qed

lemma length_slot_metas [simp]: "length (slot_metas b) = length (sb_slots b)"
  by (simp add: slot_metas_def)

text \<open>Every slot's segments fit at its place.\<close>

definition places_fit :: "sealed_block \<Rightarrow> slot_alloc list \<Rightarrow> bool" where
  "places_fit b allocs \<longleftrightarrow>
     length allocs = length (sb_slots b) \<and>
     list_all2 (\<lambda>s (a, off). off + sum_list (map seg_size (as_slice (segments s))) \<le> pa_size a \<and>
                  pa_size a \<le> u64_max) (sb_slots b) allocs"

lemma places_fit_nth:
  assumes "places_fit b allocs" "i < length (sb_slots b)"
  shows "snd (allocs ! i) + sum_list (segment_sizes (slot_metas b ! i)) \<le> pa_size (fst (allocs ! i))"
    "pa_size (fst (allocs ! i)) \<le> u64_max"
proof -
  obtain a off where a: "allocs ! i = (a, off)" by (cases "allocs ! i")
  have "list_all2 (\<lambda>s (a, off). off + sum_list (map seg_size (as_slice (segments s))) \<le> pa_size a \<and>
      pa_size a \<le> u64_max) (sb_slots b) allocs"
    using assms(1) by (simp only: places_fit_def)
  from list_all2_nthD [OF this assms(2)] slot_metas_nth(1) [OF assms(2)] a
  show "snd (allocs ! i) + sum_list (segment_sizes (slot_metas b ! i)) \<le> pa_size (fst (allocs ! i))"
    "pa_size (fst (allocs ! i)) \<le> u64_max"
    by simp_all
qed

text \<open>The rebuilt raw block of slot \<open>i\<close>.\<close>

definition rebuilt_slot :: "sealed_block \<Rightarrow> slot_alloc list \<Rightarrow> nat \<Rightarrow> raw_block" where
  "rebuilt_slot b allocs i =
     the (reconstruct_raw_block (slot_metas b ! i) (fst (allocs ! i)) (snd (allocs ! i)))"

lemma rebuilt_slot_spec:
  assumes "places_fit b allocs" "i < length (sb_slots b)" "raw_wf (sb_slots b ! i)"
  shows "reconstruct_raw_block (slot_metas b ! i) (fst (allocs ! i)) (snd (allocs ! i)) =
      Some (rebuilt_slot b allocs i)"
    "map seg_size (as_slice (segments (rebuilt_slot b allocs i))) =
      map seg_size (as_slice (segments (sb_slots b ! i)))"
    "write_iovecs (rebuilt_slot b allocs i) =
      read_iovecs (slot_metas b ! i) (pa_ptr (fst (allocs ! i))) (snd (allocs ! i))"
    "raw_footprint (rebuilt_slot b allocs i) = raw_footprint (sb_slots b ! i)"
proof -
  from reconstruct_raw_block_ok [OF places_fit_nth [OF assms(1,2)]] obtain r where
    r: "reconstruct_raw_block (slot_metas b ! i) (fst (allocs ! i)) (snd (allocs ! i)) = Some r"
      "map seg_size (as_slice (segments r)) = segment_sizes (slot_metas b ! i)"
      "write_iovecs r = read_iovecs (slot_metas b ! i) (pa_ptr (fst (allocs ! i))) (snd (allocs ! i))"
    by blast
  have rb: "rebuilt_slot b allocs i = r" by (simp add: rebuilt_slot_def r(1))
  show "reconstruct_raw_block (slot_metas b ! i) (fst (allocs ! i)) (snd (allocs ! i)) =
      Some (rebuilt_slot b allocs i)" by (simp add: rb r(1))
  show segs: "map seg_size (as_slice (segments (rebuilt_slot b allocs i))) =
      map seg_size (as_slice (segments (sb_slots b ! i)))"
    by (simp only: rb r(2) slot_metas_nth(1) [OF assms(2)])
  show "write_iovecs (rebuilt_slot b allocs i) =
      read_iovecs (slot_metas b ! i) (pa_ptr (fst (allocs ! i))) (snd (allocs ! i))"
    by (simp only: rb r(3))
  have "raw_wf r" using r(1) by (auto simp: reconstruct_raw_block_def)
  with assms(3) segs show "raw_footprint (rebuilt_slot b allocs i) = raw_footprint (sb_slots b ! i)"
    unfolding rb raw_footprint_def raw_wf_def by simp
qed

lemma rebuild_eq:
  assumes fit: "places_fit b allocs" and raw: "list_all raw_wf (sb_slots b)"
  shows "rebuild_sealed_block_per_slot allocs (slot_metas b) =
    Some (from_slots (map (\<lambda>i. (rebuilt_slot b allocs i, sb_slot_numas b ! i)) [0..<length (sb_slots b)]))"
proof -
  let ?n = "length (sb_slots b)"
  have len: "length allocs = ?n" using fit by (simp add: places_fit_def)
  have z: "zip (slot_metas b) allocs = map (\<lambda>i. (slot_metas b ! i, allocs ! i)) [0..<?n]"
    using len by (intro nth_equalityI) simp_all
  have "map (\<lambda>(m, a, offset). map_option (\<lambda>raw. (raw, sm_numa m)) (reconstruct_raw_block m a offset))
      (zip (slot_metas b) allocs) =
      map Some (map (\<lambda>i. (rebuilt_slot b allocs i, sb_slot_numas b ! i)) [0..<?n])"
    unfolding z map_map
  proof (rule map_cong [OF refl])
    fix i
    assume "i \<in> set [0..<?n]"
    then have i: "i < ?n" by simp
    have "raw_wf (sb_slots b ! i)" using raw i by (simp add: list_all_length)
    from rebuilt_slot_spec(1) [OF fit i this] slot_metas_nth(2) [OF i]
    show "((\<lambda>(m, a, offset). map_option (\<lambda>raw. (raw, sm_numa m)) (reconstruct_raw_block m a offset)) \<circ>
        (\<lambda>i. (slot_metas b ! i, allocs ! i))) i =
      (Some \<circ> (\<lambda>i. (rebuilt_slot b allocs i, sb_slot_numas b ! i))) i"
      by (simp add: case_prod_beta)
  qed
  then show ?thesis by (simp only: rebuild_sealed_block_per_slot_def those_map_Some option.map)
qed

lemma write_iovecs_sizes:
  "map snd (concat (map write_iovecs ss)) = concat (map (map seg_size \<circ> as_slice \<circ> segments) ss)"
  by (induction ss) (simp_all add: write_iovecs_def segment_iovecs_def comp_def)

text \<open>
  C20. The round trip of a block through the SSD: rebuilding a block from the metadata recorded
  when it was written, at places its slots fit into, succeeds and gives a block with the same
  slots, the same segment sizes slot by slot, the same NUMA nodes and the same footprint; and
  the ranges the read fills are, in order and length, the ranges the write was made of and
  exactly the segments of the rebuilt block.
\<close>

theorem ssd_block_round_trip:
  assumes fit: "places_fit b allocs" and wf: "sealed_wf b" and raw: "list_all raw_wf (sb_slots b)"
    and fp: "sb_footprint b = sum_list (map raw_footprint (sb_slots b))" "sb_footprint b \<le> u64_max"
  shows "\<exists>b'. rebuild_sealed_block_per_slot allocs (slot_metas b) = Some b' \<and>
    map (map seg_size \<circ> as_slice \<circ> segments) (sb_slots b') =
      map (map seg_size \<circ> as_slice \<circ> segments) (sb_slots b) \<and>
    sb_slot_numas b' = sb_slot_numas b \<and> sb_footprint b' = sb_footprint b \<and>
    task_iovecs \<lparr>pt_key = k, pt_entry = e\<lparr>entry_slots := slot_metas b\<rparr>, pt_allocs = allocs\<rparr> =
      concat (map write_iovecs (sb_slots b')) \<and>
    map snd (concat (map write_iovecs (sb_slots b'))) = map snd (concat (map write_iovecs (sb_slots b)))"
proof -
  let ?n = "length (sb_slots b)"
  let ?b = "from_slots (map (\<lambda>i. (rebuilt_slot b allocs i, sb_slot_numas b ! i)) [0..<?n])"
  have wfi: "raw_wf (sb_slots b ! i)" if "i < ?n" for i using raw that by (simp add: list_all_length)
  note slot = rebuilt_slot_spec [OF fit _ wfi]
  have len: "length allocs = ?n" using fit by (simp add: places_fit_def)
  have slots: "sb_slots ?b = map (rebuilt_slot b allocs) [0..<?n]" by (simp add: from_slots_def)
  have numas: "sb_slot_numas ?b = sb_slot_numas b"
    using wf by (intro nth_equalityI) (simp_all add: from_slots_def sealed_wf_def)
  have segs: "map (map seg_size \<circ> as_slice \<circ> segments) (sb_slots ?b) =
      map (map seg_size \<circ> as_slice \<circ> segments) (sb_slots b)"
    unfolding slots by (intro nth_equalityI) (simp_all add: slot(2))
  have "map raw_footprint (map (rebuilt_slot b allocs) [0..<?n]) = map raw_footprint (sb_slots b)"
    by (intro nth_equalityI) (simp_all add: slot(4))
  then have foot: "sb_footprint ?b = sb_footprint b"
    using fp by (simp add: from_slots_def comp_def foldl_saturating_add)
  have z: "zip (slot_metas b) allocs = map (\<lambda>i. (slot_metas b ! i, allocs ! i)) [0..<?n]"
    using len by (intro nth_equalityI) simp_all
  have "map (\<lambda>(m, a, offset). read_iovecs m (pa_ptr a) offset) (zip (slot_metas b) allocs) =
      map write_iovecs (sb_slots ?b)"
    unfolding z slots map_map
    by (rule map_cong) (simp_all add: case_prod_beta slot(3))
  then have read: "task_iovecs \<lparr>pt_key = k, pt_entry = e\<lparr>entry_slots := slot_metas b\<rparr>, pt_allocs = allocs\<rparr> =
      concat (map write_iovecs (sb_slots ?b))"
    by (simp only: task_iovecs_def prefetch_task.select_convs) simp
  show ?thesis
    using rebuild_eq [OF fit raw] segs numas foot read write_iovecs_sizes [of "sb_slots ?b"]
      write_iovecs_sizes [of "sb_slots b"]
    by (intro exI [of _ ?b]) simp
qed

lemma ssd_block_round_trip_witness:
  "\<exists>b'. rebuild_sealed_block_per_slot [(\<lparr>pa_size = 64, pa_ptr = 8192, pa_device_ptr = 8192\<rparr>, 16)]
      (slot_metas (from_slots [(raw_new [\<lparr>seg_ptr = \<lparr>host = 4096, device = 4096\<rparr>, seg_size = 8,
         seg_alloc = \<lparr>pa_size = 32, pa_ptr = 4096, pa_device_ptr = 4096\<rparr>\<rparr>], 0)])) = Some b' \<and>
    sb_footprint b' = 8 \<and>
    concat (map write_iovecs (sb_slots b')) = [(8208, 8)]"
proof -
  let ?a = "[(\<lparr>pa_size = 64, pa_ptr = 8192, pa_device_ptr = 8192\<rparr>, 16)] :: slot_alloc list"
  let ?b = "from_slots [(raw_new [\<lparr>seg_ptr = \<lparr>host = 4096, device = 4096\<rparr>, seg_size = 8,
      seg_alloc = \<lparr>pa_size = 32, pa_ptr = 4096, pa_device_ptr = 4096\<rparr>\<rparr>], 0)]"
  have fp: "sb_footprint ?b = 8"
    by (simp add: from_slots_def raw_footprint_def raw_new_def wrapping_sum_eq u64_max_def saturating_add_def)
  have sum: "sum_list (map raw_footprint (sb_slots ?b)) = 8"
    by (simp add: from_slots_def raw_footprint_def raw_new_def wrapping_sum_eq u64_max_def)
  have fit: "places_fit ?b ?a" by (simp add: places_fit_def from_slots_def raw_new_def u64_max_def)
  have raw: "list_all raw_wf (sb_slots ?b)" by (simp add: from_slots_def)
  have "\<exists>b'. rebuild_sealed_block_per_slot ?a (slot_metas ?b) = Some b' \<and> sb_footprint b' = 8 \<and>
      task_iovecs \<lparr>pt_key = mk_key ''m'' [1], pt_entry = \<lparr>shard_id = 0, begin_off = 0, entry_len = 8,
        file_offset = 0, entry_slots = slot_metas ?b\<rparr>, pt_allocs = ?a\<rparr> = concat (map write_iovecs (sb_slots b'))"
    using ssd_block_round_trip [OF fit sealed_wf_from_slots raw, of "mk_key ''m'' [1]"
        "\<lparr>shard_id = 0, begin_off = 0, entry_len = 8, file_offset = 0, entry_slots = []\<rparr>"]
    unfolding sum fp by (auto simp: u64_max_def)
  then show ?thesis
    by (simp add: task_iovecs_def slot_metas_def slot_meta_new_def read_iovecs_def from_slots_def raw_new_def
        num_segments_def segment_size_def nth_opt_def eq_commute [of "[(8208, 8)]"])
qed

section \<open>Sizing\<close>

lemma cache_file_shards_ids: "map snd (cache_file_shards paths n) = [0..<paths * n]"
proof (induction paths)
  case (Suc p)
  have "map snd (cache_file_shards (Suc p) n) = [0..<p * n] @ map (\<lambda>l. p * n + l) [0..<n]"
    using Suc by (simp add: cache_file_shards_def comp_def)
  also have "map (\<lambda>l. p * n + l) [0..<n] = [p * n..<p * n + n]"
    using map_add_upt [of "p * n" n] by (simp add: add.commute)
  finally show ?case using upt_add_eq_append [of 0 "p * n" n] by (simp add: add.commute)
qed (simp add: cache_file_shards_def)

text \<open>
  Sizing of a store with at least one shard: either the configured bytes do not give every
  shard one aligned unit, and the store is refused as invalid input; or every shard gets the
  same positive capacity, a multiple of the alignment, so that all shards together stay within the configured
  bytes and waste less than one aligned unit per shard, the shards are empty, and the files are opened
  in the order of the shard numbers \<open>0, 1, \<dots>\<close> the ring uses.
\<close>

theorem ssd_store_sizing:
  assumes "0 < paths" "0 < n"
  shows "(c < paths * n * SSD_ALIGNMENT \<and>
      ssd_store_ring c paths n (Inr ()) = Some (Inl InvalidInput)) \<or>
    (\<exists>cap r. ssd_store_ring c paths n (Inr ()) = Some (Inr r) \<and>
       shards r = replicate (paths * n) \<lparr>capacity = cap, head_off = 0, tail_off = 0, order = []\<rparr> \<and>
       entries r = [] \<and> 0 < cap \<and> SSD_ALIGNMENT dvd cap \<and>
       paths * n * cap \<le> c \<and> c < paths * n * (cap + SSD_ALIGNMENT) \<and>
       map snd (cache_file_shards paths n) = [0..<length (shards r)])"
proof -
  define s where "s = paths * n"
  have s: "0 < s" using assms by (simp add: s_def)
  define cap where "cap = c div s div SSD_ALIGNMENT * SSD_ALIGNMENT"
  have cap_le: "cap \<le> c div s" by (simp add: cap_def)
  have "s * (c div s) \<le> c" by simp
  with cap_le have le: "s * cap \<le> c" by (meson le_trans mult_le_mono2)
  have A: "0 < SSD_ALIGNMENT" by (simp add: SSD_ALIGNMENT_def)
  have "c div s < cap + SSD_ALIGNMENT"
    using A dividend_less_div_times [OF A, of "c div s"] by (simp add: cap_def)
  then have "c < (cap + SSD_ALIGNMENT) * s" using s by (simp add: div_less_iff_less_mult)
  then have less: "c < s * (cap + SSD_ALIGNMENT)" by (simp add: mult.commute)
  show ?thesis
  proof (cases "cap = 0")
    case True
    then have "c < s * SSD_ALIGNMENT" using less by simp
    moreover have "c div s div SSD_ALIGNMENT * SSD_ALIGNMENT = 0" using True by (simp only: cap_def)
    ultimately show ?thesis using s
      unfolding s_def [symmetric]
      by (intro disjI1) (simp only: ssd_store_ring_def aligned_shard_capacity_def s_def [symmetric] Let_def, simp)
  next
    case False
    then have "ssd_store_ring c paths n (Inr ()) = Some (Inr \<lparr>shards = replicate s
        \<lparr>capacity = cap, head_off = 0, tail_off = 0, order = []\<rparr>, next_shard = 0, entries = []\<rparr>)"
      using s assms(1) by (simp only: ssd_store_ring_def aligned_shard_capacity_def new_sharded_def Let_def
          s_def [symmetric] cap_def [symmetric]) simp
    moreover have "SSD_ALIGNMENT dvd cap" by (simp add: cap_def)
    ultimately show ?thesis using False le less
      by (intro disjI2 exI [of _ cap]) (simp add: cache_file_shards_ids s_def [symmetric])
  qed
qed

lemma ssd_store_sizing_witness:
  "\<exists>cap r. ssd_store_ring 10000 2 3 (Inr ()) = Some (Inr r) \<and> shards r = replicate 6
     \<lparr>capacity = cap, head_off = 0, tail_off = 0, order = []\<rparr> \<and> 6 * cap \<le> 10000"
  using ssd_store_sizing [of 2 3 10000] by (auto simp: SSD_ALIGNMENT_def)

text \<open>
  The emptiness check of the path list comes after the division by the number of shards: a
  configuration without paths panics on the division and never reaches the check.
\<close>

lemma empty_paths_panic: "ssd_store_ring c 0 n opened = None"
  by (simp add: ssd_store_ring_def aligned_shard_capacity_def)

text \<open>
  A submitted lookup finds exactly the longest prefix of the keys that are committed and not overwritten: every
  request carries the key asked for and its committed entry, the key after the last request is not readable, and
  unless the queue is full exactly these requests are handed on.
\<close>

theorem submit_prefix_longest:
  "submit_prefix r full keys = (found, sub) \<Longrightarrow>
    found = prefix_len r keys \<and> found \<le> length keys \<and>
    (\<forall>i < found. hm_get (entries r) (keys ! i) = Some (Committed (the (ring_get r (keys ! i)))) \<and>
       is_offset_valid r (the (ring_get r (keys ! i)))) \<and>
    (found < length keys \<longrightarrow> ring_get r (keys ! found) = None) \<and>
    sub = (if found = 0 \<or> full then Delivered []
           else Queued (map (\<lambda>k. \<lparr>pr_key = k, pr_entry = the (ring_get r k)\<rparr>) (take found keys)))"
proof -
  let ?f = "\<lambda>k. map_option (\<lambda>e. \<lparr>pr_key = k, pr_entry = e\<rparr>) (ring_get r k)"
  assume sub: "submit_prefix r full keys = (found, sub)"
  then have found: "found = length (map_while ?f keys)"
    by (auto simp: submit_prefix_def prefix_requests_def Let_def split: if_splits)
  have "length (map_while (\<lambda>k. map_option (\<lambda>_. ()) (ring_get r k)) xs) = length (map_while ?f xs)" for xs
    by (induction xs) (auto split: option.split)
  then have pl: "found = prefix_len r keys" by (simp add: found prefix_len_def)
  have hit: "ring_get r (keys ! i) \<noteq> None" "map_while ?f keys ! i = \<lparr>pr_key = keys ! i, pr_entry = the (ring_get r (keys ! i))\<rparr>"
    if "i < found" for i
    using map_while_nth [of i ?f keys] that unfolding found by auto
  have readable: "hm_get (entries r) k = Some (Committed (the (ring_get r k))) \<and>
      is_offset_valid r (the (ring_get r k))" if "ring_get r k \<noteq> None" for k
    using that by (auto simp: ring_get_def split: option.splits ssd_entry_state.splits if_splits)
  have len: "found \<le> length keys" unfolding found by (rule map_while_length)
  have reqs: "map_while ?f keys = map (\<lambda>k. \<lparr>pr_key = k, pr_entry = the (ring_get r k)\<rparr>) (take found keys)"
    using len by (intro nth_equalityI) (simp_all add: hit(2) found [symmetric])
  have stop: "ring_get r (keys ! found) = None" if "found < length keys"
    using map_while_stop [of ?f keys] that unfolding found by simp
  have "sub = (if found = 0 \<or> full then Delivered [] else Queued (map_while ?f keys))"
    using sub by (auto simp: submit_prefix_def prefix_requests_def Let_def split: if_splits)
  with pl len stop hit(1) readable show ?thesis unfolding reqs by simp
qed

lemma submit_prefix_longest_witness:
  "prefix_len \<lparr>shards = [\<lparr>capacity = 512, head_off = 8, tail_off = 0, order = [mk_key ''m'' [1]]\<rparr>], next_shard = 0,
      entries = [(mk_key ''m'' [1], Committed \<lparr>shard_id = 0, begin_off = 0, entry_len = 8, file_offset = 0,
        entry_slots = []\<rparr>)]\<rparr> [mk_key ''m'' [1], mk_key ''m'' [2]] = 1"
  using submit_prefix_longest [OF prod.collapse [symmetric], of
    "\<lparr>shards = [\<lparr>capacity = 512, head_off = 8, tail_off = 0, order = [mk_key ''m'' [1]]\<rparr>], next_shard = 0,
      entries = [(mk_key ''m'' [1], Committed \<lparr>shard_id = 0, begin_off = 0, entry_len = 8, file_offset = 0,
        entry_slots = []\<rparr>)]\<rparr>" False "[mk_key ''m'' [1], mk_key ''m'' [2]]"]
  by (simp add: prefix_len_def ring_get_def is_offset_valid_def nth_opt_def)

end
