(* ===== verification/Ssd_Writer.thy ===== *)
theory Ssd_Writer
  imports Ssd_Store "HOL-Library.Sublist"
begin

text \<open>
  The SSD writer task of \<^verbatim>\<open>pegaflow-core/src/backing/ssd_cache.rs\<close> and the operations of
  \<^verbatim>\<open>ssd.rs\<close> that feed its command queue. Each branch of the writer's \<open>select!\<close> is a
  function on the writer's state; the loop is a step relation in which the environment decides
  when a write finishes and with which result, which blocks are still alive, when commands are
  sent and when the store is dropped. The log records what happened.
\<close>

section \<open>State\<close>

record write_task =
  wt_key :: block_key
  wt_block :: sealed_block
  wt_entry :: ssd_index_entry

datatype ssd_write_command = WriteCmd "(block_key \<times> sealed_block) list" | FlushCmd nat

datatype writer_event =
    EvSent ssd_write_command
  | EvReceived ssd_write_command
  | EvPrepared "write_task list"
  | EvDone write_task bool
  | EvFired nat

record ssd_write_metrics =
  ssd_write_queue_pending :: int
  ssd_write_queue_full :: nat
  ssd_write_inflight :: int
  ssd_write_bytes :: nat
  ssd_write_failures :: nat

record writer_state =
  w_ring :: "ssd_ring_buffer option"
  w_queue :: "ssd_write_command list"
  w_pending :: "write_task list"
  w_inflight :: "write_task list"
  w_waiters :: "nat list"
  w_metrics :: ssd_write_metrics
  w_log :: "writer_event list"

definition writer_init :: "ssd_ring_buffer \<Rightarrow> writer_state" where
  "writer_init r =
     \<lparr>w_ring = Some r, w_queue = [], w_pending = [], w_inflight = [], w_waiters = [],
      w_metrics = \<lparr>ssd_write_queue_pending = 0, ssd_write_queue_full = 0, ssd_write_inflight = 0,
        ssd_write_bytes = 0, ssd_write_failures = 0\<rparr>,
      w_log = []\<rparr>"

section \<open>Senders\<close>

definition ingest_batch :: "usize \<Rightarrow> (block_key \<times> sealed_block) list \<Rightarrow> writer_state \<Rightarrow> writer_state" where
  "ingest_batch depth blocks s =
     (if blocks = [] then s
      else if length (w_queue s) < depth then
        s\<lparr>w_queue := w_queue s @ [WriteCmd blocks],
          w_metrics := (w_metrics s)\<lparr>ssd_write_queue_pending :=
            ssd_write_queue_pending (w_metrics s) + as_i64 (length blocks)\<rparr>,
          w_log := w_log s @ [EvSent (WriteCmd blocks)]\<rparr>
      else s\<lparr>w_metrics := (w_metrics s)\<lparr>ssd_write_queue_full :=
            ssd_write_queue_full (w_metrics s) + length blocks\<rparr>\<rparr>)"

text \<open>A flush waits for a place in the queue, then enqueues its signal.\<close>

definition send_flush :: "nat \<Rightarrow> writer_state \<Rightarrow> writer_state" where
  "send_flush tx s =
     s\<lparr>w_queue := w_queue s @ [FlushCmd tx], w_log := w_log s @ [EvSent (FlushCmd tx)]\<rparr>"

section \<open>The branches of the loop\<close>

definition fire_flushes :: "writer_state \<Rightarrow> writer_state" where
  "fire_flushes s =
     (if w_waiters s \<noteq> [] \<and> w_pending s = [] \<and> w_inflight s = []
      then s\<lparr>w_waiters := [], w_log := w_log s @ map EvFired (w_waiters s)\<rparr>
      else s)"

definition block_iovecs :: "sealed_block \<Rightarrow> (nat \<times> usize) list" where
  "block_iovecs b = concat (map write_iovecs (sb_slots b))"

text \<open>
  The outcome of one write: the submission is refused, the completion channel closes, the write
  fails, or it reports the number of bytes written, which is not looked at.
\<close>

datatype write_outcome = SubmitRefused | ChannelClosed | WriteFailed | Wrote usize

fun write_block_to_ssd :: "write_outcome \<Rightarrow> bool" where
  "write_block_to_ssd (Wrote _) = True"
| "write_block_to_ssd _ = False"

definition execute_write :: "write_task \<Rightarrow> write_outcome \<Rightarrow> block_key \<times> bool \<times> u64" where
  "execute_write t out = (wt_key t, write_block_to_ssd out, sb_footprint (wt_block t))"

text \<open>The result of the oldest write arrives, in the order of submission.\<close>

definition complete_write :: "write_outcome \<Rightarrow> writer_state \<Rightarrow> writer_state" where
  "complete_write out s =
     (case w_inflight s of
        [] \<Rightarrow> s
      | t # ts \<Rightarrow>
          let (key, success, block_size) = execute_write t out;
              m = (w_metrics s)\<lparr>ssd_write_inflight := ssd_write_inflight (w_metrics s) - 1\<rparr>
          in s\<lparr>w_inflight := ts,
               w_ring := map_option (\<lambda>r. snd (ring_commit key success r)) (w_ring s),
               w_metrics :=
                 (if success then m\<lparr>ssd_write_bytes := ssd_write_bytes m + block_size\<rparr>
                  else m\<lparr>ssd_write_failures := ssd_write_failures m + 1\<rparr>),
               w_log := w_log s @ [EvDone t success]\<rparr>)"

definition submit_pending :: "writer_state \<Rightarrow> writer_state" where
  "submit_pending s =
     (case w_pending s of
        [] \<Rightarrow> s
      | t # ts \<Rightarrow>
          s\<lparr>w_pending := ts, w_inflight := w_inflight s @ [t],
            w_metrics := (w_metrics s)\<lparr>ssd_write_inflight := ssd_write_inflight (w_metrics s) + 1\<rparr>\<rparr>)"

definition to_task :: "write_info \<Rightarrow> write_task" where
  "to_task w = \<lparr>wt_key = wi_key w, wt_block = wi_block w, wt_entry = wi_entry w\<rparr>"

text \<open>
  A command is received; \<open>alive\<close> tells which of the weakly referenced blocks still exist. The
  result \<open>None\<close> is a panic in the ring.
\<close>

definition recv_command ::
    "(block_key \<times> sealed_block \<Rightarrow> bool) \<Rightarrow> writer_state \<Rightarrow> writer_state option" where
  "recv_command alive s =
     (case w_queue s of
        [] \<Rightarrow> Some s
      | FlushCmd tx # q \<Rightarrow>
          Some (s\<lparr>w_queue := q, w_waiters := w_waiters s @ [tx],
                  w_log := w_log s @ [EvReceived (FlushCmd tx)]\<rparr>)
      | WriteCmd blocks # q \<Rightarrow>
          let s1 = s\<lparr>w_queue := q,
                     w_metrics := (w_metrics s)\<lparr>ssd_write_queue_pending :=
                       ssd_write_queue_pending (w_metrics s) - as_i64 (length blocks)\<rparr>,
                     w_log := w_log s @ [EvReceived (WriteCmd blocks)]\<rparr>;
              candidates = filter alive blocks
          in if candidates = [] then Some s1
             else case w_ring s of
                 None \<Rightarrow> Some s1
               | Some r \<Rightarrow>
                   (case prepare_batch candidates r of
                      None \<Rightarrow> None
                    | Some (r', writes) \<Rightarrow>
                        Some (s1\<lparr>w_ring := Some r', w_pending := w_pending s1 @ map to_task writes,
                                 w_log := w_log s1 @ [EvPrepared (map to_task writes)]\<rparr>)))"

text \<open>The end of the loop: the remaining writes are awaited, then the waiters are signalled.\<close>

fun drain_inflight :: "write_outcome list \<Rightarrow> writer_state \<Rightarrow> writer_state" where
  "drain_inflight [] s = s"
| "drain_inflight (out # results) s = drain_inflight results (complete_write out s)"

definition writer_exit :: "write_outcome list \<Rightarrow> writer_state \<Rightarrow> writer_state" where
  "writer_exit results s =
     (let s1 = drain_inflight results s
      in s1\<lparr>w_waiters := [], w_log := w_log s1 @ map EvFired (w_waiters s1)\<rparr>)"

text \<open>
  One turn of the loop. The guards are those of the branches; after a branch the loop starts
  over by signalling flushes whose work is done.
\<close>

inductive writer_turn :: "usize \<Rightarrow> writer_state \<Rightarrow> writer_state \<Rightarrow> bool" for write_inflight where
  complete: "w_inflight s \<noteq> [] \<Longrightarrow>
     writer_turn write_inflight s (fire_flushes (complete_write out s))"
| submit: "length (w_inflight s) < max write_inflight 1 \<Longrightarrow> w_pending s \<noteq> [] \<Longrightarrow>
     writer_turn write_inflight s (fire_flushes (submit_pending s))"
| receive: "w_pending s = [] \<Longrightarrow> w_waiters s = [] \<Longrightarrow> w_queue s \<noteq> [] \<Longrightarrow>
     recv_command alive s = Some s' \<Longrightarrow>
     writer_turn write_inflight s (fire_flushes s')"

text \<open>The actions of the other tasks: sending commands and dropping the store.\<close>

inductive writer_env :: "usize \<Rightarrow> writer_state \<Rightarrow> writer_state \<Rightarrow> bool" for depth where
  ingest: "writer_env depth s (ingest_batch depth blocks s)"
| flush: "length (w_queue s) < depth \<Longrightarrow> writer_env depth s (send_flush tx s)"
| drop: "writer_env depth s (s\<lparr>w_ring := None\<rparr>)"

inductive_cases writer_envE: "writer_env depth s s'"

definition writer_step :: "usize \<Rightarrow> usize \<Rightarrow> writer_state \<Rightarrow> writer_state \<Rightarrow> bool" where
  "writer_step write_inflight depth s s' \<longleftrightarrow> writer_turn write_inflight s s' \<or> writer_env depth s s'"

abbreviation writer_reach :: "usize \<Rightarrow> usize \<Rightarrow> ssd_ring_buffer \<Rightarrow> writer_state \<Rightarrow> bool" where
  "writer_reach write_inflight depth r s \<equiv>
     (writer_step write_inflight depth)\<^sup>*\<^sup>* (writer_init r) s"

section \<open>What the log says\<close>

fun ev_prepared :: "writer_event \<Rightarrow> write_task list" where
  "ev_prepared (EvPrepared ts) = ts"
| "ev_prepared _ = []"

fun ev_done :: "writer_event \<Rightarrow> write_task list" where
  "ev_done (EvDone t _) = [t]"
| "ev_done _ = []"

fun ev_sent :: "writer_event \<Rightarrow> ssd_write_command list" where
  "ev_sent (EvSent c) = [c]"
| "ev_sent _ = []"

fun ev_received :: "writer_event \<Rightarrow> ssd_write_command list" where
  "ev_received (EvReceived c) = [c]"
| "ev_received _ = []"

definition prepared :: "writer_event list \<Rightarrow> write_task list" where
  "prepared log = concat (map ev_prepared log)"

definition completed :: "writer_event list \<Rightarrow> write_task list" where
  "completed log = concat (map ev_done log)"

definition sent :: "writer_event list \<Rightarrow> ssd_write_command list" where
  "sent log = concat (map ev_sent log)"

definition received :: "writer_event list \<Rightarrow> ssd_write_command list" where
  "received log = concat (map ev_received log)"

lemmas log_defs = prepared_def completed_def sent_def received_def

text \<open>When a flush is signalled, the writer is done with everything enqueued before it.\<close>

definition fire_ok :: "writer_event list \<Rightarrow> nat \<Rightarrow> bool" where
  "fire_ok log tx \<longleftrightarrow>
     prepared log = completed log \<and>
     (\<exists>before. received log = before @ [FlushCmd tx]) \<and> prefix (received log) (sent log)"

definition fired_ok :: "writer_event list \<Rightarrow> bool" where
  "fired_ok log \<longleftrightarrow> (\<forall>xs tx ys. log = xs @ EvFired tx # ys \<longrightarrow> fire_ok xs tx)"

lemma fired_ok_Nil [simp]: "fired_ok []"
  by (simp add: fired_ok_def)

lemma fired_ok_snoc: "fired_ok (log @ [e]) \<longleftrightarrow> fired_ok log \<and> (\<forall>tx. e = EvFired tx \<longrightarrow> fire_ok log tx)"
proof -
  have "log @ [e] = xs @ EvFired tx # ys \<longleftrightarrow>
      (ys = [] \<and> xs = log \<and> e = EvFired tx) \<or>
      (\<exists>zs. ys = zs @ [e] \<and> log = xs @ EvFired tx # zs)" for xs tx ys
    by (cases ys rule: rev_cases) auto
  then show ?thesis unfolding fired_ok_def by (simp add: all_conj_distrib imp_conjL) blast
qed

fun cmd_blocks :: "ssd_write_command \<Rightarrow> int" where
  "cmd_blocks (WriteCmd bs) = as_i64 (length bs)"
| "cmd_blocks (FlushCmd _) = 0"

definition writer_inv :: "usize \<Rightarrow> writer_state \<Rightarrow> bool" where
  "writer_inv write_inflight s \<longleftrightarrow>
     prepared (w_log s) = completed (w_log s) @ w_inflight s @ w_pending s \<and>
     sent (w_log s) = received (w_log s) @ w_queue s \<and>
     length (w_inflight s) \<le> max write_inflight 1 \<and>
     ssd_write_inflight (w_metrics s) = int (length (w_inflight s)) \<and>
     ssd_write_queue_pending (w_metrics s) = sum_list (map cmd_blocks (w_queue s)) \<and>
     (w_waiters s = [] \<or>
       (w_inflight s \<noteq> [] \<or> w_pending s \<noteq> []) \<and>
       (\<exists>tx before. w_waiters s = [tx] \<and> received (w_log s) = before @ [FlushCmd tx])) \<and>
     fired_ok (w_log s)"

text \<open>The invariant without its demand that the waiters' work is not done yet.\<close>

definition writer_pre :: "usize \<Rightarrow> writer_state \<Rightarrow> bool" where
  "writer_pre write_inflight s \<longleftrightarrow>
     prepared (w_log s) = completed (w_log s) @ w_inflight s @ w_pending s \<and>
     sent (w_log s) = received (w_log s) @ w_queue s \<and>
     length (w_inflight s) \<le> max write_inflight 1 \<and>
     ssd_write_inflight (w_metrics s) = int (length (w_inflight s)) \<and>
     ssd_write_queue_pending (w_metrics s) = sum_list (map cmd_blocks (w_queue s)) \<and>
     (w_waiters s = [] \<or>
       (\<exists>tx before. w_waiters s = [tx] \<and> received (w_log s) = before @ [FlushCmd tx])) \<and>
     fired_ok (w_log s)"

lemma fire_flushes_inv: "writer_pre n s \<Longrightarrow> writer_inv n (fire_flushes s)"
  by (auto simp: writer_pre_def writer_inv_def fire_flushes_def fired_ok_snoc fire_ok_def log_defs)

lemma writer_inv_pre: "writer_inv n s \<Longrightarrow> writer_pre n s"
  by (auto simp: writer_inv_def writer_pre_def)

lemma complete_write_pre:
  assumes "writer_inv n s" "w_inflight s \<noteq> []"
  shows "writer_pre n (complete_write out s)"
  using assms
  by (cases "w_inflight s")
    (auto simp: writer_pre_def writer_inv_def complete_write_def execute_write_def fired_ok_snoc log_defs Let_def)

lemma submit_pending_pre:
  assumes "writer_inv n s" "length (w_inflight s) < max n 1" "w_pending s \<noteq> []"
  shows "writer_pre n (submit_pending s)"
  using assms
  by (cases "w_pending s") (auto simp: writer_pre_def writer_inv_def submit_pending_def)

lemma recv_command_pre:
  assumes inv: "writer_inv n s" and s: "w_pending s = []" "w_waiters s = []"
    and r: "recv_command alive s = Some s'"
  shows "writer_pre n s'"
proof (cases "w_queue s")
  case Nil
  with r inv show ?thesis by (simp add: recv_command_def writer_inv_pre)
next
  case (Cons c q)
  show ?thesis
  proof (cases c)
    case (FlushCmd tx)
    with r inv s Cons show ?thesis
      by (auto simp: recv_command_def writer_pre_def writer_inv_def fired_ok_snoc log_defs)
  next
    case (WriteCmd blocks)
    with r inv s Cons show ?thesis
      by (auto simp: recv_command_def writer_pre_def writer_inv_def fired_ok_snoc log_defs Let_def
          append_assoc [symmetric] simp del: append_assoc split: if_splits option.splits)
  qed
qed

lemma ingest_inv: "writer_inv n s \<Longrightarrow> writer_inv n (ingest_batch depth blocks s)"
  by (auto simp: writer_inv_def ingest_batch_def fired_ok_snoc log_defs)

lemma send_flush_inv: "writer_inv n s \<Longrightarrow> writer_inv n (send_flush tx s)"
  by (auto simp: writer_inv_def send_flush_def fired_ok_snoc log_defs)

lemma writer_turn_inv: "writer_turn n s s' \<Longrightarrow> writer_inv n s \<Longrightarrow> writer_inv n s'"
  by (erule writer_turn.cases)
    (blast intro: fire_flushes_inv complete_write_pre submit_pending_pre recv_command_pre)+

lemma writer_env_inv: "writer_env depth s s' \<Longrightarrow> writer_inv n s \<Longrightarrow> writer_inv n s'"
  by (erule writer_envE) (simp_all add: ingest_inv send_flush_inv, simp add: writer_inv_def)

lemma writer_step_inv: "writer_step n depth s s' \<Longrightarrow> writer_inv n s \<Longrightarrow> writer_inv n s'"
  unfolding writer_step_def by (blast intro: writer_turn_inv writer_env_inv)

lemma writer_reach_inv: "writer_reach n depth r s \<Longrightarrow> writer_inv n s"
proof (induction rule: rtranclp_induct)
  case base
  show ?case by (simp add: writer_inv_def writer_init_def log_defs)
next
  case (step s s')
  then show ?case by (blast intro: writer_step_inv)
qed


section \<open>Properties\<close>

text \<open>
  C21. Every write the ring has prepared is completed exactly once and in order: at any moment
  the prepared writes are the completed ones, followed by the in-flight ones, followed by the
  pending ones. Commands are received in the order of sending. Never more than the configured number of writes
  (at least one) is in flight, and the two gauges show the number of in-flight writes and the number of
  blocks in the command queue.
\<close>

theorem writer_fifo:
  "writer_reach n depth r s \<Longrightarrow>
    prepared (w_log s) = completed (w_log s) @ w_inflight s @ w_pending s \<and>
    sent (w_log s) = received (w_log s) @ w_queue s \<and>
    length (w_inflight s) \<le> max n 1 \<and>
    ssd_write_inflight (w_metrics s) = int (length (w_inflight s)) \<and>
    ssd_write_queue_pending (w_metrics s) = sum_list (map cmd_blocks (w_queue s))"
  using writer_reach_inv [of n depth r s] by (simp add: writer_inv_def)

text \<open>
  A flush is a barrier: at the moment its signal is sent, the command just received last is the
  flush itself, so every batch enqueued before it has been received, and every write
  prepared from those batches has completed. The signal does not wait for batches enqueued after it.
\<close>

theorem ssd_flush_barrier:
  "writer_reach n depth r s \<Longrightarrow> w_log s = xs @ EvFired tx # ys \<Longrightarrow>
    completed xs = prepared xs \<and>
    (\<exists>before after. received xs = before @ [FlushCmd tx] \<and> sent xs = before @ FlushCmd tx # after)"
proof -
  assume "writer_reach n depth r s" "w_log s = xs @ EvFired tx # ys"
  then have "fire_ok xs tx"
    using writer_reach_inv [of n depth r s] unfolding writer_inv_def fired_ok_def by blast
  then show ?thesis by (auto simp: fire_ok_def prefix_def)
qed

text \<open>The turns of the loop a waiting flush still needs.\<close>

definition writer_work :: "writer_state \<Rightarrow> nat" where
  "writer_work s = 2 * length (w_pending s) + length (w_inflight s)"

lemma fire_flushes_waiting:
  assumes "w_waiters s = [tx]"
  shows "EvFired tx \<in> set (w_log (fire_flushes s)) \<or>
    w_waiters (fire_flushes s) = [tx] \<and> writer_work (fire_flushes s) = writer_work s"
  using assms by (auto simp: fire_flushes_def)

text \<open>
  C22. A flush returns: while a flush waits, the loop always has a turn to take, no command is received, and
  every turn either sends the signal or leaves the flush waiting with strictly less work;
  senders cannot add to that work. So the signal is sent after at most \<open>2 * pending + inflight\<close> turns.
\<close>

theorem ssd_flush_returns:
  assumes reach: "writer_reach n depth r s" and w: "w_waiters s = [tx]"
  shows "(\<exists>s'. writer_turn n s s') \<and>
    (\<forall>s'. writer_turn n s s' \<longrightarrow>
       EvFired tx \<in> set (w_log s') \<or> w_waiters s' = [tx] \<and> writer_work s' < writer_work s) \<and>
    (\<forall>s'. writer_env depth s s' \<longrightarrow> w_waiters s' = [tx] \<and> writer_work s' = writer_work s)"
proof (intro conjI allI impI)
  from writer_reach_inv [OF reach] w have "w_inflight s \<noteq> [] \<or> w_pending s \<noteq> []"
    by (auto simp: writer_inv_def)
  then show "\<exists>s'. writer_turn n s s'"
    using writer_turn.complete writer_turn.submit by (cases "w_inflight s = []") force+
next
  fix s'
  assume "writer_turn n s s'"
  then show "EvFired tx \<in> set (w_log s') \<or> w_waiters s' = [tx] \<and> writer_work s' < writer_work s"
  proof (cases rule: writer_turn.cases)
    case (complete out)
    let ?s = "complete_write out s"
    have "w_waiters ?s = [tx]" "writer_work ?s < writer_work s"
      using complete(2) w by (auto simp: complete_write_def execute_write_def writer_work_def Let_def split: list.split)
    with fire_flushes_waiting [of ?s tx] complete(1) show ?thesis by auto
  next
    case submit
    let ?s = "submit_pending s"
    have "w_waiters ?s = [tx]" "writer_work ?s < writer_work s"
      using submit(3) w by (auto simp: submit_pending_def writer_work_def split: list.split)
    with fire_flushes_waiting [of ?s tx] submit(1) show ?thesis by auto
  next
    case (receive alive s'')
    with w show ?thesis by simp
  qed
next
  fix s'
  assume "writer_env depth s s'"
  then show "w_waiters s' = [tx]" "writer_work s' = writer_work s"
    using w by (auto elim!: writer_envE simp: ingest_batch_def send_flush_def writer_work_def)
qed

text \<open>A store with one shard, and the run in which one block is ingested, then flushed.\<close>

definition demo_ring :: ssd_ring_buffer where
  "demo_ring = \<lparr>shards = [\<lparr>capacity = 512, head_off = 0, tail_off = 0, order = []\<rparr>], next_shard = 0,
     entries = []\<rparr>"

definition demo_block :: sealed_block where
  "demo_block = \<lparr>sb_slots = [], sb_footprint = 8, sb_slot_numas = []\<rparr>"

definition demo_task :: write_task where
  "demo_task = \<lparr>wt_key = mk_key ''m'' [1], wt_block = demo_block, wt_entry =
     \<lparr>shard_id = 0, begin_off = 0, entry_len = 8, file_offset = 0, entry_slots = []\<rparr>\<rparr>"

definition demo_waiting :: writer_state where
  "demo_waiting = fire_flushes (the (recv_command (\<lambda>_. True) (fire_flushes (submit_pending (fire_flushes
     (the (recv_command (\<lambda>_. True) (send_flush 7 (ingest_batch 8 [(mk_key ''m'' [1], demo_block)]
       (writer_init demo_ring))))))))))"

lemma demo_prepare:
  "prepare_batch [(mk_key ''m'' [1], demo_block)] demo_ring =
    Some (\<lparr>shards = [\<lparr>capacity = 512, head_off = 8, tail_off = 0, order = [mk_key ''m'' [1]]\<rparr>],
        next_shard = 0, entries = [(mk_key ''m'' [1], Writing (wt_entry demo_task))]\<rparr>,
      [\<lparr>wi_key = mk_key ''m'' [1], wi_block = demo_block, wi_entry = wt_entry demo_task\<rparr>])"
  by (simp add: prepare_batch_def prepare_one_def allocate_contiguous_def advance_tail_def demo_ring_def
      demo_block_def demo_task_def nth_opt_def hm_contains_def saturating_sub_def wrapping_add_def u64_max_def
      slot_metas_def Let_def)

lemma demo_waiting_eq:
  "demo_waiting = \<lparr>w_ring = Some \<lparr>shards = [\<lparr>capacity = 512, head_off = 8, tail_off = 0,
        order = [mk_key ''m'' [1]]\<rparr>],
        next_shard = 0, entries = [(mk_key ''m'' [1], Writing (wt_entry demo_task))]\<rparr>,
      w_queue = [], w_pending = [], w_inflight = [demo_task], w_waiters = [7],
      w_metrics = \<lparr>ssd_write_queue_pending = 0, ssd_write_queue_full = 0, ssd_write_inflight = 1,
        ssd_write_bytes = 0, ssd_write_failures = 0\<rparr>,
      w_log = [EvSent (WriteCmd [(mk_key ''m'' [1], demo_block)]), EvSent (FlushCmd 7),
        EvReceived (WriteCmd [(mk_key ''m'' [1], demo_block)]), EvPrepared [demo_task],
        EvReceived (FlushCmd 7)]\<rparr>"
  by (simp add: demo_waiting_def fire_flushes_def recv_command_def submit_pending_def send_flush_def
      ingest_batch_def writer_init_def demo_prepare to_task_def Let_def) (simp add: demo_task_def)

lemma demo_reach: "writer_reach 2 8 demo_ring demo_waiting"
proof -
  let ?b = "[(mk_key ''m'' [1], demo_block)]"
  let ?s2 = "send_flush 7 (ingest_batch 8 ?b (writer_init demo_ring))"
  let ?s3 = "fire_flushes (the (recv_command (\<lambda>_. True) ?s2))"
  let ?s4 = "fire_flushes (submit_pending ?s3)"
  note defs = fire_flushes_def recv_command_def submit_pending_def send_flush_def
      ingest_batch_def writer_init_def demo_prepare to_task_def Let_def
  have "writer_step 2 8 (writer_init demo_ring) (ingest_batch 8 ?b (writer_init demo_ring))"
    unfolding writer_step_def by (intro disjI2 writer_env.ingest)
  moreover have "writer_step 2 8 (ingest_batch 8 ?b (writer_init demo_ring)) ?s2"
    unfolding writer_step_def by (intro disjI2 writer_env.flush) (simp add: defs)
  moreover have "writer_step 2 8 ?s2 ?s3"
    unfolding writer_step_def
    by (intro disjI1 writer_turn.receive [of _ "\<lambda>_. True"]) (simp_all add: defs)
  moreover have "writer_step 2 8 ?s3 ?s4"
    unfolding writer_step_def by (intro disjI1 writer_turn.submit) (simp_all add: defs)
  moreover have "writer_step 2 8 ?s4 demo_waiting"
    unfolding writer_step_def demo_waiting_def
    by (intro disjI1 writer_turn.receive [of _ "\<lambda>_. True"]) (simp_all add: defs)
  ultimately show ?thesis by (meson converse_rtranclp_into_rtranclp rtranclp.rtrancl_refl)
qed

lemma demo_fires:
  "writer_reach 2 8 demo_ring (fire_flushes (complete_write (Wrote 8) demo_waiting))"
  "w_log (fire_flushes (complete_write (Wrote 8) demo_waiting)) =
     w_log demo_waiting @ [EvDone demo_task True] @ EvFired 7 # []"
proof -
  have "writer_step 2 8 demo_waiting (fire_flushes (complete_write (Wrote 8) demo_waiting))"
    unfolding writer_step_def by (intro disjI1 writer_turn.complete) (simp add: demo_waiting_eq)
  with demo_reach show "writer_reach 2 8 demo_ring (fire_flushes (complete_write (Wrote 8) demo_waiting))"
    by (rule rtranclp.rtrancl_into_rtrancl)
  show "w_log (fire_flushes (complete_write (Wrote 8) demo_waiting)) =
     w_log demo_waiting @ [EvDone demo_task True] @ EvFired 7 # []"
    by (simp add: demo_waiting_eq fire_flushes_def complete_write_def execute_write_def Let_def)
qed

lemma writer_fifo_witness:
  "prepared (w_log demo_waiting) = completed (w_log demo_waiting) @ [demo_task] @ []"
  using writer_fifo [OF demo_reach] by (simp add: demo_waiting_eq)

lemma ssd_flush_barrier_witness:
  "completed (w_log demo_waiting @ [EvDone demo_task True]) =
   prepared (w_log demo_waiting @ [EvDone demo_task True])"
  using ssd_flush_barrier [OF demo_fires(1), of "w_log demo_waiting @ [EvDone demo_task True]" 7 "[]"] demo_fires(2)
  by simp

lemma ssd_flush_returns_witness:
  "\<exists>s'. writer_turn 2 demo_waiting s' \<and> EvFired 7 \<in> set (w_log s')"
proof -
  have "writer_work demo_waiting = 1" by (simp add: writer_work_def demo_waiting_eq)
  moreover have "w_waiters demo_waiting = [7]" by (simp add: demo_waiting_eq)
  note ret = ssd_flush_returns [OF demo_reach this]
  have turn: "writer_turn 2 demo_waiting (fire_flushes (complete_write (Wrote 8) demo_waiting))"
    by (rule writer_turn.complete) (simp add: demo_waiting_eq)
  moreover have "w_waiters (fire_flushes (complete_write (Wrote 8) demo_waiting)) = []"
    by (simp add: demo_waiting_eq fire_flushes_def complete_write_def execute_write_def Let_def)
  ultimately show ?thesis using ret by (metis not_Cons_self2)
qed

section \<open>Reads see only finished writes\<close>

text \<open>Preparing keeps entries, drops some, and adds the ones being written.\<close>

lemma prune_order_get:
  "hm_get (snd (prune_order nt ks es)) k = Some st \<Longrightarrow> hm_get es k = Some st"
  by (induction nt ks es rule: prune_order.induct)
    (auto simp: hm_simps split: option.splits if_splits)

lemma advance_tail_get:
  assumes a: "advance_tail sid nt r = Some r'" and g: "hm_get (entries r') k = Some st"
  shows "hm_get (entries r) k = Some st"
proof -
  obtain sh where sh: "nth_opt (shards r) sid = Some sh" using a by (auto simp: advance_tail_def split: option.splits)
  show ?thesis
  proof (cases "nt \<le> tail_off sh")
    case False
    hence "entries r' = snd (prune_order nt (order sh) (entries r))"
      using a sh by (auto simp: advance_tail_def split: prod.splits)
    with g show ?thesis using prune_order_get [of nt "order sh" "entries r" k st] by simp
  qed (use a sh g in \<open>simp add: advance_tail_def\<close>)
qed

lemma allocate_get:
  assumes a: "allocate_contiguous sid len r = Some (r', x)" and g: "hm_get (entries r') k = Some st"
  shows "hm_get (entries r) k = Some st"
proof -
  from a consider "r' = r" | sh nt where "advance_tail sid nt (r\<lparr>shards := (shards r)[sid := sh]\<rparr>) = Some r'"
    by (auto simp: allocate_contiguous_def Let_def split: option.splits if_splits)
  thus ?thesis by cases (use g advance_tail_get in \<open>fastforce+\<close>)
qed

lemma prepare_one_get:
  assumes p: "prepare_one kb r = Some (r', ws)"
  shows "wi_key ` set ws \<subseteq> {fst kb}"
    "hm_get (entries r') k = Some st \<Longrightarrow>
       hm_get (entries r) k = Some st \<or> (\<exists>w \<in> set ws. wi_key w = k \<and> st = Writing (wi_entry w))"
proof -
  obtain key b where kb: "kb = (key, b)" by (rule prod.exhaust)
  obtain r1 x where a: "allocate_contiguous (next_shard r) (sb_footprint b) r = Some (r1, x)"
    using p by (auto simp: prepare_one_def kb Let_def split: option.splits)
  note get = allocate_get [OF a, of k st]
  show "wi_key ` set ws \<subseteq> {fst kb}"
    using p a by (cases x) (auto simp: prepare_one_def kb Let_def split: if_splits)
  show "hm_get (entries r) k = Some st \<or> (\<exists>w \<in> set ws. wi_key w = k \<and> st = Writing (wi_entry w))"
    if "hm_get (entries r') k = Some st"
    using that p a get by (cases x) (auto simp: prepare_one_def kb Let_def hm_simps split: if_splits)
qed

lemma prepare_loop_Cons:
  assumes "prepare_loop (kb # kbs) r = Some (r', ws)"
  obtains r1 w1 w2 where "prepare_one kb r = Some (r1, w1)" "prepare_loop kbs r1 = Some (r', w2)" "ws = w1 @ w2"
  using assms by (auto split: option.splits)

lemma prepare_loop_keys: "prepare_loop kbs r = Some (r', ws) \<Longrightarrow> wi_key ` set ws \<subseteq> fst ` set kbs"
proof (induction kbs arbitrary: r ws)
  case (Cons kb kbs)
  obtain r1 w1 w2 where p: "prepare_one kb r = Some (r1, w1)" "prepare_loop kbs r1 = Some (r', w2)" "ws = w1 @ w2"
    by (rule prepare_loop_Cons [OF Cons.prems])
  from prepare_one_get(1) [OF p(1)] Cons.IH [OF p(2)] show ?case unfolding p(3) by auto
qed simp

lemma prepare_loop_get:
  assumes "prepare_loop kbs r = Some (r', ws)" "hm_get (entries r') k = Some st"
  shows "hm_get (entries r) k = Some st \<or> (\<exists>w \<in> set ws. wi_key w = k \<and> st = Writing (wi_entry w))"
  using assms
proof (induction kbs arbitrary: r ws)
  case (Cons kb kbs)
  obtain r1 w1 w2 where p: "prepare_one kb r = Some (r1, w1)" "prepare_loop kbs r1 = Some (r', w2)" "ws = w1 @ w2"
    by (rule prepare_loop_Cons [OF Cons.prems(1)])
  from Cons.IH [OF p(2) Cons.prems(2)] prepare_one_get(2) [OF p(1), of k st] show ?case unfolding p(3) by auto
qed simp

lemma prepare_batch_get:
  assumes p: "prepare_batch c r = Some (r', ws)" and e: "hm_get (entries r') k = Some st"
  shows "hm_get (entries r) k = Some st \<and> k \<notin> wi_key ` set ws \<or> (\<exists>w \<in> set ws. wi_key w = k \<and> st = Writing (wi_entry w))"
proof -
  let ?w = "filter (\<lambda>(k, _). \<not> hm_contains (entries r) k) c"
  have l: "prepare_loop ?w r = Some (r', ws)" using p by (simp add: prepare_batch_def)
  have "k \<notin> wi_key ` set ws" if "hm_get (entries r) k = Some st"
    using prepare_loop_keys [OF l] that by (fastforce simp: hm_contains_def)
  with prepare_loop_get [OF l e] show ?thesis by blast
qed

text \<open>The writes under way, and that no key is under way twice.\<close>

definition under_way :: "writer_state \<Rightarrow> write_task list" where
  "under_way s = w_inflight s @ w_pending s"

definition keys_once :: "writer_state \<Rightarrow> bool" where
  "keys_once s = distinct (map wt_key (under_way s))"

text \<open>An entry being written has its own write under way; a readable one has its own write finished.\<close>

definition entry_backed :: "writer_state \<Rightarrow> block_key \<Rightarrow> ssd_entry_state \<Rightarrow> bool" where
  "entry_backed s k st =
     (case st of
        Writing e \<Rightarrow> \<exists>t \<in> set (under_way s). wt_key t = k \<and> wt_entry t = e
      | Committed e \<Rightarrow> k \<notin> wt_key ` set (under_way s) \<and>
          (\<exists>t. EvDone t True \<in> set (w_log s) \<and> wt_key t = k \<and> wt_entry t = e))"

definition ring_backed :: "writer_state \<Rightarrow> bool" where
  "ring_backed s = (\<forall>r k st. w_ring s = Some r \<longrightarrow> hm_get (entries r) k = Some st \<longrightarrow> entry_backed s k st)"

lemma ring_backed_mono:
  assumes "ring_backed s" "\<And>r. w_ring s' = Some r \<Longrightarrow> w_ring s = Some r" "set (under_way s') = set (under_way s)"
    "set (w_log s) \<subseteq> set (w_log s')"
  shows "ring_backed s'"
proof -
  have "entry_backed s k st \<Longrightarrow> entry_backed s' k st" for k st
    using assms(3,4) by (auto simp: entry_backed_def split: ssd_entry_state.splits)
  with assms(1,2) show ?thesis unfolding ring_backed_def by blast
qed

lemma ring_backed_fire: "ring_backed s \<Longrightarrow> ring_backed (fire_flushes s)"
  by (erule ring_backed_mono) (auto simp: fire_flushes_def under_way_def split: if_splits)

lemma ring_commit_get:
  assumes "hm_get (entries (snd (ring_commit key ok r))) k = Some st"
  shows "hm_get (entries r) k = Some st \<and> (k = key \<longrightarrow> (\<exists>e. st = Committed e))
    \<or> k = key \<and> ok \<and> (\<exists>e. st = Committed e \<and> hm_get (entries r) k = Some (Writing e))"
  using assms
  by (auto simp: ring_commit_def hm_simps split: option.splits ssd_entry_state.splits if_splits)

lemma ring_backed_complete:
  assumes b: "ring_backed s" and once: "keys_once s"
  shows "ring_backed (complete_write out s)"
proof (cases "w_inflight s")
  case (Cons t ts)
  let ?ok = "write_block_to_ssd out" and ?s' = "complete_write out s"
  have parts: "under_way ?s' = ts @ w_pending s" "w_log ?s' = w_log s @ [EvDone t ?ok]"
    "w_ring ?s' = map_option (\<lambda>r. snd (ring_commit (wt_key t) ?ok r)) (w_ring s)" "under_way s = t # ts @ w_pending s"
    using Cons by (simp_all add: under_way_def complete_write_def execute_write_def Let_def)
  have fresh: "wt_key t \<notin> wt_key ` set (ts @ w_pending s)" using once by (auto simp: keys_once_def parts)
  have "entry_backed ?s' k st" if r: "w_ring s = Some r" and g: "hm_get (entries (snd (ring_commit (wt_key t) ?ok r))) k = Some st" for r k st
  proof (cases "k = wt_key t")
    case True
    have "\<not> (\<exists>e. hm_get (entries r) k = Some (Committed e))"
      using b r True by (auto simp: ring_backed_def entry_backed_def parts split: ssd_entry_state.splits)
    with ring_commit_get [OF g] True obtain e where e: "?ok" "st = Committed e" "hm_get (entries r) k = Some (Writing e)"
      by blast
    then obtain t' where t': "t' \<in> set (under_way s)" "wt_key t' = k" "wt_entry t' = e"
      using b r by (fastforce simp: ring_backed_def entry_backed_def)
    have "t' \<notin> set (ts @ w_pending s)" using fresh True t'(2) by (metis imageI)
    with t' have "wt_entry t = e" by (simp add: parts)
    with e(1,2) True fresh show ?thesis by (auto simp: entry_backed_def parts)
  next
    case False
    with ring_commit_get [OF g] have "entry_backed s k st" using b r by (auto simp: ring_backed_def)
    with False show ?thesis by (auto simp: entry_backed_def parts split: ssd_entry_state.splits)
  qed
  thus ?thesis by (auto simp: ring_backed_def parts)
qed (simp add: complete_write_def b)

lemma recv_command_cases:
  assumes rc: "recv_command alive s = Some s'"
  obtains (same) "w_ring s' = w_ring s" "under_way s' = under_way s" "set (w_log s) \<subseteq> set (w_log s')"
    | (prepares) c r r' ws where "w_ring s = Some r" "prepare_batch c r = Some (r', ws)" "w_ring s' = Some r'"
        "under_way s' = under_way s @ map to_task ws" "set (w_log s) \<subseteq> set (w_log s')"
proof (cases "\<exists>blocks q r. w_queue s = WriteCmd blocks # q \<and> filter alive blocks \<noteq> [] \<and> w_ring s = Some r")
  case True
  then obtain blocks q r where q: "w_queue s = WriteCmd blocks # q" "filter alive blocks \<noteq> []" "w_ring s = Some r" by blast
  obtain r' ws where p: "prepare_batch (filter alive blocks) r = Some (r', ws)"
    using rc q by (cases "prepare_batch (filter alive blocks) r") (auto simp: recv_command_def Let_def)
  have "w_ring s' = Some r'" "under_way s' = under_way s @ map to_task ws" "set (w_log s) \<subseteq> set (w_log s')"
    using rc q p by (auto simp: recv_command_def under_way_def Let_def)
  with p q(3) show thesis by (intro prepares)
next
  case False
  with rc show thesis
    by (intro same) (auto simp: recv_command_def under_way_def Let_def split: list.splits ssd_write_command.splits if_splits option.splits)
qed

lemma ring_backed_recv:
  assumes b: "ring_backed s" and rc: "recv_command alive s = Some s'"
  shows "ring_backed s'"
  using rc
proof (cases rule: recv_command_cases)
  case same
  with b show ?thesis by (intro ring_backed_mono [OF b]) simp_all
next
  case (prepares c r r' ws)
  note r = prepares(1) and p = prepares(2) and s' = prepares(3-5)
  have keys: "wt_key ` set (map to_task ws) = wi_key ` set ws" by (force simp: to_task_def)
  have "entry_backed s' k st" if g: "hm_get (entries r') k = Some st" for k st
    using prepare_batch_get [OF p g]
  proof (elim disjE conjE bexE)
    assume "hm_get (entries r) k = Some st" "k \<notin> wi_key ` set ws"
    with b r s'(3) show ?thesis
      by (fastforce simp: ring_backed_def entry_backed_def s'(2) image_Un keys split: ssd_entry_state.splits simp del: set_map)
  next
    fix w assume "w \<in> set ws" "wi_key w = k" "st = Writing (wi_entry w)"
    thus ?thesis by (force simp: entry_backed_def s'(2) to_task_def)
  qed
  thus ?thesis by (simp add: ring_backed_def s'(1))
qed

lemma ring_backed_step:
  assumes step: "writer_step n depth s s'" and b: "ring_backed s" "keys_once s"
  shows "ring_backed s'"
proof (cases "writer_turn n s s'")
  case True
  thus ?thesis
  proof cases
    case complete
    with b show ?thesis by (simp add: ring_backed_fire ring_backed_complete)
  next
    case submit
    have "ring_backed (submit_pending s)"
      by (rule ring_backed_mono [OF b(1)]) (auto simp: submit_pending_def under_way_def split: list.splits)
    with submit show ?thesis by (simp add: ring_backed_fire)
  next
    case (receive alive s1)
    with b(1) show ?thesis by (simp add: ring_backed_fire ring_backed_recv)
  qed
next
  case False
  hence "writer_env depth s s'" using step by (simp add: writer_step_def)
  thus ?thesis
  proof (cases rule: writer_env.cases)
    case (ingest blocks)
    thus ?thesis by (intro ring_backed_mono [OF b(1)]) (auto simp: ingest_batch_def under_way_def Let_def split: if_splits)
  next
    case (flush tx)
    thus ?thesis by (intro ring_backed_mono [OF b(1)]) (auto simp: send_flush_def under_way_def)
  next
    case drop
    thus ?thesis by (simp add: ring_backed_def)
  qed
qed

text \<open>Runs in which no key is under way twice.\<close>

definition once_step :: "usize \<Rightarrow> usize \<Rightarrow> writer_state \<Rightarrow> writer_state \<Rightarrow> bool" where
  "once_step write_inflight depth s s' = (writer_step write_inflight depth s s' \<and> keys_once s')"

text \<open>A write that stopped short counts as a success: its entry becomes readable.\<close>

lemma short_write_succeeds: "execute_write t (Wrote 0) = (wt_key t, True, sb_footprint (wt_block t))"
  by (simp add: execute_write_def)

text \<open>
  C23. Reads see only finished writes: in a store that starts empty, and as long as no key is under way twice, a key can be
  read from the ring only at a place whose own write has finished successfully, and while no write of the key is under
  way. A key is under way twice when a batch repeats it, or when the ring wraps past a write in flight and the key is
  saved again; the completion of the one then makes the other's place readable, as shown below.
\<close>

theorem readable_after_write:
  assumes reach: "(once_step n depth)\<^sup>*\<^sup>* (writer_init r0) s" and empty: "entries r0 = []"
    and ring: "w_ring s = Some r" and e: "ring_get r k = Some e"
  shows "(\<exists>t. EvDone t True \<in> set (w_log s) \<and> wt_key t = k \<and> wt_entry t = e)
    \<and> k \<notin> wt_key ` set (w_inflight s @ w_pending s)"
proof -
  have "ring_backed s \<and> keys_once s"
    using reach
  proof (induction rule: rtranclp_induct)
    case base
    show ?case using empty by (simp add: ring_backed_def keys_once_def under_way_def writer_init_def)
  next
    case (step s s')
    then show ?case using ring_backed_step by (auto simp: once_step_def)
  qed
  moreover have "hm_get (entries r) k = Some (Committed e)"
    using e by (auto simp: ring_get_def split: option.splits ssd_entry_state.splits if_splits)
  ultimately show ?thesis using ring by (fastforce simp: ring_backed_def entry_backed_def under_way_def)
qed

lemma demo_once: "(once_step 2 8)\<^sup>*\<^sup>* (writer_init demo_ring) (fire_flushes (complete_write (Wrote 8) demo_waiting))"
proof -
  let ?b = "[(mk_key ''m'' [1], demo_block)]"
  let ?s1 = "ingest_batch 8 ?b (writer_init demo_ring)"
  let ?s2 = "send_flush 7 ?s1"
  let ?s3 = "fire_flushes (the (recv_command (\<lambda>_. True) ?s2))"
  let ?s4 = "fire_flushes (submit_pending ?s3)"
  note defs = fire_flushes_def recv_command_def submit_pending_def send_flush_def
      ingest_batch_def writer_init_def demo_prepare to_task_def Let_def keys_once_def under_way_def
  have "once_step 2 8 (writer_init demo_ring) ?s1"
    unfolding once_step_def writer_step_def by (intro conjI disjI2 writer_env.ingest) (simp add: defs)
  moreover have "once_step 2 8 ?s1 ?s2"
    unfolding once_step_def writer_step_def by (intro conjI disjI2 writer_env.flush) (simp_all add: defs)
  moreover have "once_step 2 8 ?s2 ?s3"
    unfolding once_step_def writer_step_def
    by (intro conjI disjI1 writer_turn.receive [of _ "\<lambda>_. True"]) (simp_all add: defs)
  moreover have "once_step 2 8 ?s3 ?s4"
    unfolding once_step_def writer_step_def by (intro conjI disjI1 writer_turn.submit) (simp_all add: defs)
  moreover have "once_step 2 8 ?s4 demo_waiting"
    unfolding once_step_def writer_step_def demo_waiting_def
    by (intro conjI disjI1 writer_turn.receive [of _ "\<lambda>_. True"]) (simp_all add: defs)
  moreover have "once_step 2 8 demo_waiting (fire_flushes (complete_write (Wrote 8) demo_waiting))"
    unfolding once_step_def writer_step_def
    by (intro conjI disjI1 writer_turn.complete)
      (simp_all add: demo_waiting_eq fire_flushes_def complete_write_def execute_write_def Let_def keys_once_def under_way_def)
  ultimately show ?thesis by (meson converse_rtranclp_into_rtranclp rtranclp.rtrancl_refl)
qed

lemma readable_after_write_witness:
  "\<exists>t. EvDone t True \<in> set (w_log (fire_flushes (complete_write (Wrote 8) demo_waiting))) \<and>
     wt_key t = mk_key ''m'' [1] \<and> wt_entry t = wt_entry demo_task"
  using readable_after_write [OF demo_once, of "\<lparr>shards = [\<lparr>capacity = 512, head_off = 8, tail_off = 0,
        order = [mk_key ''m'' [1]]\<rparr>],
        next_shard = 0, entries = [(mk_key ''m'' [1], Committed (wt_entry demo_task))]\<rparr>" "mk_key ''m'' [1]" "wt_entry demo_task"]
  by (simp add: demo_ring_def demo_waiting_eq fire_flushes_def complete_write_def execute_write_def ring_commit_def ring_get_def
      is_offset_valid_def nth_opt_def demo_task_def Let_def)

lemma drain_inflight_spec:
  assumes "writer_pre n s" "length results = length (w_inflight s)" "w_pending s = []"
  shows "writer_pre n (drain_inflight results s)" "w_inflight (drain_inflight results s) = []"
    "w_pending (drain_inflight results s) = []" "w_waiters (drain_inflight results s) = w_waiters s"
proof -
  have "writer_pre n (drain_inflight results s) \<and> w_inflight (drain_inflight results s) = [] \<and>
    w_pending (drain_inflight results s) = [] \<and> w_waiters (drain_inflight results s) = w_waiters s"
    using assms
  proof (induction results arbitrary: s)
    case (Cons out results)
    let ?s = "complete_write out s"
    obtain t ts where ts: "w_inflight s = t # ts" using Cons.prems(2) by (cases "w_inflight s") auto
    have "writer_pre n ?s"
      using Cons.prems(1) ts
      by (auto simp: writer_pre_def complete_write_def execute_write_def fired_ok_snoc log_defs Let_def)
    moreover have "length results = length (w_inflight ?s)" "w_pending ?s = []" "w_waiters ?s = w_waiters s"
      using Cons.prems(2,3) ts by (simp_all add: complete_write_def execute_write_def Let_def)
    ultimately show ?case using Cons.IH [of ?s] by simp
  qed simp
  then show "writer_pre n (drain_inflight results s)" "w_inflight (drain_inflight results s) = []"
    "w_pending (drain_inflight results s) = []" "w_waiters (drain_inflight results s) = w_waiters s"
    by simp_all
qed

text \<open>
  When the command channel closes, the loop leaves with nothing pending; once the results of
  the in-flight writes have been awaited, every prepared write has completed, nothing is in
  flight and every flush has been signalled.
\<close>

theorem writer_exit_drains:
  assumes reach: "writer_reach n depth r s" and closed: "w_queue s = []" "w_pending s = []" "w_waiters s = []"
    and res: "length results = length (w_inflight s)"
  shows "let s' = writer_exit results s in
    w_inflight s' = [] \<and> w_pending s' = [] \<and> completed (w_log s') = prepared (w_log s') \<and>
    received (w_log s') = sent (w_log s') \<and> ssd_write_inflight (w_metrics s') = 0"
proof -
  note d = drain_inflight_spec [OF writer_inv_pre [OF writer_reach_inv [OF reach]] res closed(2)]
  have "w_queue (drain_inflight results s) = w_queue s" for results s
    by (induction results arbitrary: s) (simp_all add: complete_write_def execute_write_def Let_def split: list.split)
  with d closed show ?thesis by (simp add: writer_exit_def writer_pre_def Let_def)
qed

lemma writer_exit_drains_witness:
  "completed (w_log (writer_exit [] (fire_flushes (complete_write (Wrote 8) demo_waiting)))) =
   prepared (w_log (writer_exit [] (fire_flushes (complete_write (Wrote 8) demo_waiting))))"
  using writer_exit_drains [OF demo_fires(1), of "[]"]
  by (simp add: demo_waiting_eq fire_flushes_def complete_write_def execute_write_def Let_def)

section \<open>A repeated key\<close>

text \<open>
  The filter of a batch looks at the ring before the batch, so a key that occurs twice in one batch is
  prepared twice and the index keeps the second place. Completions are matched by key: the completion of
  the first write commits the entry of the second one, whose own write is still in flight.
  The ring then serves reads from a range that has not been written.
\<close>

definition demo_repeated :: writer_state where
  "demo_repeated = fire_flushes (complete_write (Wrote 8) (fire_flushes (submit_pending (fire_flushes (submit_pending
     (fire_flushes (the (recv_command (\<lambda>_. True)
       (ingest_batch 8 [(mk_key ''m'' [1], demo_block), (mk_key ''m'' [1], demo_block)]
         (writer_init demo_ring))))))))))"

lemma demo_repeated_prepare:
  "prepare_batch [(mk_key ''m'' [1], demo_block), (mk_key ''m'' [1], demo_block)] demo_ring =
    Some (\<lparr>shards = [\<lparr>capacity = 512, head_off = 16, tail_off = 0,
          order = [mk_key ''m'' [1], mk_key ''m'' [1]]\<rparr>],
        next_shard = 0, entries = [(mk_key ''m'' [1],
          Writing \<lparr>shard_id = 0, begin_off = 8, entry_len = 8, file_offset = 8, entry_slots = []\<rparr>)]\<rparr>,
      [\<lparr>wi_key = mk_key ''m'' [1], wi_block = demo_block, wi_entry = wt_entry demo_task\<rparr>,
       \<lparr>wi_key = mk_key ''m'' [1], wi_block = demo_block, wi_entry =
          \<lparr>shard_id = 0, begin_off = 8, entry_len = 8, file_offset = 8, entry_slots = []\<rparr>\<rparr>])"
  by (simp add: prepare_batch_def prepare_one_def allocate_contiguous_def advance_tail_def demo_ring_def
      demo_block_def demo_task_def nth_opt_def hm_contains_def saturating_sub_def wrapping_add_def u64_max_def
      slot_metas_def Let_def)

lemma repeated_key_read_before_written:
  "\<exists>t r. t \<in> set (w_inflight demo_repeated) \<and> w_ring demo_repeated = Some r \<and>
    ring_get r (wt_key t) = Some (wt_entry t) \<and>
    (\<forall>ok. EvDone t ok \<notin> set (w_log demo_repeated))"
  by (simp add: demo_repeated_def fire_flushes_def recv_command_def submit_pending_def complete_write_def execute_write_def
      ingest_batch_def writer_init_def demo_repeated_prepare to_task_def ring_commit_def ring_get_def
      is_offset_valid_def nth_opt_def Let_def)
    (simp add: demo_task_def)

lemma demo_repeated_reach: "writer_reach 2 8 demo_ring demo_repeated"
proof -
  let ?b = "[(mk_key ''m'' [1], demo_block), (mk_key ''m'' [1], demo_block)]"
  let ?s1 = "ingest_batch 8 ?b (writer_init demo_ring)"
  let ?s2 = "fire_flushes (the (recv_command (\<lambda>_. True) ?s1))"
  let ?s3 = "fire_flushes (submit_pending ?s2)"
  let ?s4 = "fire_flushes (submit_pending ?s3)"
  note defs = fire_flushes_def recv_command_def submit_pending_def ingest_batch_def writer_init_def
      demo_repeated_prepare to_task_def Let_def
  have "writer_step 2 8 (writer_init demo_ring) ?s1"
    unfolding writer_step_def by (intro disjI2 writer_env.ingest)
  moreover have "writer_step 2 8 ?s1 ?s2"
    unfolding writer_step_def
    by (intro disjI1 writer_turn.receive [of _ "\<lambda>_. True"]) (simp_all add: defs)
  moreover have "writer_step 2 8 ?s2 ?s3"
    unfolding writer_step_def by (intro disjI1 writer_turn.submit) (simp_all add: defs)
  moreover have "writer_step 2 8 ?s3 ?s4"
    unfolding writer_step_def by (intro disjI1 writer_turn.submit) (simp_all add: defs)
  moreover have "writer_step 2 8 ?s4 demo_repeated"
    unfolding writer_step_def demo_repeated_def by (intro disjI1 writer_turn.complete) (simp add: defs)
  ultimately show ?thesis by (meson converse_rtranclp_into_rtranclp rtranclp.rtrancl_refl)
qed

end
