(* ===== verification/Lease.thy ===== *)
theory Lease
  imports Blocks
begin

text \<open>
  Query leases of \<^verbatim>\<open>pegaflow-core/src/lease.rs\<close>: a query that finds ready blocks pins them under
  a token; each consumer of the instance collects them once before the lease expires. The
  random token is an argument of \<open>create\<close>; taking the lock twice (a sweep, then the operation)
  is two steps of the model, composed in the order of the code.
\<close>

section \<open>Tokens\<close>

type_synonym query_lease_id = "byte list"

datatype lease_error =
    EmptyId
  | BadIdLength usize
  | UnknownOrExpired
  | WrongInstance string string

definition from_bytes :: "byte list \<Rightarrow> lease_error + query_lease_id" where
  "from_bytes bs =
     (if bs = [] then Inl EmptyId
      else if length bs \<noteq> 16 then Inl (BadIdLength (length bs))
      else Inr bs)"

definition to_bytes :: "query_lease_id \<Rightarrow> byte list" where
  "to_bytes token = token"

section \<open>Leases\<close>

definition DEFAULT_LEASE_TTL :: duration where
  "DEFAULT_LEASE_TTL = 600 * 10 ^ 9"

record query_lease =
  instance_id :: string
  lease_blocks :: "sealed_block list"
  remaining_consumers :: usize
  expires_at :: instant

type_synonym leases = "(query_lease_id, query_lease) hmap"

definition lease_alive :: "instant \<Rightarrow> query_lease \<Rightarrow> bool" where
  "lease_alive now l = (now < expires_at l)"

definition sweep_expired :: "instant \<Rightarrow> leases \<Rightarrow> leases" where
  "sweep_expired now m = sweep lease_alive now m"

definition lease_new :: "instant \<Rightarrow> string \<Rightarrow> sealed_block list \<Rightarrow> usize \<Rightarrow> query_lease" where
  "lease_new now inst blocks consumers =
     \<lparr>instance_id = inst, lease_blocks = blocks, remaining_consumers = max consumers 1,
      expires_at = now + DEFAULT_LEASE_TTL\<rparr>"

definition lease_create ::
    "instant \<Rightarrow> query_lease_id \<Rightarrow> string \<Rightarrow> sealed_block list \<Rightarrow> usize \<Rightarrow> leases \<Rightarrow> query_lease_id \<times> leases" where
  "lease_create now token inst blocks consumers m =
     (token, hm_insert token (lease_new now inst blocks consumers) (sweep_expired now m))"

definition consume_locked ::
    "string \<Rightarrow> query_lease_id \<Rightarrow> leases \<Rightarrow> (lease_error + sealed_block list) \<times> leases" where
  "consume_locked inst token m =
     (case hm_get m token of
        None \<Rightarrow> (Inl UnknownOrExpired, m)
      | Some l \<Rightarrow>
          if instance_id l \<noteq> inst then (Inl (WrongInstance (instance_id l) inst), m)
          else if 1 < remaining_consumers l
          then (Inr (lease_blocks l),
                hm_insert token (l\<lparr>remaining_consumers := remaining_consumers l - 1\<rparr>) m)
          else (Inr (lease_blocks l), hm_remove token m))"

definition lease_consume ::
    "instant \<Rightarrow> string \<Rightarrow> query_lease_id \<Rightarrow> leases \<Rightarrow> (lease_error + sealed_block list) \<times> leases" where
  "lease_consume now inst token m = consume_locked inst token (sweep_expired now m)"

definition lease_release :: "instant \<Rightarrow> query_lease_id \<Rightarrow> leases \<Rightarrow> bool \<times> leases" where
  "lease_release now token m =
     (let m1 = sweep_expired now m in (hm_contains m1 token, hm_remove token m1))"

definition release_instance :: "string \<Rightarrow> leases \<Rightarrow> leases" where
  "release_instance inst m = hm_retain (\<lambda>_ l. instance_id l \<noteq> inst) m"

section \<open>Runs\<close>

datatype lease_op =
    Create query_lease_id string "sealed_block list" usize
  | Consume string query_lease_id
  | Release query_lease_id
  | ReleaseInstance string
  | Sweep

datatype lease_result =
    Created query_lease_id
  | Consumed "lease_error + sealed_block list"
  | Released bool
  | Unit

fun lease_step :: "instant \<times> lease_op \<Rightarrow> leases \<Rightarrow> lease_result \<times> leases" where
  "lease_step (now, Create token inst blocks consumers) m =
     apfst Created (lease_create now token inst blocks consumers m)"
| "lease_step (now, Consume inst token) m = apfst Consumed (lease_consume now inst token m)"
| "lease_step (now, Release token) m = apfst Released (lease_release now token m)"
| "lease_step (now, ReleaseInstance inst) m = (Unit, release_instance inst m)"
| "lease_step (now, Sweep) m = (Unit, sweep_expired now m)"

fun lease_run :: "(instant \<times> lease_op) list \<Rightarrow> leases \<Rightarrow> lease_result list \<times> leases" where
  "lease_run [] m = ([], m)"
| "lease_run (p # ps) m =
     (let (res, m1) = lease_step p m; (rs, m2) = lease_run ps m1 in (res # rs, m2))"

section \<open>The abstract contract\<close>

text \<open>
  What the manager promises: a partial function from tokens to leases with a deadline. Nothing is
  ever swept; an expired lease is simply not visible.
\<close>

type_synonym spec_leases = "query_lease_id \<rightharpoonup> query_lease"

definition visible :: "instant \<Rightarrow> spec_leases \<Rightarrow> query_lease_id \<Rightarrow> query_lease option" where
  "visible now f token =
     (case f token of None \<Rightarrow> None | Some l \<Rightarrow> if now < expires_at l then Some l else None)"

fun spec_step :: "instant \<times> lease_op \<Rightarrow> spec_leases \<Rightarrow> lease_result \<times> spec_leases" where
  "spec_step (now, Create token inst blocks consumers) f =
     (Created token, f(token \<mapsto> lease_new now inst blocks consumers))"
| "spec_step (now, Consume inst token) f =
     (case visible now f token of
        None \<Rightarrow> (Consumed (Inl UnknownOrExpired), f)
      | Some l \<Rightarrow>
          if instance_id l \<noteq> inst then (Consumed (Inl (WrongInstance (instance_id l) inst)), f)
          else (Consumed (Inr (lease_blocks l)),
                f(token := if remaining_consumers l \<le> 1 then None
                           else Some (l\<lparr>remaining_consumers := remaining_consumers l - 1\<rparr>))))"
| "spec_step (now, Release token) f = (Released (visible now f token \<noteq> None), f(token := None))"
| "spec_step (now, ReleaseInstance inst) f =
     (Unit, \<lambda>token. case f token of None \<Rightarrow> None | Some l \<Rightarrow> if instance_id l = inst then None else Some l)"
| "spec_step (now, Sweep) f = (Unit, f)"

fun spec_run :: "(instant \<times> lease_op) list \<Rightarrow> spec_leases \<Rightarrow> lease_result list" where
  "spec_run [] f = []"
| "spec_run (p # ps) f = (let (res, f1) = spec_step p f in res # spec_run ps f1)"

section \<open>Lemmas\<close>

interpretation lease_expiry: expiring lease_alive
  by unfold_locales (simp add: lease_alive_def)

lemma from_bytes_Inr: "from_bytes bs = Inr token \<longleftrightarrow> length bs = 16 \<and> to_bytes token = bs"
  by (auto simp: from_bytes_def to_bytes_def)

lemma lease_step_wf: "hm_wf m \<Longrightarrow> hm_wf (snd (lease_step p m))"
  by (induction p m rule: lease_step.induct)
    (auto simp: lease_create_def lease_consume_def consume_locked_def lease_release_def release_instance_def
      sweep_expired_def lease_expiry.wf_sweep Let_def split: option.split)

text \<open>The abstract map agrees with the table on everything not yet expired.\<close>

definition agrees :: "instant \<Rightarrow> leases \<Rightarrow> spec_leases \<Rightarrow> bool" where
  "agrees now m f \<longleftrightarrow> hm_wf m \<and> (\<forall>token. visible now (map_of m) token = visible now f token)"

lemma agrees_later: "agrees t m f \<Longrightarrow> t \<le> now \<Longrightarrow> agrees now m f"
  unfolding agrees_def visible_def
  by (fastforce split: option.splits if_splits)

lemma get_sweep_visible: "hm_wf m \<Longrightarrow> hm_get (sweep_expired now m) token = visible now (map_of m) token"
  unfolding sweep_expired_def lease_expiry.get_sweep_eq visible_def
  by (simp add: lease_alive_def split: option.split)

lemma agreesI:
  assumes "hm_wf m" "\<And>token. visible now (map_of m) token = visible now f token"
  shows "agrees now m f"
  using assms by (simp add: agrees_def)

lemma visible_eqD:
  assumes "agrees now m f"
  shows "hm_get (sweep_expired now m) token = visible now f token"
  using assms by (simp add: agrees_def get_sweep_visible)

lemma visible_upd:
  "visible now (f(k := v)) t =
     (if t = k then (case v of None \<Rightarrow> None | Some l \<Rightarrow> if now < expires_at l then Some l else None)
      else visible now f t)"
  by (simp add: visible_def)

lemma visible_alive: "visible now f t = Some l \<Longrightarrow> now < expires_at l"
  by (auto simp: visible_def split: option.splits if_splits)

lemma map_of_hm_insert: "map_of (hm_insert k v m) = (map_of m)(k \<mapsto> v)"
  by (rule ext) (simp add: hm_simps)

lemma map_of_hm_remove: "map_of (hm_remove k m) = (map_of m)(k := None)"
  by (rule ext) (simp add: hm_simps)

lemma lease_step_agrees:
  assumes "agrees now m f"
  shows "fst (lease_step (now, op) m) = fst (spec_step (now, op) f) \<and>
    agrees now (snd (lease_step (now, op) m)) (snd (spec_step (now, op) f))"
proof -
  have wf: "hm_wf m" using assms by (simp add: agrees_def)
  note wf' = lease_step_wf [OF wf, of "(now, op)"]
  note get = visible_eqD [OF assms]
  have vis: "visible now (map_of m) t = visible now f t" for t using assms by (simp add: agrees_def)
  have swept: "visible now (map_of (sweep_expired now m)) t = visible now f t" for t
    using get [of t] visible_alive [of now f t] unfolding visible_def [of now "map_of (sweep_expired now m)"]
    by (simp split: option.split)
  note upd = visible_upd map_of_hm_insert map_of_hm_remove swept
  show ?thesis
  proof (cases op)
    case (Create token inst blocks consumers)
    with wf' show ?thesis by (simp add: lease_create_def agrees_def upd)
  next
    case (Consume inst token)
    then show ?thesis
      using wf' get [of token] visible_alive [of now f token]
      by (cases "visible now f token") (simp_all add: lease_consume_def consume_locked_def agrees_def upd)
  next
    case (Release token)
    with wf' get [of token] show ?thesis
      by (simp add: lease_release_def agrees_def upd hm_simps Let_def)
  next
    case (ReleaseInstance inst)
    have "visible now (map_of (release_instance inst m)) t =
        visible now (\<lambda>t. case f t of None \<Rightarrow> None | Some l \<Rightarrow> if instance_id l = inst then None else Some l) t" for t
      using vis [of t] wf
      by (auto simp: release_instance_def visible_def hm_simps split: option.splits if_splits)
    with wf' ReleaseInstance show ?thesis by (simp add: agrees_def)
  next
    case Sweep
    with wf' show ?thesis by (simp add: agrees_def swept)
  qed
qed

text \<open>
  C26. The lease table implements its contract: for every sequence of operations at non-decreasing times,
  starting from the empty manager, the results are those of the abstract map with deadlines, in
  which leases are never swept and merely become invisible. So the sweeps that every operation and the background task
  perform are not observable.
\<close>

theorem lease_refines_deadline_map:
  assumes "sorted (map fst ps)"
  shows "fst (lease_run ps []) = spec_run ps Map.empty"
proof -
  have "fst (lease_run ps m) = spec_run ps f"
    if "agrees t m f" "sorted (map fst ps)" "\<forall>p \<in> set ps. t \<le> fst p" for t m f
    using that
  proof (induction ps arbitrary: t m f)
    case (Cons p ps)
    obtain now op where p: "p = (now, op)" by (cases p)
    have "agrees now m f" using Cons.prems(1,3) agrees_later by (auto simp: p)
    note step = lease_step_agrees [OF this, of op]
    have "fst (lease_run ps (snd (lease_step p m))) = spec_run ps (snd (spec_step p f))"
      using step Cons.prems(2) by (intro Cons.IH [of now]) (auto simp: p)
    with step show ?case by (simp add: p case_prod_beta Let_def)
  qed simp
  moreover have "agrees 0 [] Map.empty" by (simp add: agrees_def)
  ultimately show ?thesis using assms by blast
qed

lemma lease_refines_deadline_map_witness:
  "fst (lease_run [(5, Create [1] ''i'' [] 2), (6, Consume ''i'' [1]), (7, Consume ''j'' [1]),
      (600000000005, Consume ''i'' [1])] []) =
   [Created [1], Consumed (Inr []), Consumed (Inl (WrongInstance ''i'' ''j'')),
    Consumed (Inl UnknownOrExpired)]"
  by (subst lease_refines_deadline_map)
    (simp_all add: visible_def lease_new_def DEFAULT_LEASE_TTL_def)

section \<open>How often a lease serves\<close>

abbreviation consume_requests ::
    "query_lease_id \<Rightarrow> (instant \<times> string) list \<Rightarrow> (instant \<times> lease_op) list" where
  "consume_requests token reqs \<equiv> map (\<lambda>(t, inst). (t, Consume inst token)) reqs"

fun served :: "lease_result \<Rightarrow> bool" where
  "served (Consumed (Inr _)) = True"
| "served _ = False"

definition served_ok :: "string \<Rightarrow> sealed_block list \<Rightarrow> (instant \<times> string) list \<Rightarrow> lease_result list \<Rightarrow> bool" where
  "served_ok owner blocks reqs rs \<longleftrightarrow>
     list_all2 (\<lambda>(t, inst) res. served res \<longrightarrow> inst = owner \<and> res = Consumed (Inr blocks)) reqs rs"

lemma lease_run_step:
  "fst (lease_run (p # ps) m) = fst (lease_step p m) # fst (lease_run ps (snd (lease_step p m)))"
  by (simp add: case_prod_beta Let_def)

lemma consume_unknown:
  assumes "hm_wf m" "hm_get m token = None"
  shows "fst (lease_run (consume_requests token reqs) m) =
    map (\<lambda>_. Consumed (Inl UnknownOrExpired)) reqs"
  using assms
proof (induction reqs arbitrary: m)
  case (Cons req reqs)
  obtain t inst where req: "req = (t, inst)" by (cases req)
  have none: "hm_get (sweep_expired t m) token = None"
    using Cons.prems by (simp add: get_sweep_visible visible_def)
  moreover have "hm_wf (sweep_expired t m)"
    using Cons.prems by (simp add: sweep_expired_def lease_expiry.wf_sweep)
  ultimately show ?case
    using Cons.IH [of "sweep_expired t m"]
    by (simp add: req lease_consume_def consume_locked_def lease_run_step del: lease_run.simps)
qed simp

lemma served_unknown: "filter served (map (\<lambda>_. Consumed (Inl UnknownOrExpired)) reqs) = []"
  "served_ok owner blocks reqs (map (\<lambda>_. Consumed (Inl UnknownOrExpired)) reqs)"
  by (induction reqs) (auto simp: served_ok_def)

lemma consume_live:
  assumes "hm_wf m" "hm_get m token = Some l" "\<forall>(t, _) \<in> set reqs. t < expires_at l"
  shows "length (filter served (fst (lease_run (consume_requests token reqs) m))) =
      min (max (remaining_consumers l) 1) (length (filter (\<lambda>(_, inst). inst = instance_id l) reqs)) \<and>
    served_ok (instance_id l) (lease_blocks l) reqs (fst (lease_run (consume_requests token reqs) m))"
  using assms
proof (induction reqs arbitrary: m l)
  case (Cons req reqs)
  obtain t inst where req: "req = (t, inst)" by (cases req)
  let ?m = "sweep_expired t m"
  have wf: "hm_wf ?m" using Cons.prems by (simp add: sweep_expired_def lease_expiry.wf_sweep)
  have get: "hm_get ?m token = Some l"
    using Cons.prems by (simp add: get_sweep_visible visible_def req)
  have later: "\<forall>(t, _) \<in> set reqs. t < expires_at l" using Cons.prems(3) by simp
  consider (foreign) "inst \<noteq> instance_id l" | (more) "inst = instance_id l" "1 < remaining_consumers l"
    | (last) "inst = instance_id l" "remaining_consumers l \<le> 1" by linarith
  then show ?case
  proof cases
    case foreign
    with Cons.IH [OF wf get later] get show ?thesis
      by (simp add: req lease_consume_def consume_locked_def lease_run_step served_ok_def del: lease_run.simps)
  next
    case more
    let ?l = "l\<lparr>remaining_consumers := remaining_consumers l - 1\<rparr>"
    have "hm_wf (hm_insert token ?l ?m)" "hm_get (hm_insert token ?l ?m) token = Some ?l"
      using wf by (simp_all add: hm_simps)
    note IH = Cons.IH [OF this, simplified]
    from more IH later get show ?thesis
      by (simp add: req lease_consume_def consume_locked_def lease_run_step served_ok_def del: lease_run.simps)
  next
    case last
    have "fst (lease_run (consume_requests token reqs) (hm_remove token ?m)) =
        map (\<lambda>_. Consumed (Inl UnknownOrExpired)) reqs"
      using wf by (intro consume_unknown) (simp_all add: hm_simps)
    with last get served_unknown [where reqs = reqs] show ?thesis
      by (simp add: req lease_consume_def consume_locked_def lease_run_step served_ok_def del: lease_run.simps)
  qed
qed (simp add: served_ok_def)

text \<open>
  A lease serves each of its consumers once: of any requests for it made before it expires, exactly
  the first \<open>max n 1\<close> requests of the owning instance succeed (all of them if there are fewer), each
  with the leased blocks, and no request of another instance does.
\<close>

theorem lease_serves_consumers:
  assumes "hm_wf m" "\<forall>(t, _) \<in> set reqs. t < now + DEFAULT_LEASE_TTL"
  shows "let m1 = snd (lease_create now token owner blocks n m);
             rs = fst (lease_run (consume_requests token reqs) m1)
    in length (filter served rs) = min (max n 1) (length (filter (\<lambda>(_, inst). inst = owner) reqs)) \<and>
       served_ok owner blocks reqs rs"
proof -
  let ?m = "snd (lease_create now token owner blocks n m)"
  have "hm_wf ?m" "hm_get ?m token = Some (lease_new now owner blocks n)"
    using assms(1) by (simp_all add: lease_create_def hm_simps sweep_expired_def lease_expiry.wf_sweep)
  from consume_live [OF this] assms(2) show ?thesis by (simp add: lease_new_def Let_def)
qed

lemma lease_serves_consumers_witness:
  "length (filter served (fst (lease_run (consume_requests [1] [(6, ''i''), (7, ''j''), (8, ''i''), (9, ''i'')])
     (snd (lease_create 5 [1] ''i'' [] 2 []))))) = 2"
  using lease_serves_consumers [of "[]" "[(6, ''i''), (7, ''j''), (8, ''i''), (9, ''i'')]" 5 "[1]" "''i''" "[]" 2]
  by (simp add: DEFAULT_LEASE_TTL_def Let_def)

end
