(* ===== verification/Transfer_Lock.thy ===== *)
theory Transfer_Lock
  imports Blocks Core_Metrics
begin

text \<open>
  The transfer locks of \<^verbatim>\<open>pegaflow-core/src/storage/transfer_lock.rs\<close> and the tier attribution of
  \<^verbatim>\<open>pegaflow-core/src/storage/tier_attribution.rs\<close>. A session keeps references to the blocks a
  remote node is reading, until it is released or times out. The random session identifier is an
  argument of \<open>lock_blocks\<close>.
\<close>

section \<open>Sessions\<close>

record transfer_session =
  ts_blocks :: "(block_key \<times> sealed_block) list"
  ts_created_at :: instant
  requester_id :: string

record transfer_lock_manager =
  sessions :: "(string, transfer_session) hmap"
  lock_timeout :: duration

definition tl_new :: "duration \<Rightarrow> transfer_lock_manager" where
  "tl_new timeout = \<lparr>sessions = [], lock_timeout = timeout\<rparr>"

definition lock_blocks ::
    "instant \<Rightarrow> string \<Rightarrow> string \<Rightarrow> (block_key \<times> sealed_block) list \<Rightarrow>
     transfer_lock_manager \<times> core_metrics \<Rightarrow> string \<times> (transfer_lock_manager \<times> core_metrics)" where
  "lock_blocks now session_id requester blocks st =
     (let (mgr, m) = st
      in (session_id,
          mgr\<lparr>sessions := hm_insert session_id
               \<lparr>ts_blocks = blocks, ts_created_at = now, requester_id = requester\<rparr> (sessions mgr)\<rparr>,
          m\<lparr>transfer_lock_active := transfer_lock_active m + as_i64 (length blocks)\<rparr>))"

definition tl_release ::
    "string \<Rightarrow> transfer_lock_manager \<times> core_metrics \<Rightarrow> usize \<times> (transfer_lock_manager \<times> core_metrics)" where
  "tl_release session_id st =
     (let (mgr, m) = st
      in case hm_get (sessions mgr) session_id of
           Some s \<Rightarrow>
             (length (ts_blocks s),
              mgr\<lparr>sessions := hm_remove session_id (sessions mgr)\<rparr>,
              m\<lparr>transfer_lock_active := transfer_lock_active m - as_i64 (length (ts_blocks s))\<rparr>)
         | None \<Rightarrow> (0, st))"

definition session_alive :: "duration \<Rightarrow> instant \<Rightarrow> transfer_session \<Rightarrow> bool" where
  "session_alive timeout now s = (\<not> timeout < duration_since now (ts_created_at s))"

text \<open>The removal loop over the identifiers collected first; it counts sessions and blocks.\<close>

fun remove_sessions ::
    "string list \<Rightarrow> (string, transfer_session) hmap \<Rightarrow> usize \<Rightarrow> usize \<Rightarrow>
     (string, transfer_session) hmap \<times> usize \<times> usize" where
  "remove_sessions [] m n blocks = (m, n, blocks)"
| "remove_sessions (i # is) m n blocks =
     (case hm_get m i of
        Some s \<Rightarrow> remove_sessions is (hm_remove i m) (n + 1) (blocks + length (ts_blocks s))
      | None \<Rightarrow> remove_sessions is m n blocks)"

definition gc_expired ::
    "instant \<Rightarrow> transfer_lock_manager \<times> core_metrics \<Rightarrow> usize \<times> (transfer_lock_manager \<times> core_metrics)" where
  "gc_expired now st =
     (let (mgr, m) = st;
          expired = map fst (filter (\<lambda>(_, s). \<not> session_alive (lock_timeout mgr) now s) (sessions mgr));
          (rest, expired_count, expired_blocks) = remove_sessions expired (sessions mgr) 0 0
      in (expired_count,
          mgr\<lparr>sessions := rest\<rparr>,
          if 0 < expired_count
          then m\<lparr>transfer_lock_active := transfer_lock_active m - as_i64 expired_blocks,
                 transfer_lock_timeouts_total := transfer_lock_timeouts_total m + expired_count\<rparr>
          else m))"

section \<open>Tier attribution\<close>

datatype attribution_source = Rdma | Ssd

record tier_attribution =
  ta_ram :: usize
  ta_rdma :: usize
  ta_ssd :: usize
  ta_miss :: usize

text \<open>\<open>None\<close> is the panic of the checked subtraction.\<close>

definition classify ::
    "usize \<Rightarrow> usize \<Rightarrow> usize \<Rightarrow> attribution_source option \<Rightarrow> tier_attribution option" where
  "classify total_blocks hit loading source =
     (case checked_sub total_blocks (wrapping_add hit loading) of
        None \<Rightarrow> None
      | Some miss \<Rightarrow>
          let (rdma, ssd) = (case source of
                 Some Rdma \<Rightarrow> (loading, 0)
               | Some Ssd \<Rightarrow> (0, loading)
               | None \<Rightarrow> (0, 0))
          in Some \<lparr>ta_ram = hit, ta_rdma = rdma, ta_ssd = ssd, ta_miss = miss\<rparr>)"

definition ta_sum :: "tier_attribution \<Rightarrow> usize" where
  "ta_sum a = ta_ram a + ta_rdma a + ta_ssd a + ta_miss a"

definition record_tier_attribution :: "tier_attribution \<Rightarrow> core_metrics \<Rightarrow> core_metrics" where
  "record_tier_attribution a m =
     record_cache_tier_block_requests (ta_ram a) (ta_rdma a) (ta_ssd a) (ta_miss a) m"

section \<open>Lemmas\<close>

interpretation session_expiry: expiring "session_alive timeout"
  by unfold_locales (auto simp: session_alive_def duration_since_def)

lemma classify_sum:
  assumes "hit + loading \<le> total_blocks" "total_blocks \<le> u64_max" "source = None \<longrightarrow> loading = 0"
  shows "\<exists>a. classify total_blocks hit loading source = Some a \<and> ta_sum a = total_blocks \<and>
    tier_total (record_tier_attribution a m) = tier_total m + total_blocks"
proof -
  have "wrapping_add hit loading = hit + loading" using assms by simp
  then show ?thesis
    using assms
    by (auto simp: classify_def checked_sub_def ta_sum_def record_tier_attribution_def tier_total_record
        split: option.split attribution_source.split)
qed

definition session_blocks :: "(string, transfer_session) hmap \<Rightarrow> nat" where
  "session_blocks m = sum_list (map (\<lambda>(_, s). length (ts_blocks s)) m)"

lemma session_blocks_simps [simp]:
  "session_blocks [] = 0"
  "session_blocks ((i, s) # m) = length (ts_blocks s) + session_blocks m"
  by (simp_all add: session_blocks_def)

lemma session_blocks_insert:
  "i \<notin> fst ` set m \<Longrightarrow> session_blocks (hm_insert i s m) = session_blocks m + length (ts_blocks s)"
  by (simp add: hm_insert_absent session_blocks_def)

lemma session_blocks_remove:
  "hm_wf m \<Longrightarrow> hm_get m i = Some s \<Longrightarrow>
     session_blocks (hm_remove i m) + length (ts_blocks s) = session_blocks m"
  by (induction m) (auto split: if_splits)

lemma hm_remove_append: "hm_remove k (m @ m') = hm_remove k m @ hm_remove k m'"
  by (simp add: AList.delete_eq)

lemma hm_remove_dom: "fst ` set (hm_remove k m) \<subseteq> fst ` set m"
  by (auto simp: AList.delete_eq)

text \<open>The collect-then-remove loop is one retain pass.\<close>

lemma remove_sessions_filter:
  assumes "hm_wf (pre @ m)" "\<forall>(i, s) \<in> set pre. P s"
  shows "remove_sessions (map fst (filter (\<lambda>(_, s). \<not> P s) m)) (pre @ m) n b =
    (pre @ hm_retain (\<lambda>_ s. P s) m, n + length (filter (\<lambda>(_, s). \<not> P s) m),
     b + session_blocks (filter (\<lambda>(_, s). \<not> P s) m))"
  using assms
proof (induction m arbitrary: pre n b)
  case (Cons x m)
  obtain i s where x: "x = (i, s)" by (cases x)
  show ?case
  proof (cases "P s")
    case True
    with Cons.IH [of "pre @ [x]"] Cons.prems show ?thesis by (simp add: x hm_retain_def)
  next
    case False
    have i: "i \<notin> fst ` set pre" "i \<notin> fst ` set m"
      using Cons.prems(1) by (auto simp: x hm_wf_def)
    then have "map_of pre i = None" by (simp add: map_of_eq_None_iff)
    then have "hm_get (pre @ x # m) i = Some s" by (simp add: x map_add_def)
    moreover have "hm_remove i (pre @ x # m) = pre @ m"
      using i by (simp add: x hm_remove_append)
    moreover have "hm_wf (pre @ m)" using Cons.prems(1) by (simp add: hm_wf_def)
    ultimately show ?thesis
      using Cons.IH [of pre "n + 1" "b + length (ts_blocks s)"] Cons.prems(2) False by (simp add: x hm_retain_def)
  qed
qed (simp add: hm_retain_def)

definition tl_inv :: "transfer_lock_manager \<times> core_metrics \<Rightarrow> bool" where
  "tl_inv st \<longleftrightarrow> hm_wf (sessions (fst st)) \<and>
     transfer_lock_active (snd st) = int (session_blocks (sessions (fst st)))"

lemma gc_expired_eq:
  assumes "hm_wf (sessions mgr)" "session_blocks (sessions mgr) < 2 ^ 63"
  shows "let old = filter (\<lambda>(_, s). \<not> session_alive (lock_timeout mgr) now s) (sessions mgr)
    in gc_expired now (mgr, m) =
      (length old, mgr\<lparr>sessions := sweep (session_alive (lock_timeout mgr)) now (sessions mgr)\<rparr>,
       m\<lparr>transfer_lock_active := transfer_lock_active m - int (session_blocks old),
         transfer_lock_timeouts_total := transfer_lock_timeouts_total m + length old\<rparr>) \<and>
      session_blocks (sweep (session_alive (lock_timeout mgr)) now (sessions mgr)) + session_blocks old =
        session_blocks (sessions mgr)"
proof -
  let ?P = "session_alive (lock_timeout mgr) now"
  let ?old = "filter (\<lambda>(_, s). \<not> ?P s) (sessions mgr)"
  have split: "session_blocks (hm_retain (\<lambda>_ s. P s) m) + session_blocks (filter (\<lambda>(_, s). \<not> P s) m) =
      session_blocks m" for P :: "transfer_session \<Rightarrow> bool" and m :: "(string, transfer_session) hmap"
    unfolding hm_retain_def by (induction m) auto
  from split [of ?P "sessions mgr"] assms(2) have small: "session_blocks ?old < 2 ^ 63" by linarith
  have run: "remove_sessions (map fst ?old) (sessions mgr) 0 0 =
      (sweep (session_alive (lock_timeout mgr)) now (sessions mgr), length ?old, session_blocks ?old)"
    using remove_sessions_filter [of "[]" "sessions mgr" ?P 0 0] assms(1) by (simp add: sweep_def)
  have none: "session_blocks ?old = 0" if "length ?old = 0" using that by simp
  show ?thesis
    unfolding Let_def
  proof (rule conjI)
    show "gc_expired now (mgr, m) =
      (length ?old, mgr\<lparr>sessions := sweep (session_alive (lock_timeout mgr)) now (sessions mgr)\<rparr>,
       m\<lparr>transfer_lock_active := transfer_lock_active m - int (session_blocks ?old),
         transfer_lock_timeouts_total := transfer_lock_timeouts_total m + length ?old\<rparr>)"
      unfolding gc_expired_def Let_def prod.case run using small none by simp
    show "session_blocks (sweep (session_alive (lock_timeout mgr)) now (sessions mgr)) + session_blocks ?old =
        session_blocks (sessions mgr)"
      using split [of ?P "sessions mgr"] by (simp add: sweep_def)
  qed
qed

section \<open>Runs\<close>

datatype tl_op =
    Lock string string "(block_key \<times> sealed_block) list"
  | Unlock string
  | Gc

fun tl_step ::
    "instant \<times> tl_op \<Rightarrow> transfer_lock_manager \<times> core_metrics \<Rightarrow> transfer_lock_manager \<times> core_metrics" where
  "tl_step (now, Lock i requester blocks) st = snd (lock_blocks now i requester blocks st)"
| "tl_step (now, Unlock i) st = snd (tl_release i st)"
| "tl_step (now, Gc) st = snd (gc_expired now st)"

definition tl_run ::
    "(instant \<times> tl_op) list \<Rightarrow> transfer_lock_manager \<times> core_metrics \<Rightarrow> transfer_lock_manager \<times> core_metrics" where
  "tl_run ps st = foldl (\<lambda>st p. tl_step p st) st ps"

fun op_blocks :: "instant \<times> tl_op \<Rightarrow> nat" where
  "op_blocks (_, Lock _ _ blocks) = length blocks"
| "op_blocks _ = 0"

fun op_ids :: "instant \<times> tl_op \<Rightarrow> string list" where
  "op_ids (_, Lock i _ _) = [i]"
| "op_ids _ = []"

lemma tl_step_inv:
  assumes inv: "tl_inv st" and fresh: "set (op_ids p) \<inter> fst ` set (sessions (fst st)) = {}"
    and small: "session_blocks (sessions (fst st)) + op_blocks p < 2 ^ 63"
  shows "tl_inv (tl_step p st)"
    "fst ` set (sessions (fst (tl_step p st))) \<subseteq> fst ` set (sessions (fst st)) \<union> set (op_ids p)"
    "session_blocks (sessions (fst (tl_step p st))) \<le> session_blocks (sessions (fst st)) + op_blocks p"
    "lock_timeout (fst (tl_step p st)) = lock_timeout (fst st)"
proof -
  obtain mgr m where st: "st = (mgr, m)" by (cases st)
  obtain now op where p: "p = (now, op)" by (cases p)
  have "tl_inv (tl_step p st) \<and>
    fst ` set (sessions (fst (tl_step p st))) \<subseteq> fst ` set (sessions (fst st)) \<union> set (op_ids p) \<and>
    session_blocks (sessions (fst (tl_step p st))) \<le> session_blocks (sessions (fst st)) + op_blocks p \<and>
    lock_timeout (fst (tl_step p st)) = lock_timeout (fst st)"
  proof (cases op)
    case (Lock i requester blocks)
    then show ?thesis
      using inv fresh small
      by (auto simp: st p tl_inv_def lock_blocks_def session_blocks_insert dom_update)
  next
    case (Unlock i)
    show ?thesis
    proof (cases "hm_get (sessions mgr) i")
      case None
      with inv Unlock show ?thesis by (simp add: st p tl_release_def)
    next
      case (Some s)
      have wf: "hm_wf (sessions mgr)" using inv by (simp add: st tl_inv_def)
      note rem = session_blocks_remove [OF this Some]
      then have "length (ts_blocks s) < 2 ^ 63" using small by (simp add: st)
      with rem Some inv Unlock wf hm_remove_dom [of i "sessions mgr"] show ?thesis
        by (simp add: st p tl_inv_def tl_release_def)
    qed
  next
    case Gc
    have "fst ` set (sweep (session_alive (lock_timeout mgr)) now (sessions mgr)) \<subseteq> fst ` set (sessions mgr)"
      by (auto simp: sweep_def hm_retain_def)
    with Gc gc_expired_eq [of mgr now m] inv small show ?thesis
      by (simp add: st p tl_inv_def Let_def session_expiry.wf_sweep)
  qed
  then show "tl_inv (tl_step p st)"
    "fst ` set (sessions (fst (tl_step p st))) \<subseteq> fst ` set (sessions (fst st)) \<union> set (op_ids p)"
    "session_blocks (sessions (fst (tl_step p st))) \<le> session_blocks (sessions (fst st)) + op_blocks p"
    "lock_timeout (fst (tl_step p st)) = lock_timeout (fst st)"
    by simp_all
qed

text \<open>
  C27. The gauge of locked blocks is exact: after any sequence of locks (with fresh session identifiers),
  releases and collections, in any order and at any times, it is the number of blocks held by the
  sessions that are still open.
\<close>

theorem transfer_lock_accounting:
  assumes "distinct (concat (map op_ids ps))" and "sum_list (map op_blocks ps) < 2 ^ 63"
    and "transfer_lock_active m = 0" and run: "tl_run ps (tl_new timeout, m) = (mgr, m')"
  shows "hm_wf (sessions mgr) \<and> transfer_lock_active m' = int (session_blocks (sessions mgr)) \<and>
    lock_timeout mgr = timeout"
proof -
  have "tl_inv (tl_run ps st) \<and> lock_timeout (fst (tl_run ps st)) = lock_timeout (fst st)"
    if "tl_inv st" "distinct (concat (map op_ids ps))"
      "set (concat (map op_ids ps)) \<inter> fst ` set (sessions (fst st)) = {}"
      "session_blocks (sessions (fst st)) + sum_list (map op_blocks ps) < 2 ^ 63" for st
    using that unfolding tl_run_def
  proof (induction ps arbitrary: st)
    case (Cons p ps)
    have new: "set (op_ids p) \<inter> fst ` set (sessions (fst st)) = {}" using Cons.prems(3) by auto
    have "session_blocks (sessions (fst st)) + op_blocks p < 2 ^ 63" using Cons.prems(4) by simp
    note step = tl_step_inv [OF Cons.prems(1) new this]
    have "set (concat (map op_ids ps)) \<inter> fst ` set (sessions (fst (tl_step p st))) = {}"
    proof -
      have "set (op_ids p) \<inter> set (concat (map op_ids ps)) = {}" using Cons.prems(2) by simp
      moreover have "set (concat (map op_ids ps)) \<inter> fst ` set (sessions (fst st)) = {}"
        using Cons.prems(3) by (simp add: Int_Un_distrib2)
      ultimately show ?thesis using step(2) by blast
    qed
    moreover have "session_blocks (sessions (fst (tl_step p st))) + sum_list (map op_blocks ps) < 2 ^ 63"
      using step(3) Cons.prems(4) by simp
    ultimately show ?case using Cons.IH [OF step(1)] Cons.prems(2) step(4) by simp
  qed simp
  from this [of "(tl_new timeout, m)"] assms show ?thesis by (simp add: tl_inv_def tl_new_def)
qed

lemma transfer_lock_accounting_witness:
  "transfer_lock_active (snd (tl_run [(1, Lock ''a'' ''n'' [(mk_key ''m'' [1], from_slots [])]),
      (2, Lock ''b'' ''n'' [(mk_key ''m'' [2], from_slots [])]), (3, Unlock ''a'')] (tl_new 10, no_metrics))) = 1"
proof -
  let ?st = "tl_run [(1, Lock ''a'' ''n'' [(mk_key ''m'' [1], from_slots [])]),
      (2, Lock ''b'' ''n'' [(mk_key ''m'' [2], from_slots [])]), (3, Unlock ''a'')] (tl_new 10, no_metrics)"
  have "session_blocks (sessions (fst ?st)) = 1"
    by (simp add: tl_run_def tl_new_def lock_blocks_def tl_release_def)
  moreover have "transfer_lock_active (snd ?st) = int (session_blocks (sessions (fst ?st)))"
    using transfer_lock_accounting [OF _ _ _ prod.collapse [symmetric],
        of "[(1, Lock ''a'' ''n'' [(mk_key ''m'' [1], from_slots [])]),
          (2, Lock ''b'' ''n'' [(mk_key ''m'' [2], from_slots [])]), (3, Unlock ''a'')]" no_metrics 10]
    by (simp add: no_metrics_def)
  ultimately show ?thesis by simp
qed

lemma gc_sessions:
  assumes "hm_wf (sessions (fst st))"
  shows "sessions (fst (snd (gc_expired now st))) =
    sweep (session_alive (lock_timeout (fst st))) now (sessions (fst st))"
  using remove_sessions_filter [of "[]" "sessions (fst st)" "session_alive (lock_timeout (fst st)) now" 0 0] assms
  by (cases st) (simp add: gc_expired_def sweep_def)

fun keeps :: "string \<Rightarrow> instant \<Rightarrow> duration \<Rightarrow> instant \<times> tl_op \<Rightarrow> bool" where
  "keeps i t timeout (now, Lock j _ _) = (j \<noteq> i)"
| "keeps i t timeout (now, Unlock j) = (j \<noteq> i)"
| "keeps i t timeout (now, Gc) = (duration_since now t \<le> timeout)"

lemma tl_step_keeps:
  assumes "hm_wf (sessions (fst st))" "hm_get (sessions (fst st)) i = Some s"
    "keeps i (ts_created_at s) (lock_timeout (fst st)) p"
  shows "hm_wf (sessions (fst (tl_step p st)))" "hm_get (sessions (fst (tl_step p st))) i = Some s"
    "lock_timeout (fst (tl_step p st)) = lock_timeout (fst st)"
proof -
  obtain mgr m where st: "st = (mgr, m)" by (cases st)
  obtain now op where p: "p = (now, op)" by (cases p)
  have "hm_wf (sessions (fst (tl_step p st))) \<and> hm_get (sessions (fst (tl_step p st))) i = Some s \<and>
    lock_timeout (fst (tl_step p st)) = lock_timeout (fst st)"
  proof (cases op)
    case Gc
    have "lock_timeout (fst (snd (gc_expired now st))) = lock_timeout (fst st)"
      by (simp add: gc_expired_def st case_prod_beta Let_def)
    with Gc assms gc_sessions [OF assms(1), of now] show ?thesis
      by (simp add: p session_expiry.wf_sweep session_expiry.get_sweep session_alive_def not_less)
  qed (use assms in \<open>simp_all add: st p lock_blocks_def tl_release_def hm_simps split: option.split\<close>)
  then show "hm_wf (sessions (fst (tl_step p st)))" "hm_get (sessions (fst (tl_step p st))) i = Some s"
    "lock_timeout (fst (tl_step p st)) = lock_timeout (fst st)"
    by simp_all
qed

text \<open>
  C28. A transfer session holds its blocks: whatever other sessions do, and whatever collections run
  within the timeout, its blocks stay referenced until it is released; releasing it
  reports exactly its blocks, once; and a collection after the timeout drops it.
\<close>

theorem transfer_lock_holds:
  assumes "hm_wf (sessions (fst st))"
    and "list_all (keeps i t (lock_timeout (fst st))) ps"
    and st': "st' = tl_run ps (snd (lock_blocks t i requester blocks st))"
  shows "hm_get (sessions (fst st')) i =
      Some \<lparr>ts_blocks = blocks, ts_created_at = t, requester_id = requester\<rparr> \<and>
    fst (tl_release i st') = length blocks \<and>
    hm_get (sessions (fst (snd (tl_release i st')))) i = None \<and>
    fst (tl_release i (snd (tl_release i st'))) = 0 \<and>
    (lock_timeout (fst st) < duration_since late t \<longrightarrow>
       hm_get (sessions (fst (snd (gc_expired late st')))) i = None)"
proof -
  let ?s = "\<lparr>ts_blocks = blocks, ts_created_at = t, requester_id = requester\<rparr>"
  have run: "hm_wf (sessions (fst (tl_run ps st0))) \<and> hm_get (sessions (fst (tl_run ps st0))) i = Some ?s \<and>
      lock_timeout (fst (tl_run ps st0)) = lock_timeout (fst st0)"
    if "hm_wf (sessions (fst st0))" "hm_get (sessions (fst st0)) i = Some ?s"
      "list_all (keeps i t (lock_timeout (fst st0))) ps" for st0
    using that unfolding tl_run_def
  proof (induction ps arbitrary: st0)
    case (Cons p ps)
    note step = tl_step_keeps [OF Cons.prems(1,2), of p]
    with Cons.prems(3) Cons.IH [of "tl_step p st0"] show ?case by simp
  qed simp
  have "hm_wf (sessions (fst st')) \<and> hm_get (sessions (fst st')) i = Some ?s \<and>
      lock_timeout (fst st') = lock_timeout (fst st)"
    using run [of "snd (lock_blocks t i requester blocks st)"] assms
    by (cases st) (simp add: lock_blocks_def hm_simps)
  then show ?thesis
    using gc_sessions [of st' late]
    by (cases st') (simp add: tl_release_def hm_simps session_expiry.get_sweep_None session_alive_def)
qed

lemma transfer_lock_holds_witness:
  "fst (tl_release ''a'' (tl_run [(5, Gc), (6, Unlock ''b''), (11, Gc)]
     (snd (lock_blocks 1 ''a'' ''n'' [(mk_key ''m'' [1], from_slots [])] (tl_new 10, no_metrics))))) = 1"
  using transfer_lock_holds [of "(tl_new 10, no_metrics)" "''a''" 1 "[(5, Gc), (6, Unlock ''b''), (11, Gc)]" _
      "''n''" "[(mk_key ''m'' [1], from_slots [])]", OF _ _ refl]
  by (simp add: tl_new_def duration_since_def)

end
