(* ===== verification/Prefetch.thy ===== *)
theory Prefetch
  imports Read_Cache Ssd_Store Transfer_Lock
begin

text \<open>
  The prefetch scheduler of \<^verbatim>\<open>pegaflow-core/src/storage/prefetch.rs\<close>. A query scans the read cache
  for the longest resident prefix and, when keys remain, spawns a task that fetches them from a
  remote node or from the SSD; later queries of the same request poll that task. Spawned tasks
  are part of the state, each with its program point, so that queries, the awaits of the tasks and the
  garbage collection interleave in any order. The answers of the remote node are a
  parameter of the steps.
\<close>

section \<open>Data\<close>

datatype prefetch_source = SourceSsd | SourceRdma

fun as_attribution :: "prefetch_source \<Rightarrow> attribution_source" where
  "as_attribution SourceSsd = Ssd"
| "as_attribution SourceRdma = Rdma"

type_synonym prefetch_result = "(block_key \<times> sealed_block) list"

record prefetch_task_result =
  tr_source :: "prefetch_source option"
  tr_found :: usize
  tr_cache_inserts :: prefetch_result
  tr_ready_blocks :: "sealed_block list"
  tr_missing :: usize

record prefetch_task_input =
  ti_req_id :: string
  ti_namespace :: string
  ti_remaining_keys :: "block_key list"
  ti_prefix_blocks :: "sealed_block list"
  ti_total :: usize
  ti_hit :: usize
  ti_emit_tier_metrics :: bool

datatype prefetch_status = Loading | Ready "sealed_block list" usize

datatype poll_result = NoActivePrefetch | StillLoading | PollReady prefetch_status

record prefetch_entry =
  pe_handle :: nat
  pe_started_at :: instant

record prefetch_state =
  active :: "(string, prefetch_entry) hmap"
  reserved_ssd_prefetch_blocks :: usize
  failed_remote :: "(string, instant) hmap"

record prefetch_config =
  cfg_rdma :: bool
  cfg_ssd :: bool
  max_prefetch_blocks :: usize

text \<open>
  The program points of a task: about to ask the remote node (or not), about to look at the SSD,
  awaiting its reads with a reservation, finished with a result, or finished by a panic.
\<close>

datatype task_pc =
    AskRemote prefetch_task_input
  | AskSsd prefetch_task_input
  | Reading prefetch_task_input usize
  | Finished prefetch_task_input prefetch_task_result
  | Panicked prefetch_task_input

record 'l prefetch_sys =
  sy_state :: prefetch_state
  sy_tasks :: "(nat, task_pc) hmap"
  sy_next :: nat
  sy_cache :: "'l read_cache"
  sy_metrics :: core_metrics

definition prefetch_new :: "'l read_cache \<Rightarrow> core_metrics \<Rightarrow> 'l prefetch_sys" where
  "prefetch_new c m =
     \<lparr>sy_state = \<lparr>active = [], reserved_ssd_prefetch_blocks = 0, failed_remote = []\<rparr>,
      sy_tasks = [], sy_next = 0, sy_cache = c, sy_metrics = m\<rparr>"

section \<open>Attribution and reservations\<close>

definition record_prefetch_attribution ::
    "usize \<Rightarrow> usize \<Rightarrow> usize \<Rightarrow> attribution_source option \<Rightarrow> bool \<Rightarrow> core_metrics \<Rightarrow> core_metrics option" where
  "record_prefetch_attribution total_blocks hit loading source emit m =
     (if \<not> emit \<or> total_blocks = 0 then Some m
      else map_option (\<lambda>a. record_tier_attribution a m) (classify total_blocks hit loading source))"

definition reserve_ssd_prefetch_slots ::
    "usize \<Rightarrow> usize \<Rightarrow> prefetch_state \<Rightarrow> core_metrics \<Rightarrow> usize option \<times> prefetch_state \<times> core_metrics" where
  "reserve_ssd_prefetch_slots max_blocks requested st m =
     (let available = saturating_sub max_blocks (reserved_ssd_prefetch_blocks st)
      in if available = 0
         then (None, st, m\<lparr>ssd_prefetch_backpressure_blocks :=
                 ssd_prefetch_backpressure_blocks m + requested\<rparr>)
         else
           let reserved = min requested available; skipped = requested - reserved
           in (Some reserved,
               st\<lparr>reserved_ssd_prefetch_blocks := reserved_ssd_prefetch_blocks st + reserved\<rparr>,
               if 0 < skipped
               then m\<lparr>ssd_prefetch_backpressure_blocks := ssd_prefetch_backpressure_blocks m + skipped\<rparr>
               else m))"

definition drop_reservation :: "usize \<Rightarrow> prefetch_state \<Rightarrow> prefetch_state" where
  "drop_reservation blocks st =
     st\<lparr>reserved_ssd_prefetch_blocks := saturating_sub (reserved_ssd_prefetch_blocks st) blocks\<rparr>"

definition build_ready_result ::
    "sealed_block list \<Rightarrow> usize \<Rightarrow> prefetch_source option \<Rightarrow> usize \<Rightarrow> block_key list \<Rightarrow> prefetch_result \<Rightarrow>
     prefetch_task_result" where
  "build_ready_result prefix_blocks total_blocks source found requested_keys cache_inserts =
     (let inserts_by_key = foldl (\<lambda>m (k, b). hm_insert k b m) [] cache_inserts;
          ready_blocks = prefix_blocks @ map_while (hm_get inserts_by_key) requested_keys
      in \<lparr>tr_source = source, tr_found = found, tr_cache_inserts = cache_inserts,
          tr_ready_blocks = ready_blocks,
          tr_missing = saturating_sub total_blocks (length ready_blocks)\<rparr>)"

section \<open>The stages of a task\<close>

text \<open>Recording the decision, then building the result; a panic ends the task.\<close>

definition finish_task ::
    "prefetch_task_input \<Rightarrow> prefetch_source option \<Rightarrow> usize \<Rightarrow> prefetch_result \<Rightarrow> core_metrics \<Rightarrow>
     task_pc \<times> core_metrics" where
  "finish_task i source found blocks m =
     (case record_prefetch_attribution (ti_total i) (ti_hit i) found (map_option as_attribution source)
             (ti_emit_tier_metrics i) m of
        None \<Rightarrow> (Panicked i, m)
      | Some m' \<Rightarrow>
          if length (ti_remaining_keys i) < found then (Panicked i, m')
          else (Finished i (build_ready_result (ti_prefix_blocks i) (ti_total i) source found
                  (take found (ti_remaining_keys i)) blocks), m'))"

definition task_remote ::
    "(usize \<times> prefetch_result) option \<Rightarrow> prefetch_task_input \<Rightarrow> core_metrics \<Rightarrow> task_pc \<times> core_metrics" where
  "task_remote answer i m =
     (case answer of
        Some (found, blocks) \<Rightarrow> finish_task i (Some SourceRdma) found blocks m
      | None \<Rightarrow> (AskSsd i, m))"

definition task_ssd ::
    "prefetch_config \<Rightarrow> ssd_ring_buffer option \<Rightarrow> prefetch_task_input \<Rightarrow> prefetch_state \<Rightarrow> core_metrics \<Rightarrow>
     task_pc \<times> prefetch_state \<times> core_metrics" where
  "task_ssd cfg store i st m =
     (case store of
        None \<Rightarrow> (let (pc, m') = finish_task i None 0 [] m in (pc, st, m'))
      | Some r \<Rightarrow>
          let found = prefix_len r (ti_remaining_keys i)
          in if found = 0 then (let (pc, m') = finish_task i None 0 [] m in (pc, st, m'))
             else case reserve_ssd_prefetch_slots (max_prefetch_blocks cfg) found st m of
                 (None, st1, m1) \<Rightarrow> (let (pc, m') = finish_task i None 0 [] m1 in (pc, st1, m'))
               | (Some reserved, st1, m1) \<Rightarrow> (Reading i reserved, st1, m1))"

text \<open>
  The reads: \<open>found\<close> and the blocks are what \<open>prefetch_prefix\<close> returns for the reserved keys. The
  reservation is given back when the task leaves this block.
\<close>

definition task_read ::
    "usize \<times> prefetch_result \<Rightarrow> prefetch_task_input \<Rightarrow> usize \<Rightarrow> prefetch_state \<Rightarrow> core_metrics \<Rightarrow>
     task_pc \<times> prefetch_state \<times> core_metrics" where
  "task_read answer i reserved st m =
     (let (found, blocks) = answer;
          (pc, m') = (if 0 < found then finish_task i (Some SourceSsd) found blocks m
                      else finish_task i None 0 [] m)
      in (pc, drop_reservation reserved st, m'))"

section \<open>The scheduler\<close>

definition start_prefetch_task ::
    "prefetch_config \<Rightarrow> instant \<Rightarrow> prefetch_task_input \<Rightarrow> 'l prefetch_sys \<Rightarrow> bool \<times> 'l prefetch_sys" where
  "start_prefetch_task cfg now i s =
     (if ti_remaining_keys i = [] then (False, s)
      else if hm_contains (active (sy_state s)) (ti_req_id i) then (True, s)
      else
        let rdma_fetch = (cfg_rdma cfg \<and> \<not> hm_contains (failed_remote (sy_state s)) (ti_req_id i))
        in if \<not> rdma_fetch \<and> \<not> cfg_ssd cfg then (False, s)
           else (True,
             s\<lparr>sy_tasks := hm_insert (sy_next s) (if rdma_fetch then AskRemote i else AskSsd i) (sy_tasks s),
               sy_next := sy_next s + 1,
               sy_state := (sy_state s)\<lparr>active := hm_insert (ti_req_id i)
                 \<lparr>pe_handle = sy_next s, pe_started_at = now\<rparr> (active (sy_state s))\<rparr>\<rparr>))"

definition full_prefix_scan ::
    "'l block_lru \<Rightarrow> prefetch_config \<Rightarrow> instant \<Rightarrow> string \<Rightarrow> string \<Rightarrow> byte list list \<Rightarrow> 'l prefetch_sys \<Rightarrow>
     (prefetch_status \<times> 'l prefetch_sys) option" where
  "full_prefix_scan ops cfg now req_id ns hashes s =
     (let keys = map (mk_key ns) hashes;
          ((hit, prefix_blocks), c) = get_prefix_blocks ops keys (sy_cache s);
          s1 = s\<lparr>sy_cache := c\<rparr>;
          i = \<lparr>ti_req_id = req_id, ti_namespace = ns, ti_remaining_keys = drop hit keys,
               ti_prefix_blocks = prefix_blocks, ti_total = length keys, ti_hit = hit,
               ti_emit_tier_metrics = True\<rparr>;
          (task_started, s2) = start_prefetch_task cfg now i s1
      in if task_started then Some (Loading, s2)
         else map_option (\<lambda>m. (Ready prefix_blocks (length keys - hit), s2\<lparr>sy_metrics := m\<rparr>))
                (record_prefetch_attribution (length keys) hit 0 None True (sy_metrics s2)))"

definition remote_fell_short :: "prefetch_task_result \<Rightarrow> bool" where
  "remote_fell_short r =
     (tr_source r = Some SourceRdma \<and> length (tr_cache_inserts r) < tr_found r \<and> 0 < tr_found r)"

definition join_failed_result :: prefetch_task_result where
  "join_failed_result = \<lparr>tr_source = None, tr_found = 0, tr_cache_inserts = [], tr_ready_blocks = [],
     tr_missing = 0\<rparr>"

text \<open>The result of awaiting a finished task; \<open>None\<close> while it runs.\<close>

fun joined :: "task_pc \<Rightarrow> prefetch_task_result option" where
  "joined (Finished _ r) = Some r"
| "joined (Panicked _) = Some join_failed_result"
| "joined _ = None"

definition poll_existing ::
    "'l block_lru \<Rightarrow> instant \<Rightarrow> string \<Rightarrow> 'l prefetch_sys \<Rightarrow> poll_result \<times> 'l prefetch_sys" where
  "poll_existing ops now req_id s =
     (case hm_get (active (sy_state s)) req_id of
        None \<Rightarrow> (NoActivePrefetch, s)
      | Some e \<Rightarrow>
          (case Option.bind (hm_get (sy_tasks s) (pe_handle e)) joined of
             None \<Rightarrow> (StillLoading, s)
           | Some r \<Rightarrow>
               let st1 = (sy_state s)\<lparr>active := hm_remove req_id (active (sy_state s))\<rparr>;
                   st2 = (if remote_fell_short r
                          then st1\<lparr>failed_remote := hm_insert req_id now (failed_remote st1)\<rparr> else st1);
                   (c, m) = batch_insert ops (tr_cache_inserts r) (sy_cache s, sy_metrics s)
               in (PollReady (Ready (tr_ready_blocks r) (tr_missing r)),
                   s\<lparr>sy_state := st2, sy_cache := c, sy_metrics := m\<rparr>)))"

definition check_and_prefetch ::
    "'l block_lru \<Rightarrow> prefetch_config \<Rightarrow> instant \<Rightarrow> string \<Rightarrow> string \<Rightarrow> byte list list \<Rightarrow> 'l prefetch_sys \<Rightarrow>
     (prefetch_status \<times> 'l prefetch_sys) option" where
  "check_and_prefetch ops cfg now req_id ns hashes s =
     (case poll_existing ops now req_id s of
        (NoActivePrefetch, s1) \<Rightarrow> full_prefix_scan ops cfg now req_id ns hashes s1
      | (StillLoading, s1) \<Rightarrow> Some (Loading, s1)
      | (PollReady status, s1) \<Rightarrow> Some (status, s1))"

definition entry_fresh :: "duration \<Rightarrow> instant \<Rightarrow> prefetch_entry \<Rightarrow> bool" where
  "entry_fresh max_age now e = (duration_since now (pe_started_at e) < max_age)"

definition failure_fresh :: "duration \<Rightarrow> instant \<Rightarrow> instant \<Rightarrow> bool" where
  "failure_fresh max_age now t = (duration_since now t < max_age)"

definition gc_stale_entries ::
    "duration \<Rightarrow> duration \<Rightarrow> instant \<Rightarrow> 'l prefetch_sys \<Rightarrow> (usize \<times> usize) \<times> 'l prefetch_sys" where
  "gc_stale_entries active_max_age failed_max_age now s =
     (let st = sy_state s;
          act = sweep (entry_fresh active_max_age) now (active st);
          failed = sweep (failure_fresh failed_max_age) now (failed_remote st)
      in ((length (active st) - length act, length (failed_remote st) - length failed),
          s\<lparr>sy_state := st\<lparr>active := act, failed_remote := failed\<rparr>\<rparr>))"

section \<open>Interleaved runs\<close>

text \<open>What a remote node may answer: no more blocks promised than keys asked for.\<close>

definition answer_ok :: "prefetch_task_input \<Rightarrow> (usize \<times> prefetch_result) option \<Rightarrow> bool" where
  "answer_ok i answer =
     (case answer of None \<Rightarrow> True | Some (found, _) \<Rightarrow> found \<le> length (ti_remaining_keys i))"

definition set_task ::
    "nat \<Rightarrow> task_pc \<times> prefetch_state \<times> core_metrics \<Rightarrow> 'l prefetch_sys \<Rightarrow> 'l prefetch_sys" where
  "set_task h res s =
     (let (pc, st, m) = res
      in s\<lparr>sy_tasks := hm_insert h pc (sy_tasks s), sy_state := st, sy_metrics := m\<rparr>)"

inductive prefetch_step ::
    "'l block_lru \<Rightarrow> prefetch_config \<Rightarrow> 'l prefetch_sys \<Rightarrow> 'l prefetch_sys \<Rightarrow> bool" for ops cfg where
  query: "length hashes \<le> u64_max \<Longrightarrow>
     check_and_prefetch ops cfg now req_id ns hashes s = Some (status, s') \<Longrightarrow>
     prefetch_step ops cfg s s'"
| remote: "hm_get (sy_tasks s) h = Some (AskRemote i) \<Longrightarrow> answer_ok i answer \<Longrightarrow>
     prefetch_step ops cfg s
       (let (pc, m) = task_remote answer i (sy_metrics s) in set_task h (pc, sy_state s, m) s)"
| ssd: "hm_get (sy_tasks s) h = Some (AskSsd i) \<Longrightarrow> (store = None \<longleftrightarrow> \<not> cfg_ssd cfg) \<Longrightarrow>
     prefetch_step ops cfg s (set_task h (task_ssd cfg store i (sy_state s) (sy_metrics s)) s)"
| read: "hm_get (sy_tasks s) h = Some (Reading i reserved) \<Longrightarrow>
     submit_prefix r full (take reserved (ti_remaining_keys i)) = (found, sub) \<Longrightarrow>
     prefetch_step ops cfg s
       (set_task h (task_read (prefetch_prefix found done_rx) i reserved (sy_state s) (sy_metrics s)) s)"
| gc: "prefetch_step ops cfg s (snd (gc_stale_entries active_max_age failed_max_age now s))"

abbreviation prefetch_reach ::
    "'l block_lru \<Rightarrow> prefetch_config \<Rightarrow> 'l prefetch_sys \<Rightarrow> 'l prefetch_sys \<Rightarrow> bool" where
  "prefetch_reach ops cfg \<equiv> (prefetch_step ops cfg)\<^sup>*\<^sup>*"
section \<open>Results\<close>

text \<open>The prefix the task started with, then the delivered blocks up to the first key found but not delivered.\<close>

definition result_ok :: "prefetch_task_input \<Rightarrow> prefetch_task_result \<Rightarrow> bool" where
  "result_ok i r \<longleftrightarrow>
     tr_found r \<le> length (ti_remaining_keys i) \<and>
     tr_ready_blocks r = ti_prefix_blocks i
       @ map_while (map_of (rev (tr_cache_inserts r))) (take (tr_found r) (ti_remaining_keys i)) \<and>
     length (tr_ready_blocks r) + tr_missing r = ti_total i"

definition input_ok :: "prefetch_task_input \<Rightarrow> bool" where
  "input_ok i \<longleftrightarrow> ti_hit i = length (ti_prefix_blocks i) \<and>
     ti_total i = ti_hit i + length (ti_remaining_keys i) \<and> ti_total i \<le> u64_max"

lemma inserts_by_key_get:
  "hm_get (foldl (\<lambda>m (k, b). hm_insert k b m) m0 kvs) k =
     (case map_of (rev kvs) k of None \<Rightarrow> hm_get m0 k | Some b \<Rightarrow> Some b)"
proof (induction kvs arbitrary: m0)
  case (Cons kv kvs)
  obtain k' b where kv: "kv = (k', b)" by (cases kv)
  show ?case
    using Cons.IH [of "hm_insert k' b m0"]
    by (auto simp: kv hm_simps map_add_def split: option.split)
qed simp

lemma build_ready_ok:
  assumes "input_ok i" "found \<le> length (ti_remaining_keys i)"
  shows "result_ok i (build_ready_result (ti_prefix_blocks i) (ti_total i) source found
    (take found (ti_remaining_keys i)) blocks)"
proof -
  let ?f = "hm_get (foldl (\<lambda>m (k, b). hm_insert k b m) [] blocks)"
  have f: "?f = map_of (rev blocks)" by (rule ext) (simp add: inserts_by_key_get split: option.split)
  have "length (map_while ?f (take found (ti_remaining_keys i))) \<le> found"
    using map_while_length [of ?f "take found (ti_remaining_keys i)"] by simp
  with assms show ?thesis
    by (simp add: result_ok_def build_ready_result_def f input_ok_def saturating_sub_def)
qed

definition pc_ok :: "task_pc \<Rightarrow> bool" where
  "pc_ok pc \<longleftrightarrow> (case pc of
       AskRemote i \<Rightarrow> input_ok i
     | AskSsd i \<Rightarrow> input_ok i
     | Reading i n \<Rightarrow> input_ok i \<and> n \<le> length (ti_remaining_keys i)
     | Finished i r \<Rightarrow> input_ok i \<and> result_ok i r
     | Panicked i \<Rightarrow> False)"

fun pc_input :: "task_pc \<Rightarrow> prefetch_task_input" where
  "pc_input (AskRemote i) = i"
| "pc_input (AskSsd i) = i"
| "pc_input (Reading i _) = i"
| "pc_input (Finished i _) = i"
| "pc_input (Panicked i) = i"

fun pc_reserved :: "task_pc \<Rightarrow> usize" where
  "pc_reserved (Reading _ n) = n"
| "pc_reserved _ = 0"

lemma finish_task_ok:
  assumes "input_ok i" "found \<le> length (ti_remaining_keys i)" "source = None \<longrightarrow> found = 0"
  shows "\<exists>r m'. finish_task i source found blocks m = (Finished i r, m') \<and> result_ok i r"
proof -
  have "ti_hit i + found \<le> ti_total i" "ti_total i \<le> u64_max" using assms by (auto simp: input_ok_def)
  moreover have "map_option as_attribution source = None \<longrightarrow> found = 0" using assms(3) by simp
  ultimately obtain a where
    "classify (ti_total i) (ti_hit i) found (map_option as_attribution source) = Some a"
    using classify_sum by blast
  with assms build_ready_ok [OF assms(1,2)] show ?thesis
    by (auto simp: finish_task_def record_prefetch_attribution_def)
qed

section \<open>The invariant\<close>

definition reading_blocks :: "(nat, task_pc) hmap \<Rightarrow> nat" where
  "reading_blocks ts = sum_list (map (\<lambda>(_, pc). pc_reserved pc) ts)"

lemma reading_blocks_update:
  "hm_wf ts \<Longrightarrow> hm_get ts h = Some pc \<Longrightarrow>
     reading_blocks (hm_insert h pc' ts) + pc_reserved pc = reading_blocks ts + pc_reserved pc'"
  unfolding reading_blocks_def by (induction ts) (auto split: if_splits)

lemma reading_blocks_new:
  "h \<notin> fst ` set ts \<Longrightarrow> reading_blocks (hm_insert h pc ts) = reading_blocks ts + pc_reserved pc"
  by (simp add: hm_insert_absent reading_blocks_def)

definition sys_inv :: "('l \<Rightarrow> bool) \<Rightarrow> prefetch_config \<Rightarrow> 'l prefetch_sys \<Rightarrow> bool" where
  "sys_inv I cfg s \<longleftrightarrow>
     I (lru (sy_cache s)) \<and>
     hm_wf (sy_tasks s) \<and> (\<forall>h \<in> fst ` set (sy_tasks s). h < sy_next s) \<and>
     list_all (\<lambda>(_, pc). pc_ok pc) (sy_tasks s) \<and>
     hm_wf (active (sy_state s)) \<and>
     (\<forall>req e. hm_get (active (sy_state s)) req = Some e \<longrightarrow>
        (\<exists>pc. hm_get (sy_tasks s) (pe_handle e) = Some pc \<and> ti_req_id (pc_input pc) = req)) \<and>
     reserved_ssd_prefetch_blocks (sy_state s) = reading_blocks (sy_tasks s) \<and>
     reserved_ssd_prefetch_blocks (sy_state s) \<le> max_prefetch_blocks cfg"

lemma sys_inv_pc: "sys_inv I cfg s \<Longrightarrow> hm_get (sy_tasks s) h = Some pc \<Longrightarrow> pc_ok pc"
  by (auto simp: sys_inv_def list_all_iff dest!: map_of_SomeD)

text \<open>Replacing one task's program point.\<close>

lemma set_task_inv:
  assumes inv: "sys_inv I cfg s" and h: "hm_get (sy_tasks s) h = Some pc"
    and pc': "pc_ok pc'" "pc_input pc' = pc_input pc"
    and st: "active st = active (sy_state s)"
      "reserved_ssd_prefetch_blocks st + pc_reserved pc =
         reserved_ssd_prefetch_blocks (sy_state s) + pc_reserved pc'"
      "reserved_ssd_prefetch_blocks st \<le> max_prefetch_blocks cfg"
  shows "sys_inv I cfg (set_task h (pc', st, m) s)"
proof -
  have wf: "hm_wf (sy_tasks s)" using inv by (simp add: sys_inv_def)
  have "reserved_ssd_prefetch_blocks st = reading_blocks (hm_insert h pc' (sy_tasks s))"
    using reading_blocks_update [OF wf h, of pc'] st(2) inv by (simp add: sys_inv_def)
  moreover have "h < sy_next s"
    using inv map_of_SomeD [OF h] unfolding sys_inv_def by (metis fst_conv image_eqI)
  moreover have "list_all (\<lambda>(_, pc). pc_ok pc) (hm_insert h pc' (sy_tasks s))"
    using inv pc'(1) by (intro list_all_hm_insert) (simp_all add: sys_inv_def)
  moreover have "\<exists>pc''. hm_get (hm_insert h pc' (sy_tasks s)) (pe_handle e) = Some pc'' \<and>
      ti_req_id (pc_input pc'') = req" if "hm_get (active (sy_state s)) req = Some e" for req e
  proof -
    obtain pc'' where "hm_get (sy_tasks s) (pe_handle e) = Some pc''" "ti_req_id (pc_input pc'') = req"
      using inv \<open>hm_get (active (sy_state s)) req = Some e\<close> unfolding sys_inv_def by blast
    with h pc'(2) show ?thesis by (auto simp: hm_simps)
  qed
  ultimately show ?thesis
    using inv st(1,3) by (simp add: sys_inv_def set_task_def dom_update)
qed
section \<open>Every step keeps the invariant\<close>

lemma sys_invD:
  assumes "sys_inv I cfg s"
  shows "I (lru (sy_cache s))" "hm_wf (sy_tasks s)" "hm_wf (active (sy_state s))"
    "\<And>h. h \<in> fst ` set (sy_tasks s) \<Longrightarrow> h < sy_next s"
    "\<And>req e. hm_get (active (sy_state s)) req = Some e \<Longrightarrow>
       \<exists>pc. hm_get (sy_tasks s) (pe_handle e) = Some pc \<and> ti_req_id (pc_input pc) = req"
  using assms unfolding sys_inv_def by blast+

lemma start_prefetch_task_inv:
  assumes inv: "sys_inv I cfg s" and i: "input_ok i"
    and start: "start_prefetch_task cfg now i s = (started, s')"
  shows "sys_inv I cfg s'" "sy_cache s' = sy_cache s" "sy_metrics s' = sy_metrics s"
proof -
  let ?e = "\<lparr>pe_handle = sy_next s, pe_started_at = now\<rparr>"
  have new: "sys_inv I cfg (s\<lparr>sy_tasks := hm_insert (sy_next s) pc (sy_tasks s), sy_next := sy_next s + 1,
      sy_state := (sy_state s)\<lparr>active := hm_insert (ti_req_id i) ?e (active (sy_state s))\<rparr>\<rparr>)"
    if pc: "pc_ok pc" "pc_input pc = i" "pc_reserved pc = 0" for pc
  proof -
    have fresh: "sy_next s \<notin> fst ` set (sy_tasks s)" using sys_invD(4) [OF inv] by blast
    have "list_all (\<lambda>(_, pc). pc_ok pc) (hm_insert (sy_next s) pc (sy_tasks s))"
      using inv pc(1) by (intro list_all_hm_insert) (simp_all add: sys_inv_def)
    moreover have "\<forall>h \<in> fst ` set (hm_insert (sy_next s) pc (sy_tasks s)). h < sy_next s + 1"
      using sys_invD(4) [OF inv] unfolding dom_update by (auto simp: less_Suc_eq)
    moreover have "\<exists>pc'. hm_get (hm_insert (sy_next s) pc (sy_tasks s)) (pe_handle e) = Some pc' \<and>
        ti_req_id (pc_input pc') = req"
      if e: "hm_get (hm_insert (ti_req_id i) ?e (active (sy_state s))) req = Some e" for req e
    proof (cases "req = ti_req_id i")
      case True
      with e pc(2) show ?thesis by (auto simp: hm_simps)
    next
      case False
      with e have "hm_get (active (sy_state s)) req = Some e" by (simp add: hm_simps)
      from sys_invD(5) [OF inv this] obtain pc' where
        pc': "hm_get (sy_tasks s) (pe_handle e) = Some pc'" "ti_req_id (pc_input pc') = req" by blast
      then have "pe_handle e \<noteq> sy_next s" using fresh map_of_SomeD [OF pc'(1)] by (auto simp: image_iff)
      with pc' show ?thesis by (simp add: hm_simps)
    qed
    ultimately show ?thesis
      using inv reading_blocks_new [OF fresh, of pc] pc(3)
      by (simp add: sys_inv_def)
  qed
  have "pc_ok (AskRemote i)" "pc_ok (AskSsd i)" using i by (simp_all add: pc_ok_def)
  from new [OF this(1)] new [OF this(2)] show "sys_inv I cfg s'"
    using start inv
    by (auto simp: start_prefetch_task_def Let_def split: if_splits)
  show "sy_cache s' = sy_cache s" "sy_metrics s' = sy_metrics s"
    using start by (auto simp: start_prefetch_task_def Let_def split: if_splits)
qed

lemma sys_inv_frame:
  assumes "sys_inv I cfg s" "I (lru c)"
  shows "sys_inv I cfg (s\<lparr>sy_cache := c\<rparr>)" "sys_inv I cfg (s\<lparr>sy_metrics := m\<rparr>)"
  using assms by (simp_all add: sys_inv_def)

text \<open>Dropping entries of the active table.\<close>

lemma sys_inv_active:
  assumes "sys_inv I cfg s" "I (lru c)" "hm_wf (active st)"
    and "\<And>req e. hm_get (active st) req = Some e \<Longrightarrow> hm_get (active (sy_state s)) req = Some e"
    and "reserved_ssd_prefetch_blocks st = reserved_ssd_prefetch_blocks (sy_state s)"
  shows "sys_inv I cfg (s\<lparr>sy_state := st, sy_cache := c, sy_metrics := m\<rparr>)"
  using assms unfolding sys_inv_def by simp

text \<open>A scan never panics; it answers with the longest resident prefix or starts a task for the rest.\<close>

lemma full_prefix_scan_ok:
  assumes lru: "block_lru_map ops I" and inv: "sys_inv I cfg s" and len: "length hashes \<le> u64_max"
  shows "\<exists>status s'. full_prefix_scan ops cfg now req_id ns hashes s = Some (status, s') \<and>
    sys_inv I cfg s' \<and>
    (\<forall>bs missing. status = Ready bs missing \<longrightarrow>
       bs = map_while (map_of (resident ops (sy_cache s))) (map (mk_key ns) hashes) \<and>
       length bs + missing = length hashes)"
proof -
  define keys where "keys = map (mk_key ns) hashes"
  define bs where "bs = map_while (map_of (resident ops (sy_cache s))) keys"
  obtain h bs' c where scan: "get_prefix_blocks ops keys (sy_cache s) = ((h, bs'), c)"
    by (metis prod.collapse)
  from block_lru_map.get_prefix_loop_spec [OF lru sys_invD(1) [OF inv] scan [unfolded get_prefix_blocks_def]]
  have spec: "bs' = bs" "h = length bs" "I (lru c)" by (simp_all add: bs_def)
  have le: "length bs \<le> length hashes" using map_while_length [of "map_of (resident ops (sy_cache s))" keys] by (simp add: bs_def keys_def)
  define i where "i = \<lparr>ti_req_id = req_id, ti_namespace = ns, ti_remaining_keys = drop h keys,
     ti_prefix_blocks = bs', ti_total = length keys, ti_hit = h, ti_emit_tier_metrics = True\<rparr>"
  have "input_ok i" using spec le len by (simp add: input_ok_def i_def keys_def)
  obtain started s2 where start: "start_prefetch_task cfg now i (s\<lparr>sy_cache := c\<rparr>) = (started, s2)"
    by (cases "start_prefetch_task cfg now i (s\<lparr>sy_cache := c\<rparr>)")
  note s2 = start_prefetch_task_inv [OF sys_inv_frame(1) [OF inv spec(3)] \<open>input_ok i\<close> start]
  have inv3: "sys_inv I cfg (s2\<lparr>sy_metrics := m\<rparr>)" for m using s2(1) by (simp add: sys_inv_def)
  have "length bs + 0 \<le> length hashes" using le by simp
  from classify_sum [OF this len, of None] obtain a where "classify (length hashes) (length bs) 0 None = Some a"
    by blast
  then obtain m where m: "record_prefetch_attribution (length keys) h 0 None True (sy_metrics s2) = Some m"
    using spec by (cases "hashes = []") (simp_all add: record_prefetch_attribution_def keys_def)
  have run: "full_prefix_scan ops cfg now req_id ns hashes s =
      (if started then Some (Loading, s2) else Some (Ready bs' (length keys - h), s2\<lparr>sy_metrics := m\<rparr>))"
    unfolding full_prefix_scan_def Let_def keys_def [symmetric] scan prod.case i_def [symmetric] start m
    by simp
  show ?thesis
    unfolding run using s2(1) inv3 spec le by (simp add: keys_def [symmetric] bs_def [symmetric]) (simp add: keys_def)
qed

lemma poll_existing_inv:
  assumes lru: "block_lru_map ops I" and inv: "sys_inv I cfg s"
    and poll: "poll_existing ops now req_id s = (res, s')"
  shows "sys_inv I cfg s'"
proof (cases "hm_get (active (sy_state s)) req_id")
  case None
  with poll inv show ?thesis by (simp add: poll_existing_def)
next
  case (Some e)
  show ?thesis
  proof (cases "Option.bind (hm_get (sy_tasks s) (pe_handle e)) joined")
    case None
    with poll inv Some show ?thesis by (simp add: poll_existing_def)
  next
    case (Some r)
    obtain c m where ins: "batch_insert ops (tr_cache_inserts r) (sy_cache s, sy_metrics s) = (c, m)"
      by (cases "batch_insert ops (tr_cache_inserts r) (sy_cache s, sy_metrics s)")
    from block_lru_map.batch_insert_spec [OF lru sys_invD(1) [OF inv] ins] have c: "I (lru c)" by blast
    define st where "st = (let st1 = (sy_state s)\<lparr>active := hm_remove req_id (active (sy_state s))\<rparr>
      in if remote_fell_short r then st1\<lparr>failed_remote := hm_insert req_id now (failed_remote st1)\<rparr> else st1)"
    have "active st = hm_remove req_id (active (sy_state s))"
      "reserved_ssd_prefetch_blocks st = reserved_ssd_prefetch_blocks (sy_state s)"
      by (simp_all add: st_def Let_def)
    then have "sys_inv I cfg (s\<lparr>sy_state := st, sy_cache := c, sy_metrics := m\<rparr>)"
      using c sys_invD(3) [OF inv] by (intro sys_inv_active [OF inv]) (auto simp: hm_simps split: if_splits)
    moreover have "s' = s\<lparr>sy_state := st, sy_cache := c, sy_metrics := m\<rparr>"
      using poll \<open>hm_get (active (sy_state s)) req_id = Some e\<close> Some ins
      by (simp add: poll_existing_def st_def Let_def)
    ultimately show ?thesis by simp
  qed
qed
lemma reserve_spec:
  assumes "reserve_ssd_prefetch_slots mx requested st m = (res, st', m')"
    "reserved_ssd_prefetch_blocks st \<le> mx"
  shows "active st' = active st" "reserved_ssd_prefetch_blocks st' \<le> mx"
    "reserved_ssd_prefetch_blocks st' = reserved_ssd_prefetch_blocks st + (case res of None \<Rightarrow> 0 | Some n \<Rightarrow> n)"
    "\<And>n. res = Some n \<Longrightarrow> n \<le> requested"
  using assms
  by (auto simp: reserve_ssd_prefetch_slots_def saturating_sub_def Let_def split: if_splits)

lemma task_remote_inv:
  assumes inv: "sys_inv I cfg s" and h: "hm_get (sy_tasks s) h = Some (AskRemote i)" and ans: "answer_ok i answer"
  shows "sys_inv I cfg (let (pc, m) = task_remote answer i (sy_metrics s) in set_task h (pc, sy_state s, m) s)"
proof -
  have i: "input_ok i" using sys_inv_pc [OF inv h] by (simp add: pc_ok_def)
  have bound: "reserved_ssd_prefetch_blocks (sy_state s) \<le> max_prefetch_blocks cfg"
    using inv by (simp add: sys_inv_def)
  show ?thesis
  proof (cases answer)
    case None
    with i bound show ?thesis
      by (simp add: task_remote_def set_task_inv [OF inv h] pc_ok_def)
  next
    case (Some a)
    obtain found blocks where a: "a = (found, blocks)" by (cases a)
    with Some ans have "found \<le> length (ti_remaining_keys i)" by (simp add: answer_ok_def)
    from finish_task_ok [OF i this, of "Some SourceRdma" blocks "sy_metrics s"] obtain r m' where
      "finish_task i (Some SourceRdma) found blocks (sy_metrics s) = (Finished i r, m')" "result_ok i r" by auto
    with i bound Some a show ?thesis
      by (simp add: task_remote_def set_task_inv [OF inv h] pc_ok_def)
  qed
qed

lemma task_ssd_inv:
  assumes inv: "sys_inv I cfg s" and h: "hm_get (sy_tasks s) h = Some (AskSsd i)"
  shows "sys_inv I cfg (set_task h (task_ssd cfg store i (sy_state s) (sy_metrics s)) s)"
proof -
  have i: "input_ok i" using sys_inv_pc [OF inv h] by (simp add: pc_ok_def)
  have bound: "reserved_ssd_prefetch_blocks (sy_state s) \<le> max_prefetch_blocks cfg"
    using inv by (simp add: sys_inv_def)
  have none: "sys_inv I cfg (set_task h (let (pc, m') = finish_task i None 0 [] m in (pc, st, m')) s)"
    if "active st = active (sy_state s)"
      "reserved_ssd_prefetch_blocks st = reserved_ssd_prefetch_blocks (sy_state s)" for st m
  proof -
    from finish_task_ok [OF i, of 0 None "[]" m] obtain r m' where
      "finish_task i None 0 [] m = (Finished i r, m')" "result_ok i r" by auto
    with that i bound show ?thesis by (simp add: set_task_inv [OF inv h] pc_ok_def)
  qed
  show ?thesis
  proof (cases store)
    case None
    then show ?thesis using none [OF refl refl] by (simp add: task_ssd_def)
  next
    case (Some r)
    define found where "found = prefix_len r (ti_remaining_keys i)"
    have found: "found \<le> length (ti_remaining_keys i)"
      unfolding found_def prefix_len_def by (rule map_while_length)
    obtain res st m where
      res: "reserve_ssd_prefetch_slots (max_prefetch_blocks cfg) found (sy_state s) (sy_metrics s) = (res, st, m)"
      by (metis prod.collapse)
    note spec = reserve_spec [OF res bound]
    have "sys_inv I cfg (set_task h (Reading i n, st, m) s)" if "res = Some n" for n
      using that spec i found spec(4) [OF that] by (intro set_task_inv [OF inv h]) (simp_all add: pc_ok_def)
    with none [OF refl refl] none [of st m] spec(1,3) Some show ?thesis
      by (cases res) (simp_all add: task_ssd_def Let_def found_def [symmetric] res)
  qed
qed

lemma task_read_inv:
  assumes inv: "sys_inv I cfg s" and h: "hm_get (sy_tasks s) h = Some (Reading i n)"
    and sub: "submit_prefix r full (take n (ti_remaining_keys i)) = (found, sub)"
  shows "sys_inv I cfg
    (set_task h (task_read (prefetch_prefix found done_rx) i n (sy_state s) (sy_metrics s)) s)"
proof -
  have i: "input_ok i" and n: "n \<le> length (ti_remaining_keys i)"
    using sys_inv_pc [OF inv h] by (simp_all add: pc_ok_def)
  have "found = length (prefix_requests r (take n (ti_remaining_keys i)))"
    using sub by (auto simp: submit_prefix_def Let_def split: if_splits)
  then have found: "found \<le> length (ti_remaining_keys i)"
    using map_while_length n unfolding prefix_requests_def by (metis (no_types, lifting) length_take min.absorb2 order.trans)
  obtain f blocks where ans: "prefetch_prefix found done_rx = (f, blocks)" "f = found"
    by (cases "prefetch_prefix found done_rx") (auto simp: prefetch_prefix_def split: if_splits option.splits)
  let ?st = "drop_reservation n (sy_state s)"
  have st: "active ?st = active (sy_state s)"
    "reserved_ssd_prefetch_blocks ?st + n = reserved_ssd_prefetch_blocks (sy_state s)"
    "reserved_ssd_prefetch_blocks ?st \<le> max_prefetch_blocks cfg"
  proof -
    have "n \<le> reading_blocks (sy_tasks s)"
      using reading_blocks_update [OF sys_invD(2) [OF inv] h, of "AskSsd i"] by simp
    then have "n \<le> reserved_ssd_prefetch_blocks (sy_state s)" using inv by (simp add: sys_inv_def)
    moreover have "reserved_ssd_prefetch_blocks (sy_state s) \<le> max_prefetch_blocks cfg"
      using inv by (simp add: sys_inv_def)
    ultimately show "active ?st = active (sy_state s)"
      "reserved_ssd_prefetch_blocks ?st + n = reserved_ssd_prefetch_blocks (sy_state s)"
      "reserved_ssd_prefetch_blocks ?st \<le> max_prefetch_blocks cfg"
      by (simp_all add: drop_reservation_def saturating_sub_def)
  qed
  obtain r' m' where fin: "(if 0 < f then finish_task i (Some SourceSsd) f blocks (sy_metrics s)
      else finish_task i None 0 [] (sy_metrics s)) = (Finished i r', m')" and r': "result_ok i r'"
    using finish_task_ok [OF i, of found "Some SourceSsd" blocks "sy_metrics s"]
      finish_task_ok [OF i, of 0 None "[]" "sy_metrics s"] found ans(2)
    by (cases "0 < f") auto
  have "sys_inv I cfg (set_task h (Finished i r', ?st, m') s)"
    using st i r' by (intro set_task_inv [OF inv h]) (simp_all add: pc_ok_def)
  then show ?thesis unfolding task_read_def ans(1) Let_def prod.case fin .
qed

interpretation entry_expiry: expiring "entry_fresh max_age"
  by unfold_locales (auto simp: entry_fresh_def duration_since_def)

interpretation failure_expiry: expiring "failure_fresh max_age"
  by unfold_locales (auto simp: failure_fresh_def duration_since_def)

lemma gc_stale_entries_inv:
  assumes inv: "sys_inv I cfg s"
  shows "sys_inv I cfg (snd (gc_stale_entries a f now s))"
proof -
  let ?st = "(sy_state s)\<lparr>active := sweep (entry_fresh a) now (active (sy_state s)),
      failed_remote := sweep (failure_fresh f) now (failed_remote (sy_state s))\<rparr>"
  have "sys_inv I cfg (s\<lparr>sy_state := ?st, sy_cache := sy_cache s, sy_metrics := sy_metrics s\<rparr>)"
    using sys_invD(1,3) [OF inv]
    by (intro sys_inv_active [OF inv]) (simp_all add: entry_expiry.wf_sweep entry_expiry.get_sweep)
  then show ?thesis by (simp add: gc_stale_entries_def Let_def)
qed

lemma check_and_prefetch_ok:
  assumes lru: "block_lru_map ops I" and inv: "sys_inv I cfg s" and len: "length hashes \<le> u64_max"
  shows "\<exists>status s'. check_and_prefetch ops cfg now req_id ns hashes s = Some (status, s') \<and> sys_inv I cfg s'"
proof -
  obtain res s1 where poll: "poll_existing ops now req_id s = (res, s1)"
    by (cases "poll_existing ops now req_id s")
  note inv1 = poll_existing_inv [OF lru inv poll]
  with full_prefix_scan_ok [OF lru inv1 len, of now req_id ns] show ?thesis
    by (cases res) (auto simp: check_and_prefetch_def poll)
qed

lemma prefetch_step_inv:
  assumes lru: "block_lru_map ops I" and "prefetch_step ops cfg s s'" "sys_inv I cfg s"
  shows "sys_inv I cfg s'"
  using assms(2,3)
proof (induction rule: prefetch_step.induct)
  case (query hashes now req_id ns s status s')
  with check_and_prefetch_ok [OF lru query(3,1), of now req_id ns] show ?case by auto
next
  case (remote s h i answer)
  from task_remote_inv [OF remote(3,1,2)] show ?case .
next
  case (ssd s h i store)
  then show ?case by (simp add: task_ssd_inv)
next
  case (read s h i n r full found sub done_rx)
  from task_read_inv [OF read(3,1,2)] show ?case .
next
  case (gc s a f now)
  then show ?case by (rule gc_stale_entries_inv)
qed

lemma prefetch_reach_inv:
  assumes "block_lru_map ops I" "I (lru c)" "prefetch_reach ops cfg (prefetch_new c m) s"
  shows "sys_inv I cfg s"
  using assms(3)
proof (induction rule: rtranclp_induct)
  case base
  show ?case using assms(2) by (simp add: sys_inv_def prefetch_new_def reading_blocks_def)
next
  case (step s s')
  then show ?case using prefetch_step_inv [OF assms(1)] by blast
qed

section \<open>Properties\<close>

text \<open>
  C24. The SSD prefetch budget is respected and never leaks: in every interleaving of queries, task
  steps and garbage collections, the reserved blocks are exactly those of the tasks
  that are reading, and they never exceed the configured maximum; so when no task is reading,
  nothing is reserved, even if the entries of running tasks have been collected meanwhile.
\<close>

theorem prefetch_budget:
  assumes "block_lru_map ops I" "I (lru c)" "prefetch_reach ops cfg (prefetch_new c m) s"
  shows "reserved_ssd_prefetch_blocks (sy_state s) = reading_blocks (sy_tasks s) \<and>
    reserved_ssd_prefetch_blocks (sy_state s) \<le> max_prefetch_blocks cfg \<and>
    ((\<forall>h i n. hm_get (sy_tasks s) h \<noteq> Some (Reading i n)) \<longrightarrow> reserved_ssd_prefetch_blocks (sy_state s) = 0)"
proof -
  note inv = prefetch_reach_inv [OF assms]
  have "reading_blocks (sy_tasks s) = 0" if "\<forall>h i n. hm_get (sy_tasks s) h \<noteq> Some (Reading i n)"
  proof -
    have "pc_reserved pc = 0" if "(h, pc) \<in> set (sy_tasks s)" for h pc
      using \<open>\<forall>h i n. hm_get (sy_tasks s) h \<noteq> Some (Reading i n)\<close> that hm_get_in_set [OF sys_invD(2) [OF inv]]
      by (cases pc) auto
    then show ?thesis by (auto simp: reading_blocks_def)
  qed
  with inv show ?thesis by (simp add: sys_inv_def)
qed

section \<open>The query behind a task\<close>

text \<open>What a query hands to the task it starts: the rest of its keys behind the prefix resident then.\<close>

definition scan_input ::
    "'l block_lru \<Rightarrow> string \<Rightarrow> string \<Rightarrow> byte list list \<Rightarrow> 'l prefetch_sys \<Rightarrow> prefetch_task_input" where
  "scan_input ops req_id ns hashes s =
     (let keys = map (mk_key ns) hashes; p = map_while (map_of (resident ops (sy_cache s))) keys
      in \<lparr>ti_req_id = req_id, ti_namespace = ns, ti_remaining_keys = drop (length p) keys, ti_prefix_blocks = p,
          ti_total = length keys, ti_hit = length p, ti_emit_tier_metrics = True\<rparr>)"

lemma full_prefix_scan_tasks:
  assumes lru: "block_lru_map ops I" and inv: "sys_inv I cfg s"
    and scan: "full_prefix_scan ops cfg now req_id ns hashes s = Some (status, s')"
    and pc: "hm_get (sy_tasks s') h = Some pc"
  shows "hm_get (sy_tasks s) h = Some pc \<or> status = Loading \<and> pc_input pc = scan_input ops req_id ns hashes s"
proof -
  define keys where "keys = map (mk_key ns) hashes"
  obtain n bs c where g: "get_prefix_blocks ops keys (sy_cache s) = ((n, bs), c)" by (metis prod.collapse)
  from block_lru_map.get_prefix_loop_spec [OF lru sys_invD(1) [OF inv] g [unfolded get_prefix_blocks_def]]
  have spec: "bs = map_while (map_of (resident ops (sy_cache s))) keys" "n = length bs" by simp_all
  define i where "i = \<lparr>ti_req_id = req_id, ti_namespace = ns, ti_remaining_keys = drop n keys,
     ti_prefix_blocks = bs, ti_total = length keys, ti_hit = n, ti_emit_tier_metrics = True\<rparr>"
  have i: "i = scan_input ops req_id ns hashes s" by (simp add: i_def scan_input_def Let_def spec keys_def)
  obtain started s2 where start: "start_prefetch_task cfg now i (s\<lparr>sy_cache := c\<rparr>) = (started, s2)"
    by (rule prod.exhaust)
  have tasks: "sy_tasks s' = sy_tasks s2" "started \<Longrightarrow> status = Loading"
    using scan unfolding full_prefix_scan_def Let_def keys_def [symmetric] g prod.case i_def [symmetric] start
    by (auto split: if_splits)
  have "hm_get (sy_tasks s) h = Some pc \<or> started \<and> pc_input pc = i"
    using pc start unfolding tasks(1)
    by (auto simp: start_prefetch_task_def Let_def hm_simps split: if_splits)
  with tasks(2) show ?thesis unfolding i by blast
qed

lemma poll_existing_tasks: "sy_tasks (snd (poll_existing ops now req_id s)) = sy_tasks s"
  by (simp add: poll_existing_def Let_def split: option.splits prod.splits)

lemma finish_task_input: "pc_input (fst (finish_task i source found blocks m)) = i"
  by (simp add: finish_task_def split: option.splits)

lemma task_inputs:
  "pc_input (fst (task_remote answer i m)) = i" "pc_input (fst (task_ssd cfg store i st m)) = i"
  "pc_input (fst (task_read ans i n st m)) = i"
  using finish_task_input [of i]
  by (auto simp: task_remote_def task_ssd_def task_read_def Let_def split_beta split: option.splits prod.splits)

text \<open>A task keeps the input it was started with.\<close>

lemma prefetch_step_tasks:
  assumes lru: "block_lru_map ops I" and step: "prefetch_step ops cfg s s'" and inv: "sys_inv I cfg s"
    and pc: "hm_get (sy_tasks s') h = Some pc"
  obtains (kept) pc0 where "hm_get (sy_tasks s) h = Some pc0" "pc_input pc0 = pc_input pc"
    | (started) now req_id ns hashes where "hm_get (active (sy_state s)) req_id = None"
        "check_and_prefetch ops cfg now req_id ns hashes s = Some (Loading, s')"
        "pc_input pc = scan_input ops req_id ns hashes s"
proof -
  have set: "\<exists>pc0. hm_get (sy_tasks s) h = Some pc0 \<and> pc_input pc0 = pc_input pc"
    if "hm_get (sy_tasks s) k = Some old" "pc_input (fst res) = pc_input old" "s' = set_task k res s" for k old res
    using that pc by (auto simp: set_task_def hm_simps split_beta split: if_splits)
  show thesis using step
  proof cases
    case (query hashes now req_id ns status)
    obtain res s1 where poll: "poll_existing ops now req_id s = (res, s1)" by (rule prod.exhaust)
    show thesis
    proof (cases "res = NoActivePrefetch")
      case True
      hence none: "hm_get (active (sy_state s)) req_id = None" and s1: "s1 = s"
        using poll by (auto simp: poll_existing_def Let_def split: option.splits prod.splits)
      hence "full_prefix_scan ops cfg now req_id ns hashes s = Some (status, s')"
        using query(2) poll True by (simp add: check_and_prefetch_def)
      from full_prefix_scan_tasks [OF lru inv this pc] kept started [OF none] query(2) show thesis by blast
    next
      case False
      hence "s' = s1" using query(2) poll by (cases res) (auto simp: check_and_prefetch_def)
      with poll_existing_tasks [of ops now req_id s] poll pc kept show thesis by simp
    qed
  next
    case (remote k i answer)
    from set [OF remote(2), of "(fst (task_remote answer i (sy_metrics s)), sy_state s, snd (task_remote answer i (sy_metrics s)))"]
      remote(1) kept show thesis by (auto simp: task_inputs split_beta)
  next
    case (ssd k i store)
    from set [OF ssd(2) _ ssd(1)] kept show thesis by (auto simp: task_inputs)
  next
    case (read k i n r full found sub done_rx)
    from set [OF read(2) _ read(1)] kept show thesis by (auto simp: task_inputs)
  next
    case (gc a f now)
    with pc kept show thesis by (simp add: gc_stale_entries_def Let_def)
  qed
qed

definition started_by ::
    "'l block_lru \<Rightarrow> prefetch_config \<Rightarrow> 'l prefetch_sys \<Rightarrow> prefetch_task_input \<Rightarrow> 'l prefetch_sys \<Rightarrow> 'l prefetch_sys \<Rightarrow>
     string \<Rightarrow> byte list list \<Rightarrow> bool" where
  "started_by ops cfg init i s s0 ns hashes =
     (\<exists>s1 now. prefetch_reach ops cfg init s0 \<and> hm_get (active (sy_state s0)) (ti_req_id i) = None
        \<and> check_and_prefetch ops cfg now (ti_req_id i) ns hashes s0 = Some (Loading, s1)
        \<and> prefetch_reach ops cfg s1 s \<and> i = scan_input ops (ti_req_id i) ns hashes s0)"

lemma scan_input_req [simp]: "ti_req_id (scan_input ops req_id ns hashes s) = req_id"
  by (simp add: scan_input_def Let_def)

lemma task_query:
  assumes lru: "block_lru_map ops I" "I (lru c)" and reach: "prefetch_reach ops cfg (prefetch_new c m) s"
    and pc: "hm_get (sy_tasks s) h = Some pc"
  shows "\<exists>s0 ns hashes. started_by ops cfg (prefetch_new c m) (pc_input pc) s s0 ns hashes"
  using reach pc
proof (induction arbitrary: h pc rule: rtranclp_induct)
  case base
  thus ?case by (simp add: prefetch_new_def)
next
  case (step s s')
  note inv = prefetch_reach_inv [OF lru step(1)]
  show ?case
  proof (cases rule: prefetch_step_tasks [OF lru(1) step(2) inv step(4)])
    case (1 pc0)
    from step(3) [OF 1(1)] step(2) show ?thesis
      unfolding 1(2) started_by_def by (meson rtranclp.rtrancl_into_rtrancl)
  next
    case (2 now req_id ns hashes)
    have "started_by ops cfg (prefetch_new c m) (pc_input pc) s' s ns hashes"
      using step(1) 2 unfolding started_by_def by (auto intro!: exI [of _ s'] exI [of _ now])
    thus ?thesis by blast
  qed
qed

text \<open>
  The answer to a query: the prefix resident when it was asked, then, in the order of the keys, the delivered blocks of
  the keys found, up to the first that was not delivered (the last delivery of a key counts). The rest is missing.
\<close>

definition query_answer ::
    "(block_key \<times> sealed_block) list \<Rightarrow> block_key list \<Rightarrow> usize \<Rightarrow> prefetch_result \<Rightarrow> sealed_block list \<Rightarrow> usize \<Rightarrow> bool" where
  "query_answer cached keys found fetched bs missing =
     (let p = map_while (map_of cached) keys
      in found \<le> length keys - length p
         \<and> bs = p @ map_while (map_of (rev fetched)) (take found (drop (length p) keys))
         \<and> length bs + missing = length keys)"

lemma result_answers:
  assumes "result_ok (scan_input ops req_id ns hashes s) r"
  shows "query_answer (resident ops (sy_cache s)) (map (mk_key ns) hashes) (tr_found r) (tr_cache_inserts r)
    (tr_ready_blocks r) (tr_missing r)"
  using assms by (auto simp: result_ok_def scan_input_def query_answer_def Let_def)


section \<open>An example run\<close>

text \<open>
  Request \<open>r\<close> asks for two keys with an empty cache; both are on the SSD but only one block may be read at a
  time. The task reserves it, reads it and delivers it.
\<close>

definition demo_cfg :: prefetch_config where
  "demo_cfg = \<lparr>cfg_rdma = False, cfg_ssd = True, max_prefetch_blocks = 1\<rparr>"

definition demo_input :: prefetch_task_input where
  "demo_input = \<lparr>ti_req_id = ''r'', ti_namespace = ''m'', ti_remaining_keys = [mk_key ''m'' [1], mk_key ''m'' [2]],
     ti_prefix_blocks = [], ti_total = 2, ti_hit = 0, ti_emit_tier_metrics = True\<rparr>"

definition demo_ring2 :: ssd_ring_buffer where
  "demo_ring2 = \<lparr>shards = [\<lparr>capacity = 512, head_off = 16, tail_off = 0,
       order = [mk_key ''m'' [1], mk_key ''m'' [2]]\<rparr>], next_shard = 0,
     entries = [(mk_key ''m'' [1], Committed \<lparr>shard_id = 0, begin_off = 0, entry_len = 8, file_offset = 0, entry_slots = []\<rparr>),
       (mk_key ''m'' [2], Committed \<lparr>shard_id = 0, begin_off = 8, entry_len = 8, file_offset = 8, entry_slots = []\<rparr>)]\<rparr>"

abbreviation demo_sys :: "task_pc \<Rightarrow> usize \<Rightarrow> core_metrics \<Rightarrow> (block_key \<times> sealed_block) list prefetch_sys" where
  "demo_sys pc n m \<equiv>
     \<lparr>sy_state = \<lparr>active = [(''r'', \<lparr>pe_handle = 0, pe_started_at = 5\<rparr>)], reserved_ssd_prefetch_blocks = n,
        failed_remote = []\<rparr>,
      sy_tasks = [(0, pc)], sy_next = 1, sy_cache = \<lparr>lru = [], freq = None\<rparr>, sy_metrics = m\<rparr>"

abbreviation demo_start :: "(block_key \<times> sealed_block) list prefetch_sys" where
  "demo_start \<equiv> prefetch_new \<lparr>lru = [], freq = None\<rparr> no_metrics"

lemma demo_ring2_get:
  "ring_get demo_ring2 (mk_key ''m'' [1]) = Some \<lparr>shard_id = 0, begin_off = 0, entry_len = 8, file_offset = 0, entry_slots = []\<rparr>"
  "ring_get demo_ring2 (mk_key ''m'' [2]) = Some \<lparr>shard_id = 0, begin_off = 8, entry_len = 8, file_offset = 8, entry_slots = []\<rparr>"
  by (simp_all add: ring_get_def demo_ring2_def is_offset_valid_def nth_opt_def)

lemma demo_query:
  "prefetch_step list_lru_ops demo_cfg demo_start (demo_sys (AskSsd demo_input) 0 no_metrics)"
proof -
  have "check_and_prefetch list_lru_ops demo_cfg 5 ''r'' ''m'' [[1], [2]] demo_start =
      Some (Loading, demo_sys (AskSsd demo_input) 0 no_metrics)"
    by (simp add: check_and_prefetch_def poll_existing_def prefetch_new_def full_prefix_scan_def get_prefix_blocks_def
        cache_get_def list_lru_ops_def list_touch_def start_prefetch_task_def hm_contains_def demo_cfg_def
        demo_input_def Let_def)
  then show ?thesis by (rule prefetch_step.query [rotated]) (simp add: u64_max_def)
qed

abbreviation demo_reading :: "(block_key \<times> sealed_block) list prefetch_sys" where
  "demo_reading \<equiv> demo_sys (Reading demo_input 1) 1
     (no_metrics\<lparr>ssd_prefetch_backpressure_blocks := 1\<rparr>)"

lemma demo_reserve: "prefetch_step list_lru_ops demo_cfg
    (demo_sys (AskSsd demo_input) 0 no_metrics) demo_reading"
proof -
  let ?s = "demo_sys (AskSsd demo_input) 0 no_metrics"
  have "prefix_len demo_ring2 [mk_key ''m'' [1], mk_key ''m'' [2]] = 2"
    by (simp add: prefix_len_def demo_ring2_get)
  then have "set_task 0 (task_ssd demo_cfg (Some demo_ring2) demo_input
      (sy_state ?s) (sy_metrics ?s)) ?s = demo_reading"
    by (simp add: task_ssd_def demo_input_def demo_cfg_def reserve_ssd_prefetch_slots_def saturating_sub_def
        set_task_def no_metrics_def Let_def)
  with prefetch_step.ssd [of ?s 0 "demo_input" "Some demo_ring2" demo_cfg list_lru_ops]
  show ?thesis by (simp add: demo_cfg_def)
qed

lemma demo_prefetch_reach: "prefetch_reach list_lru_ops demo_cfg demo_start demo_reading"
  using demo_query demo_reserve by (meson converse_rtranclp_into_rtranclp rtranclp.rtrancl_refl)

lemma prefetch_budget_witness:
  "reserved_ssd_prefetch_blocks (sy_state demo_reading) = reading_blocks (sy_tasks demo_reading) \<and>
   reserved_ssd_prefetch_blocks (sy_state demo_reading) \<le> max_prefetch_blocks demo_cfg"
  using prefetch_budget [OF list_blocks.block_lru_map_axioms _ demo_prefetch_reach] by simp

text \<open>The read delivers the first block; the next query of the request is answered with it, one block missing.\<close>

definition demo_fetched :: sealed_block where
  "demo_fetched = \<lparr>sb_slots = [], sb_footprint = 8, sb_slot_numas = []\<rparr>"

definition demo_done :: "(block_key \<times> sealed_block) list prefetch_sys" where
  "demo_done = set_task 0 (task_read (prefetch_prefix 1 (Some [(mk_key ''m'' [1], demo_fetched)])) demo_input 1
     (sy_state demo_reading) (sy_metrics demo_reading)) demo_reading"

lemma demo_delivers: "prefetch_step list_lru_ops demo_cfg demo_reading demo_done"
proof -
  have "prefix_requests demo_ring2 (take 1 (ti_remaining_keys demo_input)) =
      [\<lparr>pr_key = mk_key ''m'' [1], pr_entry = \<lparr>shard_id = 0, begin_off = 0, entry_len = 8, file_offset = 0, entry_slots = []\<rparr>\<rparr>]"
    by (simp add: prefix_requests_def demo_input_def demo_ring2_get)
  hence "\<exists>sub. submit_prefix demo_ring2 False (take 1 (ti_remaining_keys demo_input)) = (1, sub)"
    by (simp add: submit_prefix_def)
  moreover have "hm_get (sy_tasks demo_reading) 0 = Some (Reading demo_input 1)" by simp
  ultimately show ?thesis unfolding demo_done_def using prefetch_step.read by blast
qed

lemma demo_finish:
  "\<exists>m'. finish_task demo_input (Some SourceSsd) 1 [(mk_key ''m'' [1], demo_fetched)] m =
     (Finished demo_input \<lparr>tr_source = Some SourceSsd, tr_found = 1, tr_cache_inserts = [(mk_key ''m'' [1], demo_fetched)],
        tr_ready_blocks = [demo_fetched], tr_missing = 1\<rparr>, m')"
proof -
  have "classify 2 0 1 (Some Ssd) = Some \<lparr>ta_ram = 0, ta_rdma = 0, ta_ssd = 1, ta_miss = 1\<rparr>"
    by (simp add: classify_def checked_sub_def wrapping_add_def u64_max_def)
  thus ?thesis
    by (simp add: finish_task_def record_prefetch_attribution_def demo_input_def build_ready_result_def saturating_sub_def)
qed

lemma demo_answer:
  "\<exists>s'. check_and_prefetch list_lru_ops demo_cfg 9 ''r'' ''m'' [[1], [2]] demo_done = Some (Ready [demo_fetched] 1, s')"
proof -
  obtain m' where f: "finish_task demo_input (Some SourceSsd) 1 [(mk_key ''m'' [1], demo_fetched)] (sy_metrics demo_reading) =
     (Finished demo_input \<lparr>tr_source = Some SourceSsd, tr_found = 1, tr_cache_inserts = [(mk_key ''m'' [1], demo_fetched)],
        tr_ready_blocks = [demo_fetched], tr_missing = 1\<rparr>, m')"
    using demo_finish by blast
  have eq: "demo_done = set_task 0 (Finished demo_input \<lparr>tr_source = Some SourceSsd, tr_found = 1,
      tr_cache_inserts = [(mk_key ''m'' [1], demo_fetched)], tr_ready_blocks = [demo_fetched], tr_missing = 1\<rparr>,
      drop_reservation 1 (sy_state demo_reading), m') demo_reading"
    unfolding demo_done_def task_read_def prefetch_prefix_def using f by simp
  have "hm_get (active (sy_state demo_done)) ''r'' = Some \<lparr>pe_handle = 0, pe_started_at = 5\<rparr>"
    "hm_get (sy_tasks demo_done) 0 = Some (Finished demo_input \<lparr>tr_source = Some SourceSsd, tr_found = 1,
      tr_cache_inserts = [(mk_key ''m'' [1], demo_fetched)], tr_ready_blocks = [demo_fetched], tr_missing = 1\<rparr>)"
    unfolding eq by (simp_all add: set_task_def drop_reservation_def)
  thus ?thesis by (simp add: check_and_prefetch_def poll_existing_def Let_def split_beta)
qed


text \<open>A task that panics is answered as if nothing had been asked: no blocks, and none missing.\<close>

lemma panicked_task_answer:
  assumes "hm_get (active (sy_state s)) req_id = Some e" "hm_get (sy_tasks s) (pe_handle e) = Some (Panicked i)"
  shows "fst (poll_existing ops now req_id s) = PollReady (Ready [] 0)"
  using assms by (simp add: poll_existing_def join_failed_result_def case_prod_beta Let_def)

end
