(* ===== verification/Topology.thy ===== *)
theory Topology
  imports Layout "HOL-Library.List_Lexorder" "HOL-Library.Char_ord" "HOL-Library.Multiset"
begin

text \<open>
  Instances and their layer topology, \<^verbatim>\<open>pegaflow-core/src/instance.rs\<close>: workers register their GPUs one
  by one; the last one seals the union of the layer names into a dense id space and, in
  page-first mode, lays the layers of each shard out as one page. Creating a device context is outside the
  model (its outcome is a parameter). A \<open>BTreeSet\<close> of ids is its ascending list; hash
  maps are association lists in any order, and the properties show that this order does not matter.
\<close>

section \<open>Data\<close>

datatype topo_error =
    ZeroTopology
  | RegistrationIncomplete usize usize
  | DeviceExists int
  | AlreadyRegistered int
  | InconsistentGeometry string int
  | ClaimedByStages string int
  | NoOwner string usize
  | ClaimedByShards string usize usize
  | NoShardOwner string
  | LayerNotRegistered string
  | LayerOutOfRange usize usize
  | TpRankOutOfRange usize usize
  | NoLayers int
  | NegativeDevice int
  | DeviceInitFailed int
  | WorkerMissing string int
  | WrongSaveGroup int
  | TopologyMismatch
  | IndexPanic

record gpu_context =
  g_device_id :: int
  g_tp_rank :: usize
  g_pp_rank :: usize
  g_numa :: numa_node
  g_kv_caches :: "(string, kv_cache_layout) hmap"

record page_layout =
  p_layer_shard :: "usize list"
  p_layer_offsets :: "usize list"
  p_layer_bytes :: "usize list"
  p_shard_page_sizes :: "usize list"

record layer_topology =
  t_name_to_id :: "(string, usize) hmap"
  t_tp_size :: usize
  t_page_layout :: "page_layout option"

record instance_context =
  i_id :: string
  i_namespace :: string
  i_tp_size :: usize
  i_world_size :: usize
  i_page_first :: bool
  i_gpu_contexts :: "(int, gpu_context) hmap"
  i_topology :: "layer_topology option"

section \<open>Page-first layout\<close>

definition distinct_sets :: "usize list list \<Rightarrow> usize list list" where
  "distinct_sets sets = foldl (\<lambda>shards s. if s \<in> set shards then shards else shards @ [s]) [] sets"

definition min_layer :: "usize list \<Rightarrow> usize" where
  "min_layer s = (case s of [] \<Rightarrow> u64_max | x # _ \<Rightarrow> x)"

definition shards_of :: "usize list list \<Rightarrow> usize list list" where
  "shards_of sets = sort_key min_layer (distinct_sets sets)"

fun assign_layers :: "string list \<Rightarrow> usize \<Rightarrow> usize list \<Rightarrow> usize list \<Rightarrow> topo_error + usize list" where
  "assign_layers names shard_id [] layer_shard = Inr layer_shard"
| "assign_layers names shard_id (layer_id # ids) layer_shard =
     (if length layer_shard \<le> layer_id then Inl IndexPanic
      else if layer_shard ! layer_id \<noteq> u64_max
      then Inl (ClaimedByShards (names ! layer_id) (layer_shard ! layer_id) shard_id)
      else assign_layers names shard_id ids (layer_shard[layer_id := shard_id]))"

fun assign_shards :: "string list \<Rightarrow> (usize \<times> usize list) list \<Rightarrow> usize list \<Rightarrow> topo_error + usize list" where
  "assign_shards names [] layer_shard = Inr layer_shard"
| "assign_shards names ((shard_id, ids) # rest) layer_shard =
     (case assign_layers names shard_id ids layer_shard of
        Inl e \<Rightarrow> Inl e
      | Inr ls \<Rightarrow> assign_shards names rest ls)"

fun find_position :: "('a \<Rightarrow> bool) \<Rightarrow> 'a list \<Rightarrow> usize option" where
  "find_position P [] = None"
| "find_position P (x # xs) = (if P x then Some 0 else map_option Suc (find_position P xs))"

fun place_layers ::
    "(usize \<times> usize) list \<Rightarrow> usize list \<Rightarrow> usize list \<Rightarrow> usize list \<times> usize list" where
  "place_layers [] offsets sizes = (offsets, sizes)"
| "place_layers ((shard, padded) # rest) offsets sizes =
     place_layers rest (offsets @ [sizes ! shard])
       (sizes[shard := wrapping_add (sizes ! shard) padded])"

definition build_page_layout ::
    "usize list list \<Rightarrow> string list \<Rightarrow> usize list \<Rightarrow> topo_error + page_layout" where
  "build_page_layout worker_layer_sets names padded_bytes =
     (let shards = shards_of worker_layer_sets
      in case assign_shards names (enumerate 0 shards) (replicate (length names) u64_max) of
           Inl e \<Rightarrow> Inl e
         | Inr layer_shard \<Rightarrow>
             (case find_position (\<lambda>s. s = u64_max) layer_shard of
                Some layer_id \<Rightarrow> Inl (NoShardOwner (names ! layer_id))
              | None \<Rightarrow>
                  let (offsets, sizes) = place_layers (zip layer_shard padded_bytes) []
                        (replicate (length shards) 0)
                  in Inr \<lparr>p_layer_shard = layer_shard, p_layer_offsets = offsets,
                          p_layer_bytes = padded_bytes, p_shard_page_sizes = sizes\<rparr>))"

section \<open>Topology queries\<close>

definition layer_id_of :: "layer_topology \<Rightarrow> string \<Rightarrow> topo_error + usize" where
  "layer_id_of t name =
     (case hm_get (t_name_to_id t) name of None \<Rightarrow> Inl (LayerNotRegistered name) | Some i \<Rightarrow> Inr i)"

definition num_layers :: "layer_topology \<Rightarrow> usize" where
  "num_layers t = length (t_name_to_id t)"

definition is_page_first :: "layer_topology \<Rightarrow> bool" where
  "is_page_first t = (t_page_layout t \<noteq> None)"

definition total_slots_of :: "layer_topology \<Rightarrow> usize" where
  "total_slots_of t =
     (case t_page_layout t of
        Some p \<Rightarrow> length (p_shard_page_sizes p)
      | None \<Rightarrow> num_layers t * t_tp_size t)"

definition shard_page_size :: "layer_topology \<Rightarrow> usize \<Rightarrow> usize option" where
  "shard_page_size t shard = map_option (\<lambda>p. p_shard_page_sizes p ! shard) (t_page_layout t)"

definition shard_layer_count :: "layer_topology \<Rightarrow> usize \<Rightarrow> usize option" where
  "shard_layer_count t shard =
     map_option (\<lambda>p. length (filter (\<lambda>s. s = shard) (p_layer_shard p))) (t_page_layout t)"

definition page_placement :: "layer_topology \<Rightarrow> usize \<Rightarrow> (usize \<times> usize) option" where
  "page_placement t layer_id =
     map_option (\<lambda>p. (p_layer_offsets p ! layer_id, p_layer_bytes p ! layer_id)) (t_page_layout t)"

definition slot_index :: "layer_topology \<Rightarrow> usize \<Rightarrow> usize \<Rightarrow> topo_error + usize" where
  "slot_index t layer_id tp_rank =
     (if num_layers t \<le> layer_id then Inl (LayerOutOfRange layer_id (num_layers t))
      else if t_tp_size t \<le> tp_rank then Inl (TpRankOutOfRange tp_rank (t_tp_size t))
      else Inr (case t_page_layout t of
                  Some p \<Rightarrow> p_layer_shard p ! layer_id
                | None \<Rightarrow> layer_id * t_tp_size t + tp_rank))"

section \<open>Sealing\<close>

type_synonym geometry = "usize \<times> bool \<times> usize"

definition geometry_of :: "kv_cache_layout \<Rightarrow> geometry" where
  "geometry_of l = (l_segment_bytes l, is_split l, padded_block_bytes l)"

definition registered_layers :: "gpu_context list \<Rightarrow> (gpu_context \<times> string \<times> kv_cache_layout) list" where
  "registered_layers gpus = concat (map (\<lambda>g. map (\<lambda>(name, l). (g, name, l)) (g_kv_caches g)) gpus)"

fun merge_geometry ::
    "(gpu_context \<times> string \<times> kv_cache_layout) list \<Rightarrow> (string, geometry) hmap \<Rightarrow>
     topo_error + (string, geometry) hmap" where
  "merge_geometry [] m = Inr m"
| "merge_geometry ((g, name, l) # rest) m =
     (case hm_get m name of
        None \<Rightarrow> merge_geometry rest (hm_insert name (geometry_of l) m)
      | Some existing \<Rightarrow>
          if existing = geometry_of l then merge_geometry rest (hm_insert name (geometry_of l) m)
          else Inl (InconsistentGeometry name (g_device_id g)))"

definition sorted_names :: "(string, geometry) hmap \<Rightarrow> string list" where
  "sorted_names m = sort (map fst m)"

definition name_ids :: "string list \<Rightarrow> (string, usize) hmap" where
  "name_ids names = map (\<lambda>(i, name). (name, i)) (enumerate 0 names)"

fun claim_grid ::
    "usize \<Rightarrow> (string, usize) hmap \<Rightarrow> (gpu_context \<times> string \<times> kv_cache_layout) list \<Rightarrow>
     (int \<times> usize) option list \<Rightarrow> topo_error + (int \<times> usize) option list" where
  "claim_grid tp_size ids [] owners = Inr owners"
| "claim_grid tp_size ids ((g, name, _) # rest) owners =
     (case hm_get ids name of
        None \<Rightarrow> Inl IndexPanic
      | Some layer_id \<Rightarrow>
          let grid_id = layer_id * tp_size + g_tp_rank g
          in if length owners \<le> grid_id then Inl IndexPanic
             else case owners ! grid_id of
                 None \<Rightarrow>
                   claim_grid tp_size ids rest (owners[grid_id := Some (g_device_id g, g_pp_rank g)])
               | Some (_, pp_rank) \<Rightarrow>
                   if pp_rank \<noteq> g_pp_rank g then Inl (ClaimedByStages name (g_device_id g))
                   else claim_grid tp_size ids rest owners)"

definition worker_layer_set :: "(string, usize) hmap \<Rightarrow> gpu_context \<Rightarrow> usize list" where
  "worker_layer_set ids g = sort (remdups (map (\<lambda>(name, _). the (hm_get ids name)) (g_kv_caches g)))"

definition seal_topology :: "usize \<Rightarrow> bool \<Rightarrow> gpu_context list \<Rightarrow> topo_error + layer_topology" where
  "seal_topology tp_size page_first gpus =
     (case merge_geometry (registered_layers gpus) [] of
        Inl e \<Rightarrow> Inl e
      | Inr geometry \<Rightarrow>
          let names = sorted_names geometry; ids = name_ids names
          in case claim_grid tp_size ids (registered_layers gpus) (replicate (length names * tp_size) None) of
               Inl e \<Rightarrow> Inl e
             | Inr owners \<Rightarrow>
                 (case find_position (\<lambda>o'. o' = None) owners of
                    Some missing \<Rightarrow> Inl (NoOwner (names ! (missing div tp_size)) (missing mod tp_size))
                  | None \<Rightarrow>
                      if page_first then
                        (case build_page_layout (map (worker_layer_set ids) gpus) names
                                (map (\<lambda>name. snd (snd (the (hm_get geometry name)))) names) of
                           Inl e \<Rightarrow> Inl e
                         | Inr p \<Rightarrow> Inr \<lparr>t_name_to_id = ids, t_tp_size = tp_size, t_page_layout = Some p\<rparr>)
                      else Inr \<lparr>t_name_to_id = ids, t_tp_size = tp_size, t_page_layout = None\<rparr>))"

section \<open>Instances\<close>

definition instance_new :: "string \<Rightarrow> string \<Rightarrow> usize \<Rightarrow> usize \<Rightarrow> bool \<Rightarrow> topo_error + instance_context" where
  "instance_new iid ns tp_size world_size page_first =
     (if tp_size = 0 \<or> world_size = 0 then Inl ZeroTopology
      else Inr \<lparr>i_id = iid, i_namespace = ns, i_tp_size = tp_size, i_world_size = world_size,
                i_page_first = page_first, i_gpu_contexts = [], i_topology = None\<rparr>)"

definition sealed_topology :: "instance_context \<Rightarrow> topo_error + layer_topology" where
  "sealed_topology i =
     (case i_topology i of
        None \<Rightarrow> Inl (RegistrationIncomplete (length (i_gpu_contexts i)) (i_world_size i))
      | Some t \<Rightarrow> Inr t)"

definition ensure_accepting :: "int \<Rightarrow> instance_context \<Rightarrow> topo_error + unit" where
  "ensure_accepting device_id i =
     (if hm_contains (i_gpu_contexts i) device_id then Inl (DeviceExists device_id)
      else if i_topology i \<noteq> None then Inl (AlreadyRegistered device_id)
      else Inr ())"

text \<open>The outcome of creating the device context is a parameter.\<close>

definition build_gpu_context ::
    "(int \<Rightarrow> bool) \<Rightarrow> gpu_context \<Rightarrow> topo_error + gpu_context" where
  "build_gpu_context device_ok g =
     (if g_device_id g < 0 then Inl (NegativeDevice (g_device_id g))
      else if \<not> device_ok (g_device_id g) then Inl (DeviceInitFailed (g_device_id g))
      else Inr g)"

text \<open>The second critical section: other workers may have registered since the first check.\<close>

definition attach_gpu :: "gpu_context \<Rightarrow> instance_context \<Rightarrow> (topo_error + unit) \<times> instance_context" where
  "attach_gpu g i =
     (case ensure_accepting (g_device_id g) i of
        Inl e \<Rightarrow> (Inl e, i)
      | Inr _ \<Rightarrow>
          if length (i_gpu_contexts i) + 1 = i_world_size i then
            (case seal_topology (i_tp_size i) (i_page_first i) (map snd (i_gpu_contexts i) @ [g]) of
               Inl e \<Rightarrow> (Inl e, i)
             | Inr t \<Rightarrow>
                 (Inr (), i\<lparr>i_gpu_contexts := hm_insert (g_device_id g) g (i_gpu_contexts i),
                            i_topology := Some t\<rparr>))
          else (Inr (), i\<lparr>i_gpu_contexts := hm_insert (g_device_id g) g (i_gpu_contexts i)\<rparr>))"

definition check_registration ::
    "(int \<Rightarrow> bool) \<Rightarrow> gpu_context \<Rightarrow> instance_context \<Rightarrow> topo_error + gpu_context" where
  "check_registration device_ok g i =
     (if i_tp_size i \<le> g_tp_rank g then Inl (TpRankOutOfRange (g_tp_rank g) (i_tp_size i))
      else if g_kv_caches g = [] then Inl (NoLayers (g_device_id g))
      else case ensure_accepting (g_device_id g) i of
          Inl e \<Rightarrow> Inl e
        | Inr _ \<Rightarrow> build_gpu_context device_ok g)"

definition register_new_gpu ::
    "(int \<Rightarrow> bool) \<Rightarrow> gpu_context \<Rightarrow> instance_context \<Rightarrow> (topo_error + unit) \<times> instance_context" where
  "register_new_gpu device_ok g i =
     (case check_registration device_ok g i of
        Inl e \<Rightarrow> (Inl e, i)
      | Inr ctx \<Rightarrow> attach_gpu ctx i)"

definition get_gpu_for_save_group :: "int \<Rightarrow> usize \<Rightarrow> usize \<Rightarrow> instance_context \<Rightarrow> topo_error + gpu_context" where
  "get_gpu_for_save_group device_id tp_rank pp_rank i =
     (case hm_get (i_gpu_contexts i) device_id of
        None \<Rightarrow> Inl (WorkerMissing (i_id i) device_id)
      | Some g \<Rightarrow>
          if g_tp_rank g \<noteq> tp_rank \<or> g_pp_rank g \<noteq> pp_rank then Inl (WrongSaveGroup device_id)
          else Inr g)"

definition verify_topology :: "usize \<Rightarrow> usize \<Rightarrow> bool \<Rightarrow> instance_context \<Rightarrow> topo_error + unit" where
  "verify_topology tp_size world_size page_first i =
     (if i_tp_size i \<noteq> tp_size \<or> i_world_size i \<noteq> world_size \<or> i_page_first i \<noteq> page_first
      then Inl TopologyMismatch else Inr ())"

section \<open>Page layouts partition the layers and tile their pages\<close>

lemma u64_max_bound: "n \<le> u64_max \<Longrightarrow> n mod 2 ^ 64 = n"
  by (simp add: u64_max_def)

lemma assign_layers_ok:
  assumes "assign_layers names k ids ls = Inr r" "k \<noteq> u64_max"
  shows "length r = length ls \<and> (\<forall>j \<in> set ids. j < length ls \<and> ls ! j = u64_max)
     \<and> (\<forall>j < length ls. r ! j = (if j \<in> set ids then k else ls ! j))"
  using assms
proof (induction names k ids ls arbitrary: r rule: assign_layers.induct)
  case (2 names k i ids ls)
  from "2.prems"(1) have i: "i < length ls" "ls ! i = u64_max"
    and rest: "assign_layers names k ids (ls[i := k]) = Inr r"
    by (auto split: if_splits)
  have IH: "length r = length ls \<and> (\<forall>j \<in> set ids. j < length ls \<and> ls[i := k] ! j = u64_max)
      \<and> (\<forall>j < length ls. r ! j = (if j \<in> set ids then k else ls[i := k] ! j))"
    using "2.IH"[of r] rest "2.prems"(2) i by simp
  have "\<forall>j \<in> set ids. ls ! j = u64_max"
    using IH "2.prems"(2) i by (metis nth_list_update)
  then show ?case using IH i by (auto simp: nth_list_update)
qed simp

lemma assign_shards_ok:
  assumes "assign_shards names (enumerate k shards) ls = Inr r" "k + length shards \<le> u64_max"
  shows "length r = length ls
     \<and> (\<forall>i < length shards. \<forall>j \<in> set (shards ! i). j < length ls \<and> ls ! j = u64_max \<and> r ! j = k + i)
     \<and> (\<forall>j < length ls. r ! j = ls ! j \<or> (\<exists>i < length shards. j \<in> set (shards ! i) \<and> r ! j = k + i))"
  using assms
proof (induction shards arbitrary: k ls)
  case (Cons s shards)
  from Cons.prems(1) obtain m where m: "assign_layers names k s ls = Inr m"
    and rest: "assign_shards names (enumerate (Suc k) shards) m = Inr r"
    by (auto split: sum.splits)
  have k: "k \<noteq> u64_max" "Suc k + length shards \<le> u64_max" using Cons.prems(2) by auto
  note L = assign_layers_ok[OF m k(1)]
  note IH = Cons.IH[OF rest k(2)]
  have len: "length r = length ls" using L IH by simp
  have first: "j < length ls \<and> ls ! j = u64_max \<and> r ! j = k" if j: "j \<in> set s" for j
  proof -
    have a: "j < length ls" "ls ! j = u64_max" "m ! j = k" using L j by auto
    have "r ! j = m ! j"
    proof (rule ccontr)
      assume "r ! j \<noteq> m ! j"
      then obtain i where "i < length shards" "j \<in> set (shards ! i)" using IH a L by auto
      then have "m ! j = u64_max" using IH by blast
      then show False using a k by simp
    qed
    then show ?thesis using a by simp
  qed
  have later: "j < length ls \<and> ls ! j = u64_max \<and> r ! j = k + Suc i"
    if i: "i < length shards" and j: "j \<in> set (shards ! i)" for i j
  proof -
    have a: "j < length ls" "m ! j = u64_max" "r ! j = Suc k + i" using IH i j L by auto
    have "j \<notin> set s" using a L k by auto
    then have "m ! j = ls ! j" using L a by simp
    then show ?thesis using a by simp
  qed
  have all: "\<forall>i < length (s # shards). \<forall>j \<in> set ((s # shards) ! i).
      j < length ls \<and> ls ! j = u64_max \<and> r ! j = k + i"
  proof (intro allI impI)
    fix i assume "i < length (s # shards)"
    then show "\<forall>j \<in> set ((s # shards) ! i). j < length ls \<and> ls ! j = u64_max \<and> r ! j = k + i"
      using first later by (cases i) auto
  qed
  have conv: "r ! j = ls ! j \<or> (\<exists>i < length (s # shards). j \<in> set ((s # shards) ! i) \<and> r ! j = k + i)"
    if j: "j < length ls" for j
  proof (cases "r ! j = m ! j")
    case True
    then show ?thesis using L j first by (cases "j \<in> set s") auto
  next
    case False
    then obtain i where "i < length shards" "j \<in> set (shards ! i)" "r ! j = Suc k + i"
      using IH j L by auto
    then show ?thesis by (intro disjI2 exI[of _ "Suc i"]) auto
  qed
  show ?case using len all conv by blast
qed simp

lemma find_position_None: "find_position P xs = None \<longleftrightarrow> (\<forall>x \<in> set xs. \<not> P x)"
  by (induction xs) auto

text \<open>The bytes that a list of (shard, size) pairs places in one shard.\<close>

definition used_bytes :: "(usize \<times> usize) list \<Rightarrow> usize \<Rightarrow> nat" where
  "used_bytes zs s = sum_list (map snd (filter (\<lambda>z. fst z = s) zs))"

lemma used_bytes_simps [simp]:
  "used_bytes [] s = 0"
  "used_bytes (z # zs) s = (if fst z = s then snd z else 0) + used_bytes zs s"
  "used_bytes (xs @ ys) s = used_bytes xs s + used_bytes ys s"
  by (auto simp: used_bytes_def)

lemma used_bytes_le: "used_bytes zs s \<le> sum_list (map snd zs)"
  by (induction zs) auto

lemma place_layers_ok:
  assumes "\<forall>z \<in> set zs. fst z < length sizes"
    and "\<forall>s < length sizes. sizes ! s + used_bytes zs s \<le> u64_max"
  shows "place_layers zs offs sizes =
     (offs @ map (\<lambda>j. sizes ! fst (zs ! j) + used_bytes (take j zs) (fst (zs ! j))) [0..<length zs],
      map (\<lambda>s. sizes ! s + used_bytes zs s) [0..<length sizes])"
  using assms
proof (induction zs offs sizes rule: place_layers.induct)
  case (1 offs sizes)
  then show ?case by (simp add: map_nth)
next
  case (2 k p rest offs sizes)
  have k: "k < length sizes" using "2.prems"(1) by simp
  let ?sz = "sizes[k := sizes ! k + p]"
  have "sizes ! k + p + used_bytes rest k \<le> u64_max" using "2.prems"(2) k by (auto dest: spec[of _ k])
  then have w: "wrapping_add (sizes ! k) p = sizes ! k + p"
    using u64_max_bound[of "sizes ! k + p"] by (simp add: wrapping_add_def)
  have b: "\<forall>s < length ?sz. ?sz ! s + used_bytes rest s \<le> u64_max"
  proof (intro allI impI)
    fix s assume "s < length ?sz"
    then show "?sz ! s + used_bytes rest s \<le> u64_max"
      using "2.prems"(2) by (cases "s = k") (auto dest: spec[of _ s])
  qed
  have r: "\<forall>z \<in> set rest. fst z < length ?sz" using "2.prems"(1) by simp
  have IH: "place_layers rest (offs @ [sizes ! k]) ?sz =
     ((offs @ [sizes ! k]) @ map (\<lambda>j. ?sz ! fst (rest ! j) + used_bytes (take j rest) (fst (rest ! j))) [0..<length rest],
      map (\<lambda>s. ?sz ! s + used_bytes rest s) [0..<length ?sz])"
    using "2.IH"[unfolded w, OF r b] .
  have o: "map (\<lambda>j. ?sz ! fst (rest ! j) + used_bytes (take j rest) (fst (rest ! j))) [0..<length rest]
      = map (\<lambda>j. sizes ! fst (((k, p) # rest) ! Suc j)
             + used_bytes (take (Suc j) ((k, p) # rest)) (fst (((k, p) # rest) ! Suc j))) [0..<length rest]"
    using k by (auto simp: nth_list_update)
  have s: "map (\<lambda>s. ?sz ! s + used_bytes rest s) [0..<length ?sz]
      = map (\<lambda>s. sizes ! s + used_bytes ((k, p) # rest) s) [0..<length sizes]"
    by (auto simp: nth_list_update)
  show ?case
    using IH o s by (simp add: w upt_conv_Cons map_Suc_upt[symmetric] del: upt_Suc)
qed

lemma used_bytes_mono:
  assumes "i < j" "j < length zs"
  shows "used_bytes (take i zs) (fst (zs ! i)) + snd (zs ! i) \<le> used_bytes (take j zs) (fst (zs ! i))"
proof -
  have e: "take (Suc i) zs = take i zs @ [zs ! i]"
    using assms by (simp add: take_Suc_conv_app_nth)
  have "take j zs = take (Suc i) zs @ drop (Suc i) (take j zs)"
    using assms by (metis Suc_leI append_take_drop_id min.absorb1 take_take)
  then have "used_bytes (take j zs) (fst (zs ! i))
      = used_bytes (take (Suc i) zs) (fst (zs ! i)) + used_bytes (drop (Suc i) (take j zs)) (fst (zs ! i))"
    by (metis used_bytes_simps(3))
  then show ?thesis using e by simp
qed

text \<open>
  What a page layout over \<open>n\<close> layers promises: each layer has a shard, a page holds its
  layers in id order with no gap and no overlap, and the page size is their sum.
\<close>

definition page_wf :: "usize \<Rightarrow> page_layout \<Rightarrow> bool" where
  "page_wf n p =
     (length (p_layer_shard p) = n \<and> length (p_layer_offsets p) = n \<and> length (p_layer_bytes p) = n
      \<and> (\<forall>j < n. p_layer_shard p ! j < length (p_shard_page_sizes p))
      \<and> (\<forall>j < n. p_layer_offsets p ! j
            = (\<Sum>i \<leftarrow> filter (\<lambda>i. p_layer_shard p ! i = p_layer_shard p ! j) [0..<j]. p_layer_bytes p ! i))
      \<and> (\<forall>s < length (p_shard_page_sizes p). p_shard_page_sizes p ! s
            = (\<Sum>i \<leftarrow> filter (\<lambda>i. p_layer_shard p ! i = s) [0..<n]. p_layer_bytes p ! i)))"

lemma used_bytes_zip:
  assumes "j \<le> length xs" "length xs = length ys"
  shows "used_bytes (take j (zip xs ys)) s = (\<Sum>i \<leftarrow> filter (\<lambda>i. xs ! i = s) [0..<j]. ys ! i)"
  using assms by (induction j) (auto simp: take_Suc_conv_app_nth)

lemma distinct_sets_ok:
  "distinct (distinct_sets sets) \<and> set (distinct_sets sets) = set sets \<and> length (distinct_sets sets) \<le> length sets"
proof (induction sets rule: rev_induct)
  case (snoc x xs)
  then show ?case by (auto simp: distinct_sets_def)
qed (simp add: distinct_sets_def)

lemma shards_of_ok:
  "distinct (shards_of sets)" "set (shards_of sets) = set sets" "length (shards_of sets) \<le> length sets"
  using distinct_sets_ok[of sets] by (auto simp: shards_of_def)

lemma build_page_layout_ok:
  assumes b: "build_page_layout sets names padded = Inr p"
    and len: "length padded = length names"
    and fit: "sum_list padded \<le> u64_max" "length sets \<le> u64_max"
  shows "page_wf (length names) p" "p_layer_bytes p = padded"
    "length (p_shard_page_sizes p) = length (shards_of sets)"
    "\<forall>i < length (shards_of sets). \<forall>j. j \<in> set (shards_of sets ! i) \<longleftrightarrow> j < length names \<and> p_layer_shard p ! j = i"
proof -
  let ?sh = "shards_of sets"
  obtain ls where a: "assign_shards names (enumerate 0 ?sh) (replicate (length names) u64_max) = Inr ls"
    and none: "find_position (\<lambda>s. s = u64_max) ls = None"
    and p: "p = (let (offsets, sizes) = place_layers (zip ls padded) [] (replicate (length ?sh) 0)
        in \<lparr>p_layer_shard = ls, p_layer_offsets = offsets, p_layer_bytes = padded, p_shard_page_sizes = sizes\<rparr>)"
    using b by (auto simp: build_page_layout_def Let_def split: sum.splits option.splits prod.splits)
  have "0 + length ?sh \<le> u64_max" using shards_of_ok(3)[of sets] fit by simp
  note A = assign_shards_ok[OF a this]
  have len_ls: "length ls = length names" using A by simp
  have own: "\<exists>i < length ?sh. j \<in> set (?sh ! i) \<and> ls ! j = i" if "j < length names" for j
  proof -
    have "ls ! j \<noteq> u64_max" using none that len_ls by (auto simp: find_position_None)
    then show ?thesis using A that by auto
  qed
  have lt: "\<forall>z \<in> set (zip ls padded). fst z < length (replicate (length ?sh) (0::nat))"
  proof
    fix z assume "z \<in> set (zip ls padded)"
    then have "fst z \<in> set ls" by (metis in_set_zipE prod.collapse)
    then obtain j where "j < length ls" "ls ! j = fst z" by (auto simp: in_set_conv_nth)
    then show "fst z < length (replicate (length ?sh) (0::nat))" using own[of j] len_ls by auto
  qed
  have sum: "used_bytes (zip ls padded) s \<le> u64_max" for s
    using used_bytes_le[of "zip ls padded" s] fit(1) len len_ls by simp
  have pl: "place_layers (zip ls padded) [] (replicate (length ?sh) 0) =
     (map (\<lambda>j. used_bytes (take j (zip ls padded)) (ls ! j)) [0..<length names],
      map (\<lambda>s. used_bytes (zip ls padded) s) [0..<length ?sh])"
  proof -
    have "fst (zip ls padded ! j) = ls ! j" if "j < length names" for j
      using that len len_ls by simp
    moreover have "fst (zip ls padded ! j) < length ?sh" if "j < length names" for j
      using lt that len len_ls by (auto simp: set_zip)
    ultimately show ?thesis
      using place_layers_ok[OF lt, of "[]"] sum len len_ls by (auto simp: map_eq_conv)
  qed
  have P: "p = \<lparr>p_layer_shard = ls,
      p_layer_offsets = map (\<lambda>j. used_bytes (take j (zip ls padded)) (ls ! j)) [0..<length names],
      p_layer_bytes = padded,
      p_shard_page_sizes = map (\<lambda>s. used_bytes (zip ls padded) s) [0..<length ?sh]\<rparr>"
    unfolding p pl by simp
  have full: "used_bytes (zip ls padded) s = (\<Sum>i \<leftarrow> filter (\<lambda>i. ls ! i = s) [0..<length names]. padded ! i)" for s
    using used_bytes_zip[of "length names" ls padded s] len len_ls by simp
  show "page_wf (length names) p"
    using own len len_ls by (auto simp: page_wf_def P used_bytes_zip full)
  show "p_layer_bytes p = padded" "length (p_shard_page_sizes p) = length ?sh" by (simp_all add: P)
  show "\<forall>i < length ?sh. \<forall>j. j \<in> set (?sh ! i) \<longleftrightarrow> j < length names \<and> p_layer_shard p ! j = i"
  proof (intro allI impI iffI)
    fix i j assume "i < length ?sh" "j \<in> set (?sh ! i)"
    then show "j < length names \<and> p_layer_shard p ! j = i" using A by (auto simp: P)
  next
    fix i j assume "j < length names \<and> p_layer_shard p ! j = i"
    then show "j \<in> set (?sh ! i)" using own[of j] by (auto simp: P)
  qed
qed

lemma page_ranges_apart:
  assumes wf: "page_wf n p" and ij: "i < j" "j < n" and same: "p_layer_shard p ! i = p_layer_shard p ! j"
  shows "p_layer_offsets p ! i + p_layer_bytes p ! i \<le> p_layer_offsets p ! j"
proof -
  have l: "length (p_layer_shard p) = n" "length (p_layer_bytes p) = n" using wf by (auto simp: page_wf_def)
  have o: "p_layer_offsets p ! x = used_bytes (take x (zip (p_layer_shard p) (p_layer_bytes p))) (p_layer_shard p ! x)"
    if "x < n" for x
    using wf that l by (auto simp: page_wf_def used_bytes_zip)
  show ?thesis
    using used_bytes_mono[of i j "zip (p_layer_shard p) (p_layer_bytes p)"] ij same l o[of i] o[of j] by simp
qed

lemma page_range_inside:
  assumes wf: "page_wf n p" and i: "i < n"
  shows "p_layer_offsets p ! i + p_layer_bytes p ! i \<le> p_shard_page_sizes p ! (p_layer_shard p ! i)"
proof -
  let ?z = "zip (p_layer_shard p) (p_layer_bytes p)"
  have l: "length (p_layer_shard p) = n" "length (p_layer_bytes p) = n" using wf by (auto simp: page_wf_def)
  have o: "p_layer_offsets p ! i = used_bytes (take i ?z) (p_layer_shard p ! i)"
    using wf i l by (auto simp: page_wf_def used_bytes_zip)
  have s: "p_shard_page_sizes p ! (p_layer_shard p ! i) = used_bytes ?z (p_layer_shard p ! i)"
    using wf i l used_bytes_zip[of n "p_layer_shard p" "p_layer_bytes p" "p_layer_shard p ! i"]
    by (auto simp: page_wf_def)
  have "?z = take i ?z @ ?z ! i # drop (Suc i) ?z" by (rule id_take_nth_drop) (use i l in simp)
  then have "used_bytes ?z (p_layer_shard p ! i) = used_bytes (take i ?z) (p_layer_shard p ! i)
      + used_bytes (?z ! i # drop (Suc i) ?z) (p_layer_shard p ! i)"
    by (metis used_bytes_simps(3))
  then show ?thesis using o s i l by simp
qed

lemma sum_list_dvd: "\<forall>x \<in> set xs. (a::nat) dvd f x \<Longrightarrow> a dvd (\<Sum>x \<leftarrow> xs. f x)"
  by (induction xs) auto

lemma page_aligned:
  assumes wf: "page_wf n p" and al: "\<forall>j < n. a dvd p_layer_bytes p ! j"
  shows "j < n \<Longrightarrow> a dvd p_layer_offsets p ! j"
    "s < length (p_shard_page_sizes p) \<Longrightarrow> a dvd p_shard_page_sizes p ! s"
  using wf al by (auto simp: page_wf_def intro!: sum_list_dvd)

section \<open>What sealing establishes\<close>

lemma merge_geometry_ok:
  assumes "merge_geometry xs m = Inr r"
  shows "fst ` set r = fst ` set m \<union> (\<lambda>(g, n, l). n) ` set xs
     \<and> (distinct (map fst m) \<longrightarrow> distinct (map fst r))
     \<and> (\<forall>n v. map_of m n = Some v \<longrightarrow> map_of r n = Some v)
     \<and> (\<forall>(g, n, l) \<in> set xs. map_of r n = Some (geometry_of l))"
  using assms
proof (induction xs m rule: merge_geometry.induct)
  case (2 g name l rest m)
  let ?m = "hm_insert name (geometry_of l) m"
  have ok: "merge_geometry rest ?m = Inr r"
    and old: "map_of m name = None \<or> map_of m name = Some (geometry_of l)"
    using "2.prems" by (auto split: option.splits if_splits)
  have IH: "fst ` set r = fst ` set ?m \<union> (\<lambda>(g, n, l). n) ` set rest
     \<and> (distinct (map fst ?m) \<longrightarrow> distinct (map fst r))
     \<and> (\<forall>n v. map_of ?m n = Some v \<longrightarrow> map_of r n = Some v)
     \<and> (\<forall>(g, n, l) \<in> set rest. map_of r n = Some (geometry_of l))"
    using old
  proof
    assume "map_of m name = None"
    then show ?thesis using "2.IH"(1) ok by simp
  next
    assume "map_of m name = Some (geometry_of l)"
    then show ?thesis using "2.IH"(2)[of "geometry_of l"] ok by simp
  qed
  have k: "fst ` set ?m = insert name (fst ` set m)"
    using dom_update[of name "geometry_of l" m] by (simp add: dom_map_of_conv_image_fst)
  have d: "distinct (map fst m) \<longrightarrow> distinct (map fst ?m)" by (simp add: distinct_update)
  have keep: "map_of r n = Some v" if "map_of ?m n = Some v" for n v
    using IH that by blast
  have g: "map_of r name = Some (geometry_of l)" by (rule keep) (simp add: update_conv')
  have old_kept: "\<forall>n v. map_of m n = Some v \<longrightarrow> map_of r n = Some v"
  proof (intro allI impI)
    fix n v assume n: "map_of m n = Some v"
    show "map_of r n = Some v"
    proof (cases "n = name")
      case True
      then show ?thesis using n old g by auto
    next
      case False
      then have "map_of ?m n = Some v" using n by (simp add: update_conv')
      then show ?thesis by (rule keep)
    qed
  qed
  have names: "fst ` set r = fst ` set m \<union> (\<lambda>(g, n, l). n) ` set ((g, name, l) # rest)"
    using IH k by simp
  have "\<forall>x \<in> set rest. (case x of (g, n, l) \<Rightarrow> map_of r n = Some (geometry_of l))"
    using IH by (elim conjE)
  then have "\<forall>(g, n, l) \<in> set ((g, name, l) # rest). map_of r n = Some (geometry_of l)"
    using g by simp
  moreover have "distinct (map fst m) \<longrightarrow> distinct (map fst r)" using IH d by blast
  ultimately show ?case using old_kept names by (intro conjI)
qed simp

lemma sorted_names_eq:
  assumes "distinct (map fst m)"
  shows "sorted_names m = sorted_list_of_set (fst ` set m)"
  using assms sorted_list_of_set_sort_remdups[of "map fst m"] by (simp add: sorted_names_def distinct_remdups_id)

lemma name_ids_get:
  assumes "distinct names"
  shows "map_of (name_ids names) n = Some i \<longleftrightarrow> i < length names \<and> names ! i = n"
proof -
  have e: "name_ids names = zip names [0..<length names]"
    by (rule nth_equalityI) (auto simp: name_ids_def nth_enumerate_eq)
  show ?thesis
    using assms by (auto simp: e map_of_zip_nth in_set_zip dest!: map_of_SomeD)
qed

lemma name_ids_length [simp]: "length (name_ids names) = length names"
  by (simp add: name_ids_def)

lemma name_ids_keys: "map fst (name_ids names) = names"
  by (rule nth_equalityI) (auto simp: name_ids_def nth_enumerate_eq)

definition cell :: "usize \<Rightarrow> (string, usize) hmap \<Rightarrow> gpu_context \<Rightarrow> string \<Rightarrow> nat" where
  "cell tp ids g n = the (map_of ids n) * tp + g_tp_rank g"

lemma claim_grid_ok:
  assumes "claim_grid tp ids xs owners = Inr r"
  shows "length r = length owners
     \<and> (\<forall>c pp d. c < length owners \<longrightarrow> owners ! c = Some (d, pp) \<longrightarrow> r ! c = Some (d, pp))
     \<and> (\<forall>c < length owners. owners ! c = None \<longrightarrow> r ! c \<noteq> None \<longrightarrow>
           (\<exists>(g, n, l) \<in> set xs. n \<in> dom (map_of ids) \<and> cell tp ids g n = c))
     \<and> (\<forall>(g, n, l) \<in> set xs. n \<in> dom (map_of ids) \<and> cell tp ids g n < length owners
           \<and> (\<exists>d. r ! cell tp ids g n = Some (d, g_pp_rank g)))"
  using assms
proof (induction tp ids xs owners rule: claim_grid.induct)
  case (2 tp ids g name l rest owners)
  obtain i where i: "map_of ids name = Some i" using "2.prems" by (auto split: option.splits)
  let ?c = "cell tp ids g name"
  have c: "i * tp + g_tp_rank g = ?c" using i by (simp add: cell_def)
  have lt: "?c < length owners" using "2.prems" i c by (auto simp: Let_def split: if_splits)
  show ?case
  proof (cases "owners ! ?c")
    case None
    let ?o = "owners[?c := Some (g_device_id g, g_pp_rank g)]"
    have ok: "claim_grid tp ids rest ?o = Inr r"
      using "2.prems" i c lt None by (simp add: Let_def)
    have IH: "length r = length ?o
     \<and> (\<forall>c pp d. c < length ?o \<longrightarrow> ?o ! c = Some (d, pp) \<longrightarrow> r ! c = Some (d, pp))
     \<and> (\<forall>c < length ?o. ?o ! c = None \<longrightarrow> r ! c \<noteq> None \<longrightarrow>
           (\<exists>(g, n, l) \<in> set rest. n \<in> dom (map_of ids) \<and> cell tp ids g n = c))
     \<and> (\<forall>(g, n, l) \<in> set rest. n \<in> dom (map_of ids) \<and> cell tp ids g n < length ?o
           \<and> (\<exists>d. r ! cell tp ids g n = Some (d, g_pp_rank g)))"
      using "2.IH"(1)[OF i c[symmetric] _ None] ok lt by simp
    have here: "r ! ?c = Some (g_device_id g, g_pp_rank g)" using IH lt by simp
    have kept: "\<forall>c pp d. c < length owners \<longrightarrow> owners ! c = Some (d, pp) \<longrightarrow> r ! c = Some (d, pp)"
    proof (intro allI impI)
      fix c pp d assume a: "c < length owners" "owners ! c = Some (d, pp)"
      then have "c \<noteq> ?c" using None by auto
      then have "?o ! c = Some (d, pp)" "c < length ?o" using a by simp_all
      then show "r ! c = Some (d, pp)" using IH by blast
    qed
    have claimed: "\<forall>c < length owners. owners ! c = None \<longrightarrow> r ! c \<noteq> None \<longrightarrow>
           (\<exists>(g, n, l) \<in> set ((g, name, l) # rest). n \<in> dom (map_of ids) \<and> cell tp ids g n = c)"
    proof (intro allI impI)
      fix c assume a: "c < length owners" "owners ! c = None" "r ! c \<noteq> None"
      show "\<exists>(g, n, l) \<in> set ((g, name, l) # rest). n \<in> dom (map_of ids) \<and> cell tp ids g n = c"
      proof (cases "c = ?c")
        case True
        then show ?thesis using i by auto
      next
        case False
        then have "?o ! c = None" "c < length ?o" using a by simp_all
        then show ?thesis using IH a by simp
      qed
    qed
    have rest: "\<forall>(g, n, l) \<in> set rest. n \<in> dom (map_of ids) \<and> cell tp ids g n < length owners
           \<and> (\<exists>d. r ! cell tp ids g n = Some (d, g_pp_rank g))"
      using IH by simp
    have "\<forall>(g, n, l) \<in> set ((g, name, l) # rest). n \<in> dom (map_of ids) \<and> cell tp ids g n < length owners
           \<and> (\<exists>d. r ! cell tp ids g n = Some (d, g_pp_rank g))"
      using rest here i lt by (simp add: domI)
    moreover have "length r = length owners" using IH by simp
    ultimately show ?thesis using kept claimed by blast
  next
    case (Some o')
    obtain d pp where o: "o' = (d, pp)" by (cases o')
    have pp: "pp = g_pp_rank g" and ok: "claim_grid tp ids rest owners = Inr r"
      using "2.prems" i c lt Some o by (auto simp: Let_def split: if_splits)
    have IH: "length r = length owners
     \<and> (\<forall>c pp d. c < length owners \<longrightarrow> owners ! c = Some (d, pp) \<longrightarrow> r ! c = Some (d, pp))
     \<and> (\<forall>c < length owners. owners ! c = None \<longrightarrow> r ! c \<noteq> None \<longrightarrow>
           (\<exists>(g, n, l) \<in> set rest. n \<in> dom (map_of ids) \<and> cell tp ids g n = c))
     \<and> (\<forall>(g, n, l) \<in> set rest. n \<in> dom (map_of ids) \<and> cell tp ids g n < length owners
           \<and> (\<exists>d. r ! cell tp ids g n = Some (d, g_pp_rank g)))"
      using "2.IH"(2)[OF i c[symmetric] _ Some o[symmetric]] ok lt pp by simp
    have here: "r ! ?c = Some (d, g_pp_rank g)" using IH lt Some o pp by simp
    have rest: "\<forall>(g, n, l) \<in> set rest. n \<in> dom (map_of ids) \<and> cell tp ids g n < length owners
           \<and> (\<exists>d. r ! cell tp ids g n = Some (d, g_pp_rank g))"
      using IH by blast
    have "\<forall>(g, n, l) \<in> set ((g, name, l) # rest). n \<in> dom (map_of ids) \<and> cell tp ids g n < length owners
           \<and> (\<exists>d. r ! cell tp ids g n = Some (d, g_pp_rank g))"
      using rest here i lt by (simp add: domI)
    moreover have "\<forall>c < length owners. owners ! c = None \<longrightarrow> r ! c \<noteq> None \<longrightarrow>
           (\<exists>(g, n, l) \<in> set ((g, name, l) # rest). n \<in> dom (map_of ids) \<and> cell tp ids g n = c)"
      using IH by simp
    ultimately show ?thesis using IH by blast
  qed
qed simp

definition layer_names :: "gpu_context list \<Rightarrow> string set" where
  "layer_names gpus = (\<Union>g \<in> set gpus. fst ` set (g_kv_caches g))"

lemma registered_names: "(\<lambda>(g, n, l). n) ` set (registered_layers gpus) = layer_names gpus"
  by (force simp: registered_layers_def layer_names_def)

lemma registered_iff:
  "(g, n, l) \<in> set (registered_layers gpus) \<longleftrightarrow> g \<in> set gpus \<and> (n, l) \<in> set (g_kv_caches g)"
  by (force simp: registered_layers_def)

lemma finite_layer_names [simp]: "finite (layer_names gpus)"
  by (simp add: layer_names_def)

abbreviation sealed_names :: "gpu_context list \<Rightarrow> string list" where
  "sealed_names gpus \<equiv> sorted_list_of_set (layer_names gpus)"

text \<open>The page layout of a sealed topology, computed with the sizes of \<open>geometry\<close>.\<close>

definition sealed_pages :: "bool \<Rightarrow> gpu_context list \<Rightarrow> (string, geometry) hmap \<Rightarrow> layer_topology \<Rightarrow> bool" where
  "sealed_pages pf gpus geometry t =
     (if pf then \<exists>p. t_page_layout t = Some p \<and>
        build_page_layout (map (worker_layer_set (name_ids (sealed_names gpus))) gpus) (sealed_names gpus)
          (map (\<lambda>n. snd (snd (the (map_of geometry n)))) (sealed_names gpus)) = Inr p
      else t_page_layout t = None)"

text \<open>The successful branch of sealing, in terms of what was registered.\<close>

lemma seal_topology_ok:
  assumes "seal_topology tp pf gpus = Inr t"
  obtains geometry owners where
    "\<forall>(g, n, l) \<in> set (registered_layers gpus). map_of geometry n = Some (geometry_of l)"
    "t_name_to_id t = name_ids (sealed_names gpus)" "t_tp_size t = tp"
    "claim_grid tp (name_ids (sealed_names gpus)) (registered_layers gpus)
       (replicate (length (sealed_names gpus) * tp) None) = Inr owners"
    "None \<notin> set owners"
    "sealed_pages pf gpus geometry t"
proof -
  obtain geometry where m: "merge_geometry (registered_layers gpus) [] = Inr geometry"
    using assms by (auto simp: seal_topology_def split: sum.splits)
  note M = merge_geometry_ok[OF m]
  have names: "sorted_names geometry = sealed_names gpus"
    using M by (simp add: sorted_names_eq registered_names)
  obtain owners where o: "claim_grid tp (name_ids (sealed_names gpus)) (registered_layers gpus)
       (replicate (length (sealed_names gpus) * tp) None) = Inr owners"
    using assms m names by (auto simp: seal_topology_def Let_def split: sum.splits)
  have none: "find_position (\<lambda>o'. o' = None) owners = None"
    using assms m names o by (auto simp: seal_topology_def Let_def split: option.splits)
  show thesis
  proof (rule that[OF _ _ _ o])
    show "\<forall>(g, n, l) \<in> set (registered_layers gpus). map_of geometry n = Some (geometry_of l)"
      using M by blast
    show "None \<notin> set owners" using none by (auto simp: find_position_None)
    show "t_name_to_id t = name_ids (sealed_names gpus)" "t_tp_size t = tp"
      "sealed_pages pf gpus geometry t"
      using assms m names o none
      by (auto simp: sealed_pages_def seal_topology_def Let_def split: if_splits sum.splits)
  qed
qed

lemma sealed_page_wf:
  assumes s: "seal_topology tp pf gpus = Inr t" and p: "t_page_layout t = Some p"
    and fit: "length gpus \<le> u64_max" "sum_list (p_layer_bytes p) \<le> u64_max"
  shows "page_wf (num_layers t) p"
proof -
  obtain geometry where ids: "t_name_to_id t = name_ids (sealed_names gpus)"
    and "sealed_pages pf gpus geometry t"
    by (rule seal_topology_ok[OF s]) (rule that)
  then have b: "build_page_layout (map (worker_layer_set (name_ids (sealed_names gpus))) gpus)
        (sealed_names gpus) (map (\<lambda>n. snd (snd (the (map_of geometry n)))) (sealed_names gpus)) = Inr p"
    using p by (auto simp: sealed_pages_def split: if_splits)
  have "p_layer_bytes p = map (\<lambda>n. snd (snd (the (map_of geometry n)))) (sealed_names gpus)"
    using b by (auto simp: build_page_layout_def Let_def split: sum.splits option.splits prod.splits)
  then have "sum_list (map (\<lambda>n. snd (snd (the (map_of geometry n)))) (sealed_names gpus)) \<le> u64_max"
    using fit(2) by simp
  then show ?thesis
    using build_page_layout_ok(1)[OF b] fit(1) ids by (simp add: num_layers_def)
qed

lemma sealed_modes:
  assumes "seal_topology tp pf gpus = Inr t"
  shows "t_tp_size t = tp" "t_page_layout t = None \<longleftrightarrow> \<not> pf"
  by (rule seal_topology_ok[OF assms]; auto simp: sealed_pages_def split: if_splits)+

lemma slot_index_Inr:
  "slot_index t i r = Inr s \<longleftrightarrow>
     i < num_layers t \<and> r < t_tp_size t
     \<and> s = (case t_page_layout t of Some p \<Rightarrow> p_layer_shard p ! i | None \<Rightarrow> i * t_tp_size t + r)"
  by (auto simp: slot_index_def)

lemma grid_unique:
  assumes "(i::nat) * n + r = j * n + q" "r < n" "q < n"
  shows "i = j \<and> r = q"
proof -
  have "(i * n + r) div n = i" "(j * n + q) div n = j" using assms(2,3) by simp_all
  then have "i = j" using assms(1) by simp
  then show ?thesis using assms(1) by simp
qed

lemma sealed_slots:
  assumes s: "seal_topology tp pf gpus = Inr t" and gl: "length gpus \<le> u64_max"
    and fit: "\<forall>p. t_page_layout t = Some p \<longrightarrow> sum_list (p_layer_bytes p) \<le> u64_max"
  shows "\<forall>i < num_layers t. \<forall>r < tp. \<exists>k < total_slots_of t. slot_index t i r = Inr k"
    and "\<not> pf \<longrightarrow> (\<forall>i r j q k. slot_index t i r = Inr k \<longrightarrow> slot_index t j q = Inr k \<longrightarrow> i = j \<and> r = q)"
    and "pf \<longrightarrow> (\<forall>i r k. slot_index t i r = Inr k \<longrightarrow>
           (\<exists>off len page. page_placement t i = Some (off, len) \<and> shard_page_size t k = Some page
              \<and> off + len \<le> page
              \<and> (\<forall>j q off' len'. i < j \<longrightarrow> slot_index t j q = Inr k
                   \<longrightarrow> page_placement t j = Some (off', len') \<longrightarrow> off + len \<le> off')
              \<and> (\<forall>a. (\<forall>j < num_layers t. \<forall>o' b. page_placement t j = Some (o', b) \<longrightarrow> a dvd b)
                   \<longrightarrow> a dvd off \<and> a dvd page)))"
proof -
  note m = sealed_modes[OF s]
  have wf: "page_wf (num_layers t) p" if "t_page_layout t = Some p" for p
    using sealed_page_wf[OF s that gl] fit that by blast
  show "\<forall>i < num_layers t. \<forall>r < tp. \<exists>k < total_slots_of t. slot_index t i r = Inr k"
  proof (intro allI impI)
    fix i r assume i: "i < num_layers t" "r < tp"
    have "i * tp + r < num_layers t * tp"
    proof -
      have "i * tp + r < Suc i * tp" using i by simp
      also have "\<dots> \<le> num_layers t * tp" using i by (intro mult_le_mono1) simp
      finally show ?thesis .
    qed
    then show "\<exists>k < total_slots_of t. slot_index t i r = Inr k"
      using i m wf by (auto simp: slot_index_Inr total_slots_of_def page_wf_def split: option.splits)
  qed
  show "\<not> pf \<longrightarrow> (\<forall>i r j q k. slot_index t i r = Inr k \<longrightarrow> slot_index t j q = Inr k \<longrightarrow> i = j \<and> r = q)"
  proof (intro impI allI)
    fix i r j q k assume "\<not> pf" "slot_index t i r = Inr k" "slot_index t j q = Inr k"
    then have "i * tp + r = j * tp + q" "r < tp" "q < tp" using m by (auto simp: slot_index_Inr)
    then show "i = j \<and> r = q" by (rule grid_unique)
  qed
  show "pf \<longrightarrow> (\<forall>i r k. slot_index t i r = Inr k \<longrightarrow>
           (\<exists>off len page. page_placement t i = Some (off, len) \<and> shard_page_size t k = Some page
              \<and> off + len \<le> page
              \<and> (\<forall>j q off' len'. i < j \<longrightarrow> slot_index t j q = Inr k
                   \<longrightarrow> page_placement t j = Some (off', len') \<longrightarrow> off + len \<le> off')
              \<and> (\<forall>a. (\<forall>j < num_layers t. \<forall>o' b. page_placement t j = Some (o', b) \<longrightarrow> a dvd b)
                   \<longrightarrow> a dvd off \<and> a dvd page)))"
  proof (intro impI allI)
    fix i r k assume pf and k: "slot_index t i r = Inr k"
    then obtain p where p: "t_page_layout t = Some p" using m by auto
    note w = wf[OF p]
    have i: "i < num_layers t" and kp: "k = p_layer_shard p ! i" using k p by (auto simp: slot_index_Inr)
    have pg: "k < length (p_shard_page_sizes p)" using w i kp by (auto simp: page_wf_def)
    show "\<exists>off len page. page_placement t i = Some (off, len) \<and> shard_page_size t k = Some page
              \<and> off + len \<le> page
              \<and> (\<forall>j q off' len'. i < j \<longrightarrow> slot_index t j q = Inr k
                   \<longrightarrow> page_placement t j = Some (off', len') \<longrightarrow> off + len \<le> off')
              \<and> (\<forall>a. (\<forall>j < num_layers t. \<forall>o' b. page_placement t j = Some (o', b) \<longrightarrow> a dvd b)
                   \<longrightarrow> a dvd off \<and> a dvd page)"
      using page_range_inside[OF w i] page_ranges_apart[OF w, of i] page_aligned[OF w] i kp pg p
      by (auto simp: page_placement_def shard_page_size_def slot_index_Inr)
  qed
qed

text \<open>
  C30. The storage slots of a sealed instance: every layer and tensor-parallel rank has a slot
  within the block. Layer-first, no two of them share one. Page-first, the layers of one slot
  lie in disjoint ranges, in id order, inside the page of that slot, at multiples of any
  alignment the layer sizes have.
\<close>

theorem sealed_slots_sound:
  assumes "seal_topology tp pf gpus = Inr t" and "length gpus \<le> u64_max"
    and "\<forall>p. t_page_layout t = Some p \<longrightarrow> sum_list (p_layer_bytes p) \<le> u64_max"
  shows "(\<forall>i < num_layers t. \<forall>r < tp. \<exists>k < total_slots_of t. slot_index t i r = Inr k)
    \<and> (\<not> pf \<longrightarrow> (\<forall>i r j q k. slot_index t i r = Inr k \<longrightarrow> slot_index t j q = Inr k \<longrightarrow> i = j \<and> r = q))
    \<and> (pf \<longrightarrow> (\<forall>i r k. slot_index t i r = Inr k \<longrightarrow>
           (\<exists>off len page. page_placement t i = Some (off, len) \<and> shard_page_size t k = Some page
              \<and> off + len \<le> page
              \<and> (\<forall>j q off' len'. i < j \<longrightarrow> slot_index t j q = Inr k
                   \<longrightarrow> page_placement t j = Some (off', len') \<longrightarrow> off + len \<le> off')
              \<and> (\<forall>a. (\<forall>j < num_layers t. \<forall>o' b. page_placement t j = Some (o', b) \<longrightarrow> a dvd b)
                   \<longrightarrow> a dvd off \<and> a dvd page))))"
  using sealed_slots[OF assms] by (intro conjI)

section \<open>Sealing does not depend on the order of registration\<close>

lemma worker_layer_set_eq:
  "worker_layer_set ids g = sorted_list_of_set ((\<lambda>n. the (map_of ids n)) ` fst ` set (g_kv_caches g))"
proof -
  have "map (\<lambda>(name, _). the (hm_get ids name)) (g_kv_caches g)
      = map (\<lambda>n. the (map_of ids n)) (map fst (g_kv_caches g))" by auto
  then show ?thesis
    unfolding worker_layer_set_def by (simp only: sorted_list_of_set_sort_remdups[symmetric] set_map)
qed

lemma shards_unique:
  assumes "set xs = set ys" and "inj_on min_layer (set xs)"
  shows "shards_of xs = shards_of ys"
proof (rule map_sorted_distinct_set_unique[where f = min_layer])
  show "inj_on min_layer (set (shards_of xs) \<union> set (shards_of ys))"
    using assms by (simp add: shards_of_ok)
  show "sorted (map min_layer (shards_of xs))" "sorted (map min_layer (shards_of ys))"
    by (simp_all add: shards_of_def)
  show "distinct (map min_layer (shards_of xs))" "distinct (map min_layer (shards_of ys))"
    using assms shards_of_ok[of xs] shards_of_ok[of ys] by (simp_all add: distinct_map)
  show "set (shards_of xs) = set (shards_of ys)" using assms by (simp add: shards_of_ok)
qed

lemma build_min_inj:
  assumes b: "build_page_layout sets names padded = Inr p" and l: "length padded = length names"
    and fit: "sum_list padded \<le> u64_max" "length sets \<le> u64_max" and ne: "[] \<notin> set sets"
  shows "inj_on min_layer (set sets)"
proof (rule inj_onI)
  fix x y assume x: "x \<in> set sets" and y: "y \<in> set sets" and eq: "min_layer x = min_layer y"
  note B = build_page_layout_ok(4)[OF b l fit]
  obtain i where i: "i < length (shards_of sets)" "x = shards_of sets ! i"
    using x shards_of_ok(2)[of sets] by (metis in_set_conv_nth)
  obtain j where j: "j < length (shards_of sets)" "y = shards_of sets ! j"
    using y shards_of_ok(2)[of sets] by (metis in_set_conv_nth)
  have "x \<noteq> []" "y \<noteq> []" using ne x y by auto
  then have "min_layer x \<in> set x" "min_layer y \<in> set y"
    by (auto simp: min_layer_def split: list.splits)
  then have "i = p_layer_shard p ! min_layer x" "j = p_layer_shard p ! min_layer y"
    using B i j by auto
  then show "x = y" using eq i j by simp
qed

lemma same_geometry:
  assumes "\<forall>(g, n, l) \<in> set xs. map_of m n = Some (geometry_of l)"
    and "\<forall>(g, n, l) \<in> set ys. map_of m' n = Some (geometry_of l)"
    and "(\<lambda>(g, n, l). (n, padded_block_bytes l)) ` set xs = (\<lambda>(g, n, l). (n, padded_block_bytes l)) ` set ys"
    and "n \<in> (\<lambda>(g, n, l). n) ` set xs"
  shows "snd (snd (the (map_of m n))) = snd (snd (the (map_of m' n)))"
proof -
  obtain g l where x: "(g, n, l) \<in> set xs" using assms(4) by auto
  then have "(n, padded_block_bytes l) \<in> (\<lambda>(g, n, l). (n, padded_block_bytes l)) ` set ys"
    using assms(3) by force
  then obtain g' l' where y: "(g', n, l') \<in> set ys" "padded_block_bytes l' = padded_block_bytes l" by auto
  have "map_of m n = Some (geometry_of l)" "map_of m' n = Some (geometry_of l')"
    using assms(1,2) x y by blast+
  then show ?thesis using y by (simp add: geometry_of_def)
qed

text \<open>
  C31. Two instances of the same deployment agree. If both seal, with the same parallelism and
  mode, over workers that registered the same layer sets with the same padded sizes (in any
  number, on any devices, in any order), then they have the same ids, slots and page offsets.
\<close>

theorem topology_agreement:
  assumes s: "seal_topology tp pf gs = Inr t" and s': "seal_topology tp pf gs' = Inr t'"
    and sizes: "(\<lambda>(g, n, l). (n, padded_block_bytes l)) ` set (registered_layers gs)
              = (\<lambda>(g, n, l). (n, padded_block_bytes l)) ` set (registered_layers gs')"
    and workers: "(\<lambda>g. fst ` set (g_kv_caches g)) ` set gs = (\<lambda>g. fst ` set (g_kv_caches g)) ` set gs'"
    and ne: "\<forall>g \<in> set gs. g_kv_caches g \<noteq> []" and gl: "length gs \<le> u64_max"
    and fit: "\<forall>p. t_page_layout t = Some p \<longrightarrow> sum_list (p_layer_bytes p) \<le> u64_max"
  shows "t = t'"
proof -
  have names: "layer_names gs' = layer_names gs"
    using arg_cong[OF workers, of Union] by (simp add: layer_names_def)
  obtain m where m: "\<forall>(g, n, l) \<in> set (registered_layers gs). map_of m n = Some (geometry_of l)"
    "t_name_to_id t = name_ids (sealed_names gs)" "t_tp_size t = tp"
    and b: "sealed_pages pf gs m t"
    by (rule seal_topology_ok[OF s]) (rule that)
  obtain m' where m': "\<forall>(g, n, l) \<in> set (registered_layers gs'). map_of m' n = Some (geometry_of l)"
    "t_name_to_id t' = name_ids (sealed_names gs')" "t_tp_size t' = tp"
    and b': "sealed_pages pf gs' m' t'"
    by (rule seal_topology_ok[OF s']) (rule that)
  let ?ids = "name_ids (sealed_names gs)"
  let ?sets = "map (worker_layer_set ?ids) gs" and ?sets' = "map (worker_layer_set ?ids) gs'"
  let ?pad = "map (\<lambda>n. snd (snd (the (map_of m n)))) (sealed_names gs)"
  have pad: "map (\<lambda>n. snd (snd (the (map_of m' n)))) (sealed_names gs) = ?pad"
    using same_geometry[OF m(1) m'(1) sizes] by (auto simp: registered_names)
  have "t_page_layout t = t_page_layout t'"
  proof (cases pf)
    case True
    then obtain p p' where p: "t_page_layout t = Some p"
      "build_page_layout ?sets (sealed_names gs) ?pad = Inr p"
      and p': "t_page_layout t' = Some p'"
      "build_page_layout ?sets' (sealed_names gs) ?pad = Inr p'"
      using b b' by (auto simp: sealed_pages_def names pad)
    have "p_layer_bytes p = ?pad"
      using p(2) by (auto simp: build_page_layout_def Let_def split: sum.splits option.splits prod.splits)
    then have sum: "sum_list ?pad \<le> u64_max" using fit p(1) by auto
    have "set ?sets = (\<lambda>S. sorted_list_of_set ((\<lambda>n. the (map_of ?ids n)) ` S)) ` (\<lambda>g. fst ` set (g_kv_caches g)) ` set gs"
      by (simp add: image_image worker_layer_set_eq)
    also have "\<dots> = set ?sets'"
      unfolding workers by (simp add: image_image worker_layer_set_eq)
    finally have sets: "set ?sets = set ?sets'" .
    have "[] \<notin> set ?sets"
      using ne by (auto simp: worker_layer_set_def dest!: arg_cong[of "[]" _ set])
    then have "inj_on min_layer (set ?sets)"
      using build_min_inj[OF p(2) _ sum] gl by simp
    then have "shards_of ?sets = shards_of ?sets'" by (rule shards_unique[OF sets])
    then have "build_page_layout ?sets (sealed_names gs) ?pad = build_page_layout ?sets' (sealed_names gs) ?pad"
      by (simp only: build_page_layout_def)
    then show ?thesis using p p' by simp
  next
    case False
    then show ?thesis using b b' by (simp add: sealed_pages_def)
  qed
  then show ?thesis using m m' names by (intro layer_topology.equality) simp_all
qed

section \<open>Registration\<close>

text \<open>
  Concurrent registrations: a worker passes the first checks and builds its context outside the
  lock, then attaches it under the lock, in any interleaving with other workers. The
  state is the instance and the contexts built and not yet attached.
\<close>

inductive reg_step :: "(int \<Rightarrow> bool) \<Rightarrow> instance_context \<times> gpu_context list \<Rightarrow>
    instance_context \<times> gpu_context list \<Rightarrow> bool" for device_ok where
  reg_check: "check_registration device_ok g i = Inr ctx \<Longrightarrow> reg_step device_ok (i, ps) (i, ps @ [ctx])"
| reg_attach: "attach_gpu ctx i = (r, i') \<Longrightarrow> reg_step device_ok (i, xs @ ctx # ys) (i', xs @ ys)"

definition gpu_ok :: "usize \<Rightarrow> gpu_context \<Rightarrow> bool" where
  "gpu_ok tp g = (g_tp_rank g < tp \<and> g_kv_caches g \<noteq> [] \<and> 0 \<le> g_device_id g)"

definition reg_inv :: "usize \<Rightarrow> usize \<Rightarrow> bool \<Rightarrow> instance_context \<times> gpu_context list \<Rightarrow> bool" where
  "reg_inv tp world pf = (\<lambda>(i, ps).
     i_tp_size i = tp \<and> i_world_size i = world \<and> i_page_first i = pf
     \<and> (\<forall>g \<in> set ps. gpu_ok tp g)
     \<and> hm_wf (i_gpu_contexts i)
     \<and> (\<forall>(d, g) \<in> set (i_gpu_contexts i). g_device_id g = d \<and> gpu_ok tp g)
     \<and> length (i_gpu_contexts i) \<le> world
     \<and> (i_topology i = None \<longleftrightarrow> length (i_gpu_contexts i) < world)
     \<and> (\<forall>t. i_topology i = Some t \<longrightarrow> seal_topology tp pf (map snd (i_gpu_contexts i)) = Inr t))"

lemma check_registration_ok:
  "check_registration device_ok g i = Inr ctx \<Longrightarrow> gpu_ok (i_tp_size i) ctx"
  by (auto simp: check_registration_def build_gpu_context_def gpu_ok_def split: if_splits sum.splits)

lemma hm_insert_fresh: "k \<notin> fst ` set m \<Longrightarrow> hm_insert k v m = m @ [(k, v)]"
  by (induction m) auto

lemma ensure_accepting_ok:
  "ensure_accepting d i = Inr u \<longleftrightarrow> d \<notin> fst ` set (i_gpu_contexts i) \<and> i_topology i = None"
  by (auto simp: ensure_accepting_def hm_contains_def map_of_eq_None_iff[symmetric] split: option.splits)

lemma attach_gpu_cases:
  assumes "attach_gpu g i = (r, i')"
  obtains (rejected) e where "r = Inl e" "i' = i"
  | (joined) "r = Inr ()" "g_device_id g \<notin> fst ` set (i_gpu_contexts i)" "i_topology i = None"
      "length (i_gpu_contexts i) + 1 \<noteq> i_world_size i"
      "i' = i\<lparr>i_gpu_contexts := i_gpu_contexts i @ [(g_device_id g, g)]\<rparr>"
  | (sealed) t where "r = Inr ()" "g_device_id g \<notin> fst ` set (i_gpu_contexts i)" "i_topology i = None"
      "length (i_gpu_contexts i) + 1 = i_world_size i"
      "seal_topology (i_tp_size i) (i_page_first i) (map snd (i_gpu_contexts i) @ [g]) = Inr t"
      "i' = i\<lparr>i_gpu_contexts := i_gpu_contexts i @ [(g_device_id g, g)], i_topology := Some t\<rparr>"
proof (cases "ensure_accepting (g_device_id g) i")
  case (Inl e)
  then have "r = Inl e" "i' = i" using assms by (simp_all add: attach_gpu_def)
  then show thesis by (rule rejected)
next
  case (Inr u)
  note E = iffD1[OF ensure_accepting_ok Inr]
  note F = hm_insert_fresh[OF conjunct1[OF E], of g]
  show thesis
  proof (cases "length (i_gpu_contexts i) + 1 = i_world_size i")
    case full: True
    show thesis
    proof (cases "seal_topology (i_tp_size i) (i_page_first i) (map snd (i_gpu_contexts i) @ [g])")
      case (Inl e)
      then have "r = Inl e" "i' = i" using assms \<open>ensure_accepting (g_device_id g) i = Inr u\<close> full
        by (simp_all add: attach_gpu_def)
      then show thesis by (rule rejected)
    next
      case (Inr t)
      then show thesis
        using assms \<open>ensure_accepting (g_device_id g) i = Inr u\<close> full E F
        by (intro sealed[of t]) (auto simp: attach_gpu_def)
    qed
  next
    case False
    then show thesis using assms Inr E F by (intro joined) (auto simp: attach_gpu_def)
  qed
qed

lemma reg_step_inv:
  assumes "reg_step device_ok a b" and "reg_inv tp world pf a"
  shows "reg_inv tp world pf b"
  using assms
proof (induction rule: reg_step.induct)
  case (reg_check g i ctx ps)
  then show ?case using check_registration_ok[OF reg_check(1)] by (auto simp: reg_inv_def)
next
  case (reg_attach ctx i r i' xs ys)
  have ctx: "gpu_ok tp ctx" using reg_attach(2) by (simp add: reg_inv_def)
  have inv: "reg_inv tp world pf (i, xs @ ys)" using reg_attach(2) by (simp add: reg_inv_def)
  from reg_attach(1) show ?case
  proof (cases rule: attach_gpu_cases)
    case rejected
    then show ?thesis using inv by simp
  next
    case joined
    then show ?thesis using inv ctx by (auto simp: reg_inv_def hm_wf_def)
  next
    case (sealed t)
    then show ?thesis using inv ctx by (auto simp: reg_inv_def hm_wf_def)
  qed
qed

lemma reg_steps_inv:
  assumes "(reg_step device_ok)\<^sup>*\<^sup>* a b" and "reg_inv tp world pf a"
  shows "reg_inv tp world pf b"
  using assms by (induction rule: rtranclp_induct) (blast intro: reg_step_inv)+

lemma instance_new_inv:
  "instance_new iid ns tp world pf = Inr i \<Longrightarrow> reg_inv tp world pf (i, [])"
  by (auto simp: instance_new_def reg_inv_def hm_wf_def split: if_splits)

lemma sealed_frozen:
  assumes "(reg_step device_ok)\<^sup>*\<^sup>* (i, ps) (i', ps')" and "i_topology i \<noteq> None"
  shows "i' = i"
  using assms
proof (induction "(i', ps')" arbitrary: i' ps' rule: rtranclp_induct)
  case (step y)
  obtain j qs where y: "y = (j, qs)" by (cases y)
  have j: "j = i" using step(3)[OF y] step.prems by simp
  from step(2) show ?case
    using j step.prems unfolding y
    by (cases rule: reg_step.cases) (auto elim: attach_gpu_cases)
qed simp

text \<open>Every layer and rank of a sealed topology has a registered device.\<close>

lemma sealed_owned:
  assumes s: "seal_topology tp pf gpus = Inr t" and ranks: "\<forall>g \<in> set gpus. g_tp_rank g < tp"
    and r: "r < tp" and name: "map_of (t_name_to_id t) n = Some i"
  shows "\<exists>g \<in> set gpus. g_tp_rank g = r \<and> n \<in> fst ` set (g_kv_caches g)"
proof -
  let ?names = "sealed_names gpus"
  obtain owners where ids: "t_name_to_id t = name_ids ?names"
    and c: "claim_grid tp (name_ids ?names) (registered_layers gpus) (replicate (length ?names * tp) None) = Inr owners"
    and none: "None \<notin> set owners"
    by (rule seal_topology_ok[OF s]) (rule that)
  note C = claim_grid_ok[OF c]
  have i: "i < length ?names" "?names ! i = n" using name ids by (simp_all add: name_ids_get)
  have "i * tp + r < Suc i * tp" using r by simp
  also have "\<dots> \<le> length ?names * tp" using i by (intro mult_le_mono1) simp
  finally have lt: "i * tp + r < length ?names * tp" .
  have len: "length owners = length ?names * tp" using C by simp
  have "owners ! (i * tp + r) \<noteq> None" using none lt len by (metis nth_mem)
  then obtain g n' l where g: "(g, n', l) \<in> set (registered_layers gpus)"
    and d: "n' \<in> dom (map_of (name_ids ?names))" and cell: "cell tp (name_ids ?names) g n' = i * tp + r"
    using C lt by (auto dest!: spec[of _ "i * tp + r"])
  obtain i' where i': "map_of (name_ids ?names) n' = Some i'" using d by auto
  have reg: "g \<in> set gpus" "n' \<in> fst ` set (g_kv_caches g)" using g by (force simp: registered_iff)+
  have "i' = i \<and> g_tp_rank g = r"
    using cell i' r ranks reg(1) by (intro grid_unique) (auto simp: cell_def)
  moreover have "n' = n" using i i' calculation by (simp add: name_ids_get)
  ultimately show ?thesis using reg by auto
qed

lemma registration_facts:
  assumes new: "instance_new iid ns tp world pf = Inr i0"
    and run: "(reg_step device_ok)\<^sup>*\<^sup>* (i0, []) (i, ps)"
  shows "length (i_gpu_contexts i) \<le> world"
    and "(\<exists>t. sealed_topology i = Inr t) \<longleftrightarrow> length (i_gpu_contexts i) = world"
    and "sealed_topology i = Inr t \<longrightarrow> seal_topology tp pf (map snd (i_gpu_contexts i)) = Inr t
      \<and> (\<forall>n k r. map_of (t_name_to_id t) n = Some k \<longrightarrow> r < tp \<longrightarrow>
           (\<exists>d g. hm_get (i_gpu_contexts i) d = Some g \<and> g_tp_rank g = r \<and> n \<in> fst ` set (g_kv_caches g)))
      \<and> (\<forall>i' ps'. (reg_step device_ok)\<^sup>*\<^sup>* (i, ps) (i', ps') \<longrightarrow> i' = i)"
proof -
  have inv: "reg_inv tp world pf (i, ps)"
    using reg_steps_inv[OF run instance_new_inv[OF new]] .
  then show "length (i_gpu_contexts i) \<le> world"
    "(\<exists>t. sealed_topology i = Inr t) \<longleftrightarrow> length (i_gpu_contexts i) = world"
    by (auto simp: reg_inv_def sealed_topology_def split: option.splits)
  show "sealed_topology i = Inr t \<longrightarrow> seal_topology tp pf (map snd (i_gpu_contexts i)) = Inr t
      \<and> (\<forall>n k r. map_of (t_name_to_id t) n = Some k \<longrightarrow> r < tp \<longrightarrow>
           (\<exists>d g. hm_get (i_gpu_contexts i) d = Some g \<and> g_tp_rank g = r \<and> n \<in> fst ` set (g_kv_caches g)))
      \<and> (\<forall>i' ps'. (reg_step device_ok)\<^sup>*\<^sup>* (i, ps) (i', ps') \<longrightarrow> i' = i)"
  proof (intro impI conjI allI)
    assume "sealed_topology i = Inr t"
    then have t: "i_topology i = Some t" by (auto simp: sealed_topology_def split: option.splits)
    then show s: "seal_topology tp pf (map snd (i_gpu_contexts i)) = Inr t"
      using inv by (simp add: reg_inv_def)
    have ranks: "\<forall>g \<in> set (map snd (i_gpu_contexts i)). g_tp_rank g < tp"
      using inv by (auto simp: reg_inv_def gpu_ok_def)
    have d: "distinct (map fst (i_gpu_contexts i))" using inv by (simp add: reg_inv_def hm_wf_def)
    show "\<exists>d g. hm_get (i_gpu_contexts i) d = Some g \<and> g_tp_rank g = r \<and> n \<in> fst ` set (g_kv_caches g)"
      if n: "map_of (t_name_to_id t) n = Some k" and r: "r < tp" for n k r
    proof -
      obtain g where g: "g \<in> set (map snd (i_gpu_contexts i))" "g_tp_rank g = r" "n \<in> fst ` set (g_kv_caches g)"
        using sealed_owned[OF s ranks r n] by blast
      then obtain dev where "(dev, g) \<in> set (i_gpu_contexts i)" by auto
      then show ?thesis using g d by (metis map_of_eq_Some_iff)
    qed
    show "i' = i" if "(reg_step device_ok)\<^sup>*\<^sup>* (i, ps) (i', ps')" for i' ps'
      using sealed_frozen[OF that] t by simp
  qed
qed

text \<open>
  C32. Registration, however the workers interleave: never more than \<open>world_size\<close> devices join;
  the topology is there exactly when all of them did, and it is what sealing their
  contexts gives; every layer is then owned for every rank by a registered device with that rank;
  after that nothing changes the instance.
\<close>

theorem registration_seals:
  assumes "instance_new iid ns tp world pf = Inr i0" and "(reg_step device_ok)\<^sup>*\<^sup>* (i0, []) (i, ps)"
  shows "length (i_gpu_contexts i) \<le> world
    \<and> ((\<exists>t. sealed_topology i = Inr t) \<longleftrightarrow> length (i_gpu_contexts i) = world)
    \<and> (\<forall>t. sealed_topology i = Inr t \<longrightarrow> seal_topology tp pf (map snd (i_gpu_contexts i)) = Inr t
      \<and> (\<forall>n k r. map_of (t_name_to_id t) n = Some k \<longrightarrow> r < tp \<longrightarrow>
           (\<exists>d g. hm_get (i_gpu_contexts i) d = Some g \<and> g_tp_rank g = r \<and> n \<in> fst ` set (g_kv_caches g)))
      \<and> (\<forall>i' ps'. (reg_step device_ok)\<^sup>*\<^sup>* (i, ps) (i', ps') \<longrightarrow> i' = i))"
  by (intro conjI allI; rule registration_facts[OF assms])

section \<open>A deployment with two layer-split workers\<close>

definition demo_layer :: kv_cache_layout where
  "demo_layer = \<lparr>l_data_ptr = 4096, l_size_bytes = 4096, l_num_blocks = 4, l_block_stride_bytes = 512,
     l_segment_bytes = 512, l_segments = 1, l_padded_segment_bytes = 512, l_seg = Contiguous\<rparr>"

definition demo_gpu :: "int \<Rightarrow> string list \<Rightarrow> gpu_context" where
  "demo_gpu d names = \<lparr>g_device_id = d, g_tp_rank = 0, g_pp_rank = 0, g_numa = 0,
     g_kv_caches = map (\<lambda>n. (n, demo_layer)) names\<rparr>"

definition demo_gpus :: "gpu_context list" where
  "demo_gpus = [demo_gpu 0 [''k2''], demo_gpu 1 [''k1'', ''k0'']]"

definition demo_topology :: layer_topology where
  "demo_topology = \<lparr>t_name_to_id = [(''k0'', 0), (''k1'', 1), (''k2'', 2)], t_tp_size = 1,
     t_page_layout = Some \<lparr>p_layer_shard = [0, 0, 1], p_layer_offsets = [0, 512, 0],
       p_layer_bytes = [512, 512, 512], p_shard_page_sizes = [1024, 512]\<rparr>\<rparr>"

lemmas demo_eval = demo_gpus_def demo_gpu_def demo_layer_def demo_topology_def seal_topology_def
  registered_layers_def sorted_names_def name_ids_def geometry_of_def is_split_def padded_block_bytes_def
  build_page_layout_def shards_of_def distinct_sets_def min_layer_def worker_layer_set_def
  less_eq_char_def less_char_def wrapping_add_def wrapping_mul_def u64_max_def

lemma demo_seals: "seal_topology 1 True demo_gpus = Inr demo_topology"
  by (simp add: demo_eval)

lemma demo_seals_reversed: "seal_topology 1 True (rev demo_gpus) = Inr demo_topology"
  by (simp add: demo_eval)

lemma sealed_slots_sound_witness:
  "seal_topology 1 True demo_gpus = Inr demo_topology
   \<and> (\<exists>k < total_slots_of demo_topology. slot_index demo_topology 2 0 = Inr k)"
proof -
  have fit: "length demo_gpus \<le> u64_max"
    "\<forall>p. t_page_layout demo_topology = Some p \<longrightarrow> sum_list (p_layer_bytes p) \<le> u64_max"
    by (simp_all add: demo_eval)
  show ?thesis
    using demo_seals sealed_slots_sound[OF demo_seals fit, THEN conjunct1, rule_format, of 2 0]
    by (simp add: demo_topology_def num_layers_def)
qed

lemma topology_agreement_witness:
  "\<exists>t t'. seal_topology 1 True demo_gpus = Inr t \<and> seal_topology 1 True (rev demo_gpus) = Inr t' \<and> t = t'"
proof -
  obtain t t' where t: "seal_topology 1 True demo_gpus = Inr t" "seal_topology 1 True (rev demo_gpus) = Inr t'"
    using demo_seals demo_seals_reversed by blast
  have "\<forall>g \<in> set demo_gpus. g_kv_caches g \<noteq> []" "length demo_gpus \<le> u64_max"
    "\<forall>p. t_page_layout t = Some p \<longrightarrow> sum_list (p_layer_bytes p) \<le> u64_max"
    using t(1) demo_seals by (auto simp: demo_eval)
  moreover have "set (registered_layers (rev demo_gpus)) = set (registered_layers demo_gpus)"
    by (auto simp: registered_layers_def)
  ultimately have "t = t'" using topology_agreement[OF t] by simp
  then show ?thesis using t by blast
qed

definition demo_instance :: "(int, gpu_context) hmap \<Rightarrow> layer_topology option \<Rightarrow> instance_context" where
  "demo_instance gs t = \<lparr>i_id = ''i'', i_namespace = ''m'', i_tp_size = 1, i_world_size = 2,
     i_page_first = True, i_gpu_contexts = gs, i_topology = t\<rparr>"

lemma registration_seals_witness:
  "\<exists>i. (reg_step (\<lambda>_. True))\<^sup>*\<^sup>* (demo_instance [] None, []) (i, [])
     \<and> length (i_gpu_contexts i) = 2 \<and> (\<exists>t. sealed_topology i = Inr t)"
proof -
  let ?g0 = "demo_gpu 0 [''k2'']" and ?g1 = "demo_gpu 1 [''k1'', ''k0'']"
  let ?i0 = "demo_instance [] None" and ?i1 = "demo_instance [(0, ?g0)] None"
  let ?i2 = "demo_instance [(0, ?g0), (1, ?g1)] (Some demo_topology)"
  have new: "instance_new ''i'' ''m'' 1 2 True = Inr ?i0"
    by (simp add: instance_new_def demo_instance_def)
  have c0: "check_registration (\<lambda>_. True) ?g0 ?i0 = Inr ?g0" and c1: "check_registration (\<lambda>_. True) ?g1 ?i0 = Inr ?g1"
    by (simp_all add: check_registration_def ensure_accepting_def hm_contains_def build_gpu_context_def
        demo_instance_def demo_gpu_def)
  have a0: "attach_gpu ?g0 ?i0 = (Inr (), ?i1)"
    by (simp add: attach_gpu_def ensure_accepting_def hm_contains_def demo_instance_def demo_gpu_def)
  have a1: "attach_gpu ?g1 ?i1 = (Inr (), ?i2)"
    using demo_seals
    by (simp add: attach_gpu_def ensure_accepting_def hm_contains_def demo_instance_def demo_gpus_def)
      (simp add: demo_gpu_def)
  have s: "reg_step (\<lambda>_. True) (?i0, []) (?i0, [] @ [?g0])" "reg_step (\<lambda>_. True) (?i0, [?g0]) (?i0, [?g0] @ [?g1])"
    "reg_step (\<lambda>_. True) (?i0, [] @ ?g0 # [?g1]) (?i1, [] @ [?g1])" "reg_step (\<lambda>_. True) (?i1, [] @ ?g1 # []) (?i2, [] @ [])"
    by (rule reg_check[OF c0] reg_check[OF c1] reg_attach[OF a0] reg_attach[OF a1])+
  have run: "(reg_step (\<lambda>_. True))\<^sup>*\<^sup>* (?i0, []) (?i2, [])"
    using s unfolding append_Nil append_Cons by (blast intro: converse_rtranclp_into_rtranclp)
  have "length (i_gpu_contexts ?i2) = 2" by (simp add: demo_instance_def)
  then show ?thesis using registration_seals[OF new run] run by blast
qed

text \<open>
  Page-first, the ranks of one layer share a slot: the page belongs to a shard, not to
  a rank.
\<close>

lemma page_first_ranks_share:
  "t_page_layout t = Some p \<Longrightarrow> r < t_tp_size t \<Longrightarrow> q < t_tp_size t \<Longrightarrow> slot_index t i r = slot_index t i q"
  by (simp add: slot_index_def)

end
