(* ===== verification/Hll.thy ===== *)
theory Hll
  imports Pega_Prelude Complex_Main
begin

text \<open>
  The HyperLogLog estimator and its sliding windows, \<^verbatim>\<open>pegaflow-common/src/hll.rs\<close>. Bytes and registers are
  natural numbers with the \<open>u8\<close> wrap-around written out; \<open>f64\<close> values are reals (rounding is
  outside the model); an assertion that fails is \<open>None\<close>.
\<close>

unbundle bit_operations_syntax

section \<open>HyperLogLog\<close>

definition MIN_BUCKET_BITS :: nat where "MIN_BUCKET_BITS = 4"
definition MAX_BUCKET_BITS :: nat where "MAX_BUCKET_BITS = 18"

record hyper_log_log =
  registers :: "nat list"
  bucket_bits :: nat
  lz_mask :: "32 word"

definition hll_new :: "nat \<Rightarrow> hyper_log_log option" where
  "hll_new bits =
     (if MIN_BUCKET_BITS \<le> bits \<and> bits \<le> MAX_BUCKET_BITS
      then Some \<lparr>registers = replicate (2 ^ bits) 0, bucket_bits = bits,
                 lz_mask = push_bit (32 - bits) 1 - 1\<rparr>
      else None)"

definition add_u8 :: "nat \<Rightarrow> nat \<Rightarrow> nat" where
  "add_u8 a b = (a + b) mod 256"

text \<open>\<open>leading_zeros\<close> of a value of \<open>w\<close> bits.\<close>

fun bit_length :: "nat \<Rightarrow> nat" where
  "bit_length n = (if n = 0 then 0 else Suc (bit_length (n div 2)))"

declare bit_length.simps [simp del]

definition leading_zeros :: "nat \<Rightarrow> nat \<Rightarrow> nat" where
  "leading_zeros w n = w - bit_length n"

definition byte_or_zero :: "byte list \<Rightarrow> nat \<Rightarrow> byte" where
  "byte_or_zero h i = (if i < length h then h ! i else 0)"

definition from_be_bytes :: "byte list \<Rightarrow> 32 word" where
  "from_be_bytes bs = foldl (\<lambda>a b. push_bit 8 a + ucast b) 0 bs"

definition bucket_index :: "byte list \<Rightarrow> nat \<Rightarrow> nat" where
  "bucket_index h bits =
     unat (drop_bit (24 - bits) (from_be_bytes [0, byte_or_zero h 0, byte_or_zero h 1, byte_or_zero h 2]))"

fun zeros_tail :: "byte list \<Rightarrow> nat \<Rightarrow> nat" where
  "zeros_tail [] count = count"
| "zeros_tail (b # bs) count =
     (if b \<noteq> 0 then add_u8 count (leading_zeros 8 (unat b)) else zeros_tail bs (add_u8 count 8))"

definition count_leading_zeros :: "byte list \<Rightarrow> nat \<Rightarrow> 32 word \<Rightarrow> nat" where
  "count_leading_zeros h bits zmask =
     (let masked = from_be_bytes [byte_or_zero h 0, byte_or_zero h 1, byte_or_zero h 2, byte_or_zero h 3] AND zmask
      in if masked \<noteq> 0 then leading_zeros 32 (unat masked) - bits
         else zeros_tail (drop 4 h) (32 - bits))"

definition hll_insert :: "byte list \<Rightarrow> hyper_log_log \<Rightarrow> hyper_log_log" where
  "hll_insert h l =
     (let index = bucket_index h (bucket_bits l);
          rho = add_u8 (count_leading_zeros h (bucket_bits l) (lz_mask l)) 1
      in if registers l ! index < rho then l\<lparr>registers := (registers l)[index := rho]\<rparr> else l)"

definition hll_merge :: "hyper_log_log \<Rightarrow> hyper_log_log \<Rightarrow> hyper_log_log option" where
  "hll_merge other l =
     (if bucket_bits l \<noteq> bucket_bits other then None
      else Some (l\<lparr>registers := map (\<lambda>(a, b). if a < b then b else a) (zip (registers l) (registers other))\<rparr>))"

definition hll_clear :: "hyper_log_log \<Rightarrow> hyper_log_log" where
  "hll_clear l = l\<lparr>registers := replicate (length (registers l)) 0\<rparr>"

definition alpha_m :: "nat \<Rightarrow> real" where
  "alpha_m m =
     (if m = 16 then 0.673 else if m = 32 then 0.697 else if m = 64 then 0.709
      else 0.7213 / (1 + 1.079 / real m))"

definition estimate_cardinality :: "nat list \<Rightarrow> real" where
  "estimate_cardinality regs =
     (let m = real (length regs);
          s = sum_list (map (\<lambda>r. 1 / 2 ^ r) regs);
          raw_estimate = alpha_m (length regs) * m * m / s
      in if raw_estimate \<le> 2.5 * m then
           let zeros = real (length (filter (\<lambda>r. r = 0) regs))
           in if 0 < zeros then m * ln (m / zeros) else raw_estimate
         else raw_estimate)"

definition union_cardinality :: "hyper_log_log \<Rightarrow> hyper_log_log \<Rightarrow> real" where
  "union_cardinality a b = estimate_cardinality (map (\<lambda>(x, y). max x y) (zip (registers a) (registers b)))"

section \<open>Sliding window\<close>

record hll_metric =
  cardinality :: real
  total_requests :: nat
  estimated_hit_rate :: real
  window_slot_count :: nat

record window_slot =
  w_hll :: hyper_log_log
  w_start :: instant
  w_count :: nat

record hll_tracker =
  t_slots :: "window_slot list"
  t_merged :: hyper_log_log
  t_dirty :: bool
  t_slot_duration :: duration
  t_window :: duration
  t_bits :: nat

definition tracker_new :: "duration \<Rightarrow> duration \<Rightarrow> nat \<Rightarrow> hll_tracker option" where
  "tracker_new slot window bits =
     map_option (\<lambda>l. \<lparr>t_slots = [], t_merged = l, t_dirty = False, t_slot_duration = slot,
                      t_window = window, t_bits = bits\<rparr>) (hll_new bits)"

definition need_new_slot :: "instant \<Rightarrow> hll_tracker \<Rightarrow> bool" where
  "need_new_slot now t =
     (t_slots t = [] \<or> t_slot_duration t \<le> duration_since now (w_start (last (t_slots t))))"

definition aligned_start :: "instant \<Rightarrow> hll_tracker \<Rightarrow> instant option" where
  "aligned_start now t =
     (if t_slots t = [] then Some now
      else if t_slot_duration t = 0 then None
      else let start = w_start (last (t_slots t));
               periods = duration_since now start div t_slot_duration t
           in Some (start + t_slot_duration t * (periods mod 2 ^ 32)))"

definition record_slot :: "byte list \<Rightarrow> window_slot \<Rightarrow> window_slot" where
  "record_slot h s = s\<lparr>w_hll := hll_insert h (w_hll s), w_count := w_count s + 1\<rparr>"

definition tracker_record :: "instant \<Rightarrow> byte list \<Rightarrow> hll_tracker \<Rightarrow> hll_tracker option" where
  "tracker_record now h t =
     (if need_new_slot now t then
        (case (aligned_start now t, hll_new (t_bits t)) of
           (Some start, Some l) \<Rightarrow>
             Some (t\<lparr>t_dirty := True,
                     t_slots := t_slots t @ [record_slot h \<lparr>w_hll = l, w_start = start, w_count = 0\<rparr>]\<rparr>)
         | _ \<Rightarrow> None)
      else Some (t\<lparr>t_slots := butlast (t_slots t) @ [record_slot h (last (t_slots t))]\<rparr>))"

fun record_hashes :: "(instant \<times> byte list) list \<Rightarrow> hll_tracker \<Rightarrow> hll_tracker option" where
  "record_hashes [] t = Some t"
| "record_hashes ((now, h) # hs) t =
     (case tracker_record now h t of None \<Rightarrow> None | Some t' \<Rightarrow> record_hashes hs t')"

definition expired_slot :: "instant \<Rightarrow> duration \<Rightarrow> window_slot \<Rightarrow> bool" where
  "expired_slot now window s = (window \<le> duration_since now (w_start s))"

fun expire_old_slots :: "instant \<Rightarrow> duration \<Rightarrow> window_slot list \<Rightarrow> bool \<Rightarrow> window_slot list \<times> bool" where
  "expire_old_slots now window [] dirty = ([], dirty)"
| "expire_old_slots now window (s # ss) dirty =
     (if expired_slot now window s then expire_old_slots now window ss True else (s # ss, dirty))"

fun merge_all :: "hyper_log_log list \<Rightarrow> hyper_log_log \<Rightarrow> hyper_log_log option" where
  "merge_all [] l = Some l"
| "merge_all (x # xs) l = (case hll_merge x l of None \<Rightarrow> None | Some l' \<Rightarrow> merge_all xs l')"

definition ensure_merged :: "hll_tracker \<Rightarrow> hll_tracker option" where
  "ensure_merged t =
     (if \<not> t_dirty t then Some t
      else map_option (\<lambda>l. t\<lparr>t_merged := l, t_dirty := False\<rparr>)
             (merge_all (map w_hll (take (length (t_slots t) - 1) (t_slots t))) (hll_clear (t_merged t))))"

definition hit_rate :: "real \<Rightarrow> nat \<Rightarrow> real" where
  "hit_rate crd reqs =
     (if 0 < reqs then (real reqs - min crd (real reqs)) / real reqs else 0)"

definition metric :: "instant \<Rightarrow> hll_tracker \<Rightarrow> (hll_metric \<times> hll_tracker) option" where
  "metric now t =
     (let (ss, dirty) = expire_old_slots now (t_window t) (t_slots t) (t_dirty t)
      in case ensure_merged (t\<lparr>t_slots := ss, t_dirty := dirty\<rparr>) of
           None \<Rightarrow> None
         | Some t' \<Rightarrow>
             let crd = (if t_slots t' = [] then 0
                         else union_cardinality (t_merged t') (w_hll (last (t_slots t'))));
                 reqs = sum_list (map w_count (t_slots t'))
             in Some (\<lparr>cardinality = crd, total_requests = reqs, estimated_hit_rate = hit_rate crd reqs,
                       window_slot_count = length (t_slots t')\<rparr>, t'))"

section \<open>Several windows\<close>

definition SECOND :: duration where "SECOND = 10 ^ 9"

definition derive_slot_duration :: "duration \<Rightarrow> duration" where
  "derive_slot_duration window = min (max (window div 24) (60 * SECOND)) (3600 * SECOND)"

fun make_trackers :: "(string \<times> duration) list \<Rightarrow> nat \<Rightarrow> (string \<times> hll_tracker) list option" where
  "make_trackers [] bits = Some []"
| "make_trackers ((label, window) # ws) bits =
     (case (tracker_new (derive_slot_duration window) window bits, make_trackers ws bits) of
        (Some t, Some ts) \<Rightarrow> Some ((label, t) # ts)
      | _ \<Rightarrow> None)"

definition multi_new :: "(string \<times> duration) list \<Rightarrow> nat \<Rightarrow> (string \<times> hll_tracker) list option" where
  "multi_new windows bits =
     (if windows = [] then None
      else if \<exists>w \<in> set windows. snd w < 60 * SECOND then None
      else if \<not> distinct (map snd windows) then None
      else make_trackers windows bits)"

fun multi_record :: "(instant \<times> byte list) list \<Rightarrow> (string \<times> hll_tracker) list \<Rightarrow> (string \<times> hll_tracker) list option" where
  "multi_record hs [] = Some []"
| "multi_record hs ((label, t) # ts) =
     (case record_hashes hs t of
        None \<Rightarrow> None
      | Some t' \<Rightarrow> map_option ((#) (label, t')) (multi_record hs ts))"

fun multi_metrics :: "instant \<Rightarrow> (string \<times> hll_tracker) list \<Rightarrow>
    ((string \<times> hll_metric) list \<times> (string \<times> hll_tracker) list) option" where
  "multi_metrics now [] = Some ([], [])"
| "multi_metrics now ((label, t) # ts) =
     (case metric now t of
        None \<Rightarrow> None
      | Some (m, t') \<Rightarrow>
          map_option (\<lambda>(ms, ts'). ((label, m) # ms, (label, t') # ts')) (multi_metrics now ts))"

section \<open>Buckets and ranks are read off the bit stream\<close>

text \<open>The reference: a hash as a stream of bits, most significant first, padded to 32 bits.\<close>

definition byte_bits :: "byte \<Rightarrow> bool list" where
  "byte_bits b = rev (map (bit b) [0..<8])"

definition hash_bits :: "byte list \<Rightarrow> bool list" where
  "hash_bits h = concat (map byte_bits h) @ replicate (32 - 8 * length h) False"

definition bits_val :: "bool list \<Rightarrow> nat" where
  "bits_val bs = horner_sum of_bool 2 (rev bs)"

lemma bits_val_Nil [simp]: "bits_val [] = 0"
  by (simp add: bits_val_def)

lemma bits_val_append: "bits_val (xs @ ys) = bits_val xs * 2 ^ length ys + bits_val ys"
  by (simp add: bits_val_def horner_sum_append)

lemma bits_val_Cons: "bits_val (b # bs) = of_bool b * 2 ^ length bs + bits_val bs"
  using bits_val_append[of "[b]" bs] by (simp add: bits_val_def)

lemma bits_val_less: "bits_val bs < 2 ^ length bs"
  by (induction bs) (auto simp: bits_val_Cons)

lemma bits_val_zeros [simp]: "bits_val (replicate n False) = 0"
  by (induction n) (auto simp: bits_val_Cons)

lemma byte_bits_length [simp]: "length (byte_bits b) = 8"
  by (simp add: byte_bits_def)

lemma byte_bits_val: "bits_val (byte_bits b) = unat b"
proof -
  have "map (bit b) [0..<8] = map (bit (unat b)) [0..<8]" by (simp add: bit_unsigned_iff)
  then have "bits_val (byte_bits b) = take_bit 8 (unat b)"
    by (simp only: bits_val_def byte_bits_def rev_rev_ident horner_sum_bit_eq_take_bit)
  also have "\<dots> = unat b" using unsigned_less[of b, where ?'a = nat] by (simp add: take_bit_nat_eq_self)
  finally show ?thesis .
qed

lemma byte_bits_zero: "byte_bits 0 = replicate 8 False"
  by (simp add: byte_bits_def upt_rec numeral_eq_Suc)

lemma concat_bits_length [simp]: "length (concat (map byte_bits bs)) = 8 * length bs"
  by (induction bs) auto

lemma from_be_bytes_snoc: "from_be_bytes (bs @ [b]) = push_bit 8 (from_be_bytes bs) + ucast b"
  by (simp add: from_be_bytes_def)

lemma from_be_bytes_val:
  "length bs \<le> 4 \<Longrightarrow> unat (from_be_bytes bs) = bits_val (concat (map byte_bits bs))"
proof (induction bs rule: rev_induct)
  case (snoc b bs)
  have IH: "unat (from_be_bytes bs) = bits_val (concat (map byte_bits bs))" using snoc by simp
  have "length (concat (map byte_bits bs)) \<le> 24" using snoc.prems by simp
  then have "(2::nat) ^ length (concat (map byte_bits bs)) \<le> 2 ^ 24" by (rule power_increasing) simp
  then have small: "unat (from_be_bytes bs) < 2 ^ 24"
    using bits_val_less[of "concat (map byte_bits bs)"] unfolding IH by linarith
  have b: "unat b < 256" using unsigned_less[of b] by simp
  have u: "unat (ucast b :: 32 word) = unat b"
    using b by (simp add: unsigned_ucast_eq take_bit_nat_eq_self)
  have "unat (push_bit 8 (from_be_bytes bs) + ucast b) = unat (from_be_bytes bs) * 256 + unat b"
    using small b by (simp add: push_bit_eq_mult unat_word_ariths u mult.commute)
  then show ?case
    by (simp add: from_be_bytes_snoc IH bits_val_append byte_bits_val)
qed (simp add: from_be_bytes_def)

lemma hash_bits_split:
  "hash_bits h = concat (map byte_bits [byte_or_zero h 0, byte_or_zero h 1, byte_or_zero h 2, byte_or_zero h 3])
     @ concat (map byte_bits (drop 4 h))"
proof -
  have r: "replicate (8 * n) False = concat (map byte_bits (replicate n 0))" for n
    by (induction n) (simp_all add: byte_bits_zero replicate_add)
  consider "h = []" | a where "h = [a]" | a b where "h = [a, b]" | a b c where "h = [a, b, c]"
    | a b c d t where "h = a # b # c # d # t"
    by (metis neq_Nil_conv)
  then show ?thesis
  proof cases
    case 1
    show ?thesis using r[of 4] by (simp add: 1 hash_bits_def byte_or_zero_def numeral_eq_Suc)
  next
    case 2
    show ?thesis using r[of 3] by (simp add: 2 hash_bits_def byte_or_zero_def numeral_eq_Suc)
  next
    case 3
    show ?thesis using r[of 2] by (simp add: 3 hash_bits_def byte_or_zero_def numeral_eq_Suc)
  next
    case 4
    show ?thesis using r[of 1] by (simp add: 4 hash_bits_def byte_or_zero_def numeral_eq_Suc)
  next
    case 5
    show ?thesis by (simp add: 5 hash_bits_def byte_or_zero_def numeral_eq_Suc)
  qed
qed

lemma bits_val_take: "p \<le> length bs \<Longrightarrow> bits_val bs div 2 ^ (length bs - p) = bits_val (take p bs)"
  using bits_val_append[of "take p bs" "drop p bs"] bits_val_less[of "drop p bs"] by simp

lemma bits_val_drop: "p \<le> length bs \<Longrightarrow> bits_val bs mod 2 ^ (length bs - p) = bits_val (drop p bs)"
  using bits_val_append[of "take p bs" "drop p bs"] bits_val_less[of "drop p bs"] by simp

lemma bit_length_bounds: "2 ^ n \<le> v \<Longrightarrow> v < 2 ^ Suc n \<Longrightarrow> bit_length v = Suc n"
proof (induction n arbitrary: v)
  case 0
  then have "v = 1" by simp
  then show ?case by (simp add: bit_length.simps)
next
  case (Suc n)
  have "2 ^ n \<le> v div 2" "v div 2 < 2 ^ Suc n" using Suc.prems by auto
  then have "bit_length (v div 2) = Suc n" by (rule Suc.IH)
  moreover have "v \<noteq> 0" using Suc.prems(1) by (metis le_zero_eq power_not_zero zero_neq_numeral)
  ultimately show ?case by (simp add: bit_length.simps[of v])
qed

lemma bit_length_le: "v < 2 ^ n \<Longrightarrow> bit_length v \<le> n"
proof (induction n arbitrary: v)
  case 0
  then show ?case by (simp add: bit_length.simps)
next
  case (Suc n)
  have "bit_length (v div 2) \<le> n" using Suc.prems by (intro Suc.IH) auto
  then show ?case by (simp add: bit_length.simps[of v])
qed

lemma leading_zeros_bits: "leading_zeros (length bs) (bits_val bs) = length (takeWhile Not bs)"
proof (induction bs)
  case Nil
  then show ?case by (simp add: leading_zeros_def)
next
  case (Cons b bs)
  show ?case
  proof (cases b)
    case True
    have "bit_length (bits_val (b # bs)) = Suc (length bs)"
      using True bits_val_less[of bs] by (intro bit_length_bounds) (simp_all add: bits_val_Cons)
    then show ?thesis using True by (simp add: leading_zeros_def)
  next
    case False
    have "bit_length (bits_val bs) \<le> length bs" by (rule bit_length_le[OF bits_val_less])
    then show ?thesis using False Cons by (simp add: leading_zeros_def bits_val_Cons)
  qed
qed

lemma takeWhile_no_True: "True \<notin> set bs \<Longrightarrow> takeWhile Not (bs @ cs) = bs @ takeWhile Not cs"
  by (induction bs) auto

lemma takeWhile_True: "True \<in> set bs \<Longrightarrow> takeWhile Not (bs @ cs) = takeWhile Not bs"
  by (induction bs) auto

lemma bits_val_0_iff: "bits_val bs = 0 \<longleftrightarrow> True \<notin> set bs"
  by (induction bs) (auto simp: bits_val_Cons)

lemma zeros_tail_bits:
  "c < 256 \<Longrightarrow> zeros_tail bs c = (c + length (takeWhile Not (concat (map byte_bits bs)))) mod 256"
proof (induction bs arbitrary: c)
  case (Cons b bs)
  show ?case
  proof (cases "b = 0")
    case True
    have "True \<notin> set (byte_bits b)" unfolding bits_val_0_iff[symmetric] by (simp add: byte_bits_val True)
    then have "length (takeWhile Not (concat (map byte_bits (b # bs))))
        = 8 + length (takeWhile Not (concat (map byte_bits bs)))"
      by (simp add: takeWhile_no_True)
    moreover have "zeros_tail bs (add_u8 c 8)
        = ((c + 8) mod 256 + length (takeWhile Not (concat (map byte_bits bs)))) mod 256"
      using Cons.IH[of "add_u8 c 8"] by (simp add: add_u8_def)
    ultimately show ?thesis using True by (simp add: mod_simps add.assoc)
  next
    case False
    then have "True \<in> set (byte_bits b)"
      using bits_val_0_iff[of "byte_bits b"] by (simp add: byte_bits_val unat_eq_zero)
    then have "length (takeWhile Not (concat (map byte_bits (b # bs)))) = leading_zeros 8 (unat b)"
      using leading_zeros_bits[of "byte_bits b"] by (simp add: takeWhile_True byte_bits_val)
    then show ?thesis using False by (simp add: add_u8_def)
  qed
qed simp

definition zero_mask :: "nat \<Rightarrow> 32 word" where
  "zero_mask p = push_bit (32 - p) 1 - 1"

lemma head_masked:
  assumes "length bs = 4" "p \<le> 32"
  shows "unat (from_be_bytes bs AND zero_mask p) = bits_val (drop p (concat (map byte_bits bs)))"
proof -
  have "zero_mask p = mask (32 - p)" by (simp add: zero_mask_def mask_eq_exp_minus_1 push_bit_eq_mult)
  then have "unat (from_be_bytes bs AND zero_mask p) = take_bit (32 - p) (unat (from_be_bytes bs))"
    by (simp add: take_bit_eq_mask[symmetric] unsigned_take_bit_eq)
  then have "unat (from_be_bytes bs AND zero_mask p) = unat (from_be_bytes bs) mod 2 ^ (32 - p)"
    by (simp only: take_bit_eq_mod)
  then show ?thesis
    using bits_val_drop[of p "concat (map byte_bits bs)"] assms by (simp add: from_be_bytes_val)
qed

lemma bucket_index_bits:
  assumes "p \<le> 24"
  shows "bucket_index h p = bits_val (take p (hash_bits h))"
proof -
  let ?bs = "concat (map byte_bits [byte_or_zero h 0, byte_or_zero h 1, byte_or_zero h 2])"
  have "unat (from_be_bytes [0, byte_or_zero h 0, byte_or_zero h 1, byte_or_zero h 2]) = bits_val ?bs"
    by (simp add: from_be_bytes_val byte_bits_zero bits_val_append)
  moreover have "bucket_index h p
      = drop_bit (24 - p) (unat (from_be_bytes [0, byte_or_zero h 0, byte_or_zero h 1, byte_or_zero h 2]))"
    unfolding bucket_index_def unsigned_drop_bit_eq
    by (subst take_bit_nat_eq_self) (rule unsigned_less, rule refl)
  ultimately have "bucket_index h p = bits_val ?bs div 2 ^ (24 - p)"
    by (simp only: drop_bit_eq_div)
  also have "\<dots> = bits_val (take p ?bs)" using bits_val_take[of p ?bs] assms by simp
  also have "take p ?bs = take p (hash_bits h)"
    unfolding hash_bits_split using assms by simp
  finally show ?thesis .
qed

lemma count_leading_zeros_bits:
  assumes "p \<le> 32"
  shows "count_leading_zeros h p (zero_mask p) = length (takeWhile Not (drop p (hash_bits h))) mod 256"
proof -
  let ?hd = "[byte_or_zero h 0, byte_or_zero h 1, byte_or_zero h 2, byte_or_zero h 3]"
  let ?bs = "concat (map byte_bits ?hd)" and ?tl = "concat (map byte_bits (drop 4 h))"
  have len: "length ?bs = 32" by simp
  have d: "drop p (hash_bits h) = drop p ?bs @ ?tl"
    unfolding hash_bits_split using assms len by (simp only: drop_append) simp
  have m: "unat (from_be_bytes ?hd AND zero_mask p) = bits_val (drop p ?bs)"
    using assms by (intro head_masked) simp_all
  have nz: "from_be_bytes ?hd AND zero_mask p = 0 \<longleftrightarrow> bits_val (drop p ?bs) = 0"
    unfolding m[symmetric] by (simp add: unat_eq_zero)
  show ?thesis
  proof (cases "bits_val (drop p ?bs) = 0")
    case True
    then have "True \<notin> set (drop p ?bs)" by (rule iffD1[OF bits_val_0_iff])
    note tw = takeWhile_no_True[OF this, of ?tl]
    have "length (takeWhile Not (drop p (hash_bits h))) = (32 - p) + length (takeWhile Not ?tl)"
      unfolding d tw using len by (simp only: length_append length_drop)
    moreover have "count_leading_zeros h p (zero_mask p) = zeros_tail (drop 4 h) (32 - p)"
      using True nz by (simp add: count_leading_zeros_def Let_def)
    ultimately show ?thesis by (simp add: zeros_tail_bits)
  next
    case False
    then have "True \<in> set (drop p ?bs)" using bits_val_0_iff[of "drop p ?bs"] by argo
    then have tw: "takeWhile Not (drop p (hash_bits h)) = takeWhile Not (drop p ?bs)"
      unfolding d by (rule takeWhile_True)
    have le: "length (takeWhile Not (drop p ?bs)) \<le> 32 - p"
      using length_takeWhile_le[of Not "drop p ?bs"] len by (simp only: length_drop)
    have lz: "leading_zeros 32 (bits_val (drop p ?bs)) - p = length (takeWhile Not (drop p ?bs))"
    proof -
      have "leading_zeros (32 - p) (bits_val (drop p ?bs)) = length (takeWhile Not (drop p ?bs))"
        using leading_zeros_bits[of "drop p ?bs"] len by (simp only: length_drop)
      then show ?thesis unfolding leading_zeros_def by (simp only: diff_commute)
    qed
    have cl: "count_leading_zeros h p (zero_mask p) = leading_zeros 32 (bits_val (drop p ?bs)) - p"
      using False nz m by (simp add: count_leading_zeros_def Let_def)
    have "length (takeWhile Not (drop p ?bs)) < 256" using le by linarith
    then show ?thesis unfolding tw cl lz by (rule mod_less[symmetric])
  qed
qed

text \<open>The rank an insertion records, in terms of the bit stream.\<close>

definition ref_rank :: "nat \<Rightarrow> byte list \<Rightarrow> nat" where
  "ref_rank p h = length (takeWhile Not (drop p (hash_bits h))) + 1"

text \<open>
  C36. The register an insertion touches is the number the first \<open>bucket_bits\<close> bits of the hash
  spell, and is in range; the value it offers is one more than the zeros that follow in the
  stream, wherever the code finds them (in the masked word or in the later bytes), taken modulo 256.
  For hashes of at most 32 bytes no wrap-around happens.
\<close>

theorem hll_insert_bit_stream:
  assumes "hll_new p = Some l0"
  shows "lz_mask l0 = zero_mask p
    \<and> bucket_index h p = bits_val (take p (hash_bits h)) \<and> bucket_index h p < length (registers l0)
    \<and> add_u8 (count_leading_zeros h p (zero_mask p)) 1 = ref_rank p h mod 256
    \<and> (length h \<le> 32 \<longrightarrow> ref_rank p h < 256)"
proof -
  have p: "4 \<le> p" "p \<le> 18" "lz_mask l0 = zero_mask p" "length (registers l0) = 2 ^ p"
    using assms by (auto simp: hll_new_def MIN_BUCKET_BITS_def MAX_BUCKET_BITS_def zero_mask_def split: if_splits)
  have i: "bucket_index h p = bits_val (take p (hash_bits h))" using p by (simp add: bucket_index_bits)
  have hl: "32 \<le> length (hash_bits h)" "length h \<le> 32 \<Longrightarrow> length (hash_bits h) \<le> 256"
    by (auto simp: hash_bits_def)
  have "bits_val (take p (hash_bits h)) < 2 ^ p"
    using bits_val_less[of "take p (hash_bits h)"] p hl by (simp add: min_def split: if_splits)
  moreover have "ref_rank p h < 256" if "length h \<le> 32"
    using length_takeWhile_le[of Not "drop p (hash_bits h)"] hl(2)[OF that] p by (simp add: ref_rank_def)
  moreover have "add_u8 (count_leading_zeros h p (zero_mask p)) 1 = ref_rank p h mod 256"
    using p by (simp add: add_u8_def count_leading_zeros_bits ref_rank_def mod_simps)
  ultimately show ?thesis using i p by simp
qed

lemma hll_insert_bit_stream_witness:
  "bucket_index [0x12, 0x34, 0, 0, 1] 12 = bits_val (take 12 (hash_bits [0x12, 0x34, 0, 0, 1]))
   \<and> bucket_index [0x12, 0x34, 0, 0, 1] 12 = 0x123"
proof -
  obtain l0 where l0: "hll_new 12 = Some l0" by (simp add: hll_new_def MIN_BUCKET_BITS_def MAX_BUCKET_BITS_def)
  show ?thesis
    using hll_insert_bit_stream[OF l0, of "[0x12, 0x34, 0, 0, 1]"]
    by (simp add: bucket_index_def from_be_bytes_def byte_or_zero_def)
qed

section \<open>Registers as maxima\<close>

text \<open>What a register holds after a list of hashes, read off the bit streams.\<close>

definition ref_bucket :: "nat \<Rightarrow> byte list \<Rightarrow> nat" where
  "ref_bucket p h = bits_val (take p (hash_bits h))"

definition reg_at :: "nat \<Rightarrow> byte list list \<Rightarrow> nat \<Rightarrow> nat" where
  "reg_at p hs i = foldr (\<lambda>h m. if ref_bucket p h = i then max (ref_rank p h mod 256) m else m) hs 0"

definition regs_of :: "nat \<Rightarrow> byte list list \<Rightarrow> nat list" where
  "regs_of p hs = map (reg_at p hs) [0..<2 ^ p]"

lemma reg_at_simps [simp]:
  "reg_at p [] i = 0"
  "reg_at p (h # hs) i = (if ref_bucket p h = i then max (ref_rank p h mod 256) (reg_at p hs i) else reg_at p hs i)"
  by (simp_all add: reg_at_def)

lemma reg_at_append: "reg_at p (xs @ ys) i = max (reg_at p xs i) (reg_at p ys i)"
  by (induction xs) auto

text \<open>Order and repetitions do not matter: the registers are a function of the set of hashes.\<close>

lemma reg_at_Max: "reg_at p hs i = Max (insert 0 ((\<lambda>h. ref_rank p h mod 256) ` {h \<in> set hs. ref_bucket p h = i}))"
proof (induction hs)
  case (Cons h hs)
  let ?f = "\<lambda>h. ref_rank p h mod 256" and ?S = "{x \<in> set hs. ref_bucket p x = i}"
  have "{x \<in> set (h # hs). ref_bucket p x = i} = (if ref_bucket p h = i then insert h ?S else ?S)" by auto
  moreover have "Max (insert 0 (?f ` insert h ?S)) = max (?f h) (Max (insert 0 (?f ` ?S)))"
    by (simp add: insert_commute[of 0])
  ultimately show ?case using Cons by simp
qed simp

lemma regs_of_set: "set xs = set ys \<Longrightarrow> regs_of p xs = regs_of p ys"
  by (simp add: regs_of_def reg_at_Max)

lemma regs_of_Nil: "regs_of p [] = replicate (2 ^ p) 0"
  by (rule nth_equalityI) (simp_all add: regs_of_def)

definition hll_is :: "nat \<Rightarrow> byte list list \<Rightarrow> hyper_log_log \<Rightarrow> bool" where
  "hll_is p hs l = (p \<le> 18 \<and> bucket_bits l = p \<and> lz_mask l = zero_mask p \<and> registers l = regs_of p hs)"

lemma hll_new_is: "hll_new p = Some l \<Longrightarrow> hll_is p [] l"
  by (auto simp: hll_new_def hll_is_def regs_of_Nil zero_mask_def MAX_BUCKET_BITS_def
      split: if_splits)

lemma ref_bucket_less: "p \<le> 18 \<Longrightarrow> ref_bucket p h < 2 ^ p"
  using bits_val_less[of "take p (hash_bits h)"]
  by (auto simp: ref_bucket_def hash_bits_def min_def split: if_splits)

lemma hll_insert_is:
  assumes "hll_is p hs l"
  shows "hll_is p (hs @ [h]) (hll_insert h l)"
proof -
  have p: "p \<le> 18" "bucket_bits l = p" "lz_mask l = zero_mask p" "registers l = regs_of p hs"
    using assms by (auto simp: hll_is_def)
  have i: "bucket_index h p = ref_bucket p h" using p by (simp add: bucket_index_bits ref_bucket_def)
  have r: "add_u8 (count_leading_zeros h p (zero_mask p)) 1 = ref_rank p h mod 256"
    using p by (simp add: add_u8_def count_leading_zeros_bits ref_rank_def mod_simps)
  have lt: "ref_bucket p h < 2 ^ p" using p(1) by (rule ref_bucket_less)
  have "regs_of p (hs @ [h]) = (regs_of p hs)[ref_bucket p h := max (regs_of p hs ! ref_bucket p h) (ref_rank p h mod 256)]"
    using lt by (intro nth_equalityI) (auto simp: regs_of_def reg_at_append nth_list_update)
  note step = this
  have e: "hll_insert h l = (if regs_of p hs ! ref_bucket p h < ref_rank p h mod 256
      then l\<lparr>registers := (regs_of p hs)[ref_bucket p h := ref_rank p h mod 256]\<rparr> else l)"
    by (simp only: hll_insert_def Let_def p i r)
  have "registers (hll_insert h l) = regs_of p (hs @ [h])"
    using p(4) by (auto simp: e step max_def) (metis list_update_id)
  moreover have "bucket_bits (hll_insert h l) = p" "lz_mask (hll_insert h l) = zero_mask p"
    using p by (auto simp: e)
  ultimately show ?thesis using p(1) by (simp add: hll_is_def)
qed

lemma hll_merge_is:
  assumes "hll_is p xs l" and "hll_is p ys other"
  shows "\<exists>l'. hll_merge other l = Some l' \<and> hll_is p (xs @ ys) l'"
proof -
  have "map (\<lambda>(a, b). if a < b then b else a) (zip (regs_of p xs) (regs_of p ys)) = regs_of p (xs @ ys)"
    by (intro nth_equalityI) (auto simp: regs_of_def reg_at_append)
  then show ?thesis using assms by (auto simp: hll_merge_def hll_is_def)
qed

lemma hll_clear_is: "hll_is p hs l \<Longrightarrow> hll_is p [] (hll_clear l)"
  by (auto simp: hll_is_def hll_clear_def regs_of_Nil) (simp add: regs_of_def)

lemma merge_all_is:
  assumes "hll_is p xs l" and "list_all2 (\<lambda>l hs. hll_is p hs l) ls hist"
  shows "\<exists>l'. merge_all ls l = Some l' \<and> hll_is p (xs @ concat hist) l'"
  using assms(2,1)
proof (induction ls hist arbitrary: xs l rule: list_all2_induct)
  case (Cons o' ls hs hist)
  obtain l1 where "hll_merge o' l = Some l1" "hll_is p (xs @ hs) l1"
    using hll_merge_is[OF Cons.prems Cons.hyps(1)] by blast
  then show ?case using Cons.IH[of "xs @ hs" l1] by simp
qed simp

lemma union_cardinality_is:
  assumes "hll_is p xs a" and "hll_is p ys b"
  shows "union_cardinality a b = estimate_cardinality (regs_of p (xs @ ys))"
proof -
  have "map (\<lambda>(x, y). max x y) (zip (regs_of p xs) (regs_of p ys)) = regs_of p (xs @ ys)"
    by (intro nth_equalityI) (auto simp: regs_of_def reg_at_append)
  then show ?thesis using assms by (simp add: union_cardinality_def hll_is_def)
qed

section \<open>The window\<close>

text \<open>
  A tracker together with the history behind it: for each slot ever opened, its start and its
  requests with their instants. Time does not go back.
\<close>

type_synonym history = "(instant \<times> (instant \<times> byte list) list) list"

definition log_request :: "bool \<Rightarrow> instant \<Rightarrow> instant \<Rightarrow> byte list \<Rightarrow> history \<Rightarrow> history" where
  "log_request fresh start now h G =
     (if fresh then G @ [(start, [(now, h)])]
      else butlast G @ [(fst (last G), snd (last G) @ [(now, h)])])"

inductive tracked :: "duration \<Rightarrow> duration \<Rightarrow> nat \<Rightarrow> instant \<Rightarrow> hll_tracker \<Rightarrow> history \<Rightarrow> bool"
  for slot window p where
  tr_start: "tracker_new slot window p = Some t \<Longrightarrow> tracked slot window p 0 t []"
| tr_record: "tracked slot window p now t G \<Longrightarrow> now \<le> now' \<Longrightarrow> tracker_record now' h t = Some t' \<Longrightarrow>
     tracked slot window p now' t' (log_request (need_new_slot now' t) (w_start (last (t_slots t'))) now' h G)"
| tr_metric: "tracked slot window p now t G \<Longrightarrow> now \<le> now' \<Longrightarrow> metric now' t = Some (m, t') \<Longrightarrow>
     tracked slot window p now' t' G"

definition slot_is :: "nat \<Rightarrow> window_slot \<Rightarrow> instant \<times> (instant \<times> byte list) list \<Rightarrow> bool" where
  "slot_is p s g = (hll_is p (map snd (snd g)) (w_hll s) \<and> w_start s = fst g \<and> w_count s = length (snd g)
     \<and> snd g \<noteq> [])"

definition hashes_of :: "history \<Rightarrow> byte list list" where
  "hashes_of G = concat (map (\<lambda>g. map snd (snd g)) G)"

definition tracker_inv :: "duration \<Rightarrow> duration \<Rightarrow> nat \<Rightarrow> instant \<Rightarrow> hll_tracker \<Rightarrow> history \<Rightarrow> bool" where
  "tracker_inv slot window p now t G =
     (t_slot_duration t = slot \<and> t_window t = window \<and> t_bits t = p \<and> (\<exists>l. hll_new p = Some l)
      \<and> (\<exists>old live. G = old @ live \<and> list_all2 (slot_is p) (t_slots t) live
           \<and> (\<forall>g \<in> set old. window \<le> now - fst g)
           \<and> (\<exists>hs. hll_is p hs (t_merged t))
           \<and> (\<not> t_dirty t \<longrightarrow> hll_is p (hashes_of (butlast live)) (t_merged t)))
      \<and> sorted (map fst G) \<and> (\<forall>g \<in> set G. fst g \<le> now))"

lemma expire_old_slots_eq:
  "expire_old_slots now w ss d
     = (dropWhile (expired_slot now w) ss, d \<or> (case ss of [] \<Rightarrow> False | s # _ \<Rightarrow> expired_slot now w s))"
  by (induction now w ss d rule: expire_old_slots.induct) auto

definition gone :: "instant \<Rightarrow> duration \<Rightarrow> instant \<times> (instant \<times> byte list) list \<Rightarrow> bool" where
  "gone now window g = (window \<le> now - fst g)"

lemma slots_dropWhile:
  "list_all2 (slot_is p) ss gs \<Longrightarrow>
     list_all2 (slot_is p) (dropWhile (expired_slot now w) ss) (dropWhile (gone now w) gs)"
  by (induction rule: list_all2_induct) (auto simp: slot_is_def expired_slot_def gone_def duration_since_def)

lemma sorted_dropWhile_gone: "sorted (map fst gs) \<Longrightarrow> dropWhile (gone now w) gs = filter (\<lambda>g. \<not> gone now w g) gs"
proof (induction gs)
  case (Cons g gs)
  show ?case
  proof (cases "gone now w g")
    case False
    have "\<forall>g' \<in> set gs. \<not> gone now w g'"
    proof
      fix g' assume "g' \<in> set gs"
      then have "fst g \<le> fst g'" using Cons.prems by simp
      then show "\<not> gone now w g'" using False by (simp add: gone_def)
    qed
    then show ?thesis using False by simp
  qed (use Cons in auto)
qed simp

lemma dropWhile_clean:
  assumes "list_all2 (slot_is p) ss gs" and "\<not> (case ss of [] \<Rightarrow> False | s # _ \<Rightarrow> expired_slot now w s)"
  shows "dropWhile (gone now w) gs = gs"
  using assms by (cases ss; cases gs) (auto simp: slot_is_def expired_slot_def gone_def duration_since_def)

lemma slots_hlls: "list_all2 (slot_is p) ss gs \<Longrightarrow> list_all2 (\<lambda>l hs. hll_is p hs l) (map w_hll ss) (map (\<lambda>g. map snd (snd g)) gs)"
  by (induction rule: list_all2_induct) (auto simp: slot_is_def)

lemma slots_count: "list_all2 (slot_is p) ss gs \<Longrightarrow> sum_list (map w_count ss) = length (hashes_of gs)"
  by (induction rule: list_all2_induct) (auto simp: slot_is_def hashes_of_def)

lemma list_all2_take: "list_all2 R xs ys \<Longrightarrow> list_all2 R (take n xs) (take n ys)"
  by (simp add: list_all2_conv_all_nth)

lemma ensure_merged_ok:
  assumes sl: "list_all2 (slot_is p) (t_slots t) live"
    and mg: "hll_is p hs (t_merged t)" and clean: "\<not> t_dirty t \<longrightarrow> hll_is p (hashes_of (butlast live)) (t_merged t)"
  obtains l where "ensure_merged t = Some (t\<lparr>t_merged := l, t_dirty := False\<rparr>)" "hll_is p (hashes_of (butlast live)) l"
proof (cases "t_dirty t")
  case False
  then have "ensure_merged t = Some (t\<lparr>t_merged := t_merged t, t_dirty := False\<rparr>)" by (simp add: ensure_merged_def)
  then show thesis using that clean False by blast
next
  case True
  have len: "length (t_slots t) = length live" using sl by (rule list_all2_lengthD)
  have "list_all2 (\<lambda>l hs. hll_is p hs l) (map w_hll (take (length live - 1) (t_slots t)))
      (map (\<lambda>g. map snd (snd g)) (take (length live - 1) live))"
    by (intro slots_hlls list_all2_take sl)
  then obtain l where "merge_all (map w_hll (take (length live - 1) (t_slots t))) (hll_clear (t_merged t)) = Some l"
    "hll_is p ([] @ concat (map (\<lambda>g. map snd (snd g)) (take (length live - 1) live))) l"
    using merge_all_is[OF hll_clear_is[OF mg]] by blast
  then show thesis
    using that True len by (auto simp: ensure_merged_def hashes_of_def butlast_conv_take)
qed

lemma tracker_invE:
  assumes "tracker_inv slot window p now t G"
  obtains old live hs where "G = old @ live" "list_all2 (slot_is p) (t_slots t) live"
    "\<forall>g \<in> set old. window \<le> now - fst g" "hll_is p hs (t_merged t)"
    "\<not> t_dirty t \<longrightarrow> hll_is p (hashes_of (butlast live)) (t_merged t)"
    "t_slot_duration t = slot" "t_window t = window" "t_bits t = p" "\<exists>l. hll_new p = Some l"
    "sorted (map fst G)" "\<forall>g \<in> set G. fst g \<le> now"
  using assms unfolding tracker_inv_def by blast

lemma tracker_invI:
  assumes "G = old @ live" "list_all2 (slot_is p) (t_slots t) live"
    "\<forall>g \<in> set old. window \<le> now - fst g" "hll_is p hs (t_merged t)"
    "\<not> t_dirty t \<longrightarrow> hll_is p (hashes_of (butlast live)) (t_merged t)"
    "t_slot_duration t = slot" "t_window t = window" "t_bits t = p" "\<exists>l. hll_new p = Some l"
    "sorted (map fst G)" "\<forall>g \<in> set G. fst g \<le> now"
  shows "tracker_inv slot window p now t G"
  using assms unfolding tracker_inv_def by blast

text \<open>The requests a metric taken at \<open>now\<close> covers.\<close>

definition covered :: "instant \<Rightarrow> duration \<Rightarrow> history \<Rightarrow> history" where
  "covered now window G = filter (\<lambda>g. \<not> gone now window g) G"

lemma metric_ok:
  assumes inv: "tracker_inv slot window p now t G" and le: "now \<le> now'"
  shows "\<exists>m t'. metric now' t = Some (m, t') \<and> tracker_inv slot window p now' t' G
    \<and> total_requests m = length (hashes_of (covered now' window G))
    \<and> cardinality m = (if covered now' window G = [] then 0
          else estimate_cardinality (regs_of p (hashes_of (covered now' window G))))
    \<and> estimated_hit_rate m = hit_rate (cardinality m) (total_requests m)
    \<and> window_slot_count m = length (covered now' window G)"
proof -
  from inv obtain old live hs where G: "G = old @ live" and sl: "list_all2 (slot_is p) (t_slots t) live"
    and old: "\<forall>g \<in> set old. window \<le> now - fst g" and mg: "hll_is p hs (t_merged t)"
    and clean: "\<not> t_dirty t \<longrightarrow> hll_is p (hashes_of (butlast live)) (t_merged t)"
    and par: "t_slot_duration t = slot" "t_window t = window" "t_bits t = p" "\<exists>l. hll_new p = Some l"
    and srt: "sorted (map fst G)" and bnd: "\<forall>g \<in> set G. fst g \<le> now"
    by (rule tracker_invE)
  let ?ss = "dropWhile (expired_slot now' window) (t_slots t)" and ?live = "dropWhile (gone now' window) live"
  let ?d = "t_dirty t \<or> (case t_slots t of [] \<Rightarrow> False | s # _ \<Rightarrow> expired_slot now' window s)"
  let ?t1 = "t\<lparr>t_slots := ?ss, t_dirty := ?d\<rparr>"
  have sl1: "list_all2 (slot_is p) ?ss ?live" using sl by (rule slots_dropWhile)
  have clean1: "\<not> ?d \<longrightarrow> hll_is p (hashes_of (butlast ?live)) (t_merged t)"
    using clean dropWhile_clean[OF sl, of now' window] by auto
  obtain l where em: "ensure_merged ?t1 = Some (?t1\<lparr>t_merged := l, t_dirty := False\<rparr>)"
    and l: "hll_is p (hashes_of (butlast ?live)) l"
    using ensure_merged_ok[of p ?t1 ?live hs] sl1 mg clean1 by auto
  have live: "?live = filter (\<lambda>g. \<not> gone now' window g) live"
    using srt by (intro sorted_dropWhile_gone) (simp add: G sorted_append)
  have "\<forall>g \<in> set old. gone now' window g" using old le by (auto simp: gone_def)
  then have cov: "covered now' window G = ?live" unfolding live covered_def G by simp
  have crd: "union_cardinality l (w_hll (last ?ss)) = estimate_cardinality (regs_of p (hashes_of ?live))"
    if ne: "?ss \<noteq> []"
  proof -
    have ne': "?live \<noteq> []" using sl1 ne by (metis list_all2_Nil2)
    have "slot_is p (last ?ss) (last ?live)"
      using sl1 ne ne' by (simp add: list_all2_conv_all_nth last_conv_nth)
    then have "hll_is p (map snd (snd (last ?live))) (w_hll (last ?ss))" by (simp add: slot_is_def)
    moreover have "hashes_of (butlast ?live) @ map snd (snd (last ?live)) = hashes_of ?live"
    proof -
      have "hashes_of (butlast ?live @ [last ?live]) = hashes_of (butlast ?live) @ map snd (snd (last ?live))"
        by (simp add: hashes_of_def)
      then show ?thesis using ne' by simp
    qed
    ultimately show ?thesis using union_cardinality_is[OF l] by simp
  qed
  have emp: "?ss = [] \<longleftrightarrow> ?live = []" using sl1 by (metis list_all2_Nil list_all2_Nil2)
  let ?t' = "?t1\<lparr>t_merged := l, t_dirty := False\<rparr>"
  have inv': "tracker_inv slot window p now' ?t' G"
  proof (rule tracker_invI)
    show "G = (old @ takeWhile (gone now' window) live) @ ?live" by (simp add: G)
    show "\<forall>g \<in> set (old @ takeWhile (gone now' window) live). window \<le> now' - fst g"
      using old le by (auto simp: gone_def dest: set_takeWhileD)
    show "\<forall>g \<in> set G. fst g \<le> now'" using bnd le by auto
    show "hll_is p (hashes_of (butlast ?live)) (t_merged ?t')" using l by simp
  qed (use sl1 l par srt in simp_all)
  show ?thesis
    unfolding metric_def using em crd emp cov inv' slots_count[OF sl1] list_all2_lengthD[OF sl1]
    by (simp add: expire_old_slots_eq par Let_def del: dropWhile_eq_Nil_conv)
qed

lemma record_slot_is:
  assumes "hll_is p (map snd rs) (w_hll s)" "w_start s = a" "w_count s = length rs"
  shows "slot_is p (record_slot h s) (a, rs @ [(now, h)])"
  using assms hll_insert_is[of p "map snd rs" "w_hll s" h] by (simp add: slot_is_def record_slot_def)

lemma list_all2_last: "list_all2 R xs ys \<Longrightarrow> xs \<noteq> [] \<Longrightarrow> R (last xs) (last ys)"
proof -
  assume a: "list_all2 R xs ys" "xs \<noteq> []"
  then have "length ys = length xs" "ys \<noteq> []" by (auto dest: list_all2_lengthD)
  then show "R (last xs) (last ys)"
    using a list_all2_nthD[OF a(1), of "length xs - 1"] by (simp add: last_conv_nth)
qed

lemma list_all2_butlast: "list_all2 R xs ys \<Longrightarrow> list_all2 R (butlast xs) (butlast ys)"
  by (auto simp: list_all2_conv_all_nth nth_butlast)

lemma aligned_start_bounds:
  assumes a: "aligned_start now t = Some s" and ne: "t_slots t \<noteq> []" and le: "w_start (last (t_slots t)) \<le> now"
  shows "w_start (last (t_slots t)) \<le> s" "s \<le> now"
    "now < t_slot_duration t * 2 ^ 32 \<Longrightarrow> now < s + t_slot_duration t"
proof -
  let ?b = "w_start (last (t_slots t))" and ?d = "t_slot_duration t"
  let ?q = "(now - ?b) div ?d"
  have s: "s = ?b + ?d * (?q mod 2 ^ 32)" and d: "0 < ?d"
    using a ne by (auto simp: aligned_start_def duration_since_def Let_def split: if_splits)
  show "?b \<le> s" by (simp add: s)
  have "?d * (?q mod 2 ^ 32) \<le> ?d * ?q" by (intro mult_le_mono2 mod_less_eq_dividend)
  also have "\<dots> \<le> now - ?b" by (simp add: mult.commute)
  finally show "s \<le> now" using le unfolding s by linarith
  assume "now < ?d * 2 ^ 32"
  then have "now - ?b < 2 ^ 32 * ?d" by (simp add: mult.commute less_imp_diff_less)
  then have "?q < 2 ^ 32" using d by (simp add: div_less_iff_less_mult)
  then have "s = ?b + ?d * ?q" by (simp add: s)
  moreover have "now - ?b < ?d * ?q + ?d"
    using d mod_less_divisor[of ?d "now - ?b"] mult_div_mod_eq[of ?d "now - ?b"] by linarith
  ultimately show "now < s + ?d" by linarith
qed

lemma history_not_empty:
  assumes "tracker_inv slot window p now t G" "t_slots t \<noteq> []"
  shows "G \<noteq> []" "fst (last G) = w_start (last (t_slots t))"
proof -
  from assms(1) obtain old live hs where g: "G = old @ live" "list_all2 (slot_is p) (t_slots t) live"
    by (rule tracker_invE)
  then have "live \<noteq> []" using assms(2) by (metis list_all2_Nil2)
  then show "G \<noteq> []" "fst (last G) = w_start (last (t_slots t))"
    using g list_all2_last[OF g(2) assms(2)] by (auto simp: slot_is_def)
qed

lemma sorted_le_last: "sorted (map fst G) \<Longrightarrow> g \<in> set G \<Longrightarrow> fst g \<le> fst (last G)"
proof (induction G rule: rev_induct)
  case (snoc x G)
  then show ?case by (auto simp: sorted_append)
qed simp

lemma record_new_inv:
  assumes inv: "tracker_inv slot window p now t G" and le: "now \<le> now'"
    and new: "need_new_slot now' t" and r: "tracker_record now' h t = Some t'"
  shows "tracker_inv slot window p now' t' (G @ [(w_start (last (t_slots t')), [(now', h)])])"
proof -
  from inv obtain old live hs where G: "G = old @ live" and sl: "list_all2 (slot_is p) (t_slots t) live"
    and old: "\<forall>g \<in> set old. window \<le> now - fst g" and mg: "hll_is p hs (t_merged t)"
    and par: "t_slot_duration t = slot" "t_window t = window" "t_bits t = p" "\<exists>l. hll_new p = Some l"
    and srt: "sorted (map fst G)" and bnd: "\<forall>g \<in> set G. fst g \<le> now"
    by (rule tracker_invE)
  obtain s l where s: "aligned_start now' t = Some s" and l: "hll_new p = Some l"
    and t': "t' = t\<lparr>t_dirty := True, t_slots := t_slots t @ [record_slot h \<lparr>w_hll = l, w_start = s, w_count = 0\<rparr>]\<rparr>"
    using r new par(3) by (auto simp: tracker_record_def split: option.splits)
  have sb: "s \<le> now' \<and> (\<forall>g \<in> set G. fst g \<le> s)"
  proof (cases "t_slots t = []")
    case True
    then show ?thesis using s bnd le by (auto simp: aligned_start_def)
  next
    case False
    note L = history_not_empty[OF inv False]
    have "fst (last G) \<le> now'" using bnd le L(1) by (meson last_in_set le_trans)
    then have b: "w_start (last (t_slots t)) \<le> now'" using L(2) by simp
    have "\<forall>g \<in> set G. fst g \<le> s"
      using aligned_start_bounds(1)[OF s False b] sorted_le_last[OF srt] L(2) by (metis le_trans)
    then show ?thesis using aligned_start_bounds(2)[OF s False b] by blast
  qed
  have st: "w_start (last (t_slots t')) = s" by (simp add: t' record_slot_def)
  have sl': "slot_is p (record_slot h \<lparr>w_hll = l, w_start = s, w_count = 0\<rparr>) (s, [(now', h)])"
    using record_slot_is[of p "[]" "\<lparr>w_hll = l, w_start = s, w_count = 0\<rparr>" s h now'] hll_new_is[OF l] by simp
  show ?thesis
  proof (rule tracker_invI)
    show "G @ [(w_start (last (t_slots t')), [(now', h)])] = old @ (live @ [(s, [(now', h)])])"
      by (simp add: G st)
    show "list_all2 (slot_is p) (t_slots t') (live @ [(s, [(now', h)])])"
      using sl sl' by (simp add: t' list_all2_appendI)
    show "\<forall>g \<in> set old. window \<le> now' - fst g" using old le by fastforce
    show "sorted (map fst (G @ [(w_start (last (t_slots t')), [(now', h)])]))"
      using srt sb by (simp add: sorted_append st)
    show "\<forall>g \<in> set (G @ [(w_start (last (t_slots t')), [(now', h)])]). fst g \<le> now'"
      using sb bnd le st by auto
  qed (use mg par in \<open>simp_all add: t'\<close>)
qed

lemma record_same_inv:
  assumes inv: "tracker_inv slot window p now t G" and le: "now \<le> now'"
    and same: "\<not> need_new_slot now' t" and r: "tracker_record now' h t = Some t'"
  shows "tracker_inv slot window p now' t' (butlast G @ [(fst (last G), snd (last G) @ [(now', h)])])"
proof -
  from inv obtain old live hs where G: "G = old @ live" and sl: "list_all2 (slot_is p) (t_slots t) live"
    and old: "\<forall>g \<in> set old. window \<le> now - fst g" and mg: "hll_is p hs (t_merged t)"
    and clean: "\<not> t_dirty t \<longrightarrow> hll_is p (hashes_of (butlast live)) (t_merged t)"
    and par: "t_slot_duration t = slot" "t_window t = window" "t_bits t = p" "\<exists>l. hll_new p = Some l"
    and srt: "sorted (map fst G)" and bnd: "\<forall>g \<in> set G. fst g \<le> now"
    by (rule tracker_invE)
  have ne: "t_slots t \<noteq> []" using same by (auto simp: need_new_slot_def)
  then have lne: "live \<noteq> []" using sl by (metis list_all2_Nil2)
  have t': "t' = t\<lparr>t_slots := butlast (t_slots t) @ [record_slot h (last (t_slots t))]\<rparr>"
    using r same by (simp add: tracker_record_def)
  have L: "slot_is p (last (t_slots t)) (last live)" by (rule list_all2_last[OF sl ne])
  have "slot_is p (record_slot h (last (t_slots t))) (fst (last live), snd (last live) @ [(now', h)])"
    using L by (intro record_slot_is) (auto simp: slot_is_def)
  then have sl': "list_all2 (slot_is p) (t_slots t') (butlast live @ [(fst (last live), snd (last live) @ [(now', h)])])"
    unfolding t' using list_all2_butlast[OF sl] by (simp add: list_all2_appendI)
  have G': "butlast G @ [(fst (last G), snd (last G) @ [(now', h)])]
      = old @ (butlast live @ [(fst (last live), snd (last live) @ [(now', h)])])"
    using lne by (simp add: G butlast_append)
  have fst': "map fst (butlast G @ [(fst (last G), snd (last G) @ [(now', h)])]) = map fst G"
    using lne by (cases G rule: rev_cases) (auto simp: G)
  show ?thesis
  proof (rule tracker_invI[OF G' sl'])
    show "\<forall>g \<in> set old. window \<le> now' - fst g" using old le by fastforce
    show "sorted (map fst (butlast G @ [(fst (last G), snd (last G) @ [(now', h)])]))"
      unfolding fst' by (rule srt)
    have "\<forall>x \<in> set (map fst (butlast G @ [(fst (last G), snd (last G) @ [(now', h)])])). x \<le> now'"
      unfolding fst' using bnd le by auto
    then show "\<forall>g \<in> set (butlast G @ [(fst (last G), snd (last G) @ [(now', h)])]). fst g \<le> now'" by simp
  qed (use mg par clean in \<open>simp_all add: t'\<close>)
qed

lemma tracked_inv: "tracked slot window p now t G \<Longrightarrow> tracker_inv slot window p now t G"
proof (induction rule: tracked.induct)
  case (tr_start t)
  then obtain l where "hll_new p = Some l" "t = \<lparr>t_slots = [], t_merged = l, t_dirty = False, t_slot_duration = slot,
      t_window = window, t_bits = p\<rparr>" by (auto simp: tracker_new_def)
  then show ?case using hll_new_is[of p l]
    by (intro tracker_invI[of _ "[]" "[]" _ _ _ _ "[]"]) (simp_all add: hashes_of_def)
next
  case (tr_record now t G now' h t')
  then show ?case
    using record_new_inv[OF tr_record.IH tr_record.hyps(2) _ tr_record.hyps(3)]
      record_same_inv[OF tr_record.IH tr_record.hyps(2) _ tr_record.hyps(3)]
    by (simp add: log_request_def)
next
  case (tr_metric now t G now' m t')
  then show ?case using metric_ok[OF tr_metric.IH tr_metric.hyps(2)] by auto
qed

definition placed :: "duration \<Rightarrow> instant \<Rightarrow> instant \<times> (instant \<times> byte list) list \<Rightarrow> bool" where
  "placed slot now g = (snd g \<noteq> [] \<and> (\<forall>r \<in> set (snd g). fst g \<le> fst r \<and> fst r < fst g + slot \<and> fst r \<le> now))"

lemma placed_mono: "placed slot now g \<Longrightarrow> now \<le> now' \<Longrightarrow> placed slot now' g"
  by (force simp: placed_def)

lemma record_placed:
  assumes inv: "tracker_inv slot window p now t G" and le: "now \<le> now'" and r: "tracker_record now' h t = Some t'"
    and G: "\<forall>g \<in> set G. placed slot now g" and small: "now' < slot * 2 ^ 32"
  shows "\<forall>g \<in> set (log_request (need_new_slot now' t) (w_start (last (t_slots t'))) now' h G). placed slot now' g"
proof -
  have d: "t_slot_duration t = slot" "\<forall>g \<in> set G. fst g \<le> now" using inv by (auto simp: tracker_inv_def)
  have old: "\<forall>g \<in> set G. placed slot now' g" using G le placed_mono by blast
  have slot: "0 < slot" using small by (cases slot) auto
  have last_le: "w_start (last (t_slots t)) \<le> now'" if "t_slots t \<noteq> []"
    using history_not_empty[OF inv that] d(2) le by (metis last_in_set le_trans)
  show ?thesis
  proof (cases "need_new_slot now' t")
    case True
    obtain s where s: "aligned_start now' t = Some s" "w_start (last (t_slots t')) = s"
      using r True by (auto simp: tracker_record_def record_slot_def split: option.splits)
    have "s \<le> now' \<and> now' < s + slot"
    proof (cases "t_slots t = []")
      case True
      then show ?thesis using s slot by (auto simp: aligned_start_def)
    next
      case False
      show ?thesis using aligned_start_bounds[OF s(1) False last_le[OF False]] d(1) small by simp
    qed
    then show ?thesis using True old s(2) by (auto simp: log_request_def placed_def)
  next
    case False
    then have ne: "t_slots t \<noteq> []" and lt: "now' - w_start (last (t_slots t)) < slot"
      by (auto simp: need_new_slot_def d duration_since_def)
    note L = history_not_empty[OF inv ne]
    have "placed slot now' (last G)" using old L(1) by simp
    then have "placed slot now' (fst (last G), snd (last G) @ [(now', h)])"
      using lt last_le[OF ne] L(2) by (auto simp: placed_def)
    moreover have "\<forall>g \<in> set (butlast G). placed slot now' g" using old by (auto dest: in_set_butlastD)
    ultimately show ?thesis using False by (simp add: log_request_def)
  qed
qed

lemma tracked_placed:
  "tracked slot window p now t G \<Longrightarrow> now < slot * 2 ^ 32 \<Longrightarrow> \<forall>g \<in> set G. placed slot now g"
proof (induction rule: tracked.induct)
  case (tr_record now t G now' h t')
  have "\<forall>g \<in> set G. placed slot now g" using tr_record by simp
  then show ?case
    using record_placed[OF tracked_inv[OF tr_record.hyps(1)] tr_record.hyps(2,3)] tr_record.prems by blast
next
  case (tr_metric now t G now' m t')
  then show ?case using placed_mono[of slot now _ now'] by auto
qed simp

lemma sum_powers_nonneg: "0 \<le> (\<Sum>r \<leftarrow> regs. 1 / 2 ^ r :: real)"
  by (rule sum_list_nonneg) auto

lemma estimate_nonneg: "0 \<le> estimate_cardinality regs"
proof -
  have a: "0 \<le> alpha_m (length regs)" by (simp add: alpha_m_def)
  have raw: "0 \<le> alpha_m (length regs) * real (length regs) * real (length regs) / (\<Sum>r \<leftarrow> regs. 1 / 2 ^ r)"
    using a sum_powers_nonneg[of regs] by (intro divide_nonneg_nonneg mult_nonneg_nonneg) simp_all
  have "0 \<le> real (length regs) * ln (real (length regs) / real (length (filter (\<lambda>r. r = 0) regs)))"
    if "0 < real (length (filter (\<lambda>r. r = 0) regs))"
    using that length_filter_le[of "\<lambda>r. r = 0" regs]
    by (intro mult_nonneg_nonneg ln_ge_zero) (simp_all add: le_divide_eq_1 del: length_filter_le)
  then show ?thesis using raw by (simp add: estimate_cardinality_def Let_def)
qed

lemma hit_rate_bounds: "0 \<le> c \<Longrightarrow> 0 \<le> hit_rate c n \<and> hit_rate c n \<le> 1"
  by (auto simp: hit_rate_def divide_le_eq min_def)

text \<open>The share of requests beyond the distinct ones, none when there are more distinct ones than requests.\<close>

lemma hit_rate_value: "hit_rate c n = (if n = 0 then 0 else max 0 (1 - c / real n))"
  by (auto simp: hit_rate_def min_def max_def field_simps)

lemma record_total:
  assumes "tracker_inv slot window p now t G" and "0 < slot"
  shows "\<exists>t'. tracker_record now' h t = Some t'"
  using assms by (auto simp: tracker_inv_def tracker_record_def aligned_start_def Let_def split: option.splits)

abbreviation requests :: "history \<Rightarrow> (instant \<times> byte list) list" where
  "requests G \<equiv> concat (map snd G)"

lemma hashes_of_requests: "hashes_of G = map snd (requests G)"
  by (simp add: hashes_of_def map_concat comp_def)

text \<open>
  C37. The sliding window: whatever requests and metrics came before (in the first \<open>2 ^ 32\<close> slots), a metric succeeds
  and all its fields are the ones computed afresh from the latest requests: these are all younger than the window, and
  the ones left out are older than the window less one slot. The count is exact; the cardinality is the estimate on the
  registers of exactly these hashes; the hit rate is the share of these requests beyond the estimated distinct ones,
  zero when the estimate is larger or there is no request; the number of slots is that of the slots begun within the
  window. Recording never fails.
\<close>

theorem window_exact:
  assumes tr: "tracked slot window p now t G" and small: "now < slot * 2 ^ 32" and le: "now \<le> now'"
  shows "(\<exists>m t' old L. metric now' t = Some (m, t') \<and> requests G = old @ L
      \<and> (\<forall>r \<in> set old. window < now' - fst r + slot) \<and> (\<forall>r \<in> set L. now' - fst r < window)
      \<and> total_requests m = length L
      \<and> cardinality m = (if L = [] then 0 else estimate_cardinality (regs_of p (map snd L)))
      \<and> estimated_hit_rate m = (if L = [] then 0 else max 0 (1 - cardinality m / real (length L)))
      \<and> 0 \<le> estimated_hit_rate m \<and> estimated_hit_rate m \<le> 1
      \<and> window_slot_count m = length (filter (\<lambda>g. now' - fst g < window) G))
    \<and> (\<exists>t'. tracker_record now' h t = Some t')"
proof -
  have inv: "tracker_inv slot window p now t G" using tr by (rule tracked_inv)
  have pl: "\<forall>g \<in> set G. placed slot now g" using tracked_placed[OF tr small] .
  let ?C = "covered now' window G" and ?O = "takeWhile (gone now' window) G"
  have "sorted (map fst G)" using inv by (simp add: tracker_inv_def)
  then have C: "?C = dropWhile (gone now' window) G" by (simp add: covered_def sorted_dropWhile_gone)
  have split: "requests G = requests ?O @ requests ?C"
    unfolding C concat_append[symmetric] map_append[symmetric] takeWhile_dropWhile_id ..
  obtain m t' where m: "metric now' t = Some (m, t')" "total_requests m = length (hashes_of ?C)"
    "cardinality m = (if ?C = [] then 0 else estimate_cardinality (regs_of p (hashes_of ?C)))"
    "estimated_hit_rate m = hit_rate (cardinality m) (total_requests m)" "window_slot_count m = length ?C"
    using metric_ok[OF inv le] by blast
  have ne: "?C = [] \<longleftrightarrow> requests ?C = []"
    using pl by (auto simp: covered_def placed_def filter_empty_conv)
  have out: "\<forall>r \<in> set (requests ?O). window < now' - fst r + slot"
  proof
    fix r assume "r \<in> set (requests ?O)"
    then obtain g where "g \<in> set ?O" "r \<in> set (snd g)" by auto
    then have g: "g \<in> set G" "gone now' window g" "r \<in> set (snd g)" by (auto dest: set_takeWhileD)
    then have "fst g \<le> fst r" "fst r < fst g + slot" "fst r \<le> now" using pl by (auto simp: placed_def)
    then show "window < now' - fst r + slot" using g(2) le unfolding gone_def by linarith
  qed
  have bound: "\<forall>r \<in> set (requests ?C). now' - fst r < window"
  proof
    fix r assume "r \<in> set (requests ?C)"
    then obtain g where g: "g \<in> set G" "r \<in> set (snd g)" "\<not> gone now' window g"
      by (auto simp: covered_def)
    then have "fst g \<le> fst r" using pl by (auto simp: placed_def)
    then show "now' - fst r < window" using g(3) by (auto simp: gone_def)
  qed
  have "0 \<le> cardinality m" using m(3) estimate_nonneg by simp
  then have hr: "0 \<le> estimated_hit_rate m \<and> estimated_hit_rate m \<le> 1" using m(4) hit_rate_bounds by simp
  have "0 < slot" using small by (cases slot) auto
  then have rec: "\<exists>t'. tracker_record now' h t = Some t'" by (rule record_total[OF inv])
  have "total_requests m = length (requests ?C)"
    "cardinality m = (if requests ?C = [] then 0 else estimate_cardinality (regs_of p (map snd (requests ?C))))"
    using m ne by (simp_all add: hashes_of_requests)
  moreover from this have "estimated_hit_rate m = (if requests ?C = [] then 0 else max 0 (1 - cardinality m / real (length (requests ?C))))"
    using m(4) by (simp add: hit_rate_value)
  moreover have "window_slot_count m = length (filter (\<lambda>g. now' - fst g < window) G)"
    using m(5) by (simp add: covered_def gone_def not_le split_beta)
  ultimately show ?thesis using m(1) split out bound hr rec by blast
qed

lemma window_exact_witness:
  "\<exists>t t'. tracker_record 5 [1, 2, 3, 4] t = Some t' \<and> tracked 60 3600 4 5 t' [(5, [(5, [1, 2, 3, 4])])]
     \<and> (\<exists>m t''. metric 10 t' = Some (m, t'') \<and> total_requests m = 1 \<and> window_slot_count m = 1)"
proof -
  obtain l where l: "hll_new 4 = Some l" by (simp add: hll_new_def MIN_BUCKET_BITS_def MAX_BUCKET_BITS_def)
  let ?t = "\<lparr>t_slots = [], t_merged = l, t_dirty = False, t_slot_duration = 60, t_window = 3600, t_bits = 4\<rparr>"
  have t0: "tracked 60 3600 4 0 ?t []" by (rule tr_start) (simp add: tracker_new_def l)
  obtain t' where t': "tracker_record 5 [1, 2, 3, 4] ?t = Some t'"
    and st: "need_new_slot 5 ?t" "w_start (last (t_slots t')) = 5"
    by (simp add: tracker_record_def need_new_slot_def aligned_start_def l record_slot_def)
  have tr: "tracked 60 3600 4 5 t' [(5, [(5, [1, 2, 3, 4])])]"
    using tr_record[OF t0 _ t'] st by (simp add: log_request_def)
  have "\<exists>m t''. metric 10 t' = Some (m, t'') \<and> total_requests m = 1 \<and> window_slot_count m = 1"
    using window_exact[OF tr, of 10 "[]"] by (auto simp: Cons_eq_append_conv)
  then show ?thesis using t' tr by blast
qed

end
