(* ===== verification/Pinned_Pool.thy ===== *)
theory Pinned_Pool
  imports Blocks Core_Metrics "HOL-Library.Multiset"
begin

text \<open>
  Pinned memory: the byte-level wrapper of \<^verbatim>\<open>pegaflow-core/src/allocator.rs\<close> around the
  \<^verbatim>\<open>offset-allocator\<close> crate and the pools of \<^verbatim>\<open>pegaflow-core/src/pinned_pool.rs\<close> (one shard, the shards
  of a node, the nodes). The crate is not part of the repository: it is a record of
  operations, and what the code relies on is the predicate \<open>raw_contract\<close>. Mapping and registering memory is
  outside the model: a pool is given the addresses and the size of its region. A
  panic is \<open>None\<close>.
\<close>

section \<open>The offset allocator\<close>

record ('r, 'a) raw_ops =
  raw_with_max_allocs :: "nat \<Rightarrow> nat \<Rightarrow> 'r"
  raw_allocate :: "nat \<Rightarrow> 'r \<Rightarrow> 'a option \<times> 'r"
  raw_offset :: "'a \<Rightarrow> nat"
  raw_size :: "'a \<Rightarrow> 'r \<Rightarrow> nat"
  raw_free :: "'a \<Rightarrow> 'r \<Rightarrow> 'r"
  raw_total_free :: "'r \<Rightarrow> nat"
  raw_largest_free :: "'r \<Rightarrow> nat"

text \<open>
  \<open>R cap r L\<close>: the allocator \<open>r\<close> over \<open>cap\<close> units has handed out the allocations \<open>L\<close>, each
  with its size.
\<close>

definition apart :: "nat \<Rightarrow> nat \<Rightarrow> nat \<Rightarrow> nat \<Rightarrow> bool" where
  "apart a n b m = (a + n \<le> b \<or> b + m \<le> a)"

definition raw_contract :: "('r, 'a) raw_ops \<Rightarrow> (nat \<Rightarrow> 'r \<Rightarrow> ('a \<times> nat) multiset \<Rightarrow> bool) \<Rightarrow> bool" where
  "raw_contract ops R =
     ((\<forall>cap m. R cap (raw_with_max_allocs ops cap m) {#})
    \<and> (\<forall>cap r L u a r'. R cap r L \<longrightarrow> 0 < u \<longrightarrow> raw_allocate ops u r = (Some a, r') \<longrightarrow>
         u \<le> raw_size ops a r' \<and> raw_offset ops a + raw_size ops a r' \<le> cap
         \<and> (\<forall>(b, k) \<in># L. apart (raw_offset ops a) (raw_size ops a r') (raw_offset ops b) k)
         \<and> R cap r' (add_mset (a, raw_size ops a r') L))
    \<and> (\<forall>cap r L u r'. R cap r L \<longrightarrow> raw_allocate ops u r = (None, r') \<longrightarrow> r' = r)
    \<and> (\<forall>cap r L a n. R cap r L \<longrightarrow> (a, n) \<in># L \<longrightarrow> R cap (raw_free ops a r) (L - {#(a, n)#}))
    \<and> (\<forall>cap r L. R cap r L \<longrightarrow> raw_total_free ops r + sum_mset (image_mset snd L) \<le> cap)
    \<and> (\<forall>cap r L. R cap r L \<longrightarrow> raw_largest_free ops r \<le> cap)
    \<and> (\<forall>cap r L u. R cap r L \<longrightarrow> 0 < u \<longrightarrow> u \<le> raw_largest_free ops r \<longrightarrow> fst (raw_allocate ops u r) \<noteq> None))"

section \<open>Byte-level wrapper\<close>

definition u32_max :: nat where "u32_max = 2 ^ 32 - 1"

datatype allocator_error = InvalidUnitSize | CapacityTooLarge u64 u64 | RequestTooLarge u64 u64

record 'a allocation =
  offset_bytes :: u64
  size_bytes :: u64
  raw :: 'a

record 'r scaled_allocator =
  unit_size :: u64
  total_units :: nat
  inner :: 'r

record storage_report_bytes =
  total_free_bytes :: u64
  largest_free_allocation_bytes :: u64

definition div_ceil :: "nat \<Rightarrow> nat \<Rightarrow> nat" where
  "div_ceil a b = a div b + (if a mod b = 0 then 0 else 1)"

definition scaled_new ::
    "('r, 'a) raw_ops \<Rightarrow> u64 \<Rightarrow> u64 \<Rightarrow> nat \<Rightarrow> allocator_error + 'r scaled_allocator" where
  "scaled_new ops total_bytes unit max_allocs =
     (if unit = 0 then Inl InvalidUnitSize
      else let units = total_bytes div unit
           in if u32_max < units then Inl (CapacityTooLarge total_bytes unit)
              else Inr \<lparr>unit_size = unit, total_units = units, inner = raw_with_max_allocs ops units max_allocs\<rparr>)"

definition scaled_allocate ::
    "('r, 'a) raw_ops \<Rightarrow> u64 \<Rightarrow> 'r scaled_allocator \<Rightarrow>
     ((allocator_error + 'a allocation option) \<times> 'r scaled_allocator) option" where
  "scaled_allocate ops bytes s =
     (if bytes = 0 then Some (Inr None, s)
      else let units = div_ceil bytes (unit_size s)
           in if u32_max < units then Some (Inl (RequestTooLarge bytes (unit_size s)), s)
              else case raw_allocate ops units (inner s) of
                  (None, r) \<Rightarrow> Some (Inr None, s\<lparr>inner := r\<rparr>)
                | (Some a, r) \<Rightarrow>
                    let n = wrapping_mul (raw_size ops a r) (unit_size s)
                    in if n = 0 then None
                       else Some (Inr (Some \<lparr>offset_bytes = wrapping_mul (raw_offset ops a) (unit_size s),
                                             size_bytes = n, raw = a\<rparr>), s\<lparr>inner := r\<rparr>))"

definition scaled_free :: "('r, 'a) raw_ops \<Rightarrow> 'a allocation \<Rightarrow> 'r scaled_allocator \<Rightarrow> 'r scaled_allocator" where
  "scaled_free ops al s = s\<lparr>inner := raw_free ops (raw al) (inner s)\<rparr>"

definition total_bytes :: "'r scaled_allocator \<Rightarrow> u64" where
  "total_bytes s = wrapping_mul (unit_size s) (total_units s)"

definition storage_report :: "('r, 'a) raw_ops \<Rightarrow> 'r scaled_allocator \<Rightarrow> storage_report_bytes" where
  "storage_report ops s =
     \<lparr>total_free_bytes = wrapping_mul (raw_total_free ops (inner s)) (unit_size s),
      largest_free_allocation_bytes = wrapping_mul (raw_largest_free ops (inner s)) (unit_size s)\<rparr>"

section \<open>One pool\<close>

definition MAX_ALLOCS :: nat where "MAX_ALLOCS = 4000000"
definition UNIT_ALIGNMENT :: u64 where "UNIT_ALIGNMENT = 512"

definition compute_unit_size :: "u64 \<Rightarrow> u64 option \<Rightarrow> u64" where
  "compute_unit_size pool_size hint =
     (let min_unit = div_ceil pool_size u32_max;
          base = (case hint of Some h \<Rightarrow> h | None \<Rightarrow> UNIT_ALIGNMENT);
          unit = max base min_unit
      in wrapping_mul (div_ceil unit UNIT_ALIGNMENT) UNIT_ALIGNMENT)"

record region =
  reg_ptr :: nat
  reg_device_ptr :: nat
  reg_size :: u64

record 'r memory_pool =
  backing :: region
  pool_allocator :: "'r scaled_allocator"
  allocatable_bytes :: u64

text \<open>A guard names the pool it belongs to: the node and the shard.\<close>

type_synonym pool_id = "numa_node \<times> nat"

record 'a guard =
  g_allocation :: "'a allocation"
  g_ptr :: nat
  g_device_ptr :: nat
  g_pool :: pool_id

definition pinned_of :: "'a guard \<Rightarrow> pinned_allocation" where
  "pinned_of g = \<lparr>pa_size = size_bytes (g_allocation g), pa_ptr = g_ptr g, pa_device_ptr = g_device_ptr g\<rparr>"

text \<open>
  The region is what mapping \<open>pool_size\<close> bytes returned, \<open>None\<close> where that fails (an
  \<^verbatim>\<open>expect\<close>).
\<close>

definition pool_new ::
    "('r, 'a) raw_ops \<Rightarrow> usize \<Rightarrow> region option \<Rightarrow> u64 option \<Rightarrow> core_metrics \<Rightarrow>
     ('r memory_pool \<times> core_metrics) option" where
  "pool_new ops pool_size mapped hint m =
     (if pool_size = 0 then None
      else case mapped of
          None \<Rightarrow> None
        | Some rg \<Rightarrow>
            let actual_size = reg_size rg; unit = compute_unit_size actual_size hint
            in if unit = 0 then None
               else let max_units = actual_size div unit; bytes = wrapping_mul max_units unit;
                        m' = m\<lparr>pool_capacity_bytes := gauge_plus bytes (pool_capacity_bytes m)\<rparr>
                    in case scaled_new ops actual_size unit MAX_ALLOCS of
                         Inl e \<Rightarrow> None
                       | Inr s \<Rightarrow>
                           Some (\<lparr>backing = rg, pool_allocator = s, allocatable_bytes = bytes\<rparr>, m'))"

definition pool_allocate ::
    "('r, 'a) raw_ops \<Rightarrow> pool_id \<Rightarrow> u64 \<Rightarrow> 'r memory_pool \<Rightarrow> core_metrics \<Rightarrow>
     ('a guard option \<times> 'r memory_pool \<times> core_metrics) option" where
  "pool_allocate ops pid bytes p m =
     (case scaled_allocate ops bytes (pool_allocator p) of
        None \<Rightarrow> None
      | Some (Inl e, s) \<Rightarrow> Some (None, p\<lparr>pool_allocator := s\<rparr>, m)
      | Some (Inr None, s) \<Rightarrow> Some (None, p\<lparr>pool_allocator := s\<rparr>, m)
      | Some (Inr (Some al), s) \<Rightarrow>
          (case checked_add (offset_bytes al) (size_bytes al) of
             None \<Rightarrow> None
           | Some end' \<Rightarrow>
               if reg_size (backing p) < end' then None
               else Some (Some \<lparr>g_allocation = al, g_ptr = reg_ptr (backing p) + offset_bytes al,
                                g_device_ptr = reg_device_ptr (backing p) + offset_bytes al, g_pool = pid\<rparr>,
                          p\<lparr>pool_allocator := s\<rparr>,
                          m\<lparr>pool_used_bytes := gauge_plus (size_bytes al) (pool_used_bytes m)\<rparr>)))"

definition free_internal ::
    "('r, 'a) raw_ops \<Rightarrow> 'a guard \<Rightarrow> 'r memory_pool \<Rightarrow> core_metrics \<Rightarrow> 'r memory_pool \<times> core_metrics" where
  "free_internal ops g p m =
     (p\<lparr>pool_allocator := scaled_free ops (g_allocation g) (pool_allocator p)\<rparr>,
      m\<lparr>pool_used_bytes := gauge_minus (size_bytes (g_allocation g)) (pool_used_bytes m)\<rparr>)"

definition pool_usage :: "('r, 'a) raw_ops \<Rightarrow> 'r memory_pool \<Rightarrow> u64 \<times> u64" where
  "pool_usage ops p =
     (let report = storage_report ops (pool_allocator p); total' = total_bytes (pool_allocator p)
      in (wrapping_sub total' (total_free_bytes report), total'))"

definition pool_largest_free :: "('r, 'a) raw_ops \<Rightarrow> 'r memory_pool \<Rightarrow> u64" where
  "pool_largest_free ops p = largest_free_allocation_bytes (storage_report ops (pool_allocator p))"

definition pool_memory_region :: "'r memory_pool \<Rightarrow> nat \<times> usize" where
  "pool_memory_region p = (reg_ptr (backing p), reg_size (backing p))"

definition pool_drop :: "'r memory_pool \<Rightarrow> core_metrics \<Rightarrow> core_metrics" where
  "pool_drop p m =
     m\<lparr>pool_capacity_bytes := gauge_minus (allocatable_bytes p) (pool_capacity_bytes m)\<rparr>"

section \<open>Shards\<close>

record 'r sharded_pool =
  shards :: "'r memory_pool list"
  cursor :: usize

text \<open>The mapping calls, one per shard, each return a region or fail.\<close>

fun new_shards ::
    "('r, 'a) raw_ops \<Rightarrow> usize \<Rightarrow> region option list \<Rightarrow> u64 option \<Rightarrow> core_metrics \<Rightarrow>
     ('r memory_pool list \<times> core_metrics) option" where
  "new_shards ops per_shard [] hint m = Some ([], m)"
| "new_shards ops per_shard (rg # rgs) hint m =
     (case pool_new ops per_shard rg hint m of
        None \<Rightarrow> None
      | Some (p, m1) \<Rightarrow>
          (case new_shards ops per_shard rgs hint m1 of
             None \<Rightarrow> None
           | Some (ps, m2) \<Rightarrow> Some (p # ps, m2)))"

definition sharded_new ::
    "('r, 'a) raw_ops \<Rightarrow> usize \<Rightarrow> usize \<Rightarrow> (nat \<Rightarrow> usize \<Rightarrow> region option) \<Rightarrow> u64 option \<Rightarrow> core_metrics \<Rightarrow>
     ('r sharded_pool \<times> core_metrics) option" where
  "sharded_new ops total_capacity num_shards map_region hint m =
     (let n = max num_shards 1; per_shard = total_capacity div n
      in map_option (\<lambda>(ps, m'). (\<lparr>shards = ps, cursor = 0\<rparr>, m'))
           (new_shards ops per_shard (map (\<lambda>i. map_region i per_shard) [0..<n]) hint m))"

fun try_shards ::
    "('r, 'a) raw_ops \<Rightarrow> numa_node \<Rightarrow> u64 \<Rightarrow> nat list \<Rightarrow> 'r memory_pool list \<Rightarrow> core_metrics \<Rightarrow>
     ('a guard option \<times> 'r memory_pool list \<times> core_metrics) option" where
  "try_shards ops node bytes [] ps m = Some (None, ps, m)"
| "try_shards ops node bytes (i # is) ps m =
     (case pool_allocate ops (node, i) bytes (ps ! i) m of
        None \<Rightarrow> None
      | Some (Some g, p, m') \<Rightarrow> Some (Some g, ps[i := p], m')
      | Some (None, p, m') \<Rightarrow> try_shards ops node bytes is (ps[i := p]) m')"

definition sharded_allocate ::
    "('r, 'a) raw_ops \<Rightarrow> numa_node \<Rightarrow> u64 \<Rightarrow> 'r sharded_pool \<Rightarrow> core_metrics \<Rightarrow>
     ('a guard option \<times> 'r sharded_pool \<times> core_metrics) option" where
  "sharded_allocate ops node bytes s m =
     (let n = length (shards s)
      in if n = 0 then None
         else let start = cursor s mod n
              in map_option (\<lambda>(g, ps, m'). (g, s\<lparr>shards := ps, cursor := wrapping_add (cursor s) 1\<rparr>, m'))
                   (try_shards ops node bytes (map (\<lambda>i. (start + i) mod n) [0..<n]) (shards s) m))"

definition sharded_usage :: "('r, 'a) raw_ops \<Rightarrow> 'r sharded_pool \<Rightarrow> u64 \<times> u64" where
  "sharded_usage ops s =
     foldl (\<lambda>(u, t) p. (wrapping_add u (fst (pool_usage ops p)), wrapping_add t (snd (pool_usage ops p))))
       (0, 0) (shards s)"

definition sharded_largest_free :: "('r, 'a) raw_ops \<Rightarrow> 'r sharded_pool \<Rightarrow> u64" where
  "sharded_largest_free ops s = fold max (map (pool_largest_free ops) (shards s)) 0"

definition sharded_memory_regions :: "'r sharded_pool \<Rightarrow> (nat \<times> usize) list" where
  "sharded_memory_regions s = map pool_memory_region (shards s)"

section \<open>Nodes\<close>

datatype 'r pinned_allocator = Global "'r sharded_pool" | Numa "(numa_node, 'r sharded_pool) hmap"

fun new_nodes ::
    "('r, 'a) raw_ops \<Rightarrow> usize \<Rightarrow> usize \<Rightarrow> (numa_node \<Rightarrow> nat \<Rightarrow> usize \<Rightarrow> region option) \<Rightarrow> u64 option \<Rightarrow>
     numa_node list \<Rightarrow> (numa_node, 'r sharded_pool) hmap \<Rightarrow> core_metrics \<Rightarrow>
     ((numa_node, 'r sharded_pool) hmap \<times> core_metrics) option" where
  "new_nodes ops cap num_shards map_region hint [] pools m = Some (pools, m)"
| "new_nodes ops cap num_shards map_region hint (node # nodes) pools m =
     (if is_unknown node then new_nodes ops cap num_shards map_region hint nodes pools m
      else case sharded_new ops cap num_shards (map_region node) hint m of
          None \<Rightarrow> None
        | Some (p, m') \<Rightarrow> new_nodes ops cap num_shards map_region hint nodes (hm_insert node p pools) m')"

definition numa_pools_new ::
    "('r, 'a) raw_ops \<Rightarrow> usize \<Rightarrow> numa_node list \<Rightarrow> usize \<Rightarrow> (numa_node \<Rightarrow> nat \<Rightarrow> usize \<Rightarrow> region option) \<Rightarrow>
     u64 option \<Rightarrow> core_metrics \<Rightarrow> ((numa_node, 'r sharded_pool) hmap \<times> core_metrics) option" where
  "numa_pools_new ops capacity nodes num_shards map_region hint m =
     (if nodes = [] then Some ([], m)
      else new_nodes ops (capacity div length nodes) num_shards map_region hint nodes [] m)"

definition new_global ::
    "('r, 'a) raw_ops \<Rightarrow> usize \<Rightarrow> usize \<Rightarrow> (numa_node \<Rightarrow> nat \<Rightarrow> usize \<Rightarrow> region option) \<Rightarrow> u64 option \<Rightarrow>
     core_metrics \<Rightarrow> ('r pinned_allocator \<times> core_metrics) option" where
  "new_global ops capacity num_shards map_region hint m =
     map_option (\<lambda>(s, m'). (Global s, m')) (sharded_new ops capacity num_shards (map_region NUMA_UNKNOWN) hint m)"

definition new_numa ::
    "('r, 'a) raw_ops \<Rightarrow> usize \<Rightarrow> numa_node list \<Rightarrow> usize \<Rightarrow> (numa_node \<Rightarrow> nat \<Rightarrow> usize \<Rightarrow> region option) \<Rightarrow>
     u64 option \<Rightarrow> core_metrics \<Rightarrow> ('r pinned_allocator \<times> core_metrics) option" where
  "new_numa ops capacity nodes num_shards map_region hint m =
     (if nodes = [] then new_global ops capacity num_shards map_region hint m
      else map_option (\<lambda>(pools, m'). (Numa pools, m'))
        (numa_pools_new ops capacity nodes num_shards map_region hint m))"

definition numa_allocate ::
    "('r, 'a) raw_ops \<Rightarrow> numa_node \<Rightarrow> u64 \<Rightarrow> (numa_node, 'r sharded_pool) hmap \<Rightarrow> core_metrics \<Rightarrow>
     ('a guard option \<times> (numa_node, 'r sharded_pool) hmap \<times> core_metrics) option" where
  "numa_allocate ops node bytes pools m =
     (if is_unknown node then Some (None, pools, m)
      else case hm_get pools node of
          None \<Rightarrow> Some (None, pools, m)
        | Some s \<Rightarrow>
            map_option (\<lambda>(g, s', m'). (g, hm_insert node s' pools, m')) (sharded_allocate ops node bytes s m))"

definition pinned_allocate ::
    "('r, 'a) raw_ops \<Rightarrow> u64 \<Rightarrow> numa_node \<Rightarrow> 'r pinned_allocator \<Rightarrow> core_metrics \<Rightarrow>
     ('a guard option \<times> 'r pinned_allocator \<times> core_metrics) option" where
  "pinned_allocate ops bytes node al m =
     (case al of
        Global s \<Rightarrow> map_option (\<lambda>(g, s', m'). (g, Global s', m')) (sharded_allocate ops NUMA_UNKNOWN bytes s m)
      | Numa pools \<Rightarrow> map_option (\<lambda>(g, pools', m'). (g, Numa pools', m')) (numa_allocate ops node bytes pools m))"

text \<open>
  Dropping the last reference to a guard frees it in the pool the guard keeps: the shard
  \<open>snd (g_pool g)\<close> of the node \<open>fst (g_pool g)\<close>.
\<close>

definition shard_free ::
    "('r, 'a) raw_ops \<Rightarrow> 'a guard \<Rightarrow> 'r sharded_pool \<Rightarrow> core_metrics \<Rightarrow> 'r sharded_pool \<times> core_metrics" where
  "shard_free ops g s m =
     (let i = snd (g_pool g); (p, m') = free_internal ops g (shards s ! i) m
      in (s\<lparr>shards := (shards s)[i := p]\<rparr>, m'))"

definition pinned_drop ::
    "('r, 'a) raw_ops \<Rightarrow> 'a guard \<Rightarrow> 'r pinned_allocator \<Rightarrow> core_metrics \<Rightarrow> 'r pinned_allocator \<times> core_metrics" where
  "pinned_drop ops g al m =
     (case al of
        Global s \<Rightarrow> (let (s', m') = shard_free ops g s m in (Global s', m'))
      | Numa pools \<Rightarrow>
          (case hm_get pools (fst (g_pool g)) of
             None \<Rightarrow> (al, m)
           | Some s \<Rightarrow>
               let (s', m') = shard_free ops g s m in (Numa (hm_insert (fst (g_pool g)) s' pools), m')))"

definition numa_total_usage :: "('r, 'a) raw_ops \<Rightarrow> (numa_node, 'r sharded_pool) hmap \<Rightarrow> u64 \<times> u64" where
  "numa_total_usage ops pools =
     foldl (\<lambda>(u, t) (node, s). (wrapping_add u (fst (sharded_usage ops s)), wrapping_add t (snd (sharded_usage ops s))))
       (0, 0) pools"

definition pinned_usage :: "('r, 'a) raw_ops \<Rightarrow> 'r pinned_allocator \<Rightarrow> u64 \<times> u64" where
  "pinned_usage ops al =
     (case al of Global s \<Rightarrow> sharded_usage ops s | Numa pools \<Rightarrow> numa_total_usage ops pools)"

definition numa_largest_free :: "('r, 'a) raw_ops \<Rightarrow> numa_node \<Rightarrow> (numa_node, 'r sharded_pool) hmap \<Rightarrow> u64" where
  "numa_largest_free ops node pools =
     (if is_unknown node then 0
      else (case hm_get pools node of None \<Rightarrow> 0 | Some s \<Rightarrow> sharded_largest_free ops s))"

definition largest_free_allocation_for_node :: "('r, 'a) raw_ops \<Rightarrow> numa_node \<Rightarrow> 'r pinned_allocator \<Rightarrow> u64" where
  "largest_free_allocation_for_node ops node al =
     (case al of Global s \<Rightarrow> sharded_largest_free ops s | Numa pools \<Rightarrow> numa_largest_free ops node pools)"

definition is_numa :: "'r pinned_allocator \<Rightarrow> bool" where
  "is_numa al = (case al of Global _ \<Rightarrow> False | Numa _ \<Rightarrow> True)"

definition memory_regions :: "'r pinned_allocator \<Rightarrow> (nat \<times> usize) list" where
  "memory_regions al =
     (case al of
        Global s \<Rightarrow> sharded_memory_regions s
      | Numa pools \<Rightarrow> concat (map (\<lambda>(_, s). sharded_memory_regions s) pools))"

section \<open>Well-formed pools\<close>

lemma raw_contractD:
  assumes "raw_contract ops R"
  shows raw_new: "R cap (raw_with_max_allocs ops cap m) {#}"
    and raw_fits: "R cap r L \<Longrightarrow> 0 < u \<Longrightarrow> raw_allocate ops u r = (Some a, r') \<Longrightarrow>
      u \<le> raw_size ops a r' \<and> raw_offset ops a + raw_size ops a r' \<le> cap"
    and raw_apart: "R cap r L \<Longrightarrow> 0 < u \<Longrightarrow> raw_allocate ops u r = (Some a, r') \<Longrightarrow> (b, k) \<in># L \<Longrightarrow>
      apart (raw_offset ops a) (raw_size ops a r') (raw_offset ops b) k"
    and raw_extends: "R cap r L \<Longrightarrow> 0 < u \<Longrightarrow> raw_allocate ops u r = (Some a, r') \<Longrightarrow>
      R cap r' (add_mset (a, raw_size ops a r') L)"
    and raw_fails: "R cap r L \<Longrightarrow> raw_allocate ops u r = (None, r') \<Longrightarrow> r' = r"
    and raw_frees: "R cap r L \<Longrightarrow> (a, n) \<in># L \<Longrightarrow> R cap (raw_free ops a r) (L - {#(a, n)#})"
    and raw_total: "R cap r L \<Longrightarrow> raw_total_free ops r + sum_mset (image_mset snd L) \<le> cap"
    and raw_largest: "R cap r L \<Longrightarrow> raw_largest_free ops r \<le> cap"
    and raw_succeeds: "R cap r L \<Longrightarrow> 0 < u \<Longrightarrow> u \<le> raw_largest_free ops r \<Longrightarrow> fst (raw_allocate ops u r) \<noteq> None"
proof -
  note c = assms [unfolded raw_contract_def]
  note n = conjunct1 [OF c]
  note c1 = conjunct2 [OF c]
  note a = conjunct1 [OF c1]
  note c2 = conjunct2 [OF c1]
  show "R cap (raw_with_max_allocs ops cap m) {#}" using n by simp
  show "u \<le> raw_size ops a r' \<and> raw_offset ops a + raw_size ops a r' \<le> cap"
    if "R cap r L" "0 < u" "raw_allocate ops u r = (Some a, r')" using a that by simp
  show "apart (raw_offset ops a) (raw_size ops a r') (raw_offset ops b) k"
    if "R cap r L" "0 < u" "raw_allocate ops u r = (Some a, r')" "(b, k) \<in># L"
  proof -
    have "\<forall>(b, k) \<in># L. apart (raw_offset ops a) (raw_size ops a r') (raw_offset ops b) k"
      using a that(1-3) by simp
    from bspec [OF this that(4)] show ?thesis by simp
  qed
  show "R cap r' (add_mset (a, raw_size ops a r') L)"
    if "R cap r L" "0 < u" "raw_allocate ops u r = (Some a, r')" using a that by simp
  show "r' = r" if "R cap r L" "raw_allocate ops u r = (None, r')" using conjunct1 [OF c2] that by blast
  note c3 = conjunct2 [OF c2]
  show "R cap (raw_free ops a r) (L - {#(a, n)#})" if "R cap r L" "(a, n) \<in># L"
    using conjunct1 [OF c3] that by blast
  note c4 = conjunct2 [OF c3]
  show "raw_total_free ops r + sum_mset (image_mset snd L) \<le> cap" if "R cap r L" using conjunct1 [OF c4] that by blast
  note c5 = conjunct2 [OF c4]
  show "raw_largest_free ops r \<le> cap" if "R cap r L" using conjunct1 [OF c5] that by blast
  show "fst (raw_allocate ops u r) \<noteq> None" if "R cap r L" "0 < u" "u \<le> raw_largest_free ops r"
    using conjunct2 [OF c5] that by blast
qed

abbreviation offset_of :: "'a guard \<Rightarrow> u64" where
  "offset_of g \<equiv> offset_bytes (g_allocation g)"

abbreviation size_of :: "'a guard \<Rightarrow> u64" where
  "size_of g \<equiv> size_bytes (g_allocation g)"

definition guards_apart :: "'a guard \<Rightarrow> 'a guard \<Rightarrow> bool" where
  "guards_apart g h = apart (offset_of g) (size_of g) (offset_of h) (size_of h)"

definition pool_wf :: "'r memory_pool \<Rightarrow> bool" where
  "pool_wf p =
     (let s = pool_allocator p
      in 0 < unit_size s \<and> UNIT_ALIGNMENT dvd unit_size s \<and> unit_size s * total_units s \<le> reg_size (backing p)
         \<and> reg_size (backing p) \<le> u64_max \<and> total_units s \<le> u32_max)"

text \<open>A live guard of a pool: what its byte range is in units, and that it lies in the region.\<close>

definition guard_ok :: "('r, 'a) raw_ops \<Rightarrow> 'r memory_pool \<Rightarrow> 'a guard \<Rightarrow> bool" where
  "guard_ok ops p g =
     (let s = pool_allocator p
      in offset_of g = raw_offset ops (raw (g_allocation g)) * unit_size s \<and> 0 < size_of g
         \<and> unit_size s dvd size_of g \<and> offset_of g + size_of g \<le> unit_size s * total_units s
         \<and> g_ptr g = reg_ptr (backing p) + offset_of g
         \<and> g_device_ptr g = reg_device_ptr (backing p) + offset_of g)"

definition units_of :: "'r memory_pool \<Rightarrow> 'a guard \<Rightarrow> 'a \<times> nat" where
  "units_of p g = (raw (g_allocation g), size_of g div unit_size (pool_allocator p))"

definition pool_ok ::
    "('r, 'a) raw_ops \<Rightarrow> (nat \<Rightarrow> 'r \<Rightarrow> ('a \<times> nat) multiset \<Rightarrow> bool) \<Rightarrow> 'r memory_pool \<Rightarrow> 'a guard list \<Rightarrow> bool" where
  "pool_ok ops R p L =
     (pool_wf p \<and> list_all (guard_ok ops p) L \<and> sorted_wrt guards_apart L
      \<and> R (total_units (pool_allocator p)) (inner (pool_allocator p)) (image_mset (units_of p) (mset L)))"

lemma div_ceil_le: "0 < b \<Longrightarrow> a \<le> div_ceil a b * b"
proof -
  assume b: "0 < b"
  have "a = a div b * b + a mod b" by simp
  moreover have "a mod b \<le> (if a mod b = 0 then 0 else b)" using b by simp
  ultimately have "a \<le> a div b * b + (if a mod b = 0 then 0 else b)" by linarith
  thus ?thesis by (cases "a mod b = 0") (simp_all add: div_ceil_def add_mult_distrib)
qed

lemma div_ceil_pos: "0 < a \<Longrightarrow> 0 < b \<Longrightarrow> 0 < div_ceil a b"
  using div_ceil_le [of b a] by (cases "div_ceil a b") auto

lemma div_ceil_least: "0 < b \<Longrightarrow> a \<le> n * b \<Longrightarrow> div_ceil a b \<le> n"
proof -
  assume b: "0 < b" and le: "a \<le> n * b"
  have "a div b \<le> n" using le b by (metis div_le_mono nonzero_mult_div_cancel_right not_gr_zero)
  moreover have "a div b \<noteq> n" if "a mod b \<noteq> 0"
  proof
    assume "a div b = n"
    hence "a = n * b + a mod b" by (metis div_mult_mod_eq)
    with that le show False by simp
  qed
  ultimately show ?thesis by (cases "a mod b = 0") (auto simp: div_ceil_def)
qed

lemma apart_scale: "apart a n b k \<Longrightarrow> apart (a * u) (n * u) (b * u) (k * u)"
  by (auto simp: apart_def simp flip: add_mult_distrib)

lemma apart_sym: "apart a n b k \<longleftrightarrow> apart b k a n"
  by (auto simp: apart_def)

lemma sorted_wrt_remove1: "sorted_wrt P xs \<Longrightarrow> sorted_wrt P (remove1 x xs)"
  by (induction xs) (use set_remove1_subset in fastforce)+

lemma compute_unit_size_aligned: "UNIT_ALIGNMENT dvd compute_unit_size n hint"
proof -
  have "512 dvd (k * 512) mod 2 ^ 64" for k :: nat
    by (rule dvd_mod) simp_all
  thus ?thesis by (simp add: compute_unit_size_def Let_def wrapping_mul_def UNIT_ALIGNMENT_def)
qed

text \<open>The unit is large enough for the units of the region to be counted in 32 bits.\<close>

lemma compute_unit_size_fits:
  assumes n: "n \<le> u64_max" and h: "\<And>h. hint = Some h \<Longrightarrow> h \<le> u64_max" and u: "compute_unit_size n hint \<noteq> 0"
  shows "n div compute_unit_size n hint \<le> u32_max"
proof -
  define base where "base = max (case hint of Some h \<Rightarrow> h | None \<Rightarrow> UNIT_ALIGNMENT) (div_ceil n u32_max)"
  define c where "c = div_ceil base 512"
  have u32: "0 < u32_max" by (simp add: u32_max_def)
  have "div_ceil n u32_max \<le> u64_max"
    by (rule order_trans [OF div_ceil_least [of u32_max n n]]) (use u32 n in auto)
  hence "base \<le> u64_max" using h by (auto simp: base_def UNIT_ALIGNMENT_def u64_max_def split: option.splits)
  hence "c \<le> 2 ^ 55" unfolding c_def by (intro div_ceil_least) (simp_all add: u64_max_def)
  hence c: "c * 512 \<le> 2 ^ 64" by simp
  have eq: "compute_unit_size n hint = (c * 512) mod 2 ^ 64"
    by (simp add: compute_unit_size_def Let_def wrapping_mul_def base_def c_def UNIT_ALIGNMENT_def)
  with u c have "c * 512 < 2 ^ 64" by (metis le_neq_implies_less mod_self)
  hence eq': "compute_unit_size n hint = c * 512" using eq by simp
  have "base \<le> c * 512" unfolding c_def by (rule div_ceil_le) simp
  hence "div_ceil n u32_max \<le> c * 512" by (simp add: base_def)
  hence "div_ceil n u32_max * u32_max \<le> c * 512 * u32_max" by (rule mult_le_mono1)
  with div_ceil_le [OF u32, of n] have "n \<le> u32_max * (c * 512)" by (simp only: mult.commute order_trans)
  hence "n div (c * 512) \<le> u32_max"
    using u eq' by (metis div_le_mono nonzero_mult_div_cancel_right)
  thus ?thesis by (simp add: eq')
qed

lemma pool_new_ok:
  assumes con: "raw_contract ops R" and new: "pool_new ops n (Some rg) hint m = Some (p, m')"
    and rg: "reg_size rg \<le> u64_max"
  shows "pool_ok ops R p [] \<and> backing p = rg"
proof -
  define u where "u = compute_unit_size (reg_size rg) hint"
  from new have u: "u \<noteq> 0" by (auto simp: pool_new_def Let_def u_def split: if_splits)
  from new u have "\<not> u32_max < reg_size rg div u"
    by (auto simp: pool_new_def Let_def scaled_new_def simp flip: u_def split: if_splits)
  with new u have p: "pool_allocator p = \<lparr>unit_size = u, total_units = reg_size rg div u,
      inner = raw_with_max_allocs ops (reg_size rg div u) MAX_ALLOCS\<rparr>" "backing p = rg"
      "reg_size rg div u \<le> u32_max"
    by (auto simp: pool_new_def Let_def scaled_new_def simp flip: u_def split: if_splits)
  have "UNIT_ALIGNMENT dvd u" unfolding u_def by (rule compute_unit_size_aligned)
  moreover have "u * (reg_size rg div u) \<le> reg_size rg" by simp
  ultimately have "pool_wf p" using u p rg by (simp add: pool_wf_def Let_def)
  thus ?thesis using p raw_new [OF con] by (simp add: pool_ok_def)
qed

section \<open>Allocating and freeing in a pool\<close>

lemma pool_largest_free_eq:
  assumes con: "raw_contract ops R" and ok: "pool_ok ops R p L"
  shows "pool_largest_free ops p = raw_largest_free ops (inner (pool_allocator p)) * unit_size (pool_allocator p)"
proof -
  have "raw_largest_free ops (inner (pool_allocator p)) \<le> total_units (pool_allocator p)"
    using raw_largest [OF con] ok by (auto simp: pool_ok_def)
  hence "raw_largest_free ops (inner (pool_allocator p)) * unit_size (pool_allocator p)
      \<le> unit_size (pool_allocator p) * total_units (pool_allocator p)"
    by (simp add: mult.commute)
  also have "\<dots> \<le> u64_max" using ok by (auto simp: pool_ok_def pool_wf_def Let_def)
  finally show ?thesis by (simp add: pool_largest_free_def storage_report_def)
qed

lemma scaled_allocate_fails:
  assumes con: "raw_contract ops R" and ok: "pool_ok ops R p L" and pos: "0 < bytes"
    and none: "u32_max < div_ceil bytes (unit_size (pool_allocator p))
      \<or> fst (raw_allocate ops (div_ceil bytes (unit_size (pool_allocator p))) (inner (pool_allocator p))) = None"
  shows "pool_largest_free ops p < bytes"
proof (rule ccontr)
  let ?s = "pool_allocator p"
  let ?k = "div_ceil bytes (unit_size ?s)"
  assume "\<not> pool_largest_free ops p < bytes"
  hence le: "bytes \<le> raw_largest_free ops (inner ?s) * unit_size ?s"
    by (simp add: pool_largest_free_eq [OF con ok])
  have u: "0 < unit_size ?s" and R: "R (total_units ?s) (inner ?s) (image_mset (units_of p) (mset L))"
    and t: "total_units ?s \<le> u32_max"
    using ok by (auto simp: pool_ok_def pool_wf_def Let_def)
  from div_ceil_least [OF u le] have k: "?k \<le> raw_largest_free ops (inner ?s)" .
  with raw_largest [OF con R] t have "\<not> u32_max < ?k" by simp
  with none raw_succeeds [OF con R div_ceil_pos [OF pos u] k] show False by simp
qed

text \<open>What a successful allocation returns: a guard of this pool whose range is new.\<close>

definition grants ::
    "('r, 'a) raw_ops \<Rightarrow> (nat \<Rightarrow> 'r \<Rightarrow> ('a \<times> nat) multiset \<Rightarrow> bool) \<Rightarrow> pool_id \<Rightarrow> u64 \<Rightarrow> 'r memory_pool \<Rightarrow>
     'a guard list \<Rightarrow> 'a guard \<Rightarrow> 'r memory_pool \<Rightarrow> bool" where
  "grants ops R pid bytes p L g p' =
     (g_pool g = pid \<and> bytes \<le> size_of g \<and> pool_ok ops R p' (g # L) \<and> backing p' = backing p)"

lemma scaled_allocate_grants:
  assumes con: "raw_contract ops R" and ok: "pool_ok ops R p L" and pos: "0 < bytes"
    and small: "\<not> u32_max < div_ceil bytes (unit_size (pool_allocator p))"
    and some: "raw_allocate ops (div_ceil bytes (unit_size (pool_allocator p))) (inner (pool_allocator p)) = (Some a, r)"
  obtains g where "pool_allocate ops pid bytes p m =
      Some (Some g, p\<lparr>pool_allocator := pool_allocator p\<lparr>inner := r\<rparr>\<rparr>,
            m\<lparr>pool_used_bytes := gauge_plus (size_of g) (pool_used_bytes m)\<rparr>)"
    "grants ops R pid bytes p L g (p\<lparr>pool_allocator := pool_allocator p\<lparr>inner := r\<rparr>\<rparr>)"
proof -
  let ?s = "pool_allocator p"
  define u where "u = unit_size ?s"
  define n where "n = raw_size ops a r"
  define o' where "o' = raw_offset ops a"
  let ?p = "p\<lparr>pool_allocator := ?s\<lparr>inner := r\<rparr>\<rparr>"
  define g where "g = \<lparr>g_allocation = \<lparr>offset_bytes = o' * u, size_bytes = n * u, raw = a\<rparr>,
    g_ptr = reg_ptr (backing p) + o' * u, g_device_ptr = reg_device_ptr (backing p) + o' * u, g_pool = pid\<rparr>"
  have wf: "pool_wf p" and live: "list_all (guard_ok ops p) L" and srt: "sorted_wrt guards_apart L"
    and R: "R (total_units ?s) (inner ?s) (image_mset (units_of p) (mset L))"
    using ok by (auto simp: pool_ok_def)
  have u: "0 < u" using wf by (simp add: pool_wf_def Let_def u_def)
  have k: "0 < div_ceil bytes u" by (rule div_ceil_pos [OF pos u])
  have fit: "div_ceil bytes u \<le> n" "o' + n \<le> total_units ?s"
    using raw_fits [OF con R _ some] k by (simp_all add: n_def o'_def u_def)
  have n0: "0 < n" using k fit by simp
  have "o' * u + n * u = u * (o' + n)" by (simp add: algebra_simps)
  also have "\<dots> \<le> u * total_units ?s" using fit(2) by simp
  finally have top: "o' * u + n * u \<le> u * total_units ?s" .
  have reg: "u * total_units ?s \<le> reg_size (backing p)" "reg_size (backing p) \<le> u64_max"
    using wf by (auto simp: pool_wf_def Let_def u_def)
  have small': "n * u \<le> u64_max" "o' * u \<le> u64_max" "o' * u + n * u \<le> u64_max"
      "o' * u + n * u \<le> reg_size (backing p)"
    using top reg by linarith+
  have "div_ceil bytes u * u \<le> n * u" using fit(1) by simp
  with div_ceil_le [OF u, of bytes] have bytes: "bytes \<le> n * u" by linarith
  have eval: "pool_allocate ops pid bytes p m =
      Some (Some g, ?p, m\<lparr>pool_used_bytes := gauge_plus (size_of g) (pool_used_bytes m)\<rparr>)"
    using pos small some small' n0 u
    by (simp add: pool_allocate_def scaled_allocate_def Let_def g_def n_def [symmetric] o'_def [symmetric]
        u_def [symmetric] checked_add_def not_less)
  have ap: "guards_apart g h" if h: "h \<in> set L" for h
  proof -
    have ok_h: "guard_ok ops p h" using live h by (simp add: list_all_iff)
    have mem: "units_of p h \<in># image_mset (units_of p) (mset L)" using h by simp
    have "apart o' n (raw_offset ops (raw (g_allocation h))) (size_of h div u)"
      using raw_apart [OF con R _ some, of "raw (g_allocation h)" "size_of h div u"] k mem
      by (simp add: n_def o'_def u_def units_of_def)
    from apart_scale [OF this, of u] ok_h show ?thesis
      by (simp add: guards_apart_def g_def guard_ok_def Let_def u_def)
  qed
  have units: "units_of ?p = units_of p" by (rule ext) (simp add: units_of_def)
  have gok: "guard_ok ops ?p = guard_ok ops p" by (rule ext) (simp add: guard_ok_def Let_def)
  have "guard_ok ops p g"
    using top n0 u by (simp add: guard_ok_def g_def Let_def u_def [symmetric] o'_def)
  moreover have "R (total_units ?s) r (add_mset (a, n) (image_mset (units_of p) (mset L)))"
    using raw_extends [OF con R _ some] k by (simp add: n_def u_def)
  moreover have "units_of p g = (a, n)" using u by (simp add: units_of_def g_def u_def [symmetric])
  moreover have "pool_wf ?p" using wf by (simp add: pool_wf_def Let_def)
  ultimately have "pool_ok ops R ?p (g # L)"
    using ap live srt by (simp add: pool_ok_def units gok)
  hence "grants ops R pid bytes p L g ?p" using bytes by (simp add: grants_def g_def)
  with eval that show ?thesis by blast
qed

lemma pool_allocate_cases:
  assumes con: "raw_contract ops R" and ok: "pool_ok ops R p L" and pos: "0 < bytes"
  obtains (Fails) "pool_allocate ops pid bytes p m = Some (None, p, m)" "pool_largest_free ops p < bytes"
  | (Grants) g p' where "pool_allocate ops pid bytes p m =
        Some (Some g, p', m\<lparr>pool_used_bytes := gauge_plus (size_of g) (pool_used_bytes m)\<rparr>)"
      "grants ops R pid bytes p L g p'"
proof -
  let ?s = "pool_allocator p"
  let ?k = "div_ceil bytes (unit_size ?s)"
  have R: "R (total_units ?s) (inner ?s) (image_mset (units_of p) (mset L))" using ok by (simp add: pool_ok_def)
  show ?thesis
  proof (cases "u32_max < ?k")
    case True
    hence "pool_allocate ops pid bytes p m = Some (None, p, m)"
      using pos by (simp add: pool_allocate_def scaled_allocate_def Let_def)
    thus ?thesis using scaled_allocate_fails [OF con ok pos] True that(1) by blast
  next
    case False
    obtain x r where x: "raw_allocate ops ?k (inner ?s) = (x, r)" by (rule prod.exhaust)
    show ?thesis
    proof (cases x)
      case None
      with raw_fails [OF con R] x have "r = inner ?s" by blast
      hence "pool_allocate ops pid bytes p m = Some (None, p, m)"
        using pos False x None by (simp add: pool_allocate_def scaled_allocate_def Let_def)
      thus ?thesis using scaled_allocate_fails [OF con ok pos] x None that(1) by simp
    next
      case (Some a)
      show ?thesis
        by (rule scaled_allocate_grants [OF con ok pos False x [unfolded Some]]) (rule that(2))
    qed
  qed
qed

lemma free_internal_ok:
  assumes con: "raw_contract ops R" and ok: "pool_ok ops R p L" and g: "g \<in> set L"
  shows "pool_ok ops R (fst (free_internal ops g p m)) (remove1 g L)"
proof -
  let ?s = "pool_allocator p"
  let ?p = "fst (free_internal ops g p m)"
  have wf: "pool_wf p" and live: "list_all (guard_ok ops p) L" and srt: "sorted_wrt guards_apart L"
    and R: "R (total_units ?s) (inner ?s) (image_mset (units_of p) (mset L))"
    using ok by (auto simp: pool_ok_def)
  have units: "units_of ?p = units_of p"
    by (rule ext) (simp add: units_of_def free_internal_def scaled_free_def)
  have gok: "guard_ok ops ?p = guard_ok ops p"
    by (rule ext) (simp add: guard_ok_def free_internal_def scaled_free_def Let_def)
  have "units_of p g \<in># image_mset (units_of p) (mset L)" using g by simp
  hence "(raw (g_allocation g), size_of g div unit_size ?s) \<in># image_mset (units_of p) (mset L)"
    by (simp only: units_of_def [of p g])
  from raw_frees [OF con R this]
  have "R (total_units ?s) (raw_free ops (raw (g_allocation g)) (inner ?s))
      (image_mset (units_of p) (mset L) - {#units_of p g#})" by (simp add: units_of_def)
  moreover have "image_mset (units_of p) (mset L) - {#units_of p g#} = image_mset (units_of p) (mset (remove1 g L))"
    using g by (simp add: image_mset_Diff)
  moreover have "list_all (guard_ok ops p) (remove1 g L)"
    using live notin_set_remove1 by (fastforce simp: list_all_iff)
  moreover have "pool_wf ?p" using wf by (simp add: pool_wf_def free_internal_def scaled_free_def Let_def)
  ultimately show ?thesis
    using sorted_wrt_remove1 [OF srt, of g]
    by (simp add: pool_ok_def units gok) (simp add: free_internal_def scaled_free_def)
qed

section \<open>The allocator as a family of pools\<close>

definition sharded_at :: "'r pinned_allocator \<Rightarrow> numa_node \<Rightarrow> 'r sharded_pool option" where
  "sharded_at al node =
     (case al of Global s \<Rightarrow> if node = NUMA_UNKNOWN then Some s else None | Numa pools \<Rightarrow> hm_get pools node)"

definition pool_at :: "'r pinned_allocator \<Rightarrow> pool_id \<Rightarrow> 'r memory_pool option" where
  "pool_at al pid = (case sharded_at al (fst pid) of None \<Rightarrow> None | Some s \<Rightarrow> nth_opt (shards s) (snd pid))"

definition pool_guards :: "pool_id \<Rightarrow> 'a guard list \<Rightarrow> 'a guard list" where
  "pool_guards pid G = filter (\<lambda>g. g_pool g = pid) G"

definition no_empty_node :: "'r pinned_allocator \<Rightarrow> bool" where
  "no_empty_node al = (\<forall>node s. sharded_at al node = Some s \<longrightarrow> shards s \<noteq> [])"

definition allocator_ok ::
    "('r, 'a) raw_ops \<Rightarrow> (nat \<Rightarrow> 'r \<Rightarrow> ('a \<times> nat) multiset \<Rightarrow> bool) \<Rightarrow> 'r pinned_allocator \<Rightarrow> 'a guard list \<Rightarrow> bool" where
  "allocator_ok ops R al G =
     (no_empty_node al
      \<and> (\<forall>pid p. pool_at al pid = Some p \<longrightarrow> pool_ok ops R p (pool_guards pid G))
      \<and> (\<forall>g \<in> set G. pool_at al (g_pool g) \<noteq> None))"

lemma allocator_okD:
  assumes "allocator_ok ops R al G"
  shows "no_empty_node al"
    and "pool_at al pid = Some p \<Longrightarrow> pool_ok ops R p (pool_guards pid G)"
    and "g \<in> set G \<Longrightarrow> \<exists>p. pool_at al (g_pool g) = Some p"
  using assms unfolding allocator_ok_def by blast+

lemma pool_guards_simps [simp]:
  "pool_guards pid [] = []"
  "pool_guards pid (g # G) = (if g_pool g = pid then g # pool_guards pid G else pool_guards pid G)"
  "set (pool_guards pid G) = {g \<in> set G. g_pool g = pid}"
  by (auto simp: pool_guards_def)

lemma pool_guards_remove1:
  "pool_guards pid (remove1 g G) = (if g_pool g = pid then remove1 g (pool_guards pid G) else pool_guards pid G)"
  by (simp add: pool_guards_def filter_remove1 remove1_idem)

lemma try_shards_cases:
  assumes con: "raw_contract ops R" and pos: "0 < bytes"
    and rng: "\<forall>i \<in> set is. i < length ps" and ok: "\<forall>i \<in> set is. pool_ok ops R (ps ! i) (L i)"
  obtains (Fails) "try_shards ops node bytes is ps m = Some (None, ps, m)"
      "\<forall>i \<in> set is. pool_largest_free ops (ps ! i) < bytes"
  | (Grants) i g p' where "i \<in> set is" "grants ops R (node, i) bytes (ps ! i) (L i) g p'"
      "try_shards ops node bytes is ps m =
         Some (Some g, ps[i := p'], m\<lparr>pool_used_bytes := gauge_plus (size_of g) (pool_used_bytes m)\<rparr>)"
  using rng ok
proof (induction "is" arbitrary: thesis)
  case (Cons i "is")
  have oki: "pool_ok ops R (ps ! i) (L i)" using Cons.prems by simp
  show ?case
  proof (rule pool_allocate_cases [OF con oki pos, of "(node, i)" m])
    assume f: "pool_allocate ops (node, i) bytes (ps ! i) m = Some (None, ps ! i, m)"
      "pool_largest_free ops (ps ! i) < bytes"
    have step: "try_shards ops node bytes (i # is) ps m = try_shards ops node bytes is ps m" by (simp add: f(1))
    show ?thesis
    proof (rule Cons.IH)
      assume "try_shards ops node bytes is ps m = Some (None, ps, m)"
        "\<forall>i \<in> set is. pool_largest_free ops (ps ! i) < bytes"
      with step f(2) show ?thesis by (intro Cons.prems(1)) simp_all
    next
      fix j g p'
      assume "j \<in> set is" "grants ops R (node, j) bytes (ps ! j) (L j) g p'"
        "try_shards ops node bytes is ps m =
           Some (Some g, ps[j := p'], m\<lparr>pool_used_bytes := gauge_plus (size_of g) (pool_used_bytes m)\<rparr>)"
      with step show ?thesis by (intro Cons.prems(2) [of j g p']) simp_all
    qed (use Cons.prems in auto)
  next
    fix g p'
    assume "pool_allocate ops (node, i) bytes (ps ! i) m =
        Some (Some g, p', m\<lparr>pool_used_bytes := gauge_plus (size_of g) (pool_used_bytes m)\<rparr>)"
      "grants ops R (node, i) bytes (ps ! i) (L i) g p'"
    thus ?thesis by (intro Cons.prems(2) [of i g p']) simp_all
  qed
qed simp

lemma set_rotation: "0 < n \<Longrightarrow> set (map (\<lambda>i. (start + i) mod n) [0..<n]) = {..<n::nat}"
proof -
  assume n: "0 < n"
  have "j \<in> (\<lambda>i. (start + i) mod n) ` {..<n}" if j: "j < n" for j
  proof (rule image_eqI [of _ _ "(j + (n - start mod n)) mod n"])
    have "(start + (j + (n - start mod n)) mod n) mod n = (start + (j + (n - start mod n))) mod n"
      by (simp add: mod_add_right_eq)
    also have "\<dots> = (start mod n + (j + (n - start mod n))) mod n" by (simp add: mod_add_left_eq)
    also have "start mod n + (j + (n - start mod n)) = j + n"
      using mod_less_divisor [OF n, of start] by linarith
    finally show "j = (start + (j + (n - start mod n)) mod n) mod n" using j by simp
  qed (use n in simp)
  thus ?thesis using n by (auto simp: atLeast0LessThan)
qed

lemma fold_max_less: "fold max xs (a::nat) < b \<longleftrightarrow> a < b \<and> (\<forall>x \<in> set xs. x < b)"
  by (induction xs arbitrary: a) auto

lemma sharded_allocate_cases:
  assumes con: "raw_contract ops R" and pos: "0 < bytes" and ne: "shards s \<noteq> []"
    and ok: "\<And>i. i < length (shards s) \<Longrightarrow> pool_ok ops R (shards s ! i) (L i)"
  obtains (Fails) c where "sharded_allocate ops node bytes s m = Some (None, s\<lparr>cursor := c\<rparr>, m)"
      "sharded_largest_free ops s < bytes"
  | (Grants) i g p' c where "i < length (shards s)" "grants ops R (node, i) bytes (shards s ! i) (L i) g p'"
      "sharded_allocate ops node bytes s m =
         Some (Some g, s\<lparr>shards := (shards s)[i := p'], cursor := c\<rparr>,
               m\<lparr>pool_used_bytes := gauge_plus (size_of g) (pool_used_bytes m)\<rparr>)"
proof -
  let ?n = "length (shards s)"
  let ?is = "map (\<lambda>i. (cursor s mod ?n + i) mod ?n) [0..<?n]"
  let ?c = "wrapping_add (cursor s) 1"
  have n: "0 < ?n" using ne by simp
  have is_set: "set ?is = {..<?n}" by (rule set_rotation [OF n])
  have ok': "\<forall>i \<in> set ?is. pool_ok ops R (shards s ! i) (L i)" "\<forall>i \<in> set ?is. i < ?n"
    using ok is_set by auto
  show ?thesis
  proof (rule try_shards_cases [OF con pos ok'(2) ok'(1), where node = node and m = m])
    assume f: "try_shards ops node bytes ?is (shards s) m = Some (None, shards s, m)"
      "\<forall>i \<in> set ?is. pool_largest_free ops (shards s ! i) < bytes"
    have "sharded_allocate ops node bytes s m = Some (None, s\<lparr>cursor := ?c\<rparr>, m)"
      using n f(1) by (simp add: sharded_allocate_def Let_def)
    moreover have "sharded_largest_free ops s < bytes"
      using f(2) pos unfolding is_set by (auto simp: sharded_largest_free_def fold_max_less in_set_conv_nth)
    ultimately show ?thesis by (rule that(1))
  next
    fix i g p'
    assume i: "i \<in> set ?is" "grants ops R (node, i) bytes (shards s ! i) (L i) g p'"
      and eq: "try_shards ops node bytes ?is (shards s) m =
        Some (Some g, (shards s)[i := p'], m\<lparr>pool_used_bytes := gauge_plus (size_of g) (pool_used_bytes m)\<rparr>)"
    have "sharded_allocate ops node bytes s m =
        Some (Some g, s\<lparr>shards := (shards s)[i := p'], cursor := ?c\<rparr>,
              m\<lparr>pool_used_bytes := gauge_plus (size_of g) (pool_used_bytes m)\<rparr>)"
      using n eq by (simp add: sharded_allocate_def Let_def)
    moreover have "i < ?n" using i(1) unfolding is_set by simp
    ultimately show ?thesis using i(2) that(2) by blast
  qed
qed

lemma pool_at_Some:
  "pool_at al (node, i) = Some p \<longleftrightarrow> (\<exists>s. sharded_at al node = Some s \<and> i < length (shards s) \<and> p = shards s ! i)"
  by (auto simp: pool_at_def nth_opt_def split: option.splits)

text \<open>Replacing the shards of one node.\<close>

definition set_node :: "numa_node \<Rightarrow> 'r sharded_pool \<Rightarrow> 'r pinned_allocator \<Rightarrow> 'r pinned_allocator" where
  "set_node node s al = (case al of Global _ \<Rightarrow> Global s | Numa pools \<Rightarrow> Numa (hm_insert node s pools))"

lemma sharded_at_set_node:
  "sharded_at al node \<noteq> None \<Longrightarrow> sharded_at (set_node node s al) = (sharded_at al)(node \<mapsto> s)"
  by (rule ext) (auto simp: sharded_at_def set_node_def hm_simps split: pinned_allocator.splits if_splits)

definition target_node :: "'r pinned_allocator \<Rightarrow> numa_node \<Rightarrow> numa_node" where
  "target_node al node = (case al of Global _ \<Rightarrow> NUMA_UNKNOWN | Numa _ \<Rightarrow> node)"

text \<open>The shards a request is served from, if there are any.\<close>

definition serving :: "'r pinned_allocator \<Rightarrow> numa_node \<Rightarrow> 'r sharded_pool option" where
  "serving al node =
     (case al of
        Global s \<Rightarrow> Some s
      | Numa pools \<Rightarrow> if is_unknown node then None else hm_get pools node)"

lemma serving_at: "serving al node = Some s \<Longrightarrow> sharded_at al (target_node al node) = Some s"
  by (auto simp: serving_def sharded_at_def target_node_def split: pinned_allocator.splits if_splits)

lemma serving_set_node:
  "serving al node = Some s \<Longrightarrow> serving (set_node (target_node al node) s' al) node = Some s'"
  by (auto simp: serving_def set_node_def target_node_def hm_get_insert split: pinned_allocator.splits if_splits)

lemma pinned_allocate_serving:
  "pinned_allocate ops bytes node al m =
     (case serving al node of
        None \<Rightarrow> Some (None, al, m)
      | Some s \<Rightarrow> map_option (\<lambda>(g, s', m'). (g, set_node (target_node al node) s' al, m'))
          (sharded_allocate ops (target_node al node) bytes s m))"
  by (cases al)
    (auto simp: pinned_allocate_def numa_allocate_def serving_def set_node_def target_node_def
      option.map_comp comp_def case_prod_unfold split: option.splits)

lemma largest_free_serving:
  "largest_free_allocation_for_node ops node al =
     (case serving al node of None \<Rightarrow> 0 | Some s \<Rightarrow> sharded_largest_free ops s)"
  by (auto simp: largest_free_allocation_for_node_def numa_largest_free_def serving_def
      split: pinned_allocator.splits)

lemma set_node_same_pools:
  assumes at: "sharded_at al node = Some s" and same: "shards s' = shards s"
  shows "pool_at (set_node node s' al) = pool_at al" "no_empty_node al \<Longrightarrow> no_empty_node (set_node node s' al)"
  using at same by (auto simp: fun_eq_iff pool_at_def sharded_at_set_node no_empty_node_def split: if_splits)

lemma set_node_one_pool:
  assumes at: "sharded_at al node = Some s" and s': "shards s' = (shards s)[i := p']" and i: "i < length (shards s)"
  shows "pool_at (set_node node s' al) = (pool_at al)((node, i) \<mapsto> p')"
    "no_empty_node al \<Longrightarrow> no_empty_node (set_node node s' al)"
proof -
  have "pool_at (set_node node s' al) (n, j) = ((pool_at al)((node, i) \<mapsto> p')) (n, j)" for n j
    using at s' i by (auto simp: pool_at_def sharded_at_set_node nth_opt_def nth_list_update)
  thus "pool_at (set_node node s' al) = (pool_at al)((node, i) \<mapsto> p')" by (intro ext) (metis prod.exhaust)
  show "no_empty_node al \<Longrightarrow> no_empty_node (set_node node s' al)"
    using at s' i by (auto simp: no_empty_node_def sharded_at_set_node split: if_splits)
qed

lemma pinned_allocate_cases:
  assumes con: "raw_contract ops R" and ok: "allocator_ok ops R al G" and pos: "0 < bytes"
  obtains (Fails) al' where "pinned_allocate ops bytes node al m = Some (None, al', m)"
      "pool_at al' = pool_at al" "no_empty_node al'" "largest_free_allocation_for_node ops node al < bytes"
      "largest_free_allocation_for_node ops node al' = largest_free_allocation_for_node ops node al"
  | (Grants) g p p' al' where "pinned_allocate ops bytes node al m =
        Some (Some g, al', m\<lparr>pool_used_bytes := gauge_plus (size_of g) (pool_used_bytes m)\<rparr>)"
      "pool_at al (g_pool g) = Some p" "grants ops R (g_pool g) bytes p (pool_guards (g_pool g) G) g p'"
      "pool_at al' = (pool_at al)(g_pool g \<mapsto> p')" "no_empty_node al'"
proof (cases "serving al node")
  case None
  hence "pinned_allocate ops bytes node al m = Some (None, al, m)"
    "largest_free_allocation_for_node ops node al < bytes"
    using pos by (simp_all add: pinned_allocate_serving largest_free_serving)
  thus ?thesis using that(1) [of al] allocator_okD(1) [OF ok] by simp
next
  case (Some s)
  let ?node = "target_node al node"
  note at = serving_at [OF Some]
  note ne = allocator_okD(1) [OF ok]
  have s_ne: "shards s \<noteq> []" using ne at by (simp add: no_empty_node_def)
  have s_ok: "pool_ok ops R (shards s ! i) (pool_guards (?node, i) G)" if "i < length (shards s)" for i
    using that at by (intro allocator_okD(2) [OF ok]) (auto simp: pool_at_Some)
  show ?thesis
  proof (rule sharded_allocate_cases [OF con pos s_ne s_ok, where node = ?node and m = m])
    fix c
    assume f: "sharded_allocate ops ?node bytes s m = Some (None, s\<lparr>cursor := c\<rparr>, m)"
      "sharded_largest_free ops s < bytes"
    let ?al = "set_node ?node (s\<lparr>cursor := c\<rparr>) al"
    have "pinned_allocate ops bytes node al m = Some (None, ?al, m)"
      using Some f(1) by (simp add: pinned_allocate_serving)
    moreover have "pool_at ?al = pool_at al" by (rule set_node_same_pools(1) [OF at]) simp
    moreover have "no_empty_node ?al" using ne by (rule set_node_same_pools(2) [OF at, rotated]) simp
    moreover have "largest_free_allocation_for_node ops node al < bytes"
      using Some f(2) by (simp add: largest_free_serving)
    moreover have "largest_free_allocation_for_node ops node ?al = largest_free_allocation_for_node ops node al"
      using Some by (simp add: largest_free_serving serving_set_node sharded_largest_free_def)
    ultimately show ?thesis by (rule that(1))
  next
    fix i g p' c
    assume i: "i < length (shards s)"
      and g: "grants ops R (?node, i) bytes (shards s ! i) (pool_guards (?node, i) G) g p'"
      and eq: "sharded_allocate ops ?node bytes s m =
        Some (Some g, s\<lparr>shards := (shards s)[i := p'], cursor := c\<rparr>,
              m\<lparr>pool_used_bytes := gauge_plus (size_of g) (pool_used_bytes m)\<rparr>)"
    let ?al = "set_node ?node (s\<lparr>shards := (shards s)[i := p'], cursor := c\<rparr>) al"
    have pid: "g_pool g = (?node, i)" using g by (simp add: grants_def)
    have "pinned_allocate ops bytes node al m =
        Some (Some g, ?al, m\<lparr>pool_used_bytes := gauge_plus (size_of g) (pool_used_bytes m)\<rparr>)"
      using Some eq by (simp add: pinned_allocate_serving)
    moreover have "pool_at al (g_pool g) = Some (shards s ! i)" using at i by (simp add: pid pool_at_Some)
    moreover have "grants ops R (g_pool g) bytes (shards s ! i) (pool_guards (g_pool g) G) g p'"
      using g by (simp add: pid)
    moreover have "pool_at ?al = (pool_at al)(g_pool g \<mapsto> p')"
      unfolding pid by (rule set_node_one_pool(1) [OF at _ i]) simp
    moreover have "no_empty_node ?al" using ne by (rule set_node_one_pool(2) [OF at _ i, rotated]) simp
    ultimately show ?thesis by (rule that(2))
  qed
qed

lemma allocator_ok_same_pools:
  "allocator_ok ops R al G \<Longrightarrow> pool_at al' = pool_at al \<Longrightarrow> no_empty_node al' \<Longrightarrow> allocator_ok ops R al' G"
  by (simp add: allocator_ok_def)

lemma allocator_ok_grants:
  assumes ok: "allocator_ok ops R al G"
    and g: "grants ops R (g_pool g) bytes p (pool_guards (g_pool g) G) g p'"
    and at: "pool_at al' = (pool_at al)(g_pool g \<mapsto> p')" and ne: "no_empty_node al'"
  shows "allocator_ok ops R al' (g # G)"
proof -
  have "pool_ok ops R q (pool_guards pid (g # G))" if "pool_at al' pid = Some q" for pid q
    using that at g allocator_okD(2) [OF ok, of pid q]
    by (cases "pid = g_pool g") (auto simp: grants_def)
  thus ?thesis using ne at allocator_okD(3) [OF ok] by (auto simp: allocator_ok_def)
qed

lemma pinned_drop_ok:
  assumes con: "raw_contract ops R" and ok: "allocator_ok ops R al G" and g: "g \<in> set G"
    and d: "pinned_drop ops g al m = (al', m')"
  shows "allocator_ok ops R al' (remove1 g G)"
    and "m' = m\<lparr>pool_used_bytes := gauge_minus (size_of g) (pool_used_bytes m)\<rparr>"
proof -
  obtain node i where pid: "g_pool g = (node, i)" by (rule prod.exhaust)
  obtain p where p: "pool_at al (node, i) = Some p" using allocator_okD(3) [OF ok g] pid by auto
  then obtain s where s: "sharded_at al node = Some s" "i < length (shards s)" "p = shards s ! i"
    by (auto simp: pool_at_Some)
  define p' where "p' = fst (free_internal ops g p m)"
  let ?s = "s\<lparr>shards := (shards s)[i := p']\<rparr>"
  have al': "al' = set_node node ?s al"
    and m': "m' = m\<lparr>pool_used_bytes := gauge_minus (size_of g) (pool_used_bytes m)\<rparr>"
    using d s(1,3) pid
    by (auto simp: pinned_drop_def shard_free_def set_node_def sharded_at_def free_internal_def p'_def Let_def
        split: pinned_allocator.splits if_splits)
  have at: "pool_at al' = (pool_at al)((node, i) \<mapsto> p')"
    unfolding al' by (rule set_node_one_pool(1) [OF s(1) _ s(2)]) simp
  have ne: "no_empty_node al'"
    unfolding al' using allocator_okD(1) [OF ok] by (rule set_node_one_pool(2) [OF s(1) _ s(2), rotated]) simp
  have g': "g \<in> set (pool_guards (node, i) G)" using g pid by simp
  have "pool_ok ops R p' (remove1 g (pool_guards (node, i) G))"
    unfolding p'_def by (rule free_internal_ok [OF con allocator_okD(2) [OF ok p] g'])
  hence "pool_ok ops R q (pool_guards k (remove1 g G))" if "pool_at al' k = Some q" for k q
    using that at pid allocator_okD(2) [OF ok, of k q]
    by (cases "k = (node, i)") (auto simp: pool_guards_remove1)
  moreover have "pool_at al' (g_pool h) \<noteq> None" if "h \<in> set (remove1 g G)" for h
    using that at allocator_okD(3) [OF ok, of h] notin_set_remove1 [of h G g] by auto
  ultimately show "allocator_ok ops R al' (remove1 g G)" using ne by (auto simp: allocator_ok_def)
  show "m' = m\<lparr>pool_used_bytes := gauge_minus (size_of g) (pool_used_bytes m)\<rparr>" by (rule m')
qed

section \<open>Creation\<close>

text \<open>Mapped regions have a size that is a \<^verbatim>\<open>usize\<close>.\<close>

definition regions_sized :: "(numa_node \<Rightarrow> nat \<Rightarrow> usize \<Rightarrow> region option) \<Rightarrow> bool" where
  "regions_sized map_region =
     (\<forall>node i n rg. map_region node i n = Some rg \<longrightarrow> reg_size rg \<le> u64_max)"

lemma new_shards_ok:
  assumes con: "raw_contract ops R" and rgs: "\<forall>rg. Some rg \<in> set rgs \<longrightarrow> reg_size rg \<le> u64_max"
    and new: "new_shards ops n rgs hint m = Some (ps, m')"
  shows "length ps = length rgs \<and> (\<forall>p \<in> set ps. pool_ok ops R p [])
    \<and> pool_used_bytes m' = pool_used_bytes m"
  using rgs new
proof (induction rgs arbitrary: m ps)
  case (Cons rg rgs)
  from Cons.prems(2) obtain p m1 qs where p: "pool_new ops n rg hint m = Some (p, m1)"
    "new_shards ops n rgs hint m1 = Some (qs, m')" "ps = p # qs"
    by (auto split: option.splits)
  obtain r where r: "rg = Some r" using p(1) by (cases rg) (auto simp: pool_new_def split: if_splits)
  have "pool_used_bytes m1 = pool_used_bytes m"
    using p(1) r by (auto simp: pool_new_def Let_def split: if_splits sum.splits)
  moreover have "pool_ok ops R p []"
    using pool_new_ok [OF con p(1) [unfolded r]] Cons.prems(1) r by simp
  ultimately show ?case using Cons.IH [OF _ p(2)] Cons.prems(1) p(3) by simp
qed simp

lemma sharded_new_ok:
  assumes con: "raw_contract ops R" and rgs: "regions_sized map_region"
    and new: "sharded_new ops cap n (map_region node) hint m = Some (s, m')"
  shows "shards s \<noteq> [] \<and> (\<forall>p \<in> set (shards s). pool_ok ops R p []) \<and> pool_used_bytes m' = pool_used_bytes m"
proof -
  let ?rgs = "map (\<lambda>i. map_region node i (cap div max n 1)) [0..<max n 1]"
  obtain ps where ps: "new_shards ops (cap div max n 1) ?rgs hint m = Some (ps, m')" "shards s = ps"
    using new by (auto simp: sharded_new_def Let_def)
  have "\<forall>rg. Some rg \<in> set ?rgs \<longrightarrow> reg_size rg \<le> u64_max"
    using rgs by (auto simp: regions_sized_def)
  from new_shards_ok [OF con this ps(1)] ps(2) show ?thesis by auto
qed

lemma new_nodes_ok:
  assumes con: "raw_contract ops R" and rgs: "regions_sized map_region"
    and new: "new_nodes ops cap n map_region hint nodes pools m = Some (pools', m')"
    and ok: "allocator_ok ops R (Numa pools) []"
  shows "allocator_ok ops R (Numa pools') [] \<and> pool_used_bytes m' = pool_used_bytes m"
  using new ok
proof (induction nodes arbitrary: pools m)
  case (Cons node nodes)
  show ?case
  proof (cases "is_unknown node")
    case False
    then obtain s m1 where s: "sharded_new ops cap n (map_region node) hint m = Some (s, m1)"
      "new_nodes ops cap n map_region hint nodes (hm_insert node s pools) m1 = Some (pools', m')"
      using Cons.prems(1) by (auto split: option.splits)
    note s_ok = sharded_new_ok [OF con rgs s(1)]
    have "allocator_ok ops R (Numa (hm_insert node s pools)) []"
      using Cons.prems(2) s_ok
      by (auto simp: allocator_ok_def no_empty_node_def pool_at_def sharded_at_def nth_opt_def hm_simps
          split: option.splits if_splits)
    from Cons.IH [OF s(2) this] s_ok show ?thesis by simp
  qed (use Cons in simp)
qed simp

lemma new_numa_ok:
  assumes con: "raw_contract ops R" and rgs: "regions_sized map_region"
    and new: "new_numa ops cap nodes n map_region hint m = Some (al, m')"
  shows "allocator_ok ops R al [] \<and> pool_used_bytes m' = pool_used_bytes m"
proof (cases "nodes = []")
  case True
  then obtain s where s: "sharded_new ops cap n (map_region NUMA_UNKNOWN) hint m = Some (s, m')" "al = Global s"
    using new by (auto simp: new_numa_def new_global_def)
  from sharded_new_ok [OF con rgs s(1)] show ?thesis
    by (auto simp: s(2) allocator_ok_def no_empty_node_def pool_at_def sharded_at_def nth_opt_def
        split: if_splits)
next
  case False
  then obtain pools where p: "new_nodes ops (cap div length nodes) n map_region hint nodes [] m = Some (pools, m')"
    "al = Numa pools"
    using new by (auto simp: new_numa_def numa_pools_new_def)
  have "allocator_ok ops R (Numa []) []"
    by (simp add: allocator_ok_def no_empty_node_def pool_at_def sharded_at_def)
  from new_nodes_ok [OF con rgs p(1) this] p(2) show ?thesis by simp
qed

section \<open>Histories of an allocator\<close>

text \<open>
  Allocations and drops in any order. The live guards are listed with the state.
\<close>

type_synonym ('r, 'a) alloc_state = "'r pinned_allocator \<times> 'a guard list \<times> core_metrics"

inductive alloc_step :: "('r, 'a) raw_ops \<Rightarrow> ('r, 'a) alloc_state \<Rightarrow> ('r, 'a) alloc_state \<Rightarrow> bool"
  for ops :: "('r, 'a) raw_ops" where
  granted: "0 < bytes \<Longrightarrow> pinned_allocate ops bytes node al m = Some (Some g, al', m') \<Longrightarrow>
    alloc_step ops (al, G, m) (al', g # G, m')"
| refused: "0 < bytes \<Longrightarrow> pinned_allocate ops bytes node al m = Some (None, al', m') \<Longrightarrow>
    alloc_step ops (al, G, m) (al', G, m')"
| dropped: "g \<in> set G \<Longrightarrow> pinned_drop ops g al m = (al', m') \<Longrightarrow>
    alloc_step ops (al, G, m) (al', remove1 g G, m')"

text \<open>The bytes the gauge counts for the live guards.\<close>

definition live_bytes :: "'a guard list \<Rightarrow> int" where
  "live_bytes G = sum_list (map (\<lambda>g. gauge_plus (size_of g) 0) G)"

lemma live_bytes_simps [simp]:
  "live_bytes [] = 0" "live_bytes (g # G) = gauge_plus (size_of g) 0 + live_bytes G"
  by (simp_all add: live_bytes_def)

lemma live_bytes_remove1: "g \<in> set G \<Longrightarrow> live_bytes (remove1 g G) = live_bytes G - gauge_plus (size_of g) 0"
  by (induction G) auto

definition alloc_inv ::
    "('r, 'a) raw_ops \<Rightarrow> (nat \<Rightarrow> 'r \<Rightarrow> ('a \<times> nat) multiset \<Rightarrow> bool) \<Rightarrow> int \<Rightarrow> ('r, 'a) alloc_state \<Rightarrow> bool" where
  "alloc_inv ops R base st =
     (case st of (al, G, m) \<Rightarrow> allocator_ok ops R al G \<and> pool_used_bytes m = base + live_bytes G)"

lemma alloc_inv_step:
  assumes con: "raw_contract ops R" and step: "alloc_step ops st st'" and inv: "alloc_inv ops R base st"
  shows "alloc_inv ops R base st'"
  using step inv
proof cases
  case (granted bytes node al m g al' m' G)
  have ok: "allocator_ok ops R al G" using inv granted(1) by (simp add: alloc_inv_def)
  show ?thesis
  proof (rule pinned_allocate_cases [OF con ok granted(3), of node m])
    fix h p p' al''
    assume "pinned_allocate ops bytes node al m =
        Some (Some h, al'', m\<lparr>pool_used_bytes := gauge_plus (size_of h) (pool_used_bytes m)\<rparr>)"
      and h: "grants ops R (g_pool h) bytes p (pool_guards (g_pool h) G) h p'"
      "pool_at al'' = (pool_at al)(g_pool h \<mapsto> p')" "no_empty_node al''"
    with granted(4) have eq: "h = g" "al'' = al'"
      "m' = m\<lparr>pool_used_bytes := gauge_plus (size_of g) (pool_used_bytes m)\<rparr>" by auto
    have "allocator_ok ops R al' (g # G)"
      using h unfolding eq by (rule allocator_ok_grants [OF ok])
    thus ?thesis using inv granted(1,2) eq(3) by (simp add: alloc_inv_def gauge_plus_def)
  qed (use granted(4) in simp)
next
  case (refused bytes node al m al' m' G)
  have ok: "allocator_ok ops R al G" using inv refused(1) by (simp add: alloc_inv_def)
  show ?thesis
  proof (rule pinned_allocate_cases [OF con ok refused(3), of node m])
    fix al''
    assume "pinned_allocate ops bytes node al m = Some (None, al'', m)"
      and h: "pool_at al'' = pool_at al" "no_empty_node al''"
    with refused(4) have eq: "al'' = al'" "m' = m" by simp_all
    have "allocator_ok ops R al' G" using h unfolding eq by (rule allocator_ok_same_pools [OF ok])
    thus ?thesis using inv refused(1,2) eq(2) by (simp add: alloc_inv_def)
  qed (use refused(4) in simp)
next
  case (dropped g G al m al' m')
  have ok: "allocator_ok ops R al G" using inv dropped(1) by (simp add: alloc_inv_def)
  from pinned_drop_ok [OF con ok dropped(3,4)] inv dropped(1,2) live_bytes_remove1 [OF dropped(3)]
  show ?thesis by (simp add: alloc_inv_def gauge_plus_def gauge_minus_def split: if_splits)
qed

lemma alloc_inv_reachable:
  assumes "raw_contract ops R" "(alloc_step ops)\<^sup>*\<^sup>* st st'" "alloc_inv ops R base st"
  shows "alloc_inv ops R base st'"
  using assms(2,3) by (induction rule: rtranclp_induct) (auto intro: alloc_inv_step [OF assms(1)])

lemma pool_ok_guard:
  assumes ok: "pool_ok ops R p L" and g: "g \<in> set L"
  shows "reg_ptr (backing p) \<le> g_ptr g \<and> g_ptr g + size_of g \<le> reg_ptr (backing p) + reg_size (backing p)
    \<and> 512 dvd g_ptr g - reg_ptr (backing p) \<and> 512 dvd size_of g"
proof -
  let ?s = "pool_allocator p"
  have wf: "UNIT_ALIGNMENT dvd unit_size ?s" "unit_size ?s * total_units ?s \<le> reg_size (backing p)"
    using ok by (auto simp: pool_ok_def pool_wf_def Let_def)
  have gok: "offset_of g = raw_offset ops (raw (g_allocation g)) * unit_size ?s" "unit_size ?s dvd size_of g"
    "offset_of g + size_of g \<le> unit_size ?s * total_units ?s" "g_ptr g = reg_ptr (backing p) + offset_of g"
    using ok g by (auto simp: pool_ok_def list_all_iff guard_ok_def Let_def)
  have "512 dvd offset_of g" "512 dvd size_of g"
    using wf(1) gok(1,2) by (auto simp: UNIT_ALIGNMENT_def intro: dvd_trans)
  thus ?thesis using gok wf by simp
qed

lemma allocator_ok_inside:
  assumes ok: "allocator_ok ops R al G" and g: "g \<in> set G"
  shows "\<exists>p. pool_at al (g_pool g) = Some p
    \<and> reg_ptr (backing p) \<le> g_ptr g \<and> g_ptr g + size_of g \<le> reg_ptr (backing p) + reg_size (backing p)
    \<and> 512 dvd g_ptr g - reg_ptr (backing p) \<and> 512 dvd size_of g"
proof -
  obtain p where p: "pool_at al (g_pool g) = Some p" using allocator_okD(3) [OF ok g] by blast
  have "g \<in> set (pool_guards (g_pool g) G)" using g by simp
  from pool_ok_guard [OF allocator_okD(2) [OF ok p] this] p show ?thesis by blast
qed

lemma sorted_wrt_filter_nth:
  "sorted_wrt Q (filter P xs) \<Longrightarrow> i < j \<Longrightarrow> j < length xs \<Longrightarrow> P (xs ! i) \<Longrightarrow> P (xs ! j) \<Longrightarrow> Q (xs ! i) (xs ! j)"
proof (induction xs arbitrary: i j)
  case (Cons x xs)
  obtain j' where j: "j = Suc j'" using Cons.prems(2) by (cases j) auto
  show ?case
  proof (cases i)
    case 0
    have "xs ! j' \<in> set (filter P xs)" using Cons.prems(3,5) j by auto
    thus ?thesis using Cons.prems(1,4) 0 j by auto
  next
    case (Suc i')
    have "sorted_wrt Q (filter P xs)" using Cons.prems(1) by (auto split: if_splits)
    from Cons.IH [OF this, of i' j'] Cons.prems Suc j show ?thesis by simp
  qed
qed simp

lemma allocator_ok_apart:
  assumes ok: "allocator_ok ops R al G" and ij: "i < j" "j < length G" and same: "g_pool (G ! i) = g_pool (G ! j)"
  shows "apart (g_ptr (G ! i)) (size_of (G ! i)) (g_ptr (G ! j)) (size_of (G ! j))"
proof -
  let ?pid = "g_pool (G ! j)"
  have mem: "G ! i \<in> set G" "G ! j \<in> set G" using ij by simp_all
  obtain p where p: "pool_at al ?pid = Some p" using allocator_okD(3) [OF ok mem(2)] by blast
  note pok = allocator_okD(2) [OF ok p]
  have "guards_apart (G ! i) (G ! j)"
    by (rule sorted_wrt_filter_nth [where P = "\<lambda>g. g_pool g = ?pid" and xs = G])
      (use pok ij same in \<open>simp_all add: pool_ok_def pool_guards_def\<close>)
  moreover have "guard_ok ops p (G ! i)" "guard_ok ops p (G ! j)"
    using pok mem same by (auto simp: pool_ok_def list_all_iff)
  ultimately show ?thesis by (auto simp: guards_apart_def guard_ok_def Let_def apart_def)
qed

lemma allocator_ok_distinct:
  assumes ok: "allocator_ok ops R al G"
  shows "distinct G"
proof -
  have pos: "0 < size_of g" if g: "g \<in> set G" for g
  proof -
    obtain p where p: "pool_at al (g_pool g) = Some p" using allocator_okD(3) [OF ok g] by blast
    from allocator_okD(2) [OF ok p] g show ?thesis
      by (auto simp: pool_ok_def list_all_iff guard_ok_def Let_def)
  qed
  have "G ! i \<noteq> G ! j" if ij: "i < j" "j < length G" for i j
  proof
    assume "G ! i = G ! j"
    with allocator_ok_apart [OF ok ij] pos [of "G ! j"] ij show False by (simp add: apart_def)
  qed
  thus ?thesis by (metis distinct_conv_nth linorder_neqE_nat)
qed

lemma pinned_allocate_total:
  assumes con: "raw_contract ops R" and ok: "allocator_ok ops R al G" and pos: "0 < bytes"
  shows "\<exists>r al' m'. pinned_allocate ops bytes node al m = Some (r, al', m')
    \<and> (bytes \<le> largest_free_allocation_for_node ops node al \<longrightarrow> r \<noteq> None)
    \<and> (\<forall>g. r = Some g \<longrightarrow> bytes \<le> size_of g)"
  by (rule pinned_allocate_cases [OF con ok pos, of node m]) (auto simp: grants_def)

section \<open>An instance of the contract\<close>

text \<open>A first-fit allocator over a list of live ranges, for evaluating the pools on examples.\<close>

type_synonym ff = "nat \<times> (nat \<times> nat) list"

definition ff_fits :: "ff \<Rightarrow> nat \<Rightarrow> nat \<Rightarrow> bool" where
  "ff_fits r u x =
     (x + u \<le> fst r \<and> u + sum_list (map snd (snd r)) \<le> fst r
      \<and> list_all (\<lambda>a. apart x u (fst a) (snd a)) (snd r))"

definition ff_find :: "ff \<Rightarrow> nat \<Rightarrow> nat option" where
  "ff_find r u = find (ff_fits r u) (0 # map (\<lambda>(b, k). b + k) (snd r))"

definition ff_ops :: "(ff, nat \<times> nat) raw_ops" where
  "ff_ops =
     \<lparr>raw_with_max_allocs = (\<lambda>cap _. (cap, [])),
      raw_allocate = (\<lambda>u r. case ff_find r u of None \<Rightarrow> (None, r) | Some x \<Rightarrow> (Some (x, u), (fst r, (x, u) # snd r))),
      raw_offset = fst,
      raw_size = (\<lambda>a _. snd a),
      raw_free = (\<lambda>a r. (fst r, remove1 a (snd r))),
      raw_total_free = (\<lambda>r. fst r - sum_list (map snd (snd r))),
      raw_largest_free = (\<lambda>r. length (takeWhile (\<lambda>u. ff_find r u \<noteq> None) [1..<Suc (fst r)]))\<rparr>"

definition ff_rel :: "nat \<Rightarrow> ff \<Rightarrow> ((nat \<times> nat) \<times> nat) multiset \<Rightarrow> bool" where
  "ff_rel cap r M =
     (fst r = cap \<and> image_mset (\<lambda>a. (a, snd a)) (mset (snd r)) = M \<and> sum_list (map snd (snd r)) \<le> cap)"

lemma ff_find_fits: "ff_find r u = Some x \<Longrightarrow> ff_fits r u x"
  by (auto simp: ff_find_def find_Some_iff split: if_splits)

lemma sum_list_remove1_le: "sum_list (map f (remove1 x xs)) \<le> sum_list (map (f :: 'b \<Rightarrow> nat) xs)"
  by (induction xs) auto

lemma takeWhile_upt_nth:
  assumes "0 < u" "u \<le> length (takeWhile P [1..<Suc n])"
  shows "P u"
proof -
  let ?w = "takeWhile P [1..<Suc n]"
  have i: "u - 1 < length ?w" using assms by simp
  hence "?w ! (u - 1) = [1..<Suc n] ! (u - 1)" by (rule takeWhile_nth)
  moreover have "u - 1 < length [1..<Suc n]" using i length_takeWhile_le [of P "[1..<Suc n]"] by linarith
  ultimately have "?w ! (u - 1) = u" using assms(1) by (simp del: upt_Suc)
  moreover have "?w ! (u - 1) \<in> set ?w" using i by (rule nth_mem)
  ultimately show "P u" by (metis set_takeWhileD)
qed

lemma ff_ops_simps [simp]:
  "raw_with_max_allocs ff_ops cap k = (cap, [])"
  "raw_allocate ff_ops u r =
     (case ff_find r u of None \<Rightarrow> (None, r) | Some x \<Rightarrow> (Some (x, u), (fst r, (x, u) # snd r)))"
  "raw_offset ff_ops = fst"
  "raw_size ff_ops a r = snd a"
  "raw_free ff_ops a r = (fst r, remove1 a (snd r))"
  "raw_total_free ff_ops r = fst r - sum_list (map snd (snd r))"
  "raw_largest_free ff_ops r = length (takeWhile (\<lambda>u. ff_find r u \<noteq> None) [1..<Suc (fst r)])"
  by (simp_all add: ff_ops_def del: upt_Suc)

lemma ff_contract: "raw_contract ff_ops ff_rel"
proof -
  have new: "ff_rel cap (raw_with_max_allocs ff_ops cap m) {#}" for cap m
    by (simp add: ff_rel_def)
  have alloc: "u \<le> raw_size ff_ops a r' \<and> raw_offset ff_ops a + raw_size ff_ops a r' \<le> cap
      \<and> (\<forall>(b, k) \<in># L. apart (raw_offset ff_ops a) (raw_size ff_ops a r') (raw_offset ff_ops b) k)
      \<and> ff_rel cap r' (add_mset (a, raw_size ff_ops a r') L)"
    if R: "ff_rel cap r L" and al: "raw_allocate ff_ops u r = (Some a, r')" for cap r L u a r'
  proof -
    obtain x where x: "ff_find r u = Some x" "a = (x, u)" "r' = (fst r, (x, u) # snd r)"
      using al by (auto split: option.splits)
    have fits: "x + u \<le> fst r" "u + sum_list (map snd (snd r)) \<le> fst r"
      "\<And>b. b \<in> set (snd r) \<Longrightarrow> apart x u (fst b) (snd b)"
      using ff_find_fits [OF x(1)] by (simp_all add: ff_fits_def list_all_iff)
    have R': "fst r = cap" "L = image_mset (\<lambda>a. (a, snd a)) (mset (snd r))" using R by (simp_all add: ff_rel_def)
    show ?thesis using x(2,3) R' fits by (auto simp: ff_rel_def)
  qed
  have none: "r' = r" if "raw_allocate ff_ops u r = (None, r')" for u r r'
    using that by (auto split: option.splits)
  have free: "ff_rel cap (raw_free ff_ops a r) (L - {#(a, n)#})" if R: "ff_rel cap r L" and m: "(a, n) \<in># L"
    for cap r L a n
  proof -
    have a: "a \<in> set (snd r)" "n = snd a" using R m by (auto simp: ff_rel_def)
    have "L - {#(a, n)#} = image_mset (\<lambda>a. (a, snd a)) (mset (remove1 a (snd r)))"
      using R a by (auto simp: ff_rel_def image_mset_Diff)
    thus ?thesis using R sum_list_remove1_le [of snd a "snd r"] by (simp add: ff_rel_def)
  qed
  have total: "raw_total_free ff_ops r + sum_mset (image_mset snd L) \<le> cap" if R: "ff_rel cap r L" for cap r L
  proof -
    have "sum_mset (image_mset snd L) = sum_list (map snd (snd r))"
      using R by (auto simp: ff_rel_def multiset.map_comp comp_def simp flip: sum_mset_sum_list)
    thus ?thesis using R by (simp add: ff_rel_def)
  qed
  have largest: "raw_largest_free ff_ops r \<le> cap" if "ff_rel cap r L" for cap r L
    using that length_takeWhile_le [of "\<lambda>u. ff_find r u \<noteq> None" "[1..<Suc (fst r)]"]
    by (simp add: ff_rel_def del: upt_Suc)
  have ok: "fst (raw_allocate ff_ops u r) \<noteq> None" if "0 < u" "u \<le> raw_largest_free ff_ops r" for u r
    using takeWhile_upt_nth [of u "\<lambda>u. ff_find r u \<noteq> None" "fst r"] that
    by (auto simp del: upt_Suc split: option.splits)
  show ?thesis
    unfolding raw_contract_def
    by (rule conjI, intro allI, rule new, rule conjI, intro allI impI, rule alloc, assumption, assumption,
        rule conjI, intro allI impI, rule none, assumption, rule conjI, intro allI impI, rule free, assumption,
        assumption, rule conjI, intro allI impI, rule total, assumption, rule conjI, intro allI impI, rule largest,
        assumption, intro allI impI, rule ok, assumption, assumption)
qed

section \<open>Properties\<close>

text \<open>
  C2. Pinned memory is handed out safely. Over an offset allocator that meets its contract, after any
  sequence of allocations and drops from a freshly created allocator (per node or
  global), every live guard lies inside the region of its pool and is aligned and padded to 512
  bytes for direct I/O, two live guards of a pool never overlap, and the usage gauge has moved by
  the bytes of the live guards. No further request panics, one that does not exceed the largest free
  range of its node is granted, and the guard it gets holds at least the bytes requested.
\<close>

theorem pinned_memory_safe:
  assumes con: "raw_contract ops R" and rgs: "regions_sized map_region"
    and new: "new_numa ops cap nodes n map_region hint m0 = Some (al0, m1)"
    and run: "(alloc_step ops)\<^sup>*\<^sup>* (al0, [], m1) (al, G, m)"
  shows "(\<forall>g \<in> set G. \<exists>p. pool_at al (g_pool g) = Some p
        \<and> reg_ptr (backing p) \<le> g_ptr g \<and> g_ptr g + size_of g \<le> reg_ptr (backing p) + reg_size (backing p)
        \<and> 512 dvd g_ptr g - reg_ptr (backing p) \<and> 512 dvd size_of g)
    \<and> (\<forall>i j. i < j \<longrightarrow> j < length G \<longrightarrow> g_pool (G ! i) = g_pool (G ! j) \<longrightarrow>
        apart (g_ptr (G ! i)) (size_of (G ! i)) (g_ptr (G ! j)) (size_of (G ! j)))
    \<and> pool_used_bytes m = pool_used_bytes m0 + live_bytes G
    \<and> (\<forall>bytes node. 0 < bytes \<longrightarrow> (\<exists>r al' m'. pinned_allocate ops bytes node al m = Some (r, al', m')
        \<and> (bytes \<le> largest_free_allocation_for_node ops node al \<longrightarrow> r \<noteq> None)
        \<and> (\<forall>g. r = Some g \<longrightarrow> bytes \<le> size_of g)))"
proof -
  have inv: "alloc_inv ops R (pool_used_bytes m0) (al, G, m)"
    using new_numa_ok [OF con rgs new] by (intro alloc_inv_reachable [OF con run]) (simp add: alloc_inv_def)
  hence ok: "allocator_ok ops R al G" and gauge: "pool_used_bytes m = pool_used_bytes m0 + live_bytes G"
    by (simp_all add: alloc_inv_def)
  show ?thesis
  proof (intro conjI)
    show "\<forall>g \<in> set G. \<exists>p. pool_at al (g_pool g) = Some p
        \<and> reg_ptr (backing p) \<le> g_ptr g \<and> g_ptr g + size_of g \<le> reg_ptr (backing p) + reg_size (backing p)
        \<and> 512 dvd g_ptr g - reg_ptr (backing p) \<and> 512 dvd size_of g"
      using allocator_ok_inside [OF ok] by blast
    show "\<forall>i j. i < j \<longrightarrow> j < length G \<longrightarrow> g_pool (G ! i) = g_pool (G ! j) \<longrightarrow>
        apart (g_ptr (G ! i)) (size_of (G ! i)) (g_ptr (G ! j)) (size_of (G ! j))"
      using allocator_ok_apart [OF ok] by blast
    show "pool_used_bytes m = pool_used_bytes m0 + live_bytes G" by (rule gauge)
    show "\<forall>bytes node. 0 < bytes \<longrightarrow> (\<exists>r al' m'. pinned_allocate ops bytes node al m = Some (r, al', m')
        \<and> (bytes \<le> largest_free_allocation_for_node ops node al \<longrightarrow> r \<noteq> None)
        \<and> (\<forall>g. r = Some g \<longrightarrow> bytes \<le> size_of g))"
      using pinned_allocate_total [OF con ok] by blast
  qed
qed

text \<open>Two nodes of 2048 bytes each: a 600-byte and a 512-byte guard, then the first is dropped.\<close>

definition ex_regions :: "numa_node \<Rightarrow> nat \<Rightarrow> usize \<Rightarrow> region option" where
  "ex_regions node i n = Some \<lparr>reg_ptr = 65536 * Suc (unat node), reg_device_ptr = 0, reg_size = min n u64_max\<rparr>"

definition ex_pool :: "nat \<Rightarrow> (nat \<times> nat) list \<Rightarrow> ff memory_pool" where
  "ex_pool ptr live =
     \<lparr>backing = \<lparr>reg_ptr = ptr, reg_device_ptr = 0, reg_size = 2048\<rparr>,
      pool_allocator = \<lparr>unit_size = 512, total_units = 4, inner = (4, live)\<rparr>, allocatable_bytes = 2048\<rparr>"

definition ex_allocator :: "(nat \<times> nat) list \<Rightarrow> nat \<Rightarrow> ff pinned_allocator" where
  "ex_allocator live c =
     Numa [(0, \<lparr>shards = [ex_pool 65536 live], cursor = c\<rparr>), (1, \<lparr>shards = [ex_pool 131072 []], cursor = 0\<rparr>)]"

definition ex_guard :: "nat \<Rightarrow> nat \<Rightarrow> (nat \<times> nat) guard" where
  "ex_guard x n = \<lparr>g_allocation = \<lparr>offset_bytes = x * 512, size_bytes = n * 512, raw = (x, n)\<rparr>,
     g_ptr = 65536 + x * 512, g_device_ptr = x * 512, g_pool = (0, 0)\<rparr>"

definition ex_gauge :: "int \<Rightarrow> core_metrics" where
  "ex_gauge used = no_metrics\<lparr>pool_capacity_bytes := 4096, pool_used_bytes := used\<rparr>"

lemmas ex_pool_defs = ex_regions_def ex_pool_def ex_allocator_def ex_guard_def ex_gauge_def no_metrics_def
  NUMA_UNKNOWN_def is_unknown_def

lemma ex_unit: "compute_unit_size 2048 None = 512"
  by (simp add: compute_unit_size_def div_ceil_def UNIT_ALIGNMENT_def u32_max_def wrapping_mul_def)

lemma ex_pool_new: "pool_new ff_ops 2048 (Some \<lparr>reg_ptr = x, reg_device_ptr = 0, reg_size = 2048\<rparr>) None m =
    Some (ex_pool x [], m\<lparr>pool_capacity_bytes := pool_capacity_bytes m + 2048\<rparr>)"
  by (simp add: pool_new_def scaled_new_def ex_unit u32_max_def wrapping_mul_def gauge_plus_def ex_pool_def)

lemma ex_created: "new_numa ff_ops 4096 [0, 1] 1 ex_regions None no_metrics = Some (ex_allocator [] 0, ex_gauge 0)"
  by (simp add: ex_allocator_def ex_gauge_def no_metrics_def ex_regions_def NUMA_UNKNOWN_def is_unknown_def
      new_numa_def numa_pools_new_def sharded_new_def ex_pool_new u64_max_def Let_def flip: numeral_2_eq_2)

lemmas ex_allocate_defs = pinned_allocate_def numa_allocate_def sharded_allocate_def pool_allocate_def
  scaled_allocate_def ff_find_def ff_fits_def apart_def div_ceil_def u32_max_def u64_max_def
  wrapping_mul_def wrapping_add_def checked_add_def gauge_plus_def

lemma ex_first: "pinned_allocate ff_ops 600 0 (ex_allocator [] 0) (ex_gauge 0) =
    Some (Some (ex_guard 0 2), ex_allocator [(0, 2)] 1, ex_gauge 1024)"
  by (simp add: ex_pool_defs ex_allocate_defs)

lemma ex_second: "pinned_allocate ff_ops 512 0 (ex_allocator [(0, 2)] 1) (ex_gauge 1024) =
    Some (Some (ex_guard 2 1), ex_allocator [(2, 1), (0, 2)] 2, ex_gauge 1536)"
  by (simp add: ex_pool_defs ex_allocate_defs)

lemma ex_drop: "pinned_drop ff_ops (ex_guard 0 2) (ex_allocator [(2, 1), (0, 2)] 2) (ex_gauge 1536) =
    (ex_allocator [(2, 1)] 2, ex_gauge 512)"
  by (simp add: ex_pool_defs pinned_drop_def shard_free_def free_internal_def scaled_free_def
      gauge_minus_def)

lemma ex_history: "(alloc_step ff_ops)\<^sup>*\<^sup>* (ex_allocator [] 0, [], ex_gauge 0)
    (ex_allocator [(2, 1)] 2, [ex_guard 2 1], ex_gauge 512)"
proof -
  have s1: "alloc_step ff_ops (ex_allocator [] 0, [], ex_gauge 0) (ex_allocator [(0, 2)] 1, [ex_guard 0 2], ex_gauge 1024)"
    by (rule alloc_step.granted [OF _ ex_first]) simp
  have s2: "alloc_step ff_ops (ex_allocator [(0, 2)] 1, [ex_guard 0 2], ex_gauge 1024)
      (ex_allocator [(2, 1), (0, 2)] 2, [ex_guard 2 1, ex_guard 0 2], ex_gauge 1536)"
    by (rule alloc_step.granted [OF _ ex_second]) simp
  have s3: "alloc_step ff_ops (ex_allocator [(2, 1), (0, 2)] 2, [ex_guard 2 1, ex_guard 0 2], ex_gauge 1536)
      (ex_allocator [(2, 1)] 2, remove1 (ex_guard 0 2) [ex_guard 2 1, ex_guard 0 2], ex_gauge 512)"
    by (rule alloc_step.dropped [OF _ ex_drop]) simp
  have r: "remove1 (ex_guard 0 2) [ex_guard 2 1, ex_guard 0 2] = [ex_guard 2 1]"
    by (simp add: ex_guard_def)
  show ?thesis
    by (rule rtranclp.rtrancl_into_rtrancl [OF rtranclp.rtrancl_into_rtrancl [OF r_into_rtranclp [of "alloc_step ff_ops", OF s1] s2]
          s3 [unfolded r]])
qed

lemma ex_regions_sized: "regions_sized ex_regions"
  by (simp add: regions_sized_def ex_regions_def)

theorem pinned_memory_safe_witness:
  "raw_contract ff_ops ff_rel \<and> regions_sized ex_regions
    \<and> new_numa ff_ops 4096 [0, 1] 1 ex_regions None no_metrics = Some (ex_allocator [] 0, ex_gauge 0)
    \<and> (alloc_step ff_ops)\<^sup>*\<^sup>* (ex_allocator [] 0, [], ex_gauge 0)
        (ex_allocator [(2, 1)] 2, [ex_guard 2 1], ex_gauge 512)
    \<and> pool_used_bytes (ex_gauge 512) = pool_used_bytes no_metrics + live_bytes [ex_guard 2 1]"
  using pinned_memory_safe [OF ff_contract ex_regions_sized ex_created ex_history]
    ff_contract ex_regions_sized ex_created ex_history
  by blast

end
