(* ===== verification/Meta_Client.thy ===== *)
theory Meta_Client
  imports Core_Metrics
begin

text \<open>
  The MetaServer client of \<^verbatim>\<open>pegaflow-core/src/internode/metaserver_client.rs\<close>: the bounded command
  queue, the background loop that drains it into batched RPCs, and the heartbeat that keeps the
  node session registered. The MetaServer itself is a record of RPCs over a state of its own; the loop
  body takes the instants it reads from the clock. A hash map is iterated in the order of
  its association list.
\<close>

section \<open>Commands\<close>

definition DEFAULT_METASERVER_QUEUE_DEPTH :: usize where "DEFAULT_METASERVER_QUEUE_DEPTH = 4096"
definition MAX_HASHES_PER_RPC :: usize where "MAX_HASHES_PER_RPC = 16384"
definition INITIAL_BACKOFF_MS :: u64 where "INITIAL_BACKOFF_MS = 100"
definition MAX_BACKOFF_MS :: u64 where "MAX_BACKOFF_MS = 30000"
definition MIN_HEARTBEAT_INTERVAL_SECS :: u64 where "MIN_HEARTBEAT_INTERVAL_SECS = 1"

definition from_secs :: "u64 \<Rightarrow> duration" where "from_secs s = s * 10 ^ 9"
definition from_millis :: "u64 \<Rightarrow> duration" where "from_millis ms = ms * 10 ^ 6"

type_synonym hash = "byte list"
type_synonym groups = "(string, hash list) hmap"

definition group_or_default :: "string \<Rightarrow> groups \<Rightarrow> hash list" where
  "group_or_default ns g = (case hm_get g ns of None \<Rightarrow> [] | Some hs \<Rightarrow> hs)"

text \<open>Pushing one hash to the group of its namespace.\<close>

definition push_hash :: "groups \<Rightarrow> string \<times> hash \<Rightarrow> groups" where
  "push_hash g e = hm_insert (fst e) (group_or_default (fst e) g @ [snd e]) g"

definition from_entries :: "(string \<times> hash) list \<Rightarrow> groups" where
  "from_entries entries = foldl push_hash [] entries"

definition single_namespace :: "string \<Rightarrow> hash list \<Rightarrow> groups" where
  "single_namespace ns hashes = [(ns, hashes)]"

definition batch_count :: "groups \<Rightarrow> usize" where
  "batch_count g = sum_list (map (\<lambda>(_, hashes). length hashes) g)"

datatype metaserver_command = Insert groups | Remove groups | Shutdown

text \<open>The bounded channel: \<open>chan_open\<close> is false once the loop has dropped its receiver.\<close>

record command_channel =
  chan_queue :: "metaserver_command list"
  chan_depth :: usize
  chan_open :: bool

datatype try_send_error = Full | Closed

definition try_send :: "metaserver_command \<Rightarrow> command_channel \<Rightarrow> (try_send_error + unit) \<times> command_channel" where
  "try_send cmd ch =
     (if \<not> chan_open ch then (Inl Closed, ch)
      else if length (chan_queue ch) < chan_depth ch
        then (Inr (), ch\<lparr>chan_queue := chan_queue ch @ [cmd]\<rparr>)
      else (Inl Full, ch))"

definition client_new :: "usize \<Rightarrow> command_channel" where
  "client_new queue_depth = \<lparr>chan_queue = [], chan_depth = queue_depth, chan_open = True\<rparr>"

definition try_send_register_batch :: "groups \<Rightarrow> command_channel \<Rightarrow> core_metrics \<Rightarrow> command_channel \<times> core_metrics" where
  "try_send_register_batch batch ch m =
     (let count = batch_count batch
      in case try_send (Insert batch) ch of
           (Inr _, ch') \<Rightarrow> (ch', m\<lparr>metaserver_registration_blocks := metaserver_registration_blocks m + count\<rparr>)
         | (Inl _, ch') \<Rightarrow>
             (ch', m\<lparr>metaserver_registration_queue_full := metaserver_registration_queue_full m + count\<rparr>))"

definition try_register_namespace ::
    "string \<Rightarrow> hash list \<Rightarrow> command_channel \<Rightarrow> core_metrics \<Rightarrow> command_channel \<times> core_metrics" where
  "try_register_namespace ns hashes ch m =
     (if hashes = [] then (ch, m) else try_send_register_batch (single_namespace ns hashes) ch m)"

definition try_send_unregister_batch :: "groups \<Rightarrow> command_channel \<Rightarrow> core_metrics \<Rightarrow> command_channel \<times> core_metrics" where
  "try_send_unregister_batch batch ch m =
     (let count = batch_count batch
      in case try_send (Remove batch) ch of
           (Inr _, ch') \<Rightarrow> (ch', m\<lparr>metaserver_removal_blocks := metaserver_removal_blocks m + count\<rparr>)
         | (Inl _, ch') \<Rightarrow>
             (ch', m\<lparr>metaserver_removal_queue_full := metaserver_removal_queue_full m + count\<rparr>))"

definition try_unregister ::
    "(string \<times> hash) list \<Rightarrow> command_channel \<Rightarrow> core_metrics \<Rightarrow> command_channel \<times> core_metrics" where
  "try_unregister entries ch m =
     (if entries = [] then (ch, m) else try_send_unregister_batch (from_entries entries) ch m)"

text \<open>
  Shutting down waits for room in the queue; \<open>in_time\<close> says whether there was room before the timeout. The reply
  of the loop is awaited, not looked at.
\<close>

definition client_shutdown :: "bool \<Rightarrow> command_channel \<Rightarrow> command_channel" where
  "client_shutdown in_time ch =
     (if in_time \<and> chan_open ch then ch\<lparr>chan_queue := chan_queue ch @ [Shutdown]\<rparr> else ch)"

section \<open>Draining the queue\<close>

definition append_groups :: "groups \<Rightarrow> groups \<Rightarrow> groups" where
  "append_groups target groups =
     foldl (\<lambda>t (ns, hashes). hm_insert ns (group_or_default ns t @ hashes) t) target groups"

type_synonym net = "(string \<times> hash, bool) hmap"

definition insert_groups_into_net :: "bool \<Rightarrow> net \<Rightarrow> groups \<Rightarrow> net" where
  "insert_groups_into_net is_insert net groups =
     foldl (\<lambda>n (ns, hashes). foldl (\<lambda>n h. hm_insert (ns, h) is_insert n) n hashes) net groups"

definition insert_map_into_net :: "bool \<Rightarrow> net \<Rightarrow> groups \<Rightarrow> net" where
  "insert_map_into_net is_insert net grouped =
     foldl (\<lambda>n (ns, hashes). insert_groups_into_net is_insert n [(ns, hashes)]) net grouped"

definition build_net :: "groups \<Rightarrow> groups \<Rightarrow> net" where
  "build_net inserts removes = insert_map_into_net False (insert_map_into_net True [] inserts) removes"

record drain_state =
  d_inserts :: groups
  d_removes :: groups
  mixed_ops :: "net option"
  saw_insert :: bool
  saw_remove :: bool

definition drain_start :: drain_state where
  "drain_start = \<lparr>d_inserts = [], d_removes = [], mixed_ops = None, saw_insert = False, saw_remove = False\<rparr>"

text \<open>The net map, built from what was grouped so far the first time it is needed.\<close>

definition net_of :: "drain_state \<Rightarrow> net" where
  "net_of d = (case mixed_ops d of Some net \<Rightarrow> net | None \<Rightarrow> build_net (d_inserts d) (d_removes d))"

definition take_groups :: "drain_state \<Rightarrow> drain_state" where
  "take_groups d = (case mixed_ops d of Some _ \<Rightarrow> d | None \<Rightarrow> d\<lparr>d_inserts := [], d_removes := []\<rparr>)"

definition drain_insert :: "groups \<Rightarrow> drain_state \<Rightarrow> drain_state" where
  "drain_insert batch d0 =
     (let d = d0\<lparr>saw_insert := True\<rparr>
      in if saw_remove d
         then (take_groups d)\<lparr>mixed_ops := Some (insert_groups_into_net True (net_of d) batch)\<rparr>
         else d\<lparr>d_inserts := append_groups (d_inserts d) batch\<rparr>)"

definition drain_remove :: "groups \<Rightarrow> drain_state \<Rightarrow> drain_state" where
  "drain_remove batch d0 =
     (let d = d0\<lparr>saw_remove := True\<rparr>
      in if saw_insert d
         then (take_groups d)\<lparr>mixed_ops := Some (insert_groups_into_net False (net_of d) batch)\<rparr>
         else d\<lparr>d_removes := append_groups (d_removes d) batch\<rparr>)"

text \<open>\<open>None\<close>: a shutdown command was drained.\<close>

fun drain :: "metaserver_command list \<Rightarrow> drain_state \<Rightarrow> drain_state option" where
  "drain [] d = Some d"
| "drain (Insert batch # cmds) d = drain cmds (drain_insert batch d)"
| "drain (Remove batch # cmds) d = drain cmds (drain_remove batch d)"
| "drain (Shutdown # cmds) d = None"

definition split_net :: "drain_state \<Rightarrow> groups \<times> groups" where
  "split_net d =
     (case mixed_ops d of
        None \<Rightarrow> (d_inserts d, d_removes d)
      | Some net \<Rightarrow>
          foldl (\<lambda>(ins, rem) ((ns, h), is_insert).
                   if is_insert then (push_hash ins (ns, h), rem) else (ins, push_hash rem (ns, h)))
            (d_inserts d, d_removes d) net)"

section \<open>RPCs\<close>

datatype code = FailedPrecondition | InvalidArgument | OtherCode

text \<open>
  The MetaServer as the client sees it. An unregister may time out (\<open>None\<close>); a reply is a status code or
  the number the response carries.
\<close>

record 's metaserver =
  ms_connect :: "'s \<Rightarrow> bool \<times> 's"
  ms_heartbeat :: "string \<Rightarrow> string \<Rightarrow> 's \<Rightarrow> (code + u64) \<times> 's"
  ms_insert :: "string \<Rightarrow> hash list \<Rightarrow> string \<Rightarrow> string \<Rightarrow> 's \<Rightarrow> (code + u64) \<times> 's"
  ms_remove :: "string \<Rightarrow> hash list \<Rightarrow> string \<Rightarrow> string \<Rightarrow> 's \<Rightarrow> (code + u64) \<times> 's"
  ms_unregister :: "string \<Rightarrow> string \<Rightarrow> 's \<Rightarrow> (code + u64) option \<times> 's"

record heartbeat_state =
  node_registered :: bool
  backoff_ms :: u64
  hb_period :: duration
  next_at :: instant

definition heartbeat_new :: "instant \<Rightarrow> heartbeat_state" where
  "heartbeat_new now = \<lparr>node_registered = False, backoff_ms = INITIAL_BACKOFF_MS,
     hb_period = from_secs MIN_HEARTBEAT_INTERVAL_SECS, next_at = now\<rparr>"

record 's loop_state =
  connected :: bool
  heartbeat :: heartbeat_state
  l_metrics :: core_metrics
  server :: 's

definition heartbeat_period_from_stale_after :: "u64 \<Rightarrow> duration" where
  "heartbeat_period_from_stale_after stale_after_secs =
     from_secs (max (stale_after_secs div 2) MIN_HEARTBEAT_INTERVAL_SECS)"

definition advance_backoff :: "heartbeat_state \<Rightarrow> duration \<times> heartbeat_state" where
  "advance_backoff hb =
     (from_millis (backoff_ms hb), hb\<lparr>backoff_ms := min (wrapping_mul (backoff_ms hb) 2) MAX_BACKOFF_MS\<rparr>)"

text \<open>\<open>Inr\<close>: the next period; \<open>Inl\<close>: the delay before a retry.\<close>

definition heartbeat_failed :: "'s loop_state \<Rightarrow> (duration + duration) \<times> 's loop_state" where
  "heartbeat_failed st =
     (let (delay, hb) = advance_backoff (heartbeat st) in (Inl delay, st\<lparr>heartbeat := hb\<rparr>))"

definition count_heartbeat_failure :: "core_metrics \<Rightarrow> core_metrics" where
  "count_heartbeat_failure m = m\<lparr>metaserver_heartbeat_failures := metaserver_heartbeat_failures m + 1\<rparr>"

definition reset_session :: "code \<Rightarrow> 's loop_state \<Rightarrow> 's loop_state" where
  "reset_session c st =
     (if c = FailedPrecondition
      then st\<lparr>l_metrics := (l_metrics st)\<lparr>metaserver_session_resets := metaserver_session_resets (l_metrics st) + 1\<rparr>,
              heartbeat := (heartbeat st)\<lparr>node_registered := False\<rparr>\<rparr>
      else st)"

definition call_heartbeat ::
    "'s metaserver \<Rightarrow> string \<Rightarrow> string \<Rightarrow> 's loop_state \<Rightarrow> (duration + duration) \<times> 's loop_state" where
  "call_heartbeat ms addr node_id st =
     (case ms_heartbeat ms addr node_id (server st) of
        (Inr stale_after_secs, s) \<Rightarrow>
          (Inr (heartbeat_period_from_stale_after stale_after_secs),
           st\<lparr>server := s,
              heartbeat := (heartbeat st)\<lparr>node_registered := True, backoff_ms := INITIAL_BACKOFF_MS\<rparr>\<rparr>)
      | (Inl c, s) \<Rightarrow>
          heartbeat_failed
            ((reset_session c (st\<lparr>server := s, l_metrics := count_heartbeat_failure (l_metrics st)\<rparr>))\<lparr>connected := False\<rparr>))"

definition send_heartbeat ::
    "'s metaserver \<Rightarrow> string \<Rightarrow> string \<Rightarrow> 's loop_state \<Rightarrow> (duration + duration) \<times> 's loop_state" where
  "send_heartbeat ms addr node_id st =
     (if connected st then call_heartbeat ms addr node_id st
      else case ms_connect ms (server st) of
          (True, s) \<Rightarrow>
            call_heartbeat ms addr node_id
              (st\<lparr>server := s, connected := True, heartbeat := (heartbeat st)\<lparr>backoff_ms := INITIAL_BACKOFF_MS\<rparr>\<rparr>)
        | (False, s) \<Rightarrow>
            heartbeat_failed (st\<lparr>server := s, l_metrics := count_heartbeat_failure (l_metrics st)\<rparr>))"

definition ensure_heartbeat_registered ::
    "'s metaserver \<Rightarrow> string \<Rightarrow> string \<Rightarrow> instant \<Rightarrow> instant \<Rightarrow> 's loop_state \<Rightarrow> bool \<times> 's loop_state" where
  "ensure_heartbeat_registered ms addr node_id now later st =
     (if node_registered (heartbeat st) \<and> connected st then (True, st)
      else if now < next_at (heartbeat st) then (False, st)
      else case send_heartbeat ms addr node_id st of
          (Inr next_period, st') \<Rightarrow>
            (True, st'\<lparr>heartbeat := (heartbeat st')\<lparr>hb_period := next_period, next_at := later + next_period\<rparr>\<rparr>)
        | (Inl retry_after, st') \<Rightarrow>
            (False, st'\<lparr>heartbeat := (heartbeat st')\<lparr>next_at := later + retry_after\<rparr>\<rparr>))"

definition unregister_current_session ::
    "'s metaserver \<Rightarrow> string \<Rightarrow> string \<Rightarrow> 's loop_state \<Rightarrow> 's loop_state" where
  "unregister_current_session ms addr node_id st =
     (let fail = (\<lambda>st. st\<lparr>l_metrics := (l_metrics st)
            \<lparr>metaserver_unregister_failures := metaserver_unregister_failures (l_metrics st) + 1\<rparr>\<rparr>);
          call = (\<lambda>st. case ms_unregister ms addr node_id (server st) of
              (Some (Inr _), s) \<Rightarrow> st\<lparr>server := s\<rparr>
            | (_, s) \<Rightarrow> fail (st\<lparr>server := s\<rparr>))
      in if connected st then call st
         else case ms_connect ms (server st) of
             (True, s) \<Rightarrow> call (st\<lparr>server := s, connected := True\<rparr>)
           | (False, s) \<Rightarrow> fail (st\<lparr>server := s\<rparr>))"

section \<open>Sending a drained batch\<close>

function chunks :: "nat \<Rightarrow> 'a list \<Rightarrow> 'a list list" where
  "chunks n xs = (if xs = [] \<or> n = 0 then [] else take n xs # chunks n (drop n xs))"
  by pat_completeness auto
termination by (relation "measure (\<lambda>(n, xs). length xs)") auto

declare chunks.simps [simp del]

text \<open>
  One namespace, chunk by chunk; on an error the code and the offset of the failing chunk. \<open>rpc\<close> is the insert or
  the remove call.
\<close>

type_synonym 's rpc = "string \<Rightarrow> hash list \<Rightarrow> string \<Rightarrow> string \<Rightarrow> 's \<Rightarrow> (code + u64) \<times> 's"

fun send_chunks ::
    "'s rpc \<Rightarrow> string \<Rightarrow> string \<Rightarrow> string \<Rightarrow> hash list list \<Rightarrow> nat \<Rightarrow> 's \<Rightarrow> (code \<times> nat) option \<times> 's" where
  "send_chunks rpc addr node_id ns [] chunk_idx s = (None, s)"
| "send_chunks rpc addr node_id ns (chunk # rest) chunk_idx s =
     (case rpc ns chunk addr node_id s of
        (Inr _, s') \<Rightarrow> send_chunks rpc addr node_id ns rest (chunk_idx + 1) s'
      | (Inl c, s') \<Rightarrow> (Some (c, chunk_idx * MAX_HASHES_PER_RPC), s'))"

fun send_namespaces ::
    "'s rpc \<Rightarrow> string \<Rightarrow> string \<Rightarrow> groups \<Rightarrow> nat \<Rightarrow> 's \<Rightarrow> (code \<times> nat \<times> nat) option \<times> 's" where
  "send_namespaces rpc addr node_id [] i s = (None, s)"
| "send_namespaces rpc addr node_id ((ns, hashes) # rest) i s =
     (case send_chunks rpc addr node_id ns (chunks MAX_HASHES_PER_RPC hashes) 0 s of
        (None, s') \<Rightarrow> send_namespaces rpc addr node_id rest (i + 1) s'
      | (Some (c, offset), s') \<Rightarrow> (Some (c, i, offset), s'))"

definition unsent_after_failure :: "groups \<Rightarrow> nat \<Rightarrow> nat \<Rightarrow> usize" where
  "unsent_after_failure namespaces failed_idx failed_offset =
     saturating_sub (length (snd (namespaces ! failed_idx))) failed_offset
     + sum_list (map (\<lambda>(_, h). length h) (drop (failed_idx + 1) namespaces))"

definition add_registration_failures :: "nat \<Rightarrow> 's loop_state \<Rightarrow> 's loop_state" where
  "add_registration_failures n st = st\<lparr>l_metrics := (l_metrics st)
     \<lparr>metaserver_registration_failures := metaserver_registration_failures (l_metrics st) + n\<rparr>\<rparr>"

definition add_removal_failures :: "nat \<Rightarrow> 's loop_state \<Rightarrow> 's loop_state" where
  "add_removal_failures n st = st\<lparr>l_metrics := (l_metrics st)
     \<lparr>metaserver_removal_failures := metaserver_removal_failures (l_metrics st) + n\<rparr>\<rparr>"

text \<open>The part of the loop body after the drain: register if needed, then inserts, then removes.\<close>

definition send_removes :: "'s metaserver \<Rightarrow> string \<Rightarrow> string \<Rightarrow> groups \<Rightarrow> 's loop_state \<Rightarrow> 's loop_state" where
  "send_removes ms addr node_id removes st =
     (case send_namespaces (ms_remove ms) addr node_id removes 0 (server st) of
        (None, s) \<Rightarrow> st\<lparr>server := s\<rparr>
      | (Some (c, idx, offset), s) \<Rightarrow>
          (add_removal_failures (unsent_after_failure removes idx offset)
             (reset_session c (st\<lparr>server := s\<rparr>)))\<lparr>connected := False\<rparr>)"

definition send_batch ::
    "'s metaserver \<Rightarrow> string \<Rightarrow> string \<Rightarrow> groups \<Rightarrow> groups \<Rightarrow> 's loop_state \<Rightarrow> 's loop_state" where
  "send_batch ms addr node_id inserts removes st =
     (case send_namespaces (ms_insert ms) addr node_id inserts 0 (server st) of
        (None, s) \<Rightarrow> send_removes ms addr node_id removes (st\<lparr>server := s\<rparr>)
      | (Some (c, idx, offset), s) \<Rightarrow>
          let st1 = add_registration_failures (unsent_after_failure inserts idx offset)
                      (reset_session c (st\<lparr>server := s\<rparr>));
              st2 = (if 0 < batch_count removes then add_removal_failures (batch_count removes) st1 else st1)
          in st2\<lparr>connected := False\<rparr>)"

definition handle_commands ::
    "'s metaserver \<Rightarrow> string \<Rightarrow> string \<Rightarrow> instant \<Rightarrow> instant \<Rightarrow> metaserver_command list \<Rightarrow> 's loop_state \<Rightarrow>
     bool \<times> 's loop_state" where
  "handle_commands ms addr node_id now later cmds st =
     (case drain cmds drain_start of
        None \<Rightarrow> (False, unregister_current_session ms addr node_id st)
      | Some d \<Rightarrow>
          let (inserts, removes) = split_net d
          in case ensure_heartbeat_registered ms addr node_id now later st of
               (False, st') \<Rightarrow>
                 (True, add_removal_failures (batch_count removes)
                          (add_registration_failures (batch_count inserts) st'))
             | (True, st') \<Rightarrow> (True, send_batch ms addr node_id inserts removes st'))"

definition heartbeat_tick ::
    "'s metaserver \<Rightarrow> string \<Rightarrow> string \<Rightarrow> instant \<Rightarrow> 's loop_state \<Rightarrow> 's loop_state" where
  "heartbeat_tick ms addr node_id later st =
     (case send_heartbeat ms addr node_id st of
        (Inr next_period, st') \<Rightarrow>
          st'\<lparr>heartbeat := (heartbeat st')\<lparr>hb_period := next_period, next_at := later + next_period\<rparr>\<rparr>
      | (Inl retry_after, st') \<Rightarrow> st'\<lparr>heartbeat := (heartbeat st')\<lparr>next_at := later + retry_after\<rparr>\<rparr>)"

text \<open>
  One turn of the loop: the timer fires, or the first queued command is taken together with everything else in the
  queue at that moment, or every sender is gone. The flag says whether the loop goes on.
\<close>

datatype wakeup = Timer instant | Commands instant instant "metaserver_command list" | Disconnected

fun registration_turn ::
    "'s metaserver \<Rightarrow> string \<Rightarrow> string \<Rightarrow> wakeup \<Rightarrow> 's loop_state \<Rightarrow> bool \<times> 's loop_state" where
  "registration_turn ms addr node_id (Timer later) st = (True, heartbeat_tick ms addr node_id later st)"
| "registration_turn ms addr node_id (Commands now later cmds) st =
     handle_commands ms addr node_id now later cmds st"
| "registration_turn ms addr node_id Disconnected st = (False, st)"

fun registration_loop ::
    "'s metaserver \<Rightarrow> string \<Rightarrow> string \<Rightarrow> wakeup list \<Rightarrow> 's loop_state \<Rightarrow> 's loop_state" where
  "registration_loop ms addr node_id [] st = st"
| "registration_loop ms addr node_id (w # ws) st =
     (case registration_turn ms addr node_id w st of
        (True, st') \<Rightarrow> registration_loop ms addr node_id ws st'
      | (False, st') \<Rightarrow> st')"

section \<open>The keys of a batch\<close>

definition batch_keys :: "groups \<Rightarrow> (string \<times> hash) set" where
  "batch_keys g = (\<Union>(ns, hs) \<in> set g. {ns} \<times> set hs)"

lemma batch_keys_simps [simp]:
  "batch_keys [] = {}" "batch_keys ((ns, hs) # g) = {ns} \<times> set hs \<union> batch_keys g"
  by (auto simp: batch_keys_def)

lemma batch_keys_extend:
  "hm_wf g \<Longrightarrow> batch_keys (hm_insert ns (group_or_default ns g @ hs) g) = batch_keys g \<union> {ns} \<times> set hs"
proof (induction g)
  case (Cons x g)
  obtain n ys where [simp]: "x = (n, ys)" by force
  have "group_or_default ns (x # g) = group_or_default ns g" if "n \<noteq> ns"
    using that by (simp add: group_or_default_def)
  then show ?case using Cons by (cases "n = ns") (auto simp: group_or_default_def)
qed (simp add: group_or_default_def)

lemma append_groups_spec:
  "hm_wf t \<Longrightarrow> hm_wf (append_groups t g) \<and> batch_keys (append_groups t g) = batch_keys t \<union> batch_keys g"
proof (induction g arbitrary: t)
  case (Cons x g)
  obtain ns hs where [simp]: "x = (ns, hs)" by force
  let ?t = "hm_insert ns (group_or_default ns t @ hs) t"
  have "append_groups t (x # g) = append_groups ?t g" by (simp add: append_groups_def)
  with Cons.IH [of ?t] Cons.prems batch_keys_extend [OF Cons.prems] show ?case by auto
qed (simp add: append_groups_def)

lemma push_hash_spec:
  "hm_wf g \<Longrightarrow> hm_wf (push_hash g e) \<and> batch_keys (push_hash g e) = insert e (batch_keys g)"
  using batch_keys_extend [of g "fst e" "[snd e]"] by (cases e) (auto simp: push_hash_def)

lemma from_entries_keys: "hm_wf (from_entries es) \<and> batch_keys (from_entries es) = set es"
proof -
  have "hm_wf g \<Longrightarrow> hm_wf (foldl push_hash g es) \<and> batch_keys (foldl push_hash g es) = batch_keys g \<union> set es" for g
  proof (induction es arbitrary: g)
    case (Cons e es)
    from Cons.IH [of "push_hash g e"] push_hash_spec [OF Cons.prems, of e] show ?case by auto
  qed simp
  from this [of "[]"] show ?thesis by (simp add: from_entries_def)
qed

lemma hm_get_insert_hashes:
  "hm_get (foldl (\<lambda>n h. hm_insert (ns, h) b n) net hs) k =
     (if k \<in> {ns} \<times> set hs then Some b else hm_get net k)"
  by (induction hs arbitrary: net) (auto simp: hm_get_insert)

lemma hm_wf_insert_hashes: "hm_wf net \<Longrightarrow> hm_wf (foldl (\<lambda>n h. hm_insert (ns, h) b n) net hs)"
  by (induction hs arbitrary: net) auto

lemma net_spec:
  "hm_get (insert_groups_into_net b net g) k = (if k \<in> batch_keys g then Some b else hm_get net k)"
  "hm_wf net \<Longrightarrow> hm_wf (insert_groups_into_net b net g)"
  by (induction g arbitrary: net)
    (auto simp: insert_groups_into_net_def hm_get_insert_hashes hm_wf_insert_hashes)

lemma insert_map_into_net_eq: "insert_map_into_net b net g = insert_groups_into_net b net g"
  by (simp add: insert_map_into_net_def insert_groups_into_net_def)

lemma build_net_spec:
  "hm_get (build_net ins rem) k =
     (if k \<in> batch_keys rem then Some False else if k \<in> batch_keys ins then Some True else None)"
  "hm_wf (build_net ins rem)"
  by (simp_all add: build_net_def insert_map_into_net_eq net_spec)

section \<open>Draining is last-write-wins\<close>

text \<open>The reference: the commands one by one, on the set of keys the node owns.\<close>

fun replay :: "metaserver_command list \<Rightarrow> (string \<times> hash) set \<Rightarrow> (string \<times> hash) set" where
  "replay [] S = S"
| "replay (Insert g # cmds) S = replay cmds (S \<union> batch_keys g)"
| "replay (Remove g # cmds) S = replay cmds (S - batch_keys g)"
| "replay (Shutdown # cmds) S = replay cmds S"

definition drain_effect :: "drain_state \<Rightarrow> (string \<times> hash) set \<Rightarrow> (string \<times> hash) set" where
  "drain_effect d S =
     (case mixed_ops d of
        None \<Rightarrow> (S \<union> batch_keys (d_inserts d)) - batch_keys (d_removes d)
      | Some net \<Rightarrow> {k. case hm_get net k of Some b \<Rightarrow> b | None \<Rightarrow> k \<in> S})"

definition drain_ok :: "drain_state \<Rightarrow> bool" where
  "drain_ok d =
     (hm_wf (d_inserts d) \<and> hm_wf (d_removes d)
      \<and> (case mixed_ops d of
           None \<Rightarrow> (\<not> saw_insert d \<longrightarrow> d_inserts d = []) \<and> (\<not> saw_remove d \<longrightarrow> d_removes d = [])
             \<and> \<not> (saw_insert d \<and> saw_remove d)
         | Some net \<Rightarrow> d_inserts d = [] \<and> d_removes d = [] \<and> hm_wf net \<and> saw_insert d \<and> saw_remove d))"

lemma drain_insert_step:
  assumes ok: "drain_ok d"
  shows "drain_ok (drain_insert g d) \<and> drain_effect (drain_insert g d) S = drain_effect d S \<union> batch_keys g"
proof (cases "mixed_ops d")
  case None
  show ?thesis
  proof (cases "saw_remove d")
    case True
    hence empty: "d_inserts d = []" using ok None by (auto simp: drain_ok_def)
    have net: "hm_get (insert_groups_into_net True (build_net [] (d_removes d)) g) k =
        (if k \<in> batch_keys g then Some True else if k \<in> batch_keys (d_removes d) then Some False else None)" for k
      by (simp add: net_spec(1) build_net_spec(1))
    have "drain_insert g d = d\<lparr>saw_insert := True, d_inserts := [], d_removes := [],
        mixed_ops := Some (insert_groups_into_net True (build_net [] (d_removes d)) g)\<rparr>"
      using True None empty by (simp add: drain_insert_def take_groups_def net_of_def)
    thus ?thesis using None empty True net
      by (auto simp: drain_ok_def drain_effect_def net_spec(2) build_net_spec(2) split: if_splits)
  next
    case False
    hence "drain_insert g d = d\<lparr>saw_insert := True, d_inserts := append_groups (d_inserts d) g\<rparr>"
      and "d_removes d = []" and "hm_wf (d_inserts d)"
      using ok None by (auto simp: drain_insert_def drain_ok_def)
    thus ?thesis using False None append_groups_spec [of "d_inserts d" g]
      by (auto simp: drain_ok_def drain_effect_def)
  qed
next
  case (Some net)
  hence "saw_remove d" "d_inserts d = []" "d_removes d = []" "hm_wf net" "saw_insert d"
    using ok by (auto simp: drain_ok_def)
  thus ?thesis using Some
    by (auto simp: drain_insert_def take_groups_def net_of_def drain_ok_def drain_effect_def net_spec
        split: if_splits)
qed

lemma drain_remove_step:
  assumes ok: "drain_ok d"
  shows "drain_ok (drain_remove g d) \<and> drain_effect (drain_remove g d) S = drain_effect d S - batch_keys g"
proof (cases "mixed_ops d")
  case None
  show ?thesis
  proof (cases "saw_insert d")
    case True
    hence empty: "d_removes d = []" using ok None by (auto simp: drain_ok_def)
    have net: "hm_get (insert_groups_into_net False (build_net (d_inserts d) []) g) k =
        (if k \<in> batch_keys g then Some False else if k \<in> batch_keys (d_inserts d) then Some True else None)" for k
      by (simp add: net_spec(1) build_net_spec(1))
    have "drain_remove g d = d\<lparr>saw_remove := True, d_inserts := [], d_removes := [],
        mixed_ops := Some (insert_groups_into_net False (build_net (d_inserts d) []) g)\<rparr>"
      using True None empty by (simp add: drain_remove_def take_groups_def net_of_def)
    thus ?thesis using None empty True net
      by (auto simp: drain_ok_def drain_effect_def net_spec(2) build_net_spec(2) split: if_splits)
  next
    case False
    hence "drain_remove g d = d\<lparr>saw_remove := True, d_removes := append_groups (d_removes d) g\<rparr>"
      and "d_inserts d = []" and "hm_wf (d_removes d)"
      using ok None by (auto simp: drain_remove_def drain_ok_def)
    thus ?thesis using False None append_groups_spec [of "d_removes d" g]
      by (auto simp: drain_ok_def drain_effect_def)
  qed
next
  case (Some net)
  hence "saw_remove d" "d_inserts d = []" "d_removes d = []" "hm_wf net" "saw_insert d"
    using ok by (auto simp: drain_ok_def)
  thus ?thesis using Some
    by (auto simp: drain_remove_def take_groups_def net_of_def drain_ok_def drain_effect_def net_spec
        split: if_splits)
qed

lemma drain_spec:
  "drain cmds d = Some d' \<Longrightarrow> drain_ok d \<Longrightarrow> drain_ok d' \<and> drain_effect d' S = replay cmds (drain_effect d S)"
proof (induction cmds d rule: drain.induct)
  case (2 g cmds d)
  from 2 drain_insert_step [of d g] show ?case by simp
next
  case (3 g cmds d)
  from 3 drain_remove_step [of d g] show ?case by simp
qed simp_all

lemma drain_start_ok: "drain_ok drain_start" "drain_effect drain_start S = S"
  by (simp_all add: drain_start_def drain_ok_def drain_effect_def)

lemma drain_total: "Shutdown \<notin> set cmds \<Longrightarrow> \<exists>d'. drain cmds d = Some d'"
  by (induction cmds d rule: drain.induct) auto

text \<open>Splitting the net map sends each key once, on its own side.\<close>

lemma split_fold:
  assumes "hm_wf ins" "hm_wf rem" and "hm_wf net"
    and "foldl (\<lambda>(ins, rem) ((ns, h), is_insert).
           if is_insert then (push_hash ins (ns, h), rem) else (ins, push_hash rem (ns, h))) (ins, rem) net = (ins', rem')"
  shows "hm_wf ins' \<and> hm_wf rem' \<and> batch_keys ins' = batch_keys ins \<union> {k. hm_get net k = Some True}
    \<and> batch_keys rem' = batch_keys rem \<union> {k. hm_get net k = Some False}"
  using assms
proof (induction net arbitrary: ins rem)
  case (Cons x net)
  obtain ns h b where [simp]: "x = ((ns, h), b)" by (metis prod.exhaust)
  have fresh: "hm_get net (ns, h) = None" "hm_wf net" using Cons.prems(3) by (auto simp: map_of_eq_None_iff)
  show ?case
  proof (cases b)
    case True
    with Cons.prems push_hash_spec [OF Cons.prems(1), of "(ns, h)"] fresh
    show ?thesis using Cons.IH [of "push_hash ins (ns, h)" rem] by auto
  next
    case False
    with Cons.prems push_hash_spec [OF Cons.prems(2), of "(ns, h)"] fresh
    show ?thesis using Cons.IH [of ins "push_hash rem (ns, h)"] by auto
  qed
qed simp

lemma split_net_spec:
  assumes ok: "drain_ok d" and s: "split_net d = (ins, rem)"
  shows "hm_wf ins \<and> hm_wf rem \<and> batch_keys ins \<inter> batch_keys rem = {}
    \<and> (S \<union> batch_keys ins) - batch_keys rem = drain_effect d S"
proof (cases "mixed_ops d")
  case None
  with ok s show ?thesis by (auto simp: split_net_def drain_ok_def drain_effect_def)
next
  case (Some net)
  have "hm_wf (d_inserts d)" "hm_wf (d_removes d)" "hm_wf net" "d_inserts d = []" "d_removes d = []"
    using ok Some by (auto simp: drain_ok_def)
  with split_fold [OF this(1-3), of ins rem] s Some show ?thesis
    by (auto simp: split_net_def drain_effect_def split: option.splits)
qed

lemma replay_append: "replay (xs @ ys) S = replay ys (replay xs S)"
  by (induction xs S rule: replay.induct) simp_all

lemma drained_batch:
  assumes "Shutdown \<notin> set cmds"
  shows "\<exists>d ins rem. drain cmds drain_start = Some d \<and> split_net d = (ins, rem)
    \<and> batch_keys ins \<inter> batch_keys rem = {} \<and> (\<forall>S. (S \<union> batch_keys ins) - batch_keys rem = replay cmds S)"
proof -
  obtain d where d: "drain cmds drain_start = Some d" using drain_total [OF assms] by blast
  obtain ins rem where s: "split_net d = (ins, rem)" by (rule prod.exhaust)
  have ok: "drain_ok d" using drain_spec [OF d drain_start_ok(1)] by blast
  have "(S \<union> batch_keys ins) - batch_keys rem = replay cmds S" for S
    using split_net_spec [OF ok s, of S] drain_spec [OF d drain_start_ok(1), of S] by (simp add: drain_start_ok)
  with split_net_spec [OF ok s] d s show ?thesis by auto
qed

section \<open>Sending\<close>

lemma chunks_Nil [simp]: "chunks n [] = []"
  by (subst chunks.simps) simp

lemma chunks_Cons: "0 < n \<Longrightarrow> xs \<noteq> [] \<Longrightarrow> chunks n xs = take n xs # chunks n (drop n xs)"
  by (subst chunks.simps) simp

lemma concat_chunks: "0 < n \<Longrightarrow> concat (chunks n xs) = xs"
proof (induction n xs rule: chunks.induct)
  case (1 n xs)
  show ?case
  proof (cases "xs = []")
    case False
    with 1 show ?thesis by (simp add: chunks_Cons)
  qed simp
qed

lemma chunks_sizes: "c \<in> set (chunks n xs) \<Longrightarrow> c \<noteq> [] \<and> length c \<le> n"
proof (induction n xs rule: chunks.induct)
  case (1 n xs)
  show ?case
  proof (cases "xs = [] \<or> n = 0")
    case True
    with 1(2) show ?thesis by (subst (asm) chunks.simps) auto
  next
    case False
    with 1 have "c = take n xs \<or> c \<in> set (chunks n (drop n xs))" by (auto simp: chunks_Cons)
    with 1(1) False show ?thesis by auto
  qed
qed

lemma max_hashes_pos: "0 < MAX_HASHES_PER_RPC"
  by (simp add: MAX_HASHES_PER_RPC_def)

text \<open>
  A call that a valid session has accepted, with its effect on the keys the node
  owns: what the MetaServer promises of its insert and remove calls.
\<close>

locale hash_rpc =
  fixes rpc :: "'s rpc" and addr :: string and node_id :: string
    and valid :: "'s \<Rightarrow> bool" and owned :: "'s \<Rightarrow> (string \<times> hash) set"
    and eff :: "(string \<times> hash) set \<Rightarrow> (string \<times> hash) set \<Rightarrow> (string \<times> hash) set"
  assumes accepted: "valid s \<Longrightarrow> hs \<noteq> [] \<Longrightarrow>
      \<exists>n s'. rpc ns hs addr node_id s = (Inr n, s') \<and> valid s' \<and> owned s' = eff (owned s) ({ns} \<times> set hs)"
    and eff_empty: "eff S {} = S"
    and eff_union: "eff (eff S A) B = eff S (A \<union> B)"
begin

lemma send_chunks_accepted:
  assumes "valid s" "\<forall>c \<in> set cs. c \<noteq> []"
  shows "\<exists>s'. send_chunks rpc addr node_id ns cs i s = (None, s') \<and> valid s'
    \<and> owned s' = eff (owned s) ({ns} \<times> set (concat cs))"
  using assms
proof (induction cs arbitrary: i s)
  case (Cons c cs)
  obtain n s1 where s1: "rpc ns c addr node_id s = (Inr n, s1)" "valid s1"
    "owned s1 = eff (owned s) ({ns} \<times> set c)"
    using accepted [of s c ns] Cons.prems by auto
  obtain s' where s': "send_chunks rpc addr node_id ns cs (i + 1) s1 = (None, s')" "valid s'"
    "owned s' = eff (owned s1) ({ns} \<times> set (concat cs))"
    using Cons.IH [OF s1(2), of "i + 1"] Cons.prems(2) by auto
  have "{ns} \<times> set c \<union> {ns} \<times> set (concat cs) = {ns} \<times> set (concat (c # cs))" by auto
  with s1 s' show ?case by (simp add: eff_union)
qed (simp add: eff_empty)

lemma send_namespaces_accepted:
  assumes "valid s"
  shows "\<exists>s'. send_namespaces rpc addr node_id g i s = (None, s') \<and> valid s'
    \<and> owned s' = eff (owned s) (batch_keys g)"
  using assms
proof (induction g arbitrary: i s)
  case (Cons x g)
  obtain ns hs where [simp]: "x = (ns, hs)" by force
  obtain s1 where s1: "send_chunks rpc addr node_id ns (chunks MAX_HASHES_PER_RPC hs) 0 s = (None, s1)" "valid s1"
    "owned s1 = eff (owned s) ({ns} \<times> set hs)"
    using send_chunks_accepted [OF Cons.prems, of "chunks MAX_HASHES_PER_RPC hs" ns 0] chunks_sizes
    by (auto simp: concat_chunks [OF max_hashes_pos])
  obtain s' where "send_namespaces rpc addr node_id g (i + 1) s1 = (None, s')" "valid s'"
    "owned s' = eff (owned s1) (batch_keys g)"
    using Cons.IH [OF s1(2)] by blast
  with s1 show ?case by (simp add: eff_union)
qed (simp add: eff_empty)

end

section \<open>Accounting of a failed batch\<close>

text \<open>The same calls, with the accepted requests written down.\<close>

definition logged :: "'s rpc \<Rightarrow> ('s \<times> (string \<times> hash list) list) rpc" where
  "logged rpc ns hs addr node_id st =
     (case rpc ns hs addr node_id (fst st) of
        (Inr n, s') \<Rightarrow> (Inr n, (s', snd st @ [(ns, hs)]))
      | (Inl c, s') \<Rightarrow> (Inl c, (s', snd st)))"

definition requests_ok :: "(string \<times> hash list) list \<Rightarrow> bool" where
  "requests_ok log = list_all (\<lambda>(_, hs). hs \<noteq> [] \<and> length hs \<le> MAX_HASHES_PER_RPC) log"

lemma batch_count_simps [simp]:
  "batch_count [] = 0" "batch_count ((ns, hs) # g) = length hs + batch_count g"
  "batch_count (g @ g') = batch_count g + batch_count g'"
  by (simp_all add: batch_count_def)

text \<open>All chunks but the last are full, so a chunk index determines the offset.\<close>

lemma send_chunks_log:
  assumes "send_chunks (logged rpc) addr node_id ns (chunks MAX_HASHES_PER_RPC hs) i (s, log) = (r, (s', log'))"
    "requests_ok log"
  shows "requests_ok log' \<and> (case r of
      None \<Rightarrow> batch_count log' = batch_count log + length hs
    | Some (c, offset) \<Rightarrow> i * MAX_HASHES_PER_RPC \<le> offset \<and> offset < i * MAX_HASHES_PER_RPC + length hs
        \<and> batch_count log' = batch_count log + (offset - i * MAX_HASHES_PER_RPC))"
  using assms
proof (induction "length hs" arbitrary: hs i s log rule: less_induct)
  case less
  let ?M = "MAX_HASHES_PER_RPC"
  show ?case
  proof (cases "hs = []")
    case True
    with less.prems show ?thesis by auto
  next
    case False
    note ch = chunks_Cons [OF max_hashes_pos False]
    obtain a s1 where rpc: "rpc ns (take ?M hs) addr node_id s = (a, s1)" by (rule prod.exhaust)
    show ?thesis
    proof (cases a)
      case (Inl c)
      with less.prems ch rpc False show ?thesis by (auto simp: logged_def)
    next
      case (Inr n)
      let ?log = "log @ [(ns, take ?M hs)]"
      have sub: "send_chunks (logged rpc) addr node_id ns (chunks ?M (drop ?M hs)) (i + 1) (s1, ?log) = (r, (s', log'))"
        using less.prems(1) ch rpc Inr by (simp add: logged_def)
      have ok: "requests_ok ?log" using less.prems(2) False max_hashes_pos by (auto simp: requests_ok_def)
      have shorter: "length (drop ?M hs) < length hs" using False max_hashes_pos by simp
      note IH = less.hyps [OF shorter sub ok]
      show ?thesis
      proof (cases "length hs \<le> ?M")
        case True
        hence "drop ?M hs = []" "take ?M hs = hs" by simp_all
        with sub ok show ?thesis by auto
      next
        case False
        with IH show ?thesis by (auto split: option.splits)
      qed
    qed
  qed
qed

lemma unsent_after_failure_Cons:
  "unsent_after_failure (x # g) (Suc i) offset = unsent_after_failure g i offset"
  "unsent_after_failure (x # g) 0 offset = (length (snd x) - offset) + batch_count g"
  by (simp_all add: unsent_after_failure_def saturating_sub_def batch_count_def)

lemma send_namespaces_log:
  assumes "send_namespaces (logged rpc) addr node_id g i (s, log) = (r, (s', log'))" "requests_ok log"
  shows "requests_ok log' \<and> (case r of
      None \<Rightarrow> batch_count log' = batch_count log + batch_count g
    | Some (c, idx, offset) \<Rightarrow> i \<le> idx \<and> idx < i + length g
        \<and> batch_count log' + unsent_after_failure g (idx - i) offset = batch_count log + batch_count g)"
  using assms
proof (induction g arbitrary: i s log)
  case (Cons x g)
  obtain ns hs where [simp]: "x = (ns, hs)" by force
  obtain a s1 log1 where a: "send_chunks (logged rpc) addr node_id ns (chunks MAX_HASHES_PER_RPC hs) 0 (s, log) = (a, (s1, log1))"
    by (metis prod.exhaust)
  note first = send_chunks_log [OF a Cons.prems(2)]
  show ?case
  proof (cases a)
    case None
    hence sub: "send_namespaces (logged rpc) addr node_id g (i + 1) (s1, log1) = (r, (s', log'))"
      using Cons.prems(1) a by simp
    have l1: "requests_ok log1" "batch_count log1 = batch_count log + length hs" using first None by auto
    note IH = Cons.IH [OF sub l1(1)]
    show ?thesis
    proof (cases r)
      case (Some f)
      obtain c idx offset where f: "f = (c, idx, offset)" by (metis prod.exhaust)
      have "i + 1 \<le> idx" using IH Some f by simp
      hence "idx - i = Suc (idx - (i + 1))" by simp
      with IH Some f l1(2) show ?thesis by (simp add: unsent_after_failure_Cons)
    qed (use IH l1(2) in simp)
  next
    case (Some f)
    obtain c offset where f: "f = (c, offset)" by (rule prod.exhaust)
    have r: "r = Some (c, i, offset)" "s' = s1" "log' = log1" using Cons.prems(1) a Some f by auto
    from first Some f r show ?thesis by (simp add: unsent_after_failure_Cons)
  qed
qed simp

section \<open>The heartbeat timer\<close>

definition backoff_ok :: "heartbeat_state \<Rightarrow> bool" where
  "backoff_ok hb =
     (INITIAL_BACKOFF_MS \<le> backoff_ms hb \<and> backoff_ms hb \<le> MAX_BACKOFF_MS
      \<and> from_secs MIN_HEARTBEAT_INTERVAL_SECS \<le> hb_period hb)"

lemma backoff_ok_new: "backoff_ok (heartbeat_new now)"
  by (simp add: backoff_ok_def heartbeat_new_def INITIAL_BACKOFF_MS_def MAX_BACKOFF_MS_def)

lemma advance_backoff_ok: "backoff_ok hb \<Longrightarrow> backoff_ok (snd (advance_backoff hb))"
  by (auto simp: backoff_ok_def advance_backoff_def INITIAL_BACKOFF_MS_def MAX_BACKOFF_MS_def
      wrapping_mul_def)

lemma heartbeat_failed_ok: "backoff_ok (heartbeat st) \<Longrightarrow> backoff_ok (heartbeat (snd (heartbeat_failed st)))"
  using advance_backoff_ok [of "heartbeat st"] by (auto simp: heartbeat_failed_def Let_def split: prod.splits)

lemma period_ok: "from_secs MIN_HEARTBEAT_INTERVAL_SECS \<le> heartbeat_period_from_stale_after n"
  by (simp add: heartbeat_period_from_stale_after_def from_secs_def)

lemma reset_session_ok: "backoff_ok (heartbeat st) \<Longrightarrow> backoff_ok (heartbeat (reset_session c st))"
  by (simp add: reset_session_def backoff_ok_def)

lemma call_heartbeat_ok:
  assumes "backoff_ok (heartbeat st)" "call_heartbeat ms addr node_id st = (r, st')"
  shows "backoff_ok (heartbeat st')" "r = Inr p \<Longrightarrow> from_secs MIN_HEARTBEAT_INTERVAL_SECS \<le> p"
proof -
  obtain x s where x: "ms_heartbeat ms addr node_id (server st) = (x, s)" by (rule prod.exhaust)
  show "backoff_ok (heartbeat st')"
  proof (cases x)
    case (Inl c)
    let ?st = "(reset_session c (st\<lparr>server := s, l_metrics := count_heartbeat_failure (l_metrics st)\<rparr>))\<lparr>connected := False\<rparr>"
    have "backoff_ok (heartbeat ?st)"
      using reset_session_ok [of "st\<lparr>server := s, l_metrics := count_heartbeat_failure (l_metrics st)\<rparr>" c] assms(1)
      by simp
    from heartbeat_failed_ok [OF this] assms(2) x Inl show ?thesis by (simp add: call_heartbeat_def)
  next
    case (Inr n)
    with assms x show ?thesis
      by (auto simp: call_heartbeat_def backoff_ok_def INITIAL_BACKOFF_MS_def MAX_BACKOFF_MS_def)
  qed
  show "from_secs MIN_HEARTBEAT_INTERVAL_SECS \<le> p" if "r = Inr p"
    using that assms(2) x period_ok
    by (auto simp: call_heartbeat_def heartbeat_failed_def Let_def split: sum.splits prod.splits)
qed

lemma send_heartbeat_ok:
  assumes "backoff_ok (heartbeat st)" "send_heartbeat ms addr node_id st = (r, st')"
  shows "backoff_ok (heartbeat st')" "r = Inr p \<Longrightarrow> from_secs MIN_HEARTBEAT_INTERVAL_SECS \<le> p"
proof -
  obtain b s where b: "ms_connect ms (server st) = (b, s)" by (rule prod.exhaust)
  let ?up = "st\<lparr>server := s, connected := True, heartbeat := (heartbeat st)\<lparr>backoff_ms := INITIAL_BACKOFF_MS\<rparr>\<rparr>"
  let ?down = "st\<lparr>server := s, l_metrics := count_heartbeat_failure (l_metrics st)\<rparr>"
  consider (call) "call_heartbeat ms addr node_id st = (r, st')"
    | (reconnect) "call_heartbeat ms addr node_id ?up = (r, st')"
    | (failed) "heartbeat_failed ?down = (r, st')"
    using assms(2) b by (auto simp: send_heartbeat_def split: if_splits bool.splits)
  hence "backoff_ok (heartbeat st') \<and> (r = Inr p \<longrightarrow> from_secs MIN_HEARTBEAT_INTERVAL_SECS \<le> p)"
  proof cases
    case call
    with call_heartbeat_ok [OF assms(1)] show ?thesis by blast
  next
    case reconnect
    have "backoff_ok (heartbeat ?up)"
      using assms(1) by (simp add: backoff_ok_def INITIAL_BACKOFF_MS_def MAX_BACKOFF_MS_def)
    with reconnect call_heartbeat_ok [of ?up] show ?thesis by blast
  next
    case failed
    have "backoff_ok (heartbeat ?down)" using assms(1) by simp
    from heartbeat_failed_ok [OF this] failed show ?thesis
      by (auto simp: heartbeat_failed_def Let_def split: prod.splits)
  qed
  thus "backoff_ok (heartbeat st')" "r = Inr p \<Longrightarrow> from_secs MIN_HEARTBEAT_INTERVAL_SECS \<le> p" by blast+
qed

lemma ensure_heartbeat_ok:
  assumes "backoff_ok (heartbeat st)" "ensure_heartbeat_registered ms addr node_id now later st = (b, st')"
  shows "backoff_ok (heartbeat st')"
proof -
  obtain r st1 where r: "send_heartbeat ms addr node_id st = (r, st1)" by (rule prod.exhaust)
  note ok = send_heartbeat_ok [OF assms(1) r]
  show ?thesis
  proof (cases r)
    case (Inl d)
    with assms r ok(1) show ?thesis
      by (auto simp: ensure_heartbeat_registered_def backoff_ok_def split: if_splits)
  next
    case (Inr p)
    with assms r ok(1) ok(2) [OF Inr] show ?thesis
      by (auto simp: ensure_heartbeat_registered_def backoff_ok_def split: if_splits)
  qed
qed

lemma send_batch_heartbeat: "backoff_ok (heartbeat st) \<Longrightarrow> backoff_ok (heartbeat (send_batch ms addr node_id ins rem st))"
  by (auto simp: send_batch_def send_removes_def add_registration_failures_def add_removal_failures_def
      reset_session_def backoff_ok_def Let_def split: prod.splits option.splits)

lemma unregister_heartbeat: "heartbeat (unregister_current_session ms addr node_id st) = heartbeat st"
  by (auto simp: unregister_current_session_def Let_def split: prod.splits option.splits sum.splits bool.splits)

lemma registration_turn_ok:
  assumes ok: "backoff_ok (heartbeat st)" and t: "registration_turn ms addr node_id w st = (b, st')"
  shows "backoff_ok (heartbeat st')"
proof (cases w)
  case (Timer later)
  obtain r st1 where r: "send_heartbeat ms addr node_id st = (r, st1)" by (rule prod.exhaust)
  note hb = send_heartbeat_ok [OF ok r]
  show ?thesis
  proof (cases r)
    case (Inl d)
    with Timer t r hb(1) show ?thesis by (auto simp: heartbeat_tick_def backoff_ok_def)
  next
    case (Inr p)
    with Timer t r hb(1) hb(2) [OF Inr] show ?thesis by (auto simp: heartbeat_tick_def backoff_ok_def)
  qed
next
  case (Commands now later cmds)
  show ?thesis
  proof (cases "drain cmds drain_start")
    case None
    with Commands t ok show ?thesis by (auto simp: handle_commands_def unregister_heartbeat)
  next
    case (Some d)
    obtain ins rem where s: "split_net d = (ins, rem)" by (rule prod.exhaust)
    obtain e st1 where e: "ensure_heartbeat_registered ms addr node_id now later st = (e, st1)" by (rule prod.exhaust)
    note ok1 = ensure_heartbeat_ok [OF ok e]
    show ?thesis
    proof (cases e)
      case True
      with Commands t Some s e send_batch_heartbeat [OF ok1] show ?thesis
        by (auto simp: handle_commands_def)
    next
      case False
      with Commands t Some s e ok1 show ?thesis
        by (auto simp: handle_commands_def add_removal_failures_def add_registration_failures_def)
    qed
  qed
next
  case Disconnected
  with ok t show ?thesis by simp
qed

lemma registration_loop_ok:
  "backoff_ok (heartbeat st) \<Longrightarrow> backoff_ok (heartbeat (registration_loop ms addr node_id ws st))"
proof (induction ws arbitrary: st)
  case (Cons w ws)
  obtain b st1 where b: "registration_turn ms addr node_id w st = (b, st1)" by (rule prod.exhaust)
  from registration_turn_ok [OF Cons.prems b] Cons.IH [of st1] b show ?case by (cases b) auto
qed simp

section \<open>Properties\<close>

text \<open>
  C38. Draining the command queue is last-write-wins: however the registrations and removals are
  interleaved, the two batches the loop sends have no key in common, and sending the
  insertions first and the removals second leaves the node owning exactly what the commands would have
  left it owning had they been sent one at a time in order.
\<close>

theorem drain_last_write_wins:
  assumes "Shutdown \<notin> set cmds"
  shows "\<exists>d ins rem. drain cmds drain_start = Some d \<and> split_net d = (ins, rem)
    \<and> batch_keys ins \<inter> batch_keys rem = {}
    \<and> (\<forall>S. (S \<union> batch_keys ins) - batch_keys rem = replay cmds S)"
  using assms by (rule drained_batch)

theorem drain_last_write_wins_witness:
  "\<exists>d ins rem. drain [Insert [(''ns'', [[1]])], Remove [(''ns'', [[1], [2]])], Insert [(''ns'', [[2]])]] drain_start = Some d
    \<and> split_net d = (ins, rem) \<and> batch_keys ins \<inter> batch_keys rem = {}
    \<and> (\<forall>S. (S \<union> batch_keys ins) - batch_keys rem =
         replay [Insert [(''ns'', [[1]])], Remove [(''ns'', [[1], [2]])], Insert [(''ns'', [[2]])]] S)"
  by (rule drain_last_write_wins) simp

text \<open>
  C39. A batch is sent in requests of at most 16384 hashes, none of them empty, and every hash is accounted for:
  if all requests are accepted they carry the whole batch, and if one fails the hashes accepted before
  it and the number the loop adds to its failure counter make up the batch.
\<close>

theorem send_accounts_for_every_hash:
  assumes "send_namespaces (logged rpc) addr node_id g 0 (s, []) = (r, (s', log))"
  shows "(\<forall>(ns, hs) \<in> set log. hs \<noteq> [] \<and> length hs \<le> 16384)
    \<and> (case r of
         None \<Rightarrow> batch_count log = batch_count g
       | Some (c, idx, offset) \<Rightarrow> idx < length g \<and> batch_count log + unsent_after_failure g idx offset = batch_count g)"
  using send_namespaces_log [OF assms]
  by (auto simp: requests_ok_def list_all_iff MAX_HASHES_PER_RPC_def split: option.splits)

text \<open>A server that refuses the namespace \<open>b\<close>.\<close>

definition ex_rpc :: "unit rpc" where
  "ex_rpc ns hs addr node_id s = (if ns = ''b'' then (Inl OtherCode, s) else (Inr (length hs), s))"

theorem send_accounts_for_every_hash_witness:
  "send_namespaces (logged ex_rpc) ''n'' ''i'' [(''a'', [[1], [2]]), (''b'', [[3]])] 0 ((), []) =
     (Some (OtherCode, 1, 0), ((), [(''a'', [[1], [2]])]))
   \<and> batch_count [(''a'', [[1], [2]])] + unsent_after_failure [(''a'', [[1], [2]]), (''b'', [[3]])] 1 0 = 3"
proof -
  have run: "send_namespaces (logged ex_rpc) ''n'' ''i'' [(''a'', [[1], [2]]), (''b'', [[3]])] 0 ((), []) =
     (Some (OtherCode, 1, 0), ((), [(''a'', [[1], [2]])]))"
    by (simp add: chunks_Cons MAX_HASHES_PER_RPC_def logged_def ex_rpc_def)
  from send_accounts_for_every_hash [OF run] show ?thesis using run by simp
qed

end
