(* ===== verification/Storage_Engine.thy ===== *)
theory Storage_Engine
  imports Pinned_Pool Read_Cache Transfer_Lock Meta_Client "HOL-Library.Monad_Syntax"
begin

text \<open>
  Allocation with eviction, \<^verbatim>\<open>pegaflow-core/src/storage/mod.rs\<close>: the storage engine's loop that evicts from
  the read cache until the allocator can serve a request, and the operations that combine the read cache, the
  transfer locks and the MetaServer client. A pinned allocation is freed when the last
  reference to it goes away; the references are those of the resident blocks, of the blocks
  under transfer locks, of the blocks other components hold and of the allocations they hold. An operation's outer \<open>None\<close>
  is a panic or a loop that never ends.
\<close>

section \<open>State\<close>

definition RECLAIM_BATCH_SIZE :: usize where "RECLAIM_BATCH_SIZE = 512"

record memory_cache_cleanup_stats =
  evicted_blocks :: usize
  evicted_bytes :: u64
  reclaimed_bytes :: u64
  still_referenced_blocks :: u64

definition no_cleanup :: memory_cache_cleanup_stats where
  "no_cleanup = \<lparr>evicted_blocks = 0, evicted_bytes = 0, reclaimed_bytes = 0, still_referenced_blocks = 0\<rparr>"

record ('r, 'a, 'l) storage_engine =
  se_allocator :: "'r pinned_allocator"
  se_cache :: "'l read_cache"
  se_client :: "command_channel option"
  se_locks :: transfer_lock_manager
  se_metrics :: core_metrics
  se_live :: "'a guard list"
  se_held :: "sealed_block list"
  se_roots :: "pinned_allocation list"

section \<open>References\<close>

definition block_allocs :: "sealed_block \<Rightarrow> pinned_allocation list" where
  "block_allocs b = concat (map (\<lambda>slot. map seg_alloc (as_slice (segments slot))) (sb_slots b))"

definition locked_blocks :: "transfer_lock_manager \<Rightarrow> sealed_block list" where
  "locked_blocks mgr = concat (map (\<lambda>(_, s). map snd (ts_blocks s)) (sessions mgr))"

text \<open>The blocks referenced from outside the read cache.\<close>

definition outside_blocks :: "('r, 'a, 'l) storage_engine \<Rightarrow> sealed_block list" where
  "outside_blocks se = locked_blocks (se_locks se) @ se_held se"

definition outside_allocs :: "('r, 'a, 'l) storage_engine \<Rightarrow> pinned_allocation list" where
  "outside_allocs se = se_roots se @ concat (map block_allocs (outside_blocks se))"

definition referenced :: "'l block_lru \<Rightarrow> ('r, 'a, 'l) storage_engine \<Rightarrow> pinned_allocation set" where
  "referenced lops se =
     set (outside_allocs se) \<union> (\<Union>kb \<in> set (resident lops (se_cache se)). set (block_allocs (snd kb)))"

text \<open>\<^verbatim>\<open>Arc::strong_count(block) > 1\<close> for an evicted block.\<close>

definition still_referenced :: "sealed_block \<Rightarrow> ('r, 'a, 'l) storage_engine \<Rightarrow> bool" where
  "still_referenced b se = (b \<in> set (outside_blocks se))"

text \<open>Dropping references frees the allocations that have no other.\<close>

definition drop_guard ::
    "('r, 'a) raw_ops \<Rightarrow> 'a guard \<Rightarrow> ('r, 'a, 'l) storage_engine \<Rightarrow> ('r, 'a, 'l) storage_engine" where
  "drop_guard ops g se =
     (let (al, m) = pinned_drop ops g (se_allocator se) (se_metrics se)
      in se\<lparr>se_allocator := al, se_metrics := m, se_live := remove1 g (se_live se)\<rparr>)"

definition dead_guards ::
    "'l block_lru \<Rightarrow> pinned_allocation list \<Rightarrow> ('r, 'a, 'l) storage_engine \<Rightarrow> 'a guard list" where
  "dead_guards lops allocs se =
     filter (\<lambda>g. pinned_of g \<in> set allocs \<and> pinned_of g \<notin> referenced lops se) (se_live se)"

definition drop_allocs ::
    "('r, 'a) raw_ops \<Rightarrow> 'l block_lru \<Rightarrow> pinned_allocation list \<Rightarrow> ('r, 'a, 'l) storage_engine \<Rightarrow>
     ('r, 'a, 'l) storage_engine" where
  "drop_allocs ops lops allocs se = fold (drop_guard ops) (dead_guards lops allocs se) se"

definition drop_blocks ::
    "('r, 'a) raw_ops \<Rightarrow> 'l block_lru \<Rightarrow> (block_key \<times> sealed_block) list \<Rightarrow> ('r, 'a, 'l) storage_engine \<Rightarrow>
     ('r, 'a, 'l) storage_engine" where
  "drop_blocks ops lops dropped se = drop_allocs ops lops (concat (map (\<lambda>(_, b). block_allocs b) dropped)) se"

section \<open>Operations\<close>

definition try_allocate ::
    "('r, 'a) raw_ops \<Rightarrow> u64 \<Rightarrow> numa_node \<Rightarrow> ('r, 'a, 'l) storage_engine \<Rightarrow>
     ('a guard option \<times> ('r, 'a, 'l) storage_engine) option" where
  "try_allocate ops bytes node se =
     (case pinned_allocate ops bytes node (se_allocator se) (se_metrics se) of
        None \<Rightarrow> None
      | Some (None, al, m) \<Rightarrow> Some (None, se\<lparr>se_allocator := al, se_metrics := m\<rparr>)
      | Some (Some g, al, m) \<Rightarrow>
          Some (Some g, se\<lparr>se_allocator := al, se_metrics := m, se_live := g # se_live se,
                           se_roots := pinned_of g # se_roots se\<rparr>))"

definition unregister_evicted ::
    "(block_key \<times> sealed_block) list \<Rightarrow> ('r, 'a, 'l) storage_engine \<Rightarrow> ('r, 'a, 'l) storage_engine" where
  "unregister_evicted evicted se =
     (case se_client se of
        None \<Rightarrow> se
      | Some ch \<Rightarrow>
          let (ch', m) = try_unregister (map (\<lambda>(key, _). (namespace key, hash key)) evicted) ch (se_metrics se)
          in se\<lparr>se_client := Some ch', se_metrics := m\<rparr>)"

text \<open>The accounting loop over the evicted blocks: bytes, blocks still referenced, the gauge.\<close>

fun account_evicted ::
    "(sealed_block \<Rightarrow> bool) \<Rightarrow> (block_key \<times> sealed_block) list \<Rightarrow> u64 \<Rightarrow> u64 \<Rightarrow> core_metrics \<Rightarrow> u64 \<times> u64 \<times> core_metrics" where
  "account_evicted held [] bytes still m = (bytes, still, m)"
| "account_evicted held ((_, b) # rest) bytes still m =
     account_evicted held rest (saturating_add bytes (sb_footprint b)) (if held b then still + 1 else still)
       (m\<lparr>cache_resident_bytes := cache_resident_bytes m - as_i64 (sb_footprint b)\<rparr>)"

definition count_still_referenced :: "u64 \<Rightarrow> core_metrics \<Rightarrow> core_metrics" where
  "count_still_referenced n m =
     (if 0 < n then m\<lparr>cache_block_evictions_still_referenced := cache_block_evictions_still_referenced m + n\<rparr> else m)"

definition count_reclaimed :: "u64 \<Rightarrow> core_metrics \<Rightarrow> core_metrics" where
  "count_reclaimed n m =
     (if 0 < n then m\<lparr>cache_eviction_reclaimed_bytes := cache_eviction_reclaimed_bytes m + n\<rparr> else m)"

definition count_evictions :: "usize \<Rightarrow> core_metrics \<Rightarrow> core_metrics" where
  "count_evictions n m = m\<lparr>cache_block_evictions := cache_block_evictions m + n\<rparr>"

text \<open>One round of eviction after a batch was taken out of the cache: its bytes and the new state.\<close>

definition evict_round ::
    "('r, 'a) raw_ops \<Rightarrow> 'l block_lru \<Rightarrow> (block_key \<times> sealed_block) list \<Rightarrow> ('r, 'a, 'l) storage_engine \<Rightarrow>
     u64 \<times> ('r, 'a, 'l) storage_engine" where
  "evict_round ops lops evicted se0 =
     (let used_before = fst (pinned_usage ops (se_allocator se0));
          se1 = unregister_evicted evicted se0;
          (batch_bytes, still, m) = account_evicted (\<lambda>b. still_referenced b se1) evicted 0 0 (se_metrics se1);
          se2 = drop_blocks ops lops evicted (se1\<lparr>se_metrics := count_still_referenced still m\<rparr>);
          reclaimed = saturating_sub used_before (fst (pinned_usage ops (se_allocator se2)))
      in (batch_bytes, se2\<lparr>se_metrics := count_reclaimed reclaimed (se_metrics se2)\<rparr>))"

partial_function (option) reclaim_loop ::
    "('r, 'a) raw_ops \<Rightarrow> 'l block_lru \<Rightarrow> u64 \<Rightarrow> numa_node \<Rightarrow> usize \<Rightarrow> u64 \<Rightarrow> ('r, 'a, 'l) storage_engine \<Rightarrow>
     ((usize \<times> u64 \<times> u64) \<times> ('r, 'a, 'l) storage_engine) option" where
  "reclaim_loop ops lops required_bytes node freed_blocks freed_bytes se =
     (let largest_free = largest_free_allocation_for_node ops node (se_allocator se)
      in if required_bytes \<le> largest_free then Some ((freed_blocks, freed_bytes, largest_free), se)
         else let (evicted, c) = remove_lru_batch lops RECLAIM_BATCH_SIZE (se_cache se)
              in if evicted = [] then Some ((freed_blocks, freed_bytes, largest_free), se\<lparr>se_cache := c\<rparr>)
                 else let (batch_bytes, se') = evict_round ops lops evicted (se\<lparr>se_cache := c\<rparr>)
                      in reclaim_loop ops lops required_bytes node (freed_blocks + length evicted)
                           (saturating_add freed_bytes batch_bytes) se')"

definition reclaim_until_allocator_can_allocate ::
    "('r, 'a) raw_ops \<Rightarrow> 'l block_lru \<Rightarrow> u64 \<Rightarrow> numa_node \<Rightarrow> ('r, 'a, 'l) storage_engine \<Rightarrow>
     ((usize \<times> u64 \<times> u64) \<times> ('r, 'a, 'l) storage_engine) option" where
  "reclaim_until_allocator_can_allocate ops lops required_bytes node se =
     (if required_bytes = 0
      then Some ((0, 0, largest_free_allocation_for_node ops node (se_allocator se)), se)
      else do {
        ((freed_blocks, freed_bytes, largest_free), se') \<leftarrow> reclaim_loop ops lops required_bytes node 0 0 se;
        Some ((freed_blocks, freed_bytes, largest_free),
              if 0 < freed_blocks then se'\<lparr>se_metrics := count_evictions freed_blocks (se_metrics se')\<rparr> else se')
      })"

definition count_alloc_failure :: "('r, 'a, 'l) storage_engine \<Rightarrow> ('r, 'a, 'l) storage_engine" where
  "count_alloc_failure se =
     se\<lparr>se_metrics := (se_metrics se)\<lparr>pool_alloc_failures := pool_alloc_failures (se_metrics se) + 1\<rparr>\<rparr>"

partial_function (option) allocate_loop ::
    "('r, 'a) raw_ops \<Rightarrow> 'l block_lru \<Rightarrow> u64 \<Rightarrow> numa_node \<Rightarrow> ('r, 'a, 'l) storage_engine \<Rightarrow>
     ('a guard option \<times> ('r, 'a, 'l) storage_engine) option" where
  "allocate_loop ops lops requested_bytes node se =
     do {
       (first, se1) \<leftarrow> try_allocate ops requested_bytes node se;
       if first \<noteq> None then Some (first, se1)
       else do {
         ((freed_blocks, freed_bytes, largest_free), se2) \<leftarrow>
           reclaim_until_allocator_can_allocate ops lops requested_bytes node se1;
         if freed_blocks = 0 \<and> largest_free < requested_bytes
         then do {
           (retry, se3) \<leftarrow> try_allocate ops requested_bytes node se2;
           Some (retry, if retry \<noteq> None then se3 else count_alloc_failure se3)
         }
         else allocate_loop ops lops requested_bytes node se2
       }
     }"

definition engine_allocate ::
    "('r, 'a) raw_ops \<Rightarrow> 'l block_lru \<Rightarrow> u64 \<Rightarrow> numa_node option \<Rightarrow> ('r, 'a, 'l) storage_engine \<Rightarrow>
     ('a guard option \<times> ('r, 'a, 'l) storage_engine) option" where
  "engine_allocate ops lops bytes numa se =
     allocate_loop ops lops bytes (case numa of Some n \<Rightarrow> n | None \<Rightarrow> NUMA_UNKNOWN) se"

definition cleanup_memory_cache ::
    "('r, 'a) raw_ops \<Rightarrow> 'l block_lru \<Rightarrow> ('r, 'a, 'l) storage_engine \<Rightarrow>
     memory_cache_cleanup_stats \<times> ('r, 'a, 'l) storage_engine" where
  "cleanup_memory_cache ops lops se =
     (let used_before = fst (pinned_usage ops (se_allocator se));
          (evicted, c) = rc_remove_all lops (se_cache se);
          se0 = se\<lparr>se_cache := c\<rparr>
      in if evicted = [] then (no_cleanup, se0)
         else let se1 = unregister_evicted evicted se0;
                  (bytes, still, m) = account_evicted (\<lambda>b. still_referenced b se1) evicted 0 0 (se_metrics se1);
                  se2 = drop_blocks ops lops evicted
                    (se1\<lparr>se_metrics := count_evictions (length evicted) (count_still_referenced still m)\<rparr>);
                  reclaimed = saturating_sub used_before (fst (pinned_usage ops (se_allocator se2)))
              in (\<lparr>evicted_blocks = length evicted, evicted_bytes = bytes, reclaimed_bytes = reclaimed,
                   still_referenced_blocks = still\<rparr>,
                  se2\<lparr>se_metrics := count_reclaimed reclaimed (se_metrics se2)\<rparr>))"

text \<open>A set of hashes is a list without repetitions.\<close>

definition filter_hashes_not_in_cache_inplace ::
    "'l block_lru \<Rightarrow> string \<Rightarrow> byte list list \<Rightarrow> ('r, 'a, 'l) storage_engine \<Rightarrow> byte list list" where
  "filter_hashes_not_in_cache_inplace lops ns hashes se =
     (let present = contains_keys lops (map (mk_key ns) hashes) (se_cache se)
      in foldl (\<lambda>hs (h, is_present). if is_present then removeAll h hs else hs) hashes (zip hashes present))"

definition get_blocks_for_transfer ::
    "'l block_lru \<Rightarrow> block_key list \<Rightarrow> ('r, 'a, 'l) storage_engine \<Rightarrow>
     (block_key \<times> sealed_block) list \<times> ('r, 'a, 'l) storage_engine" where
  "get_blocks_for_transfer lops keys se =
     (let (found, c) = get_blocks lops keys (se_cache se) in (found, se\<lparr>se_cache := c\<rparr>))"

definition lock_blocks_for_transfer ::
    "instant \<Rightarrow> string \<Rightarrow> string \<Rightarrow> (block_key \<times> sealed_block) list \<Rightarrow> ('r, 'a, 'l) storage_engine \<Rightarrow>
     string \<times> ('r, 'a, 'l) storage_engine" where
  "lock_blocks_for_transfer now session_id requester blocks se =
     (let (sid, mgr, m) = lock_blocks now session_id requester blocks (se_locks se, se_metrics se)
      in (sid, se\<lparr>se_locks := mgr, se_metrics := m\<rparr>))"

definition release_transfer_lock ::
    "('r, 'a) raw_ops \<Rightarrow> 'l block_lru \<Rightarrow> string \<Rightarrow> ('r, 'a, 'l) storage_engine \<Rightarrow> usize \<times> ('r, 'a, 'l) storage_engine" where
  "release_transfer_lock ops lops session_id se =
     (let dropped = (case hm_get (sessions (se_locks se)) session_id of None \<Rightarrow> [] | Some s \<Rightarrow> ts_blocks s);
          (n, mgr, m) = tl_release session_id (se_locks se, se_metrics se)
      in (n, drop_blocks ops lops dropped (se\<lparr>se_locks := mgr, se_metrics := m\<rparr>)))"

definition gc_expired_transfer_locks ::
    "('r, 'a) raw_ops \<Rightarrow> 'l block_lru \<Rightarrow> instant \<Rightarrow> ('r, 'a, 'l) storage_engine \<Rightarrow> usize \<times> ('r, 'a, 'l) storage_engine" where
  "gc_expired_transfer_locks ops lops now se =
     (let mgr = se_locks se;
          dropped = concat (map (\<lambda>(_, s). ts_blocks s)
            (filter (\<lambda>(_, s). \<not> session_alive (lock_timeout mgr) now s) (sessions mgr)));
          (n, mgr', m) = gc_expired now (mgr, se_metrics se)
      in (n, drop_blocks ops lops dropped (se\<lparr>se_locks := mgr', se_metrics := m\<rparr>)))"

definition pinned_memory_regions :: "('r, 'a, 'l) storage_engine \<Rightarrow> (nat \<times> usize) list" where
  "pinned_memory_regions se = memory_regions (se_allocator se)"

definition is_numa_enabled :: "('r, 'a, 'l) storage_engine \<Rightarrow> bool" where
  "is_numa_enabled se = is_numa (se_allocator se)"

section \<open>Invariant\<close>

text \<open>Every referenced allocation is live: nothing reachable has been freed.\<close>

definition engine_ok ::
    "('r, 'a) raw_ops \<Rightarrow> (nat \<Rightarrow> 'r \<Rightarrow> ('a \<times> nat) multiset \<Rightarrow> bool) \<Rightarrow> 'l block_lru \<Rightarrow> ('l \<Rightarrow> bool) \<Rightarrow>
     ('r, 'a, 'l) storage_engine \<Rightarrow> bool" where
  "engine_ok ops R lops I se =
     (I (lru (se_cache se)) \<and> allocator_ok ops R (se_allocator se) (se_live se)
      \<and> referenced lops se \<subseteq> pinned_of ` set (se_live se))"

lemma engine_ok_frame [simp]:
  "engine_ok ops R lops I (se\<lparr>se_metrics := m\<rparr>) = engine_ok ops R lops I se"
  "engine_ok ops R lops I (se\<lparr>se_client := ch\<rparr>) = engine_ok ops R lops I se"
  by (simp_all add: engine_ok_def referenced_def outside_allocs_def outside_blocks_def)

text \<open>What dropping blocks leaves alone.\<close>

definition kept :: "('r, 'a, 'l) storage_engine \<Rightarrow> ('r, 'a, 'l) storage_engine \<Rightarrow> bool" where
  "kept se se' =
     (se_cache se' = se_cache se \<and> se_locks se' = se_locks se \<and> se_held se' = se_held se
      \<and> se_roots se' = se_roots se
      \<and> cache_resident_bytes (se_metrics se') = cache_resident_bytes (se_metrics se)
      \<and> pool_alloc_failures (se_metrics se') = pool_alloc_failures (se_metrics se))"

lemma kept_refl [simp]: "kept se se"
  by (simp add: kept_def)

lemma kept_trans: "kept a b \<Longrightarrow> kept b c \<Longrightarrow> kept a c"
  by (simp add: kept_def)

lemma kept_referenced: "kept se se' \<Longrightarrow> referenced lops se' = referenced lops se"
  by (simp add: kept_def referenced_def outside_allocs_def outside_blocks_def)

lemma drop_guard_ok:
  assumes con: "raw_contract ops R" and ok: "allocator_ok ops R (se_allocator se) (se_live se)"
    and g: "g \<in> set (se_live se)"
  shows "allocator_ok ops R (se_allocator (drop_guard ops g se)) (se_live (drop_guard ops g se))
    \<and> se_live (drop_guard ops g se) = remove1 g (se_live se) \<and> kept se (drop_guard ops g se)"
proof -
  obtain al m where d: "pinned_drop ops g (se_allocator se) (se_metrics se) = (al, m)" by (rule prod.exhaust)
  from pinned_drop_ok [OF con ok g d] d show ?thesis by (simp add: drop_guard_def kept_def)
qed

lemma drop_guards_ok:
  assumes con: "raw_contract ops R"
  shows "allocator_ok ops R (se_allocator se) (se_live se) \<Longrightarrow> distinct D \<Longrightarrow> set D \<subseteq> set (se_live se) \<Longrightarrow>
    se' = fold (drop_guard ops) D se \<Longrightarrow>
    allocator_ok ops R (se_allocator se') (se_live se') \<and> set (se_live se') = set (se_live se) - set D \<and> kept se se'"
proof (induction D arbitrary: se)
  case (Cons g D)
  let ?se = "drop_guard ops g se"
  have "g \<in> set (se_live se)" using Cons.prems(3) by simp
  note step = drop_guard_ok [OF con Cons.prems(1) this]
  have live: "set (se_live ?se) = set (se_live se) - {g}"
    using step allocator_ok_distinct [OF Cons.prems(1)] by simp
  have "allocator_ok ops R (se_allocator se') (se_live se') \<and> set (se_live se') = set (se_live ?se) - set D \<and> kept ?se se'"
    by (rule Cons.IH) (use step live Cons.prems in auto)
  with step live show ?case by (auto intro: kept_trans)
qed simp

lemma drop_allocs_ok:
  assumes con: "raw_contract ops R" and ok: "engine_ok ops R lops I se"
  shows "engine_ok ops R lops I (drop_allocs ops lops allocs se) \<and> kept se (drop_allocs ops lops allocs se)"
proof -
  let ?D = "dead_guards lops allocs se" and ?se = "drop_allocs ops lops allocs se"
  have al: "allocator_ok ops R (se_allocator se) (se_live se)" using ok by (simp add: engine_ok_def)
  have "distinct ?D" using allocator_ok_distinct [OF al] by (simp add: dead_guards_def)
  from drop_guards_ok [OF con al this _ refl]
  have d: "allocator_ok ops R (se_allocator ?se) (se_live ?se)" "set (se_live ?se) = set (se_live se) - set ?D" "kept se ?se"
    by (auto simp: drop_allocs_def dead_guards_def)
  have "referenced lops se \<subseteq> pinned_of ` (set (se_live se) - set ?D)"
  proof
    fix a assume a: "a \<in> referenced lops se"
    then obtain g where g: "g \<in> set (se_live se)" "a = pinned_of g" using ok by (auto simp: engine_ok_def)
    with a have "g \<notin> set ?D" by (simp add: dead_guards_def)
    with g show "a \<in> pinned_of ` (set (se_live se) - set ?D)" by blast
  qed
  moreover have "se_cache ?se = se_cache se" using d(3) by (simp add: kept_def)
  ultimately show ?thesis using d ok by (simp add: engine_ok_def kept_referenced [OF d(3)])
qed

lemma drop_blocks_ok:
  "raw_contract ops R \<Longrightarrow> engine_ok ops R lops I se \<Longrightarrow>
     engine_ok ops R lops I (drop_blocks ops lops dropped se) \<and> kept se (drop_blocks ops lops dropped se)"
  unfolding drop_blocks_def by (rule drop_allocs_ok)

section \<open>One round of eviction\<close>

lemma try_unregister_metrics:
  "try_unregister es ch m = (ch', m') \<Longrightarrow>
     cache_resident_bytes m' = cache_resident_bytes m \<and> pool_alloc_failures m' = pool_alloc_failures m"
  by (auto simp: try_unregister_def try_send_unregister_batch_def Let_def split: if_splits prod.splits sum.splits)

lemma unregister_evicted_frame:
  "engine_ok ops R lops I (unregister_evicted ev se) = engine_ok ops R lops I se" "kept se (unregister_evicted ev se)"
proof -
  have "engine_ok ops R lops I (se\<lparr>se_client := c, se_metrics := m\<rparr>) = engine_ok ops R lops I se" for c m
    by (simp add: engine_ok_def referenced_def outside_allocs_def outside_blocks_def)
  thus "engine_ok ops R lops I (unregister_evicted ev se) = engine_ok ops R lops I se"
    by (simp add: unregister_evicted_def split: option.splits prod.splits)
  show "kept se (unregister_evicted ev se)"
    using try_unregister_metrics by (fastforce simp: unregister_evicted_def kept_def split: option.splits prod.splits)
qed

lemma account_evicted_metrics:
  "account_evicted held ev b n m = (b', n', m') \<Longrightarrow>
     cache_resident_bytes m' = cache_resident_bytes m - resident_bytes ev \<and> pool_alloc_failures m' = pool_alloc_failures m"
  by (induction held ev b n m rule: account_evicted.induct) (auto simp: resident_bytes_def)

lemma count_metrics [simp]:
  "cache_resident_bytes (count_still_referenced n m) = cache_resident_bytes m"
  "pool_alloc_failures (count_still_referenced n m) = pool_alloc_failures m"
  "cache_resident_bytes (count_reclaimed n m) = cache_resident_bytes m"
  "pool_alloc_failures (count_reclaimed n m) = pool_alloc_failures m"
  "cache_resident_bytes (count_evictions k m) = cache_resident_bytes m"
  "pool_alloc_failures (count_evictions k m) = pool_alloc_failures m"
  by (simp_all add: count_still_referenced_def count_reclaimed_def count_evictions_def)

text \<open>Taking blocks out of the cache and dropping them, with the gauge following.\<close>

definition evicted_to :: "(block_key \<times> sealed_block) list \<Rightarrow> ('r, 'a, 'l) storage_engine \<Rightarrow> ('r, 'a, 'l) storage_engine \<Rightarrow> bool" where
  "evicted_to ev se se' =
     (se_cache se' = se_cache se \<and> se_locks se' = se_locks se \<and> se_held se' = se_held se
      \<and> se_roots se' = se_roots se
      \<and> cache_resident_bytes (se_metrics se') = cache_resident_bytes (se_metrics se) - resident_bytes ev
      \<and> pool_alloc_failures (se_metrics se') = pool_alloc_failures (se_metrics se))"

lemma evict_round_ok:
  assumes con: "raw_contract ops R" and ok: "engine_ok ops R lops I se"
    and ev: "evict_round ops lops ev se = (b, se')"
  shows "engine_ok ops R lops I se' \<and> evicted_to ev se se'"
proof -
  let ?se1 = "unregister_evicted ev se"
  obtain bb still m where a: "account_evicted (\<lambda>b. still_referenced b ?se1) ev 0 0 (se_metrics ?se1) = (bb, still, m)"
    by (metis prod.exhaust)
  let ?se2 = "?se1\<lparr>se_metrics := count_still_referenced still m\<rparr>"
  let ?se3 = "drop_blocks ops lops ev ?se2"
  have "engine_ok ops R lops I ?se2" using ok by (simp add: unregister_evicted_frame(1))
  from drop_blocks_ok [OF con this] have d: "engine_ok ops R lops I ?se3" "kept ?se2 ?se3" by blast+
  obtain n where se': "se' = ?se3\<lparr>se_metrics := count_reclaimed n (se_metrics ?se3)\<rparr>"
    using ev a by (auto simp: evict_round_def Let_def)
  have k: "kept se ?se1" by (rule unregister_evicted_frame(2))
  from account_evicted_metrics [OF a] d k show ?thesis by (simp add: se' evicted_to_def kept_def)
qed

lemma engine_ok_shrink:
  assumes ok: "engine_ok ops R lops I se" and c: "I (lru c)" "set (resident lops c) \<subseteq> set (resident lops (se_cache se))"
  shows "engine_ok ops R lops I (se\<lparr>se_cache := c\<rparr>)"
proof -
  have "referenced lops (se\<lparr>se_cache := c\<rparr>) \<subseteq> referenced lops se"
    using c(2) by (auto simp: referenced_def outside_allocs_def outside_blocks_def)
  with ok c(1) show ?thesis by (auto simp: engine_ok_def)
qed

section \<open>Reclaiming\<close>

text \<open>
  From \<open>se\<close> to \<open>se'\<close> exactly the \<open>n\<close> least recently used blocks were evicted, the gauge followed, and what
  other components hold was not touched.
\<close>

definition reclaimed_to :: "'l block_lru \<Rightarrow> nat \<Rightarrow> ('r, 'a, 'l) storage_engine \<Rightarrow> ('r, 'a, 'l) storage_engine \<Rightarrow> bool" where
  "reclaimed_to lops n se se' =
     (n \<le> length (resident lops (se_cache se))
      \<and> resident lops (se_cache se') = drop n (resident lops (se_cache se))
      \<and> se_locks se' = se_locks se \<and> se_held se' = se_held se \<and> se_roots se' = se_roots se
      \<and> cache_resident_bytes (se_metrics se') - resident_bytes (resident lops (se_cache se'))
        = cache_resident_bytes (se_metrics se) - resident_bytes (resident lops (se_cache se))
      \<and> pool_alloc_failures (se_metrics se') = pool_alloc_failures (se_metrics se))"

lemma reclaimed_toD:
  assumes "reclaimed_to lops n se se'"
  shows "resident lops (se_cache se') = drop n (resident lops (se_cache se))"
    and "se_locks se' = se_locks se" and "se_held se' = se_held se" and "se_roots se' = se_roots se"
    and "cache_resident_bytes (se_metrics se') - resident_bytes (resident lops (se_cache se'))
      = cache_resident_bytes (se_metrics se) - resident_bytes (resident lops (se_cache se))"
    and "pool_alloc_failures (se_metrics se') = pool_alloc_failures (se_metrics se)"
  using assms unfolding reclaimed_to_def by blast+

lemma reclaimed_to_refl: "reclaimed_to lops 0 se se"
  by (simp add: reclaimed_to_def)

lemma reclaimed_to_trans: "reclaimed_to lops n a b \<Longrightarrow> reclaimed_to lops k b c \<Longrightarrow> reclaimed_to lops (n + k) a c"
  by (auto simp: reclaimed_to_def add.commute)

lemma reclaimed_to_evict:
  assumes "evicted_to ev (se\<lparr>se_cache := c\<rparr>) se'" "ev = take n (resident lops (se_cache se))"
    "resident lops c = drop n (resident lops (se_cache se))"
  shows "reclaimed_to lops (length ev) se se'"
proof -
  let ?r = "resident lops (se_cache se)"
  have "drop (length ev) ?r = drop n ?r" using assms(2) by (cases "n \<le> length ?r") simp_all
  moreover have "resident_bytes ?r = resident_bytes ev + resident_bytes (drop n ?r)"
    using assms(2) by (simp flip: resident_bytes_simps(3))
  ultimately show ?thesis using assms by (simp add: reclaimed_to_def evicted_to_def)
qed

lemma reclaim_batch_pos: "0 < RECLAIM_BATCH_SIZE"
  by (simp add: RECLAIM_BATCH_SIZE_def)

text \<open>The loop ends: each round takes at least one block out of the cache.\<close>

lemma reclaim_loop_ends:
  assumes con: "raw_contract ops R" and lru_ok: "block_lru_map lops I" and ok: "engine_ok ops R lops I se"
  shows "\<exists>n b se'. reclaim_loop ops lops req node k b0 se =
      Some ((k + n, b, largest_free_allocation_for_node ops node (se_allocator se')), se')
    \<and> engine_ok ops R lops I se' \<and> reclaimed_to lops n se se'
    \<and> (n = 0 \<longrightarrow> se_allocator se' = se_allocator se)
    \<and> (largest_free_allocation_for_node ops node (se_allocator se') < req \<longrightarrow> resident lops (se_cache se') = [])"
  using ok
proof (induction "length (resident lops (se_cache se))" arbitrary: se k b0 rule: less_induct)
  case less
  let ?lf = "largest_free_allocation_for_node ops node (se_allocator se)"
  show ?case
  proof (cases "req \<le> ?lf")
    case True
    thus ?thesis using less.prems reclaimed_to_refl [of lops se]
      by (intro exI [of _ 0] exI [of _ b0] exI [of _ se]) (simp add: reclaim_loop.simps Let_def)
  next
    case False
    obtain ev c where ev: "remove_lru_batch lops RECLAIM_BATCH_SIZE (se_cache se) = (ev, c)" by (rule prod.exhaust)
    have inv: "I (lru (se_cache se))" using less.prems by (simp add: engine_ok_def)
    from block_lru_map.remove_lru_batch_spec [OF lru_ok inv ev]
    have spec: "ev = take RECLAIM_BATCH_SIZE (resident lops (se_cache se))"
      "resident lops c = drop RECLAIM_BATCH_SIZE (resident lops (se_cache se))" "I (lru c)" by blast+
    have ok_c: "engine_ok ops R lops I (se\<lparr>se_cache := c\<rparr>)"
      by (rule engine_ok_shrink [OF less.prems spec(3)]) (simp add: spec(2) set_drop_subset)
    show ?thesis
    proof (cases "ev = []")
      case True
      hence empty: "resident lops (se_cache se) = []" using spec(1) reclaim_batch_pos by simp
      hence "reclaimed_to lops 0 se (se\<lparr>se_cache := c\<rparr>)" using spec(2) by (simp add: reclaimed_to_def)
      thus ?thesis using False True ev ok_c empty spec(2)
        by (intro exI [of _ 0] exI [of _ b0] exI [of _ "se\<lparr>se_cache := c\<rparr>"]) (simp add: reclaim_loop.simps Let_def)
    next
      case nonempty: False
      obtain bb se1 where r: "evict_round ops lops ev (se\<lparr>se_cache := c\<rparr>) = (bb, se1)" by (rule prod.exhaust)
      from evict_round_ok [OF con ok_c r] have se1: "engine_ok ops R lops I se1" "evicted_to ev (se\<lparr>se_cache := c\<rparr>) se1"
        by blast+
      have to1: "reclaimed_to lops (length ev) se se1" by (rule reclaimed_to_evict [OF se1(2) spec(1,2)])
      have "length (resident lops (se_cache se1)) < length (resident lops (se_cache se))"
      proof -
        have "0 < length ev" using nonempty by simp
        moreover have "length ev \<le> length (resident lops (se_cache se))"
          "length (resident lops (se_cache se1)) = length (resident lops (se_cache se)) - length ev"
          using to1 by (simp_all add: reclaimed_to_def)
        ultimately show ?thesis by linarith
      qed
      from less.hyps [OF this se1(1), of "k + length ev" "saturating_add b0 bb"]
      obtain n b se' where IH: "reclaim_loop ops lops req node (k + length ev) (saturating_add b0 bb) se1 =
          Some ((k + length ev + n, b, largest_free_allocation_for_node ops node (se_allocator se')), se')"
        "engine_ok ops R lops I se'" "reclaimed_to lops n se1 se'"
        "largest_free_allocation_for_node ops node (se_allocator se') < req \<longrightarrow> resident lops (se_cache se') = []"
        by blast
      have "reclaim_loop ops lops req node k b0 se =
          Some ((k + (length ev + n), b, largest_free_allocation_for_node ops node (se_allocator se')), se')"
        using False ev nonempty r IH(1) by (subst reclaim_loop.simps) (simp add: Let_def add.assoc)
      moreover have "length ev + n \<noteq> 0" using nonempty by simp
      ultimately show ?thesis using IH(2,4) reclaimed_to_trans [OF to1 IH(3)] by blast
    qed
  qed
qed

lemma reclaimed_to_metrics [simp]:
  "reclaimed_to lops n se (se'\<lparr>se_metrics := count_evictions k (se_metrics se')\<rparr>) = reclaimed_to lops n se se'"
  by (simp add: reclaimed_to_def)

lemma reclaim_ends:
  assumes con: "raw_contract ops R" and lru_ok: "block_lru_map lops I" and ok: "engine_ok ops R lops I se"
    and pos: "0 < req"
  obtains n b se' where "reclaim_until_allocator_can_allocate ops lops req node se =
      Some ((n, b, largest_free_allocation_for_node ops node (se_allocator se')), se')"
    "engine_ok ops R lops I se'" "reclaimed_to lops n se se'" "n = 0 \<longrightarrow> se_allocator se' = se_allocator se"
    "largest_free_allocation_for_node ops node (se_allocator se') < req \<longrightarrow> resident lops (se_cache se') = []"
proof -
  obtain n b se1 where l: "reclaim_loop ops lops req node 0 0 se =
      Some ((n, b, largest_free_allocation_for_node ops node (se_allocator se1)), se1)"
    "engine_ok ops R lops I se1" "reclaimed_to lops n se se1" "n = 0 \<longrightarrow> se_allocator se1 = se_allocator se"
    "largest_free_allocation_for_node ops node (se_allocator se1) < req \<longrightarrow> resident lops (se_cache se1) = []"
    using reclaim_loop_ends [OF con lru_ok ok, of req node 0 0] by auto
  let ?se = "if 0 < n then se1\<lparr>se_metrics := count_evictions n (se_metrics se1)\<rparr> else se1"
  have al: "se_allocator ?se = se_allocator se1" "se_cache ?se = se_cache se1" by simp_all
  have "reclaim_until_allocator_can_allocate ops lops req node se =
      Some ((n, b, largest_free_allocation_for_node ops node (se_allocator ?se)), ?se)"
    using pos l(1) al by (simp add: reclaim_until_allocator_can_allocate_def)
  moreover have "engine_ok ops R lops I ?se" "reclaimed_to lops n se ?se" using l(2,3) by (cases "0 < n"; simp)+
  moreover have "n = 0 \<longrightarrow> se_allocator ?se = se_allocator se" using l(4) al by simp
  moreover have "largest_free_allocation_for_node ops node (se_allocator ?se) < req \<longrightarrow> resident lops (se_cache ?se) = []"
    unfolding al using l(5) by blast
  ultimately show ?thesis by (rule that)
qed

section \<open>Allocating\<close>

text \<open>What a granted request adds to the state.\<close>

definition granted :: "u64 \<Rightarrow> 'a guard \<Rightarrow> ('r, 'a, 'l) storage_engine \<Rightarrow> ('r, 'a, 'l) storage_engine \<Rightarrow> bool" where
  "granted bytes g se se' =
     (bytes \<le> size_of g \<and> se_live se' = g # se_live se \<and> se_roots se' = pinned_of g # se_roots se
      \<and> se_cache se' = se_cache se \<and> se_locks se' = se_locks se \<and> se_held se' = se_held se
      \<and> cache_resident_bytes (se_metrics se') = cache_resident_bytes (se_metrics se)
      \<and> pool_alloc_failures (se_metrics se') = pool_alloc_failures (se_metrics se))"

lemma try_allocate_cases:
  assumes con: "raw_contract ops R" and ok: "engine_ok ops R lops I se" and pos: "0 < bytes"
  obtains (Refused) se' where "try_allocate ops bytes node se = Some (None, se')" "engine_ok ops R lops I se'"
      "kept se se'" "se_live se' = se_live se"
      "largest_free_allocation_for_node ops node (se_allocator se') < bytes"
  | (Granted) g se' where "try_allocate ops bytes node se = Some (Some g, se')" "engine_ok ops R lops I se'"
      "granted bytes g se se'"
proof -
  let ?al = "se_allocator se" and ?m = "se_metrics se"
  have al: "allocator_ok ops R ?al (se_live se)" using ok by (simp add: engine_ok_def)
  show ?thesis
  proof (rule pinned_allocate_cases [OF con al pos, of node ?m])
    fix al'
    assume f: "pinned_allocate ops bytes node ?al ?m = Some (None, al', ?m)"
      "pool_at al' = pool_at ?al" "no_empty_node al'" "largest_free_allocation_for_node ops node ?al < bytes"
      "largest_free_allocation_for_node ops node al' = largest_free_allocation_for_node ops node ?al"
    let ?se = "se\<lparr>se_allocator := al', se_metrics := ?m\<rparr>"
    have "kept se ?se" by (simp add: kept_def)
    moreover have "engine_ok ops R lops I ?se"
      using ok allocator_ok_same_pools [OF al f(2,3)] kept_referenced [OF \<open>kept se ?se\<close>, of lops]
      by (simp add: engine_ok_def)
    ultimately show ?thesis using f by (intro that(1) [of ?se]) (simp_all add: try_allocate_def)
  next
    fix g p p' al'
    assume g: "pinned_allocate ops bytes node ?al ?m =
        Some (Some g, al', ?m\<lparr>pool_used_bytes := gauge_plus (size_of g) (pool_used_bytes ?m)\<rparr>)"
      "grants ops R (g_pool g) bytes p (pool_guards (g_pool g) (se_live se)) g p'"
      "pool_at al' = (pool_at ?al)(g_pool g \<mapsto> p')" "no_empty_node al'"
    let ?se = "se\<lparr>se_allocator := al', se_metrics := ?m\<lparr>pool_used_bytes := gauge_plus (size_of g) (pool_used_bytes ?m)\<rparr>,
      se_live := g # se_live se, se_roots := pinned_of g # se_roots se\<rparr>"
    have "referenced lops ?se = insert (pinned_of g) (referenced lops se)"
      by (auto simp: referenced_def outside_allocs_def outside_blocks_def)
    hence "engine_ok ops R lops I ?se"
      using ok allocator_ok_grants [OF al g(2-4)] by (auto simp: engine_ok_def)
    moreover have "granted bytes g se ?se" using g(2) by (simp add: granted_def grants_def)
    ultimately show ?thesis using g(1) by (intro that(2) [of g ?se]) (simp_all add: try_allocate_def)
  qed
qed

lemma kept_reclaimed: "kept se se' \<Longrightarrow> reclaimed_to lops 0 se se'"
  by (simp add: kept_def reclaimed_to_def)

lemma allocate_loop_ends:
  assumes con: "raw_contract ops R" and lru_ok: "block_lru_map lops I" and ok: "engine_ok ops R lops I se"
    and pos: "0 < bytes"
  shows "\<exists>r se' n se0. allocate_loop ops lops bytes node se = Some (r, se') \<and> engine_ok ops R lops I se'
    \<and> reclaimed_to lops n se se0
    \<and> (case r of
         Some g \<Rightarrow> granted bytes g se0 se' \<and> engine_ok ops R lops I se0
       | None \<Rightarrow> se' = count_alloc_failure se0 \<and> resident lops (se_cache se0) = []
           \<and> largest_free_allocation_for_node ops node (se_allocator se0) < bytes)"
  using ok
proof (induction "length (resident lops (se_cache se))" arbitrary: se rule: less_induct)
  case less
  show ?case
  proof (rule try_allocate_cases [OF con less.prems pos, of node])
    fix g se1
    assume g: "try_allocate ops bytes node se = Some (Some g, se1)" "engine_ok ops R lops I se1" "granted bytes g se se1"
    have "allocate_loop ops lops bytes node se = Some (Some g, se1)" by (subst allocate_loop.simps) (simp add: g(1))
    with g reclaimed_to_refl [of lops se] less.prems show ?thesis by fastforce
  next
    fix se1
    assume f: "try_allocate ops bytes node se = Some (None, se1)" "engine_ok ops R lops I se1" "kept se se1"
      "largest_free_allocation_for_node ops node (se_allocator se1) < bytes"
    note k1 = kept_reclaimed [OF f(3), of lops]
    obtain n b se2 where r: "reclaim_until_allocator_can_allocate ops lops bytes node se1 =
        Some ((n, b, largest_free_allocation_for_node ops node (se_allocator se2)), se2)"
      "engine_ok ops R lops I se2" "reclaimed_to lops n se1 se2" "n = 0 \<longrightarrow> se_allocator se2 = se_allocator se1"
      "largest_free_allocation_for_node ops node (se_allocator se2) < bytes \<longrightarrow> resident lops (se_cache se2) = []"
      by (rule reclaim_ends [OF con lru_ok f(2) pos, where node = node])
    have k2: "reclaimed_to lops n se se2" using reclaimed_to_trans [OF k1 r(3)] by simp
    show ?thesis
    proof (cases "n = 0")
      case True
      hence small: "largest_free_allocation_for_node ops node (se_allocator se2) < bytes" using r(4) f(4) by simp
      have step: "allocate_loop ops lops bytes node se =
          Option.bind (try_allocate ops bytes node se2) (\<lambda>(retry, se3). Some (retry, if retry \<noteq> None then se3 else count_alloc_failure se3))"
        by (subst allocate_loop.simps) (simp add: f(1) r(1) True small)
      show ?thesis
      proof (rule try_allocate_cases [OF con r(2) pos, of node])
        fix g se3
        assume "try_allocate ops bytes node se2 = Some (Some g, se3)" "engine_ok ops R lops I se3" "granted bytes g se2 se3"
        with step k2 r(2) show ?thesis by fastforce
      next
        fix se3
        assume h: "try_allocate ops bytes node se2 = Some (None, se3)" "engine_ok ops R lops I se3" "kept se2 se3"
          "largest_free_allocation_for_node ops node (se_allocator se3) < bytes"
        have k3: "reclaimed_to lops n se se3" using reclaimed_to_trans [OF k2 kept_reclaimed [OF h(3)]] by simp
        have "resident lops (se_cache se3) = []" using r(5) small h(3) by (simp add: kept_def)
        moreover have "engine_ok ops R lops I (count_alloc_failure se3)" using h(2) by (simp add: count_alloc_failure_def)
        moreover have "allocate_loop ops lops bytes node se = Some (None, count_alloc_failure se3)" using step h(1) by simp
        ultimately show ?thesis using k3 h(4) by fastforce
      qed
    next
      case False
      have "n \<le> length (resident lops (se_cache se))" using k2 by (simp add: reclaimed_to_def)
      hence "length (resident lops (se_cache se2)) < length (resident lops (se_cache se))"
        using k2 False by (simp add: reclaimed_to_def)
      from less.hyps [OF this r(2)] obtain rr se' n' se0 where IH: "allocate_loop ops lops bytes node se2 = Some (rr, se')"
        "engine_ok ops R lops I se'" "reclaimed_to lops n' se2 se0"
        "case rr of Some g \<Rightarrow> granted bytes g se0 se' \<and> engine_ok ops R lops I se0
         | None \<Rightarrow> se' = count_alloc_failure se0 \<and> resident lops (se_cache se0) = []
             \<and> largest_free_allocation_for_node ops node (se_allocator se0) < bytes" by blast
      have "allocate_loop ops lops bytes node se = Some (rr, se')"
        by (subst allocate_loop.simps) (simp add: f(1) r(1) False IH(1))
      thus ?thesis using IH(2,4) reclaimed_to_trans [OF k2 IH(3)] by blast
    qed
  qed
qed

section \<open>The other operations\<close>

lemma engine_ok_less:
  assumes ok: "engine_ok ops R lops I se" and same: "se_allocator se' = se_allocator se" "se_live se' = se_live se"
    and inv: "I (lru (se_cache se'))" and less: "referenced lops se' \<subseteq> referenced lops se"
  shows "engine_ok ops R lops I se'"
  using assms by (auto simp: engine_ok_def)

lemma cleanup_ok:
  assumes con: "raw_contract ops R" and lru_ok: "block_lru_map lops I" and ok: "engine_ok ops R lops I se"
    and c: "cleanup_memory_cache ops lops se = (stats, se')"
  shows "engine_ok ops R lops I se' \<and> resident lops (se_cache se') = []
    \<and> evicted_blocks stats = length (resident lops (se_cache se))
    \<and> cache_resident_bytes (se_metrics se') = cache_resident_bytes (se_metrics se) - resident_bytes (resident lops (se_cache se))
    \<and> se_locks se' = se_locks se \<and> se_held se' = se_held se \<and> se_roots se' = se_roots se"
proof -
  obtain ev cc where r: "rc_remove_all lops (se_cache se) = (ev, cc)" by (rule prod.exhaust)
  have inv: "I (lru (se_cache se))" using ok by (simp add: engine_ok_def)
  note spec = block_lru_map.rc_remove_all_spec [OF lru_ok inv r]
  let ?se0 = "se\<lparr>se_cache := cc\<rparr>"
  have ok0: "engine_ok ops R lops I ?se0" by (rule engine_ok_shrink [OF ok spec(3)]) (simp add: spec(2))
  show ?thesis
  proof (cases "ev = []")
    case True
    with c r ok0 spec show ?thesis by (auto simp: cleanup_memory_cache_def no_cleanup_def)
  next
    case False
    let ?se1 = "unregister_evicted ev ?se0"
    obtain bb still m where a: "account_evicted (\<lambda>b. still_referenced b ?se1) ev 0 0 (se_metrics ?se1) = (bb, still, m)"
      by (metis prod.exhaust)
    let ?se2 = "?se1\<lparr>se_metrics := count_evictions (length ev) (count_still_referenced still m)\<rparr>"
    let ?se3 = "drop_blocks ops lops ev ?se2"
    have "engine_ok ops R lops I ?se2" using ok0 by (simp add: unregister_evicted_frame(1))
    from drop_blocks_ok [OF con this] have d: "engine_ok ops R lops I ?se3" "kept ?se2 ?se3" by blast+
    obtain n where se': "se' = ?se3\<lparr>se_metrics := count_reclaimed n (se_metrics ?se3)\<rparr>"
      and st: "evicted_blocks stats = length ev"
      using c r False a by (auto simp: cleanup_memory_cache_def Let_def)
    have "kept ?se0 ?se1" by (rule unregister_evicted_frame(2))
    with account_evicted_metrics [OF a] d spec st show ?thesis by (simp add: se' kept_def)
  qed
qed

lemma set_locked_blocks: "set (locked_blocks mgr) = (\<Union>x \<in> set (sessions mgr). snd ` set (ts_blocks (snd x)))"
  by (simp add: locked_blocks_def case_prod_unfold)

lemma sessions_less:
  "set (sessions mgr') \<subseteq> set (sessions mgr) \<Longrightarrow> set (locked_blocks mgr') \<subseteq> set (locked_blocks mgr)"
  unfolding set_locked_blocks by (rule UN_mono) simp_all

text \<open>References move only between the cache and the outside.\<close>

lemma set_outside_allocs:
  "set (outside_allocs se) = set (se_roots se) \<union> (\<Union>b \<in> set (outside_blocks se). set (block_allocs b))"
  by (auto simp: outside_allocs_def)

lemma referenced_less:
  assumes roots: "set (se_roots se') \<subseteq> set (se_roots se)"
    and out: "set (outside_blocks se') \<subseteq> set (outside_blocks se) \<union> snd ` set (resident lops (se_cache se))"
    and res: "set (resident lops (se_cache se')) \<subseteq> set (resident lops (se_cache se))"
  shows "referenced lops se' \<subseteq> referenced lops se"
proof
  fix a assume "a \<in> referenced lops se'"
  then consider "a \<in> set (se_roots se')" | b where "b \<in> set (outside_blocks se')" "a \<in> set (block_allocs b)"
    | kb where "kb \<in> set (resident lops (se_cache se'))" "a \<in> set (block_allocs (snd kb))"
    by (auto simp: referenced_def set_outside_allocs)
  thus "a \<in> referenced lops se"
  proof cases
    case 1
    with roots show ?thesis by (auto simp: referenced_def set_outside_allocs)
  next
    case 2
    with out consider "b \<in> set (outside_blocks se)" | "b \<in> snd ` set (resident lops (se_cache se))" by blast
    thus ?thesis using 2(2) by cases (auto simp: referenced_def set_outside_allocs)
  next
    case 3
    with res show ?thesis by (auto simp: referenced_def)
  qed
qed

lemma locks_less_ok:
  assumes ok: "engine_ok ops R lops I se" and less: "set (sessions mgr) \<subseteq> set (sessions (se_locks se))"
  shows "engine_ok ops R lops I (se\<lparr>se_locks := mgr, se_metrics := m\<rparr>)"
proof (rule engine_ok_less [OF ok])
  show "referenced lops (se\<lparr>se_locks := mgr, se_metrics := m\<rparr>) \<subseteq> referenced lops se"
    by (rule referenced_less) (use sessions_less [OF less] in \<open>auto simp: outside_blocks_def\<close>)
qed (use ok in \<open>simp_all add: engine_ok_def\<close>)

lemma release_lock_ok:
  assumes con: "raw_contract ops R" and ok: "engine_ok ops R lops I se"
    and r: "release_transfer_lock ops lops sid se = (n, se')"
  shows "engine_ok ops R lops I se'"
proof -
  obtain k mgr m where t: "tl_release sid (se_locks se, se_metrics se) = (k, mgr, m)" by (metis prod.exhaust)
  have "set (sessions mgr) \<subseteq> set (sessions (se_locks se))"
    using t set_hm_remove_subset [of sid "sessions (se_locks se)"] by (auto simp: tl_release_def split: option.splits)
  from drop_blocks_ok [OF con locks_less_ok [OF ok this]] r t show ?thesis
    by (auto simp: release_transfer_lock_def Let_def)
qed

lemma remove_sessions_less: "remove_sessions is s n b = (s', n', b') \<Longrightarrow> set s' \<subseteq> set s"
proof (induction "is" s n b rule: remove_sessions.induct)
  case (2 i "is" s n b)
  from 2 set_hm_remove_subset [of i s] show ?case by (auto split: option.splits)
qed simp

lemma gc_locks_ok:
  assumes con: "raw_contract ops R" and ok: "engine_ok ops R lops I se"
    and r: "gc_expired_transfer_locks ops lops now se = (n, se')"
  shows "engine_ok ops R lops I se'"
proof -
  obtain k mgr m where t: "gc_expired now (se_locks se, se_metrics se) = (k, mgr, m)" by (metis prod.exhaust)
  have "set (sessions mgr) \<subseteq> set (sessions (se_locks se))"
  proof -
    obtain s' n' b' where s': "remove_sessions (map fst (filter (\<lambda>(_, s).
        \<not> session_alive (lock_timeout (se_locks se)) now s) (sessions (se_locks se)))) (sessions (se_locks se)) 0 0 = (s', n', b')"
      by (metis prod.exhaust)
    with t have "sessions mgr = s'" by (auto simp: gc_expired_def Let_def)
    with remove_sessions_less [OF s'] show ?thesis by simp
  qed
  from drop_blocks_ok [OF con locks_less_ok [OF ok this]] r t show ?thesis
    by (auto simp: gc_expired_transfer_locks_def Let_def)
qed

lemma serve_ok:
  assumes lru_ok: "block_lru_map lops I" and ok: "engine_ok ops R lops I se"
    and g: "get_blocks_for_transfer lops keys se = (found, se1)"
    and l: "lock_blocks_for_transfer now sid req found se1 = (sid', se')"
  shows "engine_ok ops R lops I se'"
proof -
  obtain c where c: "get_blocks lops keys (se_cache se) = (found, c)" "se1 = se\<lparr>se_cache := c\<rparr>"
    using g by (auto simp: get_blocks_for_transfer_def split: prod.splits)
  have inv: "I (lru (se_cache se))" using ok by (simp add: engine_ok_def)
  from block_lru_map.get_blocks_spec [OF lru_ok inv c(1)]
  have found: "found = List.map_filter (\<lambda>k. map_option (Pair k) (map_of (resident lops (se_cache se)) k)) keys"
    and inv': "I (lru c)" and same: "set (resident lops c) = set (resident lops (se_cache se))" by blast+
  have in_cache: "set found \<subseteq> set (resident lops (se_cache se))"
    unfolding found by (auto simp: map_filter_def dest: map_of_SomeD)
  let ?s = "\<lparr>ts_blocks = found, ts_created_at = now, requester_id = req\<rparr>"
  have se': "se_allocator se' = se_allocator se" "se_live se' = se_live se" "se_cache se' = c"
    "se_held se' = se_held se" "se_roots se' = se_roots se"
    "sessions (se_locks se') = hm_insert sid ?s (sessions (se_locks se))"
    using l c(2) by (auto simp: lock_blocks_for_transfer_def lock_blocks_def)
  have sess: "set (hm_insert sid ?s (sessions (se_locks se))) \<subseteq> insert (sid, ?s) (set (sessions (se_locks se)))"
    by (rule set_hm_insert_subset)
  have "set (locked_blocks (se_locks se')) \<subseteq> set (locked_blocks (se_locks se)) \<union> snd ` set (resident lops (se_cache se))"
  proof
    fix b assume "b \<in> set (locked_blocks (se_locks se'))"
    then obtain i s k where s: "(i, s) \<in> set (hm_insert sid ?s (sessions (se_locks se)))" "(k, b) \<in> set (ts_blocks s)"
      by (auto simp: set_locked_blocks se'(6))
    show "b \<in> set (locked_blocks (se_locks se)) \<union> snd ` set (resident lops (se_cache se))"
    proof (cases "(i, s) = (sid, ?s)")
      case True
      with s in_cache show ?thesis by force
    next
      case False
      with s sess have "(i, s) \<in> set (sessions (se_locks se))" by blast
      with s(2) show ?thesis by (force simp: set_locked_blocks)
    qed
  qed
  hence "set (outside_blocks se') \<subseteq> set (outside_blocks se) \<union> snd ` set (resident lops (se_cache se))"
    using se'(4) by (auto simp: outside_blocks_def)
  hence "referenced lops se' \<subseteq> referenced lops se"
    by (intro referenced_less) (simp_all add: se' same)
  thus ?thesis using engine_ok_less [OF ok se'(1,2)] inv' se'(3) by simp
qed

lemma filter_hashes_spec:
  assumes lru_ok: "block_lru_map lops I" and inv: "I (lru (se_cache se))"
  shows "filter_hashes_not_in_cache_inplace lops ns hashes se =
    filter (\<lambda>h. mk_key ns h \<notin> fst ` set (resident lops (se_cache se))) hashes"
proof -
  let ?P = "\<lambda>h. mk_key ns h \<in> fst ` set (resident lops (se_cache se))"
  have present: "contains_keys lops (map (mk_key ns) hashes) (se_cache se) = map ?P hashes"
    by (simp add: block_lru_map.contains_keys_spec [OF lru_ok inv])
  have fold: "foldl (\<lambda>hs (h, is_present). if is_present then removeAll h hs else hs) xs (zip ys (map Q ys))
      = filter (\<lambda>h. \<not> (h \<in> set ys \<and> Q h)) xs" for xs ys :: "byte list list" and Q
    by (induction ys arbitrary: xs) (auto simp: removeAll_filter_not_eq conj_disj_distribR intro!: filter_cong)
  show ?thesis
    unfolding filter_hashes_not_in_cache_inplace_def Let_def present fold by (rule filter_cong) auto
qed

section \<open>Histories\<close>

text \<open>
  Any sequence of: an allocation; a caller dropping an allocation it holds; publishing blocks built from held
  allocations to the read cache; another component taking a reference to a resident block, or
  dropping one; serving blocks to a remote node under a new transfer lock; releasing or expiring
  locks; emptying the cache.
\<close>

inductive engine_step ::
    "('r, 'a) raw_ops \<Rightarrow> 'l block_lru \<Rightarrow> ('r, 'a, 'l) storage_engine \<Rightarrow> ('r, 'a, 'l) storage_engine \<Rightarrow> bool"
  for ops :: "('r, 'a) raw_ops" and lops :: "'l block_lru" where
  allocate: "0 < bytes \<Longrightarrow> engine_allocate ops lops bytes numa se = Some (r, se') \<Longrightarrow> engine_step ops lops se se'"
| forget: "a \<in> set (se_roots se) \<Longrightarrow>
    engine_step ops lops se (drop_allocs ops lops [a] (se\<lparr>se_roots := remove1 a (se_roots se)\<rparr>))"
| publish: "\<forall>(k, b) \<in> set kvs. set (block_allocs b) \<subseteq> set (se_roots se) \<Longrightarrow>
    batch_insert lops kvs (se_cache se, se_metrics se) = (c, m) \<Longrightarrow>
    engine_step ops lops se (se\<lparr>se_cache := c, se_metrics := m\<rparr>)"
| hold: "(k, b) \<in> set (resident lops (se_cache se)) \<Longrightarrow>
    engine_step ops lops se (se\<lparr>se_held := b # se_held se\<rparr>)"
| unhold: "b \<in> set (se_held se) \<Longrightarrow>
    engine_step ops lops se (drop_allocs ops lops (block_allocs b) (se\<lparr>se_held := remove1 b (se_held se)\<rparr>))"
| serve: "get_blocks_for_transfer lops keys se = (found, se1) \<Longrightarrow>
    lock_blocks_for_transfer now sid requester found se1 = (sid', se') \<Longrightarrow> engine_step ops lops se se'"
| release: "release_transfer_lock ops lops sid se = (n, se') \<Longrightarrow> engine_step ops lops se se'"
| expire: "gc_expired_transfer_locks ops lops now se = (n, se') \<Longrightarrow> engine_step ops lops se se'"
| cleanup: "cleanup_memory_cache ops lops se = (stats, se') \<Longrightarrow> engine_step ops lops se se'"

lemma subseq_subset: "subseq xs ys \<Longrightarrow> set xs \<subseteq> set ys"
  by (induction rule: list_emb.induct) auto

lemma publish_ok:
  assumes lru_ok: "block_lru_map lops I" and ok: "engine_ok ops R lops I se"
    and held: "\<forall>(k, b) \<in> set kvs. set (block_allocs b) \<subseteq> set (se_roots se)"
    and b: "batch_insert lops kvs (se_cache se, se_metrics se) = (c, m)"
  shows "engine_ok ops R lops I (se\<lparr>se_cache := c, se_metrics := m\<rparr>)"
proof (rule engine_ok_less [OF ok])
  have inv: "I (lru (se_cache se))" using ok by (simp add: engine_ok_def)
  from block_lru_map.batch_insert_spec [OF lru_ok inv b] obtain new where
    new: "subseq new kvs" "resident lops c = resident lops (se_cache se) @ new" and inv': "I (lru c)" by blast
  show "I (lru (se_cache (se\<lparr>se_cache := c, se_metrics := m\<rparr>)))" using inv' by simp
  have "set new \<subseteq> set kvs" using new(1) by (rule subseq_subset)
  show "referenced lops (se\<lparr>se_cache := c, se_metrics := m\<rparr>) \<subseteq> referenced lops se"
  proof
    fix a assume "a \<in> referenced lops (se\<lparr>se_cache := c, se_metrics := m\<rparr>)"
    then consider "a \<in> referenced lops se" | kb where "kb \<in> set new" "a \<in> set (block_allocs (snd kb))"
      unfolding referenced_def new(2)
      by (auto simp: new(2) outside_allocs_def outside_blocks_def)
    thus "a \<in> referenced lops se"
    proof cases
      case (2 kb)
      with \<open>set new \<subseteq> set kvs\<close> have "kb \<in> set kvs" by blast
      with held 2(2) have "a \<in> set (se_roots se)" by (cases kb) fastforce
      thus ?thesis by (simp add: referenced_def outside_allocs_def)
    qed
  qed
qed simp_all

lemma outside_less_ok:
  assumes ok: "engine_ok ops R lops I se" and h: "set h \<subseteq> set (se_held se)" and r: "set r \<subseteq> set (se_roots se)"
  shows "engine_ok ops R lops I (se\<lparr>se_held := h, se_roots := r\<rparr>)"
proof (rule engine_ok_less [OF ok])
  show "referenced lops (se\<lparr>se_held := h, se_roots := r\<rparr>) \<subseteq> referenced lops se"
    by (rule referenced_less) (use h r in \<open>auto simp: outside_blocks_def\<close>)
qed (use ok in \<open>simp_all add: engine_ok_def\<close>)

lemma hold_ok:
  assumes ok: "engine_ok ops R lops I se" and b: "(k, b) \<in> set (resident lops (se_cache se))"
  shows "engine_ok ops R lops I (se\<lparr>se_held := b # se_held se\<rparr>)"
proof (rule engine_ok_less [OF ok])
  show "referenced lops (se\<lparr>se_held := b # se_held se\<rparr>) \<subseteq> referenced lops se"
    by (rule referenced_less) (use b in \<open>force simp: outside_blocks_def\<close>)+
qed (use ok in \<open>simp_all add: engine_ok_def\<close>)

lemma engine_allocate_ends:
  assumes con: "raw_contract ops R" and lru_ok: "block_lru_map lops I" and ok: "engine_ok ops R lops I se"
    and pos: "0 < bytes" and node: "node = (case numa of Some n \<Rightarrow> n | None \<Rightarrow> NUMA_UNKNOWN)"
  obtains (Granted) g se' n se0 where "engine_allocate ops lops bytes numa se = Some (Some g, se')"
      "engine_ok ops R lops I se'" "reclaimed_to lops n se se0" "granted bytes g se0 se'" "engine_ok ops R lops I se0"
  | (Refused) n se0 where "engine_allocate ops lops bytes numa se = Some (None, count_alloc_failure se0)"
      "engine_ok ops R lops I (count_alloc_failure se0)" "reclaimed_to lops n se se0" "resident lops (se_cache se0) = []"
      "largest_free_allocation_for_node ops node (se_allocator se0) < bytes"
proof -
  obtain r se' n se0 where l: "allocate_loop ops lops bytes node se = Some (r, se')" "engine_ok ops R lops I se'"
    "reclaimed_to lops n se se0" "case r of Some g \<Rightarrow> granted bytes g se0 se' \<and> engine_ok ops R lops I se0
       | None \<Rightarrow> se' = count_alloc_failure se0 \<and> resident lops (se_cache se0) = []
           \<and> largest_free_allocation_for_node ops node (se_allocator se0) < bytes"
    using allocate_loop_ends [OF con lru_ok ok pos] by blast
  have e: "engine_allocate ops lops bytes numa se = Some (r, se')" using l(1) node by (simp add: engine_allocate_def)
  show ?thesis
  proof (cases r)
    case None
    with l e show ?thesis by (intro that(2) [of se0 n]) auto
  next
    case (Some g)
    with l e show ?thesis by (intro that(1) [of g se' n se0]) auto
  qed
qed

lemma engine_step_ok:
  assumes con: "raw_contract ops R" and lru_ok: "block_lru_map lops I" and step: "engine_step ops lops se se'"
    and ok: "engine_ok ops R lops I se"
  shows "engine_ok ops R lops I se'"
  using step
proof cases
  case (allocate bytes numa r)
  show ?thesis
    by (rule engine_allocate_ends [OF con lru_ok ok allocate(1) refl, of numa]) (use allocate(2) in auto)
next
  case (forget a)
  have "engine_ok ops R lops I (se\<lparr>se_held := se_held se, se_roots := remove1 a (se_roots se)\<rparr>)"
    by (rule outside_less_ok [OF ok]) (auto dest: set_remove1_subset [THEN subsetD])
  hence "engine_ok ops R lops I (se\<lparr>se_roots := remove1 a (se_roots se)\<rparr>)" by simp
  from drop_allocs_ok [OF con this] forget(1) show ?thesis by blast
next
  case (publish kvs c m)
  show ?thesis unfolding publish(1) by (rule publish_ok [OF lru_ok ok publish(2,3)])
next
  case (hold k b)
  show ?thesis unfolding hold(1) by (rule hold_ok [OF ok hold(2)])
next
  case (unhold b)
  have "engine_ok ops R lops I (se\<lparr>se_held := remove1 b (se_held se), se_roots := se_roots se\<rparr>)"
    by (rule outside_less_ok [OF ok]) (auto dest: set_remove1_subset [THEN subsetD])
  hence "engine_ok ops R lops I (se\<lparr>se_held := remove1 b (se_held se)\<rparr>)" by simp
  from drop_allocs_ok [OF con this] unhold(1) show ?thesis by blast
next
  case (serve keys found se1 now sid requester sid')
  show ?thesis by (rule serve_ok [OF lru_ok ok serve])
next
  case (release sid n)
  show ?thesis by (rule release_lock_ok [OF con ok release])
next
  case (expire now n)
  show ?thesis by (rule gc_locks_ok [OF con ok expire])
next
  case (cleanup stats)
  from cleanup_ok [OF con lru_ok ok cleanup] show ?thesis by blast
qed

lemma engine_steps_ok:
  assumes "raw_contract ops R" "block_lru_map lops I" "(engine_step ops lops)\<^sup>*\<^sup>* se se'" "engine_ok ops R lops I se"
  shows "engine_ok ops R lops I se'"
  using assms(3,4) by (induction rule: rtranclp_induct) (auto intro: engine_step_ok [OF assms(1,2)])

definition engine_new ::
    "'r pinned_allocator \<Rightarrow> core_metrics \<Rightarrow> 'l read_cache \<Rightarrow> command_channel option \<Rightarrow> duration \<Rightarrow> ('r, 'a, 'l) storage_engine" where
  "engine_new al m cache client lock_timeout' =
     \<lparr>se_allocator = al, se_cache = cache, se_client = client, se_locks = tl_new lock_timeout', se_metrics = m,
      se_live = [], se_held = [], se_roots = []\<rparr>"

lemma engine_new_ok:
  assumes "allocator_ok ops R al []" "I (lru cache)" "resident lops cache = []"
  shows "engine_ok ops R lops I (engine_new al m cache client t)"
  using assms
  by (simp add: engine_ok_def engine_new_def referenced_def outside_allocs_def outside_blocks_def
      locked_blocks_def tl_new_def)

lemma reachable_engine_ok:
  assumes con: "raw_contract ops R" and lru_ok: "block_lru_map lops I" and rgs: "regions_sized map_region"
    and new: "new_numa ops cap nodes n map_region hint m0 = Some (al, m)"
    and cache: "I (lru cache)" "resident lops cache = []"
    and run: "(engine_step ops lops)\<^sup>*\<^sup>* (engine_new al m cache client t) se"
  shows "engine_ok ops R lops I se"
proof -
  have "engine_ok ops R lops I (engine_new al m cache client t)"
    using new_numa_ok [OF con rgs new] cache by (intro engine_new_ok) blast+
  from engine_steps_ok [OF con lru_ok run this] show ?thesis .
qed

section \<open>Properties\<close>

text \<open>
  C4. Allocating with eviction always returns. Every round that does not return evicts at least one block, so a request
  ends with a fresh allocation or, once the cache is empty and the allocator still
  cannot serve it, with a failure that is counted once. Blocks go in least-recently-used
  order, the resident-bytes gauge follows, and transfer locks, held blocks and held allocations are untouched. A
  granted allocation covers the request and overlaps no other live allocation of its pool.
\<close>

theorem allocate_terminates:
  assumes con: "raw_contract ops R" and lru_ok: "block_lru_map lops I" and ok: "engine_ok ops R lops I se"
    and pos: "0 < bytes" and node: "node = (case numa of Some n \<Rightarrow> n | None \<Rightarrow> NUMA_UNKNOWN)"
  shows "\<exists>r se' n. engine_allocate ops lops bytes numa se = Some (r, se')
    \<and> resident lops (se_cache se') = drop n (resident lops (se_cache se))
    \<and> cache_resident_bytes (se_metrics se') - resident_bytes (resident lops (se_cache se'))
      = cache_resident_bytes (se_metrics se) - resident_bytes (resident lops (se_cache se))
    \<and> se_locks se' = se_locks se \<and> se_held se' = se_held se
    \<and> (case r of
         None \<Rightarrow> resident lops (se_cache se') = [] \<and> se_roots se' = se_roots se
           \<and> largest_free_allocation_for_node ops node (se_allocator se') < bytes
           \<and> pool_alloc_failures (se_metrics se') = pool_alloc_failures (se_metrics se) + 1
       | Some g \<Rightarrow> bytes \<le> size_of g \<and> se_roots se' = pinned_of g # se_roots se
           \<and> pool_alloc_failures (se_metrics se') = pool_alloc_failures (se_metrics se)
           \<and> (\<exists>L. se_live se' = g # L
               \<and> (\<forall>h \<in> set L. g_pool h = g_pool g \<longrightarrow> apart (g_ptr g) (size_of g) (g_ptr h) (size_of h))))"
proof (rule engine_allocate_ends [OF con lru_ok ok pos node])
  fix g se' n se0
  assume g: "engine_allocate ops lops bytes numa se = Some (Some g, se')" "engine_ok ops R lops I se'"
    "reclaimed_to lops n se se0" "granted bytes g se0 se'"
  have live: "se_live se' = g # se_live se0" using g(4) by (simp add: granted_def)
  have al: "allocator_ok ops R (se_allocator se') (g # se_live se0)" using g(2) live by (simp add: engine_ok_def)
  have "apart (g_ptr g) (size_of g) (g_ptr h) (size_of h)" if h: "h \<in> set (se_live se0)" "g_pool h = g_pool g" for h
  proof -
    obtain j where "j < length (se_live se0)" "h = se_live se0 ! j" using h(1) by (auto simp: in_set_conv_nth)
    with allocator_ok_apart [OF al, of 0 "Suc j"] h(2) show ?thesis by simp
  qed
  note apart = this
  note r = reclaimed_toD [OF g(3)]
  note gr = g(4) [unfolded granted_def]
  have same: "se_cache se' = se_cache se0" "se_locks se' = se_locks se0" "se_held se' = se_held se0"
    "se_roots se' = pinned_of g # se_roots se0" "bytes \<le> size_of g"
    "cache_resident_bytes (se_metrics se') = cache_resident_bytes (se_metrics se0)"
    "pool_alloc_failures (se_metrics se') = pool_alloc_failures (se_metrics se0)" using gr by blast+
  have some: "bytes \<le> size_of g \<and> se_roots se' = pinned_of g # se_roots se
      \<and> pool_alloc_failures (se_metrics se') = pool_alloc_failures (se_metrics se)
      \<and> (\<exists>L. se_live se' = g # L
          \<and> (\<forall>h \<in> set L. g_pool h = g_pool g \<longrightarrow> apart (g_ptr g) (size_of g) (g_ptr h) (size_of h)))"
  proof (intro conjI exI)
    show "bytes \<le> size_of g" by (rule same(5))
    show "se_roots se' = pinned_of g # se_roots se" unfolding same(4) r(4) ..
    show "pool_alloc_failures (se_metrics se') = pool_alloc_failures (se_metrics se)" unfolding same(7) r(6) ..
    show "se_live se' = g # se_live se0" by (rule live)
    show "\<forall>h \<in> set (se_live se0). g_pool h = g_pool g \<longrightarrow> apart (g_ptr g) (size_of g) (g_ptr h) (size_of h)"
      using apart by blast
  qed
  show ?thesis
  proof (intro exI conjI)
    show "engine_allocate ops lops bytes numa se = Some (Some g, se')" by (rule g(1))
    show "resident lops (se_cache se') = drop n (resident lops (se_cache se))" unfolding same(1) by (rule r(1))
    show "cache_resident_bytes (se_metrics se') - resident_bytes (resident lops (se_cache se'))
      = cache_resident_bytes (se_metrics se) - resident_bytes (resident lops (se_cache se))"
      unfolding same(1,6) by (rule r(5))
    show "se_locks se' = se_locks se" unfolding same(2) by (rule r(2))
    show "se_held se' = se_held se" unfolding same(3) by (rule r(3))
  qed (unfold option.case, rule some)
next
  fix n se0
  assume f: "engine_allocate ops lops bytes numa se = Some (None, count_alloc_failure se0)" "reclaimed_to lops n se se0"
    "resident lops (se_cache se0) = []" "largest_free_allocation_for_node ops node (se_allocator se0) < bytes"
  note r = reclaimed_toD [OF f(2)]
  have same: "se_cache (count_alloc_failure se0) = se_cache se0" "se_locks (count_alloc_failure se0) = se_locks se0"
    "se_held (count_alloc_failure se0) = se_held se0" "se_roots (count_alloc_failure se0) = se_roots se0"
    "se_allocator (count_alloc_failure se0) = se_allocator se0"
    "cache_resident_bytes (se_metrics (count_alloc_failure se0)) = cache_resident_bytes (se_metrics se0)"
    "pool_alloc_failures (se_metrics (count_alloc_failure se0)) = pool_alloc_failures (se_metrics se0) + 1"
    by (simp_all add: count_alloc_failure_def)
  have none: "resident lops (se_cache (count_alloc_failure se0)) = [] \<and> se_roots (count_alloc_failure se0) = se_roots se
      \<and> largest_free_allocation_for_node ops node (se_allocator (count_alloc_failure se0)) < bytes
      \<and> pool_alloc_failures (se_metrics (count_alloc_failure se0)) = pool_alloc_failures (se_metrics se) + 1"
    unfolding same r(4,6) by (intro conjI f(3,4) refl)
  show ?thesis
  proof (intro exI conjI)
    show "engine_allocate ops lops bytes numa se = Some (None, count_alloc_failure se0)" by (rule f(1))
    show "resident lops (se_cache (count_alloc_failure se0)) = drop n (resident lops (se_cache se))"
      unfolding same(1) by (rule r(1))
    show "cache_resident_bytes (se_metrics (count_alloc_failure se0))
        - resident_bytes (resident lops (se_cache (count_alloc_failure se0)))
      = cache_resident_bytes (se_metrics se) - resident_bytes (resident lops (se_cache se))"
      unfolding same(1,6) by (rule r(5))
    show "se_locks (count_alloc_failure se0) = se_locks se" unfolding same(2) by (rule r(2))
    show "se_held (count_alloc_failure se0) = se_held se" unfolding same(3) by (rule r(3))
  qed (unfold option.case, rule none)
qed

section \<open>An example\<close>

text \<open>An engine whose cache holds one block in one of the example's allocations.\<close>

definition ex_block :: sealed_block where
  "ex_block = from_slots [(single_segment \<lparr>seg_ptr = \<lparr>host = 66560, device = 1024\<rparr>, seg_size = 512,
     seg_alloc = pinned_of (ex_guard 2 1)\<rparr>, 0)]"

definition ex_cache :: "((block_key \<times> sealed_block) list) read_cache" where
  "ex_cache = \<lparr>lru = [], freq = None\<rparr>"

definition ex_engine :: "(ff, nat \<times> nat, (block_key \<times> sealed_block) list) storage_engine" where
  "ex_engine = \<lparr>se_allocator = ex_allocator [(2, 1)] 2, se_cache = ex_cache\<lparr>lru := [(mk_key ''m'' [1], ex_block)]\<rparr>,
     se_client = None, se_locks = tl_new 0, se_metrics = ex_gauge 512, se_live = [ex_guard 2 1], se_held = [],
     se_roots = []\<rparr>"

lemma ex_engine_ok: "engine_ok ff_ops ff_rel list_lru_ops (\<lambda>xs. distinct (map fst xs)) ex_engine"
proof -
  have "alloc_inv ff_ops ff_rel 0 (ex_allocator [(2, 1)] 2, [ex_guard 2 1], ex_gauge 512)"
    using new_numa_ok [OF ff_contract ex_regions_sized ex_created]
    by (intro alloc_inv_reachable [OF ff_contract ex_history]) (simp add: alloc_inv_def ex_gauge_def)
  thus ?thesis
    by (simp add: alloc_inv_def engine_ok_def ex_engine_def ex_cache_def referenced_def outside_allocs_def
        outside_blocks_def locked_blocks_def tl_new_def resident_def list_lru_ops_def ex_block_def from_slots_def
        single_segment_def block_allocs_def)
qed

theorem allocate_terminates_witness:
  "\<exists>r se'. engine_allocate ff_ops list_lru_ops 2048 (Some 0) ex_engine = Some (r, se')"
proof -
  have "0 < (2048 :: u64)" "0 = (case Some (0 :: numa_node) of Some n \<Rightarrow> n | None \<Rightarrow> NUMA_UNKNOWN)" by simp_all
  from allocate_terminates [OF ff_contract list_blocks.block_lru_map_axioms ex_engine_ok this] show ?thesis by blast
qed

end
