(* ===== verification/Meta_Store.thy ===== *)
theory Meta_Store
  imports Pega_Prelude
begin

text \<open>
  The MetaServer's registry of block owners, \<^verbatim>\<open>pegaflow-metaserver/src/store.rs\<close>: which node holds
  which block, and which session currently speaks for a node. Each operation
  takes the instants it reads from the clock as arguments; an operation is one atomic step.
\<close>

section \<open>Data\<close>

type_synonym uuid = "128 word"

record prefix_entry =
  block_hash :: "byte list"
  entry_nodes :: "string list"

record store_config =
  node_stale_after :: duration
  store_ttl :: duration

record sweep_stats =
  removed_owners :: usize
  removed_keys :: usize
  removed_nodes :: usize

record redundancy_snapshot =
  keys_1 :: u64
  keys_2 :: u64
  keys_3 :: u64
  keys_4plus :: u64
  copies :: u64

datatype store_error = UnknownNode | StaleSession

record owner_record =
  o_node_id :: uuid
  key_register_time :: instant

record node_record =
  n_node_id :: uuid
  last_seen :: instant

record owner_eval =
  ev_keep :: bool
  ev_visible :: bool

type_synonym owners = "(string, owner_record) hmap"

record block_hash_store =
  s_blocks :: "(block_key, owners) hmap"
  s_nodes :: "(string, node_record) hmap"
  s_config :: store_config
  s_redundancy :: redundancy_snapshot

definition snapshot_zero :: redundancy_snapshot where
  "snapshot_zero = \<lparr>keys_1 = 0, keys_2 = 0, keys_3 = 0, keys_4plus = 0, copies = 0\<rparr>"

definition stats_zero :: sweep_stats where
  "stats_zero = \<lparr>removed_owners = 0, removed_keys = 0, removed_nodes = 0\<rparr>"

definition stats_is_empty :: "sweep_stats \<Rightarrow> bool" where
  "stats_is_empty s = (removed_owners s = 0 \<and> removed_keys s = 0 \<and> removed_nodes s = 0)"

definition snapshot_record :: "u64 \<Rightarrow> redundancy_snapshot \<Rightarrow> redundancy_snapshot" where
  "snapshot_record visible_owners s =
     (let s' = (if visible_owners = 0 then s
                else if visible_owners = 1 then s\<lparr>keys_1 := keys_1 s + 1\<rparr>
                else if visible_owners = 2 then s\<lparr>keys_2 := keys_2 s + 1\<rparr>
                else if visible_owners = 3 then s\<lparr>keys_3 := keys_3 s + 1\<rparr>
                else s\<lparr>keys_4plus := keys_4plus s + 1\<rparr>)
      in s'\<lparr>copies := copies s' + visible_owners\<rparr>)"

section \<open>Operations\<close>

definition store_with_config :: "store_config \<Rightarrow> block_hash_store" where
  "store_with_config c = \<lparr>s_blocks = [], s_nodes = [], s_config = c, s_redundancy = snapshot_zero\<rparr>"

definition store_with_ttl :: "u64 \<Rightarrow> block_hash_store" where
  "store_with_ttl ttl_minutes =
     store_with_config \<lparr>node_stale_after = 30 * 10 ^ 9, store_ttl = wrapping_mul ttl_minutes 60 * 10 ^ 9\<rparr>"

definition eval_owner ::
    "store_config \<Rightarrow> (string, node_record) hmap \<Rightarrow> instant \<Rightarrow> string \<Rightarrow> owner_record \<Rightarrow> owner_eval" where
  "eval_owner cfg nodes now node own =
     (case hm_get nodes node of
        None \<Rightarrow> \<lparr>ev_keep = False, ev_visible = False\<rparr>
      | Some record \<Rightarrow>
          let node_age = duration_since now (last_seen record)
          in \<lparr>ev_keep = (duration_since now (key_register_time own) \<le> store_ttl cfg \<and> node_age \<le> store_ttl cfg),
              ev_visible = (n_node_id record = o_node_id own \<and> node_age \<le> node_stale_after cfg)\<rparr>)"

definition is_owner_visible :: "block_hash_store \<Rightarrow> instant \<Rightarrow> string \<Rightarrow> owner_record \<Rightarrow> bool" where
  "is_owner_visible st now node own = ev_visible (eval_owner (s_config st) (s_nodes st) now node own)"

definition heartbeat_node ::
    "instant \<Rightarrow> string \<Rightarrow> uuid \<Rightarrow> block_hash_store \<Rightarrow> (store_error + unit) \<times> block_hash_store" where
  "heartbeat_node now node node_id st =
     (case hm_get (s_nodes st) node of
        None \<Rightarrow>
          (Inr (), st\<lparr>s_nodes := hm_insert node \<lparr>n_node_id = node_id, last_seen = now\<rparr> (s_nodes st)\<rparr>)
      | Some record \<Rightarrow>
          let same_session = (n_node_id record = node_id);
              stale_session = (duration_since now (last_seen record) > node_stale_after (s_config st))
          in if same_session \<or> stale_session
             then (Inr (), st\<lparr>s_nodes := hm_insert node \<lparr>n_node_id = node_id, last_seen = now\<rparr> (s_nodes st)\<rparr>)
             else (Inl StaleSession, st))"

definition touch_node_session ::
    "instant \<Rightarrow> string \<Rightarrow> uuid \<Rightarrow> block_hash_store \<Rightarrow> (store_error + unit) \<times> block_hash_store" where
  "touch_node_session now node node_id st =
     (case hm_get (s_nodes st) node of
        None \<Rightarrow> (Inl UnknownNode, st)
      | Some record \<Rightarrow>
          if n_node_id record \<noteq> node_id then (Inl StaleSession, st)
          else (Inr (), st\<lparr>s_nodes := hm_insert node (record\<lparr>last_seen := now\<rparr>) (s_nodes st)\<rparr>))"

text \<open>Dropping an owner of this session from one key; the flag counts it.\<close>

definition drop_owner :: "string \<Rightarrow> uuid \<Rightarrow> owners \<Rightarrow> bool \<times> owners" where
  "drop_owner node node_id os =
     (case hm_get os node of
        None \<Rightarrow> (False, os)
      | Some own \<Rightarrow> if o_node_id own = node_id then (True, hm_remove node os) else (False, os))"

fun remove_node_owners ::
    "string \<Rightarrow> uuid \<Rightarrow> (block_key, owners) hmap \<Rightarrow> usize \<times> (block_key, owners) hmap" where
  "remove_node_owners node node_id [] = (0, [])"
| "remove_node_owners node node_id ((k, os) # rest) =
     (let (hit, os') = drop_owner node node_id os;
          (n, rest') = remove_node_owners node node_id rest
      in ((if hit then 1 else 0) + n, if os' = [] then rest' else (k, os') # rest'))"

definition unregister_node ::
    "string \<Rightarrow> uuid \<Rightarrow> block_hash_store \<Rightarrow> (store_error + usize) \<times> block_hash_store" where
  "unregister_node node node_id st =
     (case hm_get (s_nodes st) node of
        None \<Rightarrow> (Inl UnknownNode, st)
      | Some record \<Rightarrow>
          if n_node_id record \<noteq> node_id then (Inl StaleSession, st)
          else let (n, bs) = remove_node_owners node node_id (s_blocks st)
               in (Inr n, st\<lparr>s_nodes := hm_remove node (s_nodes st), s_blocks := bs\<rparr>))"

definition or_default :: "block_key \<Rightarrow> (block_key, owners) hmap \<Rightarrow> owners" where
  "or_default k bs = (case hm_get bs k of None \<Rightarrow> [] | Some os \<Rightarrow> os)"

definition insert_owner :: "string \<Rightarrow> owner_record \<Rightarrow> block_key \<Rightarrow> (block_key, owners) hmap \<Rightarrow> (block_key, owners) hmap" where
  "insert_owner node own k bs = hm_insert k (hm_insert node own (or_default k bs)) bs"

definition insert_hashes ::
    "instant \<Rightarrow> instant \<Rightarrow> string \<Rightarrow> byte list list \<Rightarrow> string \<Rightarrow> uuid \<Rightarrow> block_hash_store \<Rightarrow>
     (store_error + usize) \<times> block_hash_store" where
  "insert_hashes now_touch now ns hashes node node_id st =
     (case touch_node_session now_touch node node_id st of
        (Inl e, st') \<Rightarrow> (Inl e, st')
      | (Inr _, st') \<Rightarrow>
          (Inr (length hashes),
           st'\<lparr>s_blocks := foldl (\<lambda>bs h. insert_owner node \<lparr>o_node_id = node_id, key_register_time = now\<rparr> (mk_key ns h) bs)
                (s_blocks st') hashes\<rparr>))"

definition remove_owner ::
    "string \<Rightarrow> uuid \<Rightarrow> block_key \<Rightarrow> (block_key, owners) hmap \<Rightarrow> usize \<times> (block_key, owners) hmap" where
  "remove_owner node node_id k bs =
     (case hm_get bs k of
        None \<Rightarrow> (0, bs)
      | Some os \<Rightarrow>
          let (hit, os') = drop_owner node node_id os
          in ((if hit then 1 else 0), if os' = [] then hm_remove k bs else hm_insert k os' bs))"

fun remove_owners ::
    "string \<Rightarrow> uuid \<Rightarrow> block_key list \<Rightarrow> usize \<Rightarrow> (block_key, owners) hmap \<Rightarrow> usize \<times> (block_key, owners) hmap" where
  "remove_owners node node_id [] n bs = (n, bs)"
| "remove_owners node node_id (k # ks) n bs =
     (let (m, bs') = remove_owner node node_id k bs in remove_owners node node_id ks (n + m) bs')"

definition remove_hashes ::
    "instant \<Rightarrow> string \<Rightarrow> byte list list \<Rightarrow> string \<Rightarrow> uuid \<Rightarrow> block_hash_store \<Rightarrow>
     (store_error + usize) \<times> block_hash_store" where
  "remove_hashes now ns hashes node node_id st =
     (case touch_node_session now node node_id st of
        (Inl e, st') \<Rightarrow> (Inl e, st')
      | (Inr _, st') \<Rightarrow>
          let (n, bs) = remove_owners node node_id (map (mk_key ns) hashes) 0 (s_blocks st')
          in (Inr n, st'\<lparr>s_blocks := bs\<rparr>))"

definition live_nodes :: "block_hash_store \<Rightarrow> instant \<Rightarrow> owners \<Rightarrow> string list" where
  "live_nodes st now os = map fst (filter (\<lambda>(node, own). is_owner_visible st now node own) os)"

definition query_entry :: "block_hash_store \<Rightarrow> instant \<Rightarrow> string \<Rightarrow> byte list \<Rightarrow> prefix_entry option" where
  "query_entry st now ns h =
     (case hm_get (s_blocks st) (mk_key ns h) of
        None \<Rightarrow> None
      | Some os \<Rightarrow>
          if live_nodes st now os = [] then None
          else Some \<lparr>block_hash = h, entry_nodes = live_nodes st now os\<rparr>)"

definition query_prefix :: "instant \<Rightarrow> string \<Rightarrow> byte list list \<Rightarrow> block_hash_store \<Rightarrow> prefix_entry list" where
  "query_prefix now ns hashes st = map_while (query_entry st now ns) hashes"

text \<open>The walk over the keys of a sweep: the kept keys, the counts and the snapshot.\<close>

fun sweep_blocks ::
    "(string \<Rightarrow> owner_record \<Rightarrow> owner_eval) \<Rightarrow> (block_key, owners) hmap \<Rightarrow> sweep_stats \<Rightarrow> redundancy_snapshot \<Rightarrow>
     (block_key, owners) hmap \<times> sweep_stats \<times> redundancy_snapshot" where
  "sweep_blocks ev [] stats snap = ([], stats, snap)"
| "sweep_blocks ev ((k, os) # rest) stats snap =
     (let os' = filter (\<lambda>(node, own). ev_keep (ev node own)) os;
          visible = length (filter (\<lambda>(node, own). ev_keep (ev node own) \<and> ev_visible (ev node own)) os);
          stats' = stats\<lparr>removed_owners := removed_owners stats + saturating_sub (length os) (length os')\<rparr>
      in if os' = [] then sweep_blocks ev rest (stats'\<lparr>removed_keys := removed_keys stats' + 1\<rparr>) snap
         else let (bs, st, sn) = sweep_blocks ev rest stats' (snapshot_record visible snap)
              in ((k, os') # bs, st, sn))"

definition node_alive :: "duration \<Rightarrow> instant \<Rightarrow> node_record \<Rightarrow> bool" where
  "node_alive ttl now record = (duration_since now (last_seen record) \<le> ttl)"

definition store_sweep_expired :: "instant \<Rightarrow> block_hash_store \<Rightarrow> sweep_stats \<times> block_hash_store" where
  "store_sweep_expired now st =
     (let (bs, stats, snap) =
            sweep_blocks (eval_owner (s_config st) (s_nodes st) now) (s_blocks st) stats_zero snapshot_zero;
          ns = sweep (node_alive (store_ttl (s_config st))) now (s_nodes st)
      in (stats\<lparr>removed_nodes := saturating_sub (length (s_nodes st)) (length ns)\<rparr>,
          st\<lparr>s_blocks := bs, s_nodes := ns, s_redundancy := snap\<rparr>))"

definition entry_count :: "block_hash_store \<Rightarrow> u64" where
  "entry_count st = length (s_blocks st)"

definition owner_count :: "block_hash_store \<Rightarrow> u64" where
  "owner_count st = sum_list (map (\<lambda>(k, os). length os) (s_blocks st))"

definition node_counts :: "instant \<Rightarrow> block_hash_store \<Rightarrow> u64 \<times> u64" where
  "node_counts now st =
     (let age = (\<lambda>(n, record). duration_since now (last_seen record));
          fresh = (\<lambda>x. age x \<le> node_stale_after (s_config st))
      in (length (filter fresh (s_nodes st)),
          length (filter (\<lambda>x. \<not> fresh x \<and> age x \<le> store_ttl (s_config st)) (s_nodes st))))"

definition invalidate_all :: "block_hash_store \<Rightarrow> block_hash_store" where
  "invalidate_all st = st\<lparr>s_blocks := [], s_nodes := [], s_redundancy := snapshot_zero\<rparr>"

interpretation node_expiry: expiring "node_alive ttl"
  by unfold_locales (auto simp: node_alive_def duration_since_def)

section \<open>The registry as one partial function\<close>

text \<open>Who owns a key, whatever the nesting of the maps.\<close>

definition owner_of :: "(block_key, owners) hmap \<Rightarrow> block_key \<Rightarrow> string \<Rightarrow> owner_record option" where
  "owner_of bs k n = (case hm_get bs k of None \<Rightarrow> None | Some os \<Rightarrow> hm_get os n)"

definition blocks_wf :: "(block_key, owners) hmap \<Rightarrow> bool" where
  "blocks_wf bs = (hm_wf bs \<and> list_all (\<lambda>(k, os). os \<noteq> [] \<and> hm_wf os) bs)"

text \<open>Rewriting the owners of every key and dropping the keys that lose their last owner.\<close>

definition compact :: "(owners \<Rightarrow> owners) \<Rightarrow> (block_key, owners) hmap \<Rightarrow> (block_key, owners) hmap" where
  "compact f bs = filter (\<lambda>(k, os). os \<noteq> []) (map (\<lambda>(k, os). (k, f os)) bs)"

lemma compact_simps [simp]:
  "compact f [] = []"
  "compact f ((k, os) # bs) = (if f os = [] then compact f bs else (k, f os) # compact f bs)"
  by (simp_all add: compact_def)

lemma compact_keys: "fst ` set (compact f bs) \<subseteq> fst ` set bs"
  by (force simp: compact_def)

lemma compact_get:
  "hm_wf bs \<Longrightarrow> hm_get (compact f bs) k =
     (case hm_get bs k of None \<Rightarrow> None | Some os \<Rightarrow> if f os = [] then None else Some (f os))"
proof (induction bs)
  case (Cons kv bs)
  obtain k' os where [simp]: "kv = (k', os)" by force
  have "hm_get (compact f bs) k' = None"
    using Cons.prems compact_keys[of f bs] by (auto simp: map_of_eq_None_iff)
  then show ?case using Cons by (auto split: option.splits)
qed simp

lemma compact_owner:
  "hm_wf bs \<Longrightarrow> owner_of (compact f bs) k n =
     (case hm_get bs k of None \<Rightarrow> None | Some os \<Rightarrow> hm_get (f os) n)"
  by (auto simp: owner_of_def compact_get split: option.splits)

lemma compact_wf:
  assumes "blocks_wf bs" and "\<And>os. hm_wf os \<Longrightarrow> hm_wf (f os)"
  shows "blocks_wf (compact f bs)"
  using assms(1)
proof (induction bs)
  case (Cons kv bs)
  obtain k os where [simp]: "kv = (k, os)" by force
  have "k \<notin> fst ` set (compact f bs)" if "k \<notin> fst ` set bs" using that compact_keys by blast
  then show ?case using Cons assms(2)[of os] by (auto simp: blocks_wf_def)
qed (simp add: blocks_wf_def)

lemma blocks_wf_get: "blocks_wf bs \<Longrightarrow> hm_get bs k = Some os \<Longrightarrow> os \<noteq> [] \<and> hm_wf os"
  by (auto simp: blocks_wf_def list_all_iff dest!: map_of_SomeD)

lemma blocks_wf_hm: "blocks_wf bs \<Longrightarrow> hm_wf bs"
  by (simp add: blocks_wf_def)

lemma insert_not_empty [simp]: "hm_insert k v m \<noteq> []"
  by (cases m) auto

lemma blocks_wf_insert: "blocks_wf bs \<Longrightarrow> os \<noteq> [] \<Longrightarrow> hm_wf os \<Longrightarrow> blocks_wf (hm_insert k os bs)"
  by (auto simp: blocks_wf_def)

lemma blocks_wf_remove: "blocks_wf bs \<Longrightarrow> blocks_wf (hm_remove k bs)"
  by (auto simp: blocks_wf_def)

section \<open>Operations on the partial function\<close>

lemma insert_owner_wf: "blocks_wf bs \<Longrightarrow> blocks_wf (insert_owner n own k bs)"
  by (auto simp: insert_owner_def or_default_def intro!: blocks_wf_insert dest: blocks_wf_get split: option.splits)

lemma insert_owner_owner:
  "owner_of (insert_owner n own k bs) = (owner_of bs)(k := (owner_of bs k)(n \<mapsto> own))"
  by (auto simp: insert_owner_def or_default_def owner_of_def fun_eq_iff hm_get_insert split: option.splits)

definition drop_from :: "string \<Rightarrow> uuid \<Rightarrow> (string \<rightharpoonup> owner_record) \<Rightarrow> (string \<rightharpoonup> owner_record)" where
  "drop_from n uid m = (if \<exists>own. m n = Some own \<and> o_node_id own = uid then m(n := None) else m)"

lemma drop_owner_get: "hm_get (snd (drop_owner n uid os)) = drop_from n uid (hm_get os)"
  by (auto simp: drop_owner_def drop_from_def hm_get_remove fun_eq_iff split: option.splits)

lemma drop_owner_fst: "fst (drop_owner n uid os) \<longleftrightarrow> (\<exists>own. hm_get os n = Some own \<and> o_node_id own = uid)"
  by (auto simp: drop_owner_def split: option.splits)

lemma drop_owner_wf: "hm_wf os \<Longrightarrow> hm_wf (snd (drop_owner n uid os))"
  by (auto simp: drop_owner_def split: option.splits)

lemma drop_from_empty [simp]: "drop_from n uid (\<lambda>_. None) = (\<lambda>_. None)"
  by (simp add: drop_from_def)

lemma drop_from_idem [simp]: "drop_from n uid (drop_from n uid m) = drop_from n uid m"
  by (auto simp: drop_from_def)

lemma owner_of_at: "owner_of bs k = (case hm_get bs k of None \<Rightarrow> (\<lambda>_. None) | Some os \<Rightarrow> hm_get os)"
  by (auto simp: owner_of_def fun_eq_iff split: option.splits)

lemma remove_owner_owner:
  "owner_of (snd (remove_owner n uid k bs)) = (owner_of bs)(k := drop_from n uid (owner_of bs k))"
proof (rule ext)
  fix k'
  show "owner_of (snd (remove_owner n uid k bs)) k' = ((owner_of bs)(k := drop_from n uid (owner_of bs k))) k'"
  proof (cases "hm_get bs k")
    case None
    then show ?thesis by (simp add: remove_owner_def owner_of_at)
  next
    case (Some os)
    have e: "hm_get (snd (drop_owner n uid os)) = drop_from n uid (hm_get os)" by (rule drop_owner_get)
    have "drop_from n uid (hm_get os) = (\<lambda>_. None)" if "snd (drop_owner n uid os) = []"
      using e unfolding that by simp
    then show ?thesis
      using Some e by (auto simp: remove_owner_def owner_of_at case_prod_beta hm_get_insert hm_get_remove)
  qed
qed

lemma remove_owner_wf: "blocks_wf bs \<Longrightarrow> blocks_wf (snd (remove_owner n uid k bs))"
  using drop_owner_wf
  by (auto simp: remove_owner_def case_prod_beta intro!: blocks_wf_insert blocks_wf_remove
      dest: blocks_wf_get split: option.splits)

text \<open>The keys a session owns.\<close>

definition owned_keys :: "string \<Rightarrow> uuid \<Rightarrow> (block_key \<Rightarrow> string \<rightharpoonup> owner_record) \<Rightarrow> block_key set" where
  "owned_keys n uid f = {k. \<exists>own. f k n = Some own \<and> o_node_id own = uid}"

lemma remove_owner_count:
  "fst (remove_owner n uid k bs) = (if k \<in> owned_keys n uid (owner_of bs) then 1 else 0)"
  by (auto simp: remove_owner_def owned_keys_def owner_of_def case_prod_beta drop_owner_fst split: option.splits)

lemma owned_keys_drop:
  "owned_keys n uid (f(k := drop_from n uid (f k))) = owned_keys n uid f - {k}"
  by (auto simp: owned_keys_def drop_from_def)

lemma remove_owners_spec:
  assumes "blocks_wf bs"
  shows "blocks_wf (snd (remove_owners n uid ks c bs))
    \<and> fst (remove_owners n uid ks c bs) = c + card (set ks \<inter> owned_keys n uid (owner_of bs))
    \<and> owner_of (snd (remove_owners n uid ks c bs))
        = (\<lambda>k. if k \<in> set ks then drop_from n uid (owner_of bs k) else owner_of bs k)"
  using assms
proof (induction ks arbitrary: c bs)
  case (Cons k ks)
  let ?bs = "snd (remove_owner n uid k bs)" and ?c = "c + fst (remove_owner n uid k bs)"
  note IH = Cons.IH[OF remove_owner_wf[OF Cons.prems, of n uid k], of ?c]
  have r: "remove_owners n uid (k # ks) c bs = remove_owners n uid ks ?c ?bs"
    by (simp add: case_prod_beta)
  have o: "owned_keys n uid (owner_of ?bs) = owned_keys n uid (owner_of bs) - {k}"
    by (simp only: remove_owner_owner owned_keys_drop)
  have card: "?c + card (set ks \<inter> owned_keys n uid (owner_of ?bs))
      = c + card (set (k # ks) \<inter> owned_keys n uid (owner_of bs))"
  proof (cases "k \<in> owned_keys n uid (owner_of bs)")
    case True
    have "set (k # ks) \<inter> owned_keys n uid (owner_of bs)
        = insert k (set ks \<inter> (owned_keys n uid (owner_of bs) - {k}))" using True by auto
    then show ?thesis using True by (simp add: o remove_owner_count)
  next
    case False
    have "set (k # ks) \<inter> owned_keys n uid (owner_of bs)
        = set ks \<inter> (owned_keys n uid (owner_of bs) - {k})" using False by auto
    then show ?thesis using False by (simp add: o remove_owner_count)
  qed
  have own: "(\<lambda>k'. if k' \<in> set ks then drop_from n uid (owner_of ?bs k') else owner_of ?bs k')
      = (\<lambda>k'. if k' \<in> set (k # ks) then drop_from n uid (owner_of bs k') else owner_of bs k')"
    by (auto simp: remove_owner_owner fun_eq_iff)
  show ?case unfolding r using IH card own by simp
qed simp

lemma remove_node_owners_compact:
  "snd (remove_node_owners n uid bs) = compact (\<lambda>os. snd (drop_owner n uid os)) bs"
  by (induction bs) (auto simp: case_prod_beta Let_def)

lemma remove_node_owners_count:
  "hm_wf bs \<Longrightarrow> fst (remove_node_owners n uid bs) = card (owned_keys n uid (owner_of bs))"
proof (induction bs)
  case Nil
  then show ?case by (simp add: owned_keys_def owner_of_def)
next
  case (Cons kv bs)
  obtain k os where kv: "kv = (k, os)" by force
  have fin: "finite (owned_keys n uid (owner_of bs))"
  proof (rule finite_subset)
    show "owned_keys n uid (owner_of bs) \<subseteq> fst ` set bs"
      by (force simp: owned_keys_def owner_of_def split: option.splits dest: map_of_SomeD)
  qed simp
  have no: "k \<notin> owned_keys n uid (owner_of bs)"
  proof -
    have "hm_get bs k = None" using Cons.prems kv by (simp add: map_of_eq_None_iff)
    then show ?thesis by (simp add: owned_keys_def owner_of_def)
  qed
  have "owned_keys n uid (owner_of (kv # bs))
      = (if fst (drop_owner n uid os) then insert k (owned_keys n uid (owner_of bs)) else owned_keys n uid (owner_of bs))"
    using no kv by (auto simp: owned_keys_def owner_of_def drop_owner_fst)
  then show ?case using Cons kv fin no by (simp add: case_prod_beta Let_def)
qed

lemma remove_node_owners_owner:
  "hm_wf bs \<Longrightarrow> owner_of (snd (remove_node_owners n uid bs)) = (\<lambda>k. drop_from n uid (owner_of bs k))"
  by (rule ext)+ (simp only: remove_node_owners_compact compact_owner drop_owner_get,
      simp add: owner_of_at split: option.splits)

lemma remove_node_owners_wf: "blocks_wf bs \<Longrightarrow> blocks_wf (snd (remove_node_owners n uid bs))"
  by (simp add: remove_node_owners_compact compact_wf drop_owner_wf)

lemma sweep_blocks_compact:
  "fst (sweep_blocks ev bs stats snap) = compact (hm_retain (\<lambda>node own. ev_keep (ev node own))) bs"
  by (induction ev bs stats snap rule: sweep_blocks.induct) (auto simp: Let_def case_prod_beta hm_retain_def)

lemma sweep_blocks_wf: "blocks_wf bs \<Longrightarrow> blocks_wf (fst (sweep_blocks ev bs stats snap))"
  by (simp add: sweep_blocks_compact compact_wf)

lemma sweep_blocks_owner:
  assumes "blocks_wf bs"
  shows "owner_of (fst (sweep_blocks ev bs stats snap)) k n =
     (case owner_of bs k n of None \<Rightarrow> None | Some own \<Rightarrow> if ev_keep (ev n own) then Some own else None)"
proof -
  have "owner_of (fst (sweep_blocks ev bs stats snap)) k n = (case hm_get bs k of None \<Rightarrow> None
      | Some os \<Rightarrow> hm_get (hm_retain (\<lambda>node own. ev_keep (ev node own)) os) n)"
    using blocks_wf_hm[OF assms] by (simp only: sweep_blocks_compact compact_owner)
  then show ?thesis
    using blocks_wf_get[OF assms, of k] by (auto simp: owner_of_def hm_get_retain split: option.splits)
qed

lemma insert_fold_wf: "blocks_wf bs \<Longrightarrow> blocks_wf (foldl (\<lambda>bs h. insert_owner n own (mk_key ns h) bs) bs hs)"
  by (induction hs arbitrary: bs) (auto simp: insert_owner_wf)

lemma insert_fold_owner:
  "owner_of (foldl (\<lambda>bs h. insert_owner n own (mk_key ns h) bs) bs hs)
     = (\<lambda>k. if k \<in> mk_key ns ` set hs then (owner_of bs k)(n \<mapsto> own) else owner_of bs k)"
  by (induction hs arbitrary: bs) (auto simp: insert_owner_owner fun_eq_iff)

section \<open>Refinement of an ownership registry\<close>

datatype store_op =
    Heartbeat string uuid
  | Unregister string uuid
  | InsertHashes instant string "byte list list" string uuid
  | RemoveHashes string "byte list list" string uuid
  | QueryPrefix string "byte list list"
  | SweepExpired

datatype store_result =
    Ack "store_error + usize"
  | Found "(byte list \<times> string set) list"
  | Swept

definition ack :: "(store_error + unit) \<times> 's \<Rightarrow> store_result \<times> 's" where
  "ack = (\<lambda>(r, s). (Ack (case r of Inl e \<Rightarrow> Inl e | Inr _ \<Rightarrow> Inr 0), s))"

fun store_step :: "instant \<times> store_op \<Rightarrow> block_hash_store \<Rightarrow> store_result \<times> block_hash_store" where
  "store_step (now, Heartbeat n uid) st = ack (heartbeat_node now n uid st)"
| "store_step (now, Unregister n uid) st = (let (r, st') = unregister_node n uid st in (Ack r, st'))"
| "store_step (now, InsertHashes now' ns hs n uid) st = (let (r, st') = insert_hashes now now' ns hs n uid st in (Ack r, st'))"
| "store_step (now, RemoveHashes ns hs n uid) st = (let (r, st') = remove_hashes now ns hs n uid st in (Ack r, st'))"
| "store_step (now, QueryPrefix ns hs) st =
     (Found (map (\<lambda>e. (block_hash e, set (entry_nodes e))) (query_prefix now ns hs st)), st)"
| "store_step (now, SweepExpired) st = (Swept, snd (store_sweep_expired now st))"

fun store_run :: "(instant \<times> store_op) list \<Rightarrow> block_hash_store \<Rightarrow> store_result list \<times> block_hash_store" where
  "store_run [] st = ([], st)"
| "store_run (x # xs) st =
     (let (r, st') = store_step x st; (rs, st'') = store_run xs st' in (r # rs, st''))"

text \<open>
  What the registry promises: owners and sessions are two partial functions; an owner answers a
  query exactly while its session is the current one of its node and was seen recently.
\<close>

record registry =
  r_owner :: "block_key \<Rightarrow> string \<rightharpoonup> owner_record"
  r_node :: "string \<rightharpoonup> node_record"

definition spec_visible :: "store_config \<Rightarrow> registry \<Rightarrow> instant \<Rightarrow> block_key \<Rightarrow> string set" where
  "spec_visible cfg r now k =
     {n. \<exists>own record. r_owner r k n = Some own \<and> r_node r n = Some record
          \<and> n_node_id record = o_node_id own \<and> now - last_seen record \<le> node_stale_after cfg}"

definition spec_keep :: "store_config \<Rightarrow> registry \<Rightarrow> instant \<Rightarrow> string \<Rightarrow> owner_record \<Rightarrow> bool" where
  "spec_keep cfg r now n own =
     (\<exists>record. r_node r n = Some record \<and> now - key_register_time own \<le> store_ttl cfg
        \<and> now - last_seen record \<le> store_ttl cfg)"

definition current_session :: "registry \<Rightarrow> string \<Rightarrow> uuid \<Rightarrow> store_error + unit" where
  "current_session r n uid =
     (case r_node r n of None \<Rightarrow> Inl UnknownNode
      | Some record \<Rightarrow> if n_node_id record = uid then Inr () else Inl StaleSession)"

definition seen :: "instant \<Rightarrow> string \<Rightarrow> uuid \<Rightarrow> registry \<Rightarrow> registry" where
  "seen now n uid r = r\<lparr>r_node := (r_node r)(n \<mapsto> \<lparr>n_node_id = uid, last_seen = now\<rparr>)\<rparr>"

fun registry_step :: "store_config \<Rightarrow> instant \<times> store_op \<Rightarrow> registry \<Rightarrow> store_result \<times> registry" where
  "registry_step cfg (now, Heartbeat n uid) r =
     (if \<exists>record. r_node r n = Some record \<and> n_node_id record \<noteq> uid \<and> now - last_seen record \<le> node_stale_after cfg
      then (Ack (Inl StaleSession), r) else (Ack (Inr 0), seen now n uid r))"
| "registry_step cfg (now, Unregister n uid) r =
     (case current_session r n uid of
        Inl e \<Rightarrow> (Ack (Inl e), r)
      | Inr _ \<Rightarrow> (Ack (Inr (card (owned_keys n uid (r_owner r)))),
                  r\<lparr>r_node := (r_node r)(n := None), r_owner := (\<lambda>k. drop_from n uid (r_owner r k))\<rparr>))"
| "registry_step cfg (now, InsertHashes now' ns hs n uid) r =
     (case current_session r n uid of
        Inl e \<Rightarrow> (Ack (Inl e), r)
      | Inr _ \<Rightarrow> (Ack (Inr (length hs)),
                  (seen now n uid r)\<lparr>r_owner := (\<lambda>k. if k \<in> mk_key ns ` set hs
                      then (r_owner r k)(n \<mapsto> \<lparr>o_node_id = uid, key_register_time = now'\<rparr>) else r_owner r k)\<rparr>))"
| "registry_step cfg (now, RemoveHashes ns hs n uid) r =
     (case current_session r n uid of
        Inl e \<Rightarrow> (Ack (Inl e), r)
      | Inr _ \<Rightarrow> (Ack (Inr (card (mk_key ns ` set hs \<inter> owned_keys n uid (r_owner r)))),
                  (seen now n uid r)\<lparr>r_owner := (\<lambda>k. if k \<in> mk_key ns ` set hs
                      then drop_from n uid (r_owner r k) else r_owner r k)\<rparr>))"
| "registry_step cfg (now, QueryPrefix ns hs) r =
     (Found (map_while (\<lambda>h. let v = spec_visible cfg r now (mk_key ns h) in if v = {} then None else Some (h, v)) hs), r)"
| "registry_step cfg (now, SweepExpired) r =
     (Swept, r\<lparr>r_owner := (\<lambda>k n. case r_owner r k n of None \<Rightarrow> None
                | Some own \<Rightarrow> if spec_keep cfg r now n own then Some own else None),
               r_node := (\<lambda>n. case r_node r n of None \<Rightarrow> None
                | Some record \<Rightarrow> if now - last_seen record \<le> store_ttl cfg then Some record else None)\<rparr>)"

fun registry_run :: "store_config \<Rightarrow> (instant \<times> store_op) list \<Rightarrow> registry \<Rightarrow> store_result list \<times> registry" where
  "registry_run cfg [] r = ([], r)"
| "registry_run cfg (x # xs) r =
     (let (a, r') = registry_step cfg x r; (as, r'') = registry_run cfg xs r' in (a # as, r''))"

definition abs_store :: "block_hash_store \<Rightarrow> registry" where
  "abs_store st = \<lparr>r_owner = owner_of (s_blocks st), r_node = hm_get (s_nodes st)\<rparr>"

lemma abs_store_sel [simp]:
  "r_owner (abs_store st) = owner_of (s_blocks st)" "r_node (abs_store st) = hm_get (s_nodes st)"
  by (simp_all add: abs_store_def)

definition store_inv :: "store_config \<Rightarrow> block_hash_store \<Rightarrow> bool" where
  "store_inv cfg st = (s_config st = cfg \<and> blocks_wf (s_blocks st) \<and> hm_wf (s_nodes st))"

definition refines :: "store_config \<Rightarrow> store_result \<times> block_hash_store \<Rightarrow> store_result \<times> registry \<Rightarrow> bool" where
  "refines cfg a b = (store_inv cfg (snd a) \<and> b = (fst a, abs_store (snd a)))"

lemma heartbeat_refines:
  assumes "store_inv cfg st"
  shows "refines cfg (store_step (now, Heartbeat n uid) st) (registry_step cfg (now, Heartbeat n uid) (abs_store st))"
proof (cases "hm_get (s_nodes st) n")
  case None
  then show ?thesis using assms
    by (simp add: refines_def heartbeat_node_def ack_def abs_store_def store_inv_def seen_def update_conv' fun_upd_def)
next
  case (Some rcd)
  then show ?thesis using assms
    by (auto simp: refines_def heartbeat_node_def ack_def abs_store_def store_inv_def seen_def update_conv' fun_upd_def
        duration_since_def Let_def)
qed

lemma touch_cases:
  obtains (err) e where "touch_node_session now n uid st = (Inl e, st)" "current_session (abs_store st) n uid = Inl e"
  | (ok) "touch_node_session now n uid st
       = (Inr (), st\<lparr>s_nodes := hm_insert n \<lparr>n_node_id = uid, last_seen = now\<rparr> (s_nodes st)\<rparr>)"
     "current_session (abs_store st) n uid = Inr ()"
proof (cases "hm_get (s_nodes st) n")
  case None
  then show thesis using err by (simp add: touch_node_session_def current_session_def abs_store_def)
next
  case (Some rcd)
  then show thesis
    using err ok by (cases "n_node_id rcd = uid"; cases rcd)
      (auto simp: touch_node_session_def current_session_def abs_store_def)
qed

lemma insert_refines:
  assumes "store_inv cfg st"
  shows "refines cfg (store_step (now, InsertHashes now' ns hs n uid) st)
    (registry_step cfg (now, InsertHashes now' ns hs n uid) (abs_store st))"
proof (cases rule: touch_cases[of now n uid st])
  case (err e)
  then show ?thesis using assms by (simp add: refines_def insert_hashes_def)
next
  case ok
  then show ?thesis using assms
    by (simp add: refines_def insert_hashes_def store_inv_def insert_fold_wf abs_store_def insert_fold_owner
        seen_def update_conv' fun_upd_def cong: if_cong)
qed

lemma remove_refines:
  assumes "store_inv cfg st"
  shows "refines cfg (store_step (now, RemoveHashes ns hs n uid) st)
    (registry_step cfg (now, RemoveHashes ns hs n uid) (abs_store st))"
proof (cases rule: touch_cases[of now n uid st])
  case (err e)
  then show ?thesis using assms by (simp add: refines_def remove_hashes_def)
next
  case ok
  have wf: "blocks_wf (s_blocks st)" using assms by (simp add: store_inv_def)
  show ?thesis using ok assms remove_owners_spec[OF wf, of n uid "map (mk_key ns) hs" 0]
    by (simp add: refines_def remove_hashes_def store_inv_def abs_store_def seen_def update_conv' fun_upd_def case_prod_beta
        cong: if_cong)
qed

lemma unregister_refines:
  assumes "store_inv cfg st"
  shows "refines cfg (store_step (now, Unregister n uid) st) (registry_step cfg (now, Unregister n uid) (abs_store st))"
proof -
  have wf: "blocks_wf (s_blocks st)" using assms by (simp add: store_inv_def)
  note [simp] = remove_node_owners_wf[OF wf] remove_node_owners_owner[OF blocks_wf_hm[OF wf]]
    remove_node_owners_count[OF blocks_wf_hm[OF wf]]
  show ?thesis
    using assms
    by (auto simp: refines_def unregister_node_def store_inv_def abs_store_def current_session_def
        case_prod_beta delete_conv' fun_upd_def split: option.splits)
qed

lemma map_while_map: "map g (map_while f xs) = map_while (\<lambda>x. map_option g (f x)) xs"
  by (induction xs) (auto split: option.splits)

lemma map_while_cong: "(\<And>x. f x = g x) \<Longrightarrow> map_while f xs = map_while g xs"
  by (induction xs) (auto split: option.splits)

lemma visible_iff:
  "is_owner_visible st now n own \<longleftrightarrow>
     (\<exists>record. hm_get (s_nodes st) n = Some record \<and> n_node_id record = o_node_id own
        \<and> now - last_seen record \<le> node_stale_after (s_config st))"
  by (auto simp: is_owner_visible_def eval_owner_def duration_since_def Let_def split: option.splits)

lemma live_nodes_set:
  assumes "store_inv cfg st" and "hm_get (s_blocks st) k = Some os"
  shows "set (live_nodes st now os) = spec_visible cfg (abs_store st) now k"
proof -
  have wf: "hm_wf os" and cfg: "s_config st = cfg"
    using assms blocks_wf_get[of "s_blocks st" k os] by (auto simp: store_inv_def)
  have "n \<in> set (live_nodes st now os) \<longleftrightarrow> (\<exists>own. hm_get os n = Some own \<and> is_owner_visible st now n own)" for n
    using hm_get_in_set[OF wf] by (force simp: live_nodes_def)
  then show ?thesis
    using assms(2) cfg by (auto simp: spec_visible_def abs_store_def owner_of_def visible_iff)
qed

lemma query_entry_spec:
  assumes "store_inv cfg st"
  shows "map_option (\<lambda>e. (block_hash e, set (entry_nodes e))) (query_entry st now ns h)
    = (let v = spec_visible cfg (abs_store st) now (mk_key ns h) in if v = {} then None else Some (h, v))"
proof (cases "hm_get (s_blocks st) (mk_key ns h)")
  case None
  then show ?thesis by (simp add: query_entry_def spec_visible_def abs_store_def owner_of_def)
next
  case (Some os)
  have "live_nodes st now os = [] \<longleftrightarrow> spec_visible cfg (abs_store st) now (mk_key ns h) = {}"
    using live_nodes_set[OF assms Some, of now] by (metis set_empty)
  then show ?thesis
    using Some live_nodes_set[OF assms Some, of now] by (simp add: query_entry_def Let_def)
qed

lemma query_refines:
  assumes "store_inv cfg st"
  shows "refines cfg (store_step (now, QueryPrefix ns hs) st) (registry_step cfg (now, QueryPrefix ns hs) (abs_store st))"
proof -
  have "map (\<lambda>e. (block_hash e, set (entry_nodes e))) (query_prefix now ns hs st)
      = map_while (\<lambda>h. let v = spec_visible cfg (abs_store st) now (mk_key ns h) in if v = {} then None else Some (h, v)) hs"
    unfolding query_prefix_def map_while_map by (rule map_while_cong) (rule query_entry_spec[OF assms])
  then show ?thesis using assms by (simp add: refines_def)
qed

lemma keep_iff:
  "ev_keep (eval_owner (s_config st) (s_nodes st) now n own) \<longleftrightarrow> spec_keep (s_config st) (abs_store st) now n own"
  by (auto simp: eval_owner_def spec_keep_def abs_store_def duration_since_def Let_def split: option.splits)

lemma sweep_refines:
  assumes "store_inv cfg st"
  shows "refines cfg (store_step (now, SweepExpired) st) (registry_step cfg (now, SweepExpired) (abs_store st))"
proof -
  have wf: "blocks_wf (s_blocks st)" "hm_wf (s_nodes st)" and cfg: "s_config st = cfg"
    using assms by (auto simp: store_inv_def)
  let ?sw = "sweep_blocks (eval_owner (s_config st) (s_nodes st) now) (s_blocks st) stats_zero snapshot_zero"
  have own: "owner_of (fst ?sw) = (\<lambda>k n. case owner_of (s_blocks st) k n of None \<Rightarrow> None
      | Some own \<Rightarrow> if spec_keep cfg (abs_store st) now n own then Some own else None)"
    by (rule ext)+ (simp add: sweep_blocks_owner[OF wf(1)] keep_iff[of st, unfolded cfg] cfg split: option.splits)
  have nod: "hm_get (sweep (node_alive (store_ttl cfg)) now (s_nodes st))
      = (\<lambda>n. case hm_get (s_nodes st) n of None \<Rightarrow> None
          | Some record \<Rightarrow> if now - last_seen record \<le> store_ttl cfg then Some record else None)"
    by (rule ext) (simp add: node_expiry.get_sweep_eq[OF wf(2)] node_alive_def duration_since_def split: option.splits)
  have "snd (store_sweep_expired now st) = st\<lparr>s_blocks := fst ?sw,
      s_nodes := sweep (node_alive (store_ttl cfg)) now (s_nodes st), s_redundancy := snd (snd ?sw)\<rparr>"
    by (simp add: store_sweep_expired_def Let_def case_prod_beta cfg)
  note st' = this
  have "snd (registry_step cfg (now, SweepExpired) (abs_store st)) = abs_store (snd (store_sweep_expired now st))"
    by (rule registry.equality) (simp_all add: st' own nod)
  then show ?thesis
    using sweep_blocks_wf[OF wf(1)] node_expiry.wf_sweep[OF wf(2)] cfg
    by (simp add: refines_def store_inv_def st')
qed

lemmas op_refines = heartbeat_refines unregister_refines insert_refines remove_refines query_refines sweep_refines

lemma step_refines:
  assumes "store_inv cfg st"
  shows "refines cfg (store_step x st) (registry_step cfg x (abs_store st))"
proof -
  obtain now op where "x = (now, op)" by (cases x)
  then show ?thesis by (cases op) (simp_all only: op_refines[OF assms])
qed

lemma run_refines:
  assumes "store_inv cfg st"
  shows "store_inv cfg (snd (store_run xs st))
    \<and> registry_run cfg xs (abs_store st) = (fst (store_run xs st), abs_store (snd (store_run xs st)))"
  using assms
proof (induction xs arbitrary: st)
  case (Cons x xs)
  note R = step_refines[OF Cons.prems, of x, unfolded refines_def]
  show ?case using Cons.IH[OF conjunct1[OF R]] R by (simp add: case_prod_beta Let_def)
qed simp

lemma store_start: "store_inv cfg (store_with_config cfg)"
  "abs_store (store_with_config cfg) = \<lparr>r_owner = (\<lambda>_ _. None), r_node = (\<lambda>_. None)\<rparr>"
  by (auto simp: store_inv_def store_with_config_def blocks_wf_def abs_store_def owner_of_def fun_eq_iff)

text \<open>
  C33. The registry of the MetaServer: from an empty store, whatever heartbeats, registrations,
  removals, queries and sweeps arrive at whatever times, every answer is the one of a plain
  pair of partial functions, in which an owner is returned exactly while the session that
  registered the block is its node's current one and was seen recently.
\<close>

theorem store_refines_registry:
  "fst (store_run xs (store_with_config cfg))
     = fst (registry_run cfg xs \<lparr>r_owner = (\<lambda>_ _. None), r_node = (\<lambda>_. None)\<rparr>)"
  using run_refines[OF store_start(1), of cfg xs] by (simp add: store_start(2))

section \<open>What a sweep counts\<close>

lemma snapshot_record_simps [simp]:
  "keys_1 (snapshot_record v s) = keys_1 s + (if v = 1 then 1 else 0)"
  "keys_2 (snapshot_record v s) = keys_2 s + (if v = 2 then 1 else 0)"
  "keys_3 (snapshot_record v s) = keys_3 s + (if v = 3 then 1 else 0)"
  "keys_4plus (snapshot_record v s) = keys_4plus s + (if 4 \<le> v then 1 else 0)"
  "copies (snapshot_record v s) = copies s + v"
  by (auto simp: snapshot_record_def Let_def)

text \<open>Per kept key, the number of visible owners as the sweep counts it.\<close>

definition vis_counts :: "(string \<Rightarrow> owner_record \<Rightarrow> owner_eval) \<Rightarrow> (block_key, owners) hmap \<Rightarrow> nat list" where
  "vis_counts ev bs = map (\<lambda>(k, os). length (filter (\<lambda>(n, own). ev_keep (ev n own) \<and> ev_visible (ev n own)) os))
     (filter (\<lambda>(k, os). filter (\<lambda>(n, own). ev_keep (ev n own)) os \<noteq> []) bs)"

lemma sweep_blocks_snapshot:
  "snd (snd (sweep_blocks ev bs stats snap)) = foldl (\<lambda>s v. snapshot_record v s) snap (vis_counts ev bs)"
  by (induction ev bs stats snap rule: sweep_blocks.induct) (auto simp: vis_counts_def Let_def case_prod_beta)

lemma fold_snapshot:
  "copies (foldl (\<lambda>s v. snapshot_record v s) snap vs) = copies snap + sum_list vs"
  "keys_1 (foldl (\<lambda>s v. snapshot_record v s) snap vs) = keys_1 snap + length (filter (\<lambda>v. v = 1) vs)"
  "keys_2 (foldl (\<lambda>s v. snapshot_record v s) snap vs) = keys_2 snap + length (filter (\<lambda>v. v = 2) vs)"
  "keys_3 (foldl (\<lambda>s v. snapshot_record v s) snap vs) = keys_3 snap + length (filter (\<lambda>v. v = 3) vs)"
  "keys_4plus (foldl (\<lambda>s v. snapshot_record v s) snap vs) = keys_4plus snap + length (filter (\<lambda>v. 4 \<le> v) vs)"
  by (induction vs arbitrary: snap) auto

lemma sweep_blocks_stats:
  "removed_owners (fst (snd (sweep_blocks ev bs stats snap)))
      + sum_list (map (\<lambda>(k, os). length os) (fst (sweep_blocks ev bs stats snap)))
     = removed_owners stats + sum_list (map (\<lambda>(k, os). length os) bs)"
  "removed_keys (fst (snd (sweep_blocks ev bs stats snap))) + length (fst (sweep_blocks ev bs stats snap))
     = removed_keys stats + length bs"
proof (induction bs arbitrary: stats snap)
  case (Cons kv bs)
  obtain k os where kv: "kv = (k, os)" by force
  have le: "length (filter (\<lambda>(n, own). ev_keep (ev n own)) os) \<le> length os" by simp
  {
    case 1
    let ?keep = "filter (\<lambda>(n, own). ev_keep (ev n own)) os"
    let ?stats = "stats\<lparr>removed_owners := removed_owners stats + saturating_sub (length os) (length ?keep)\<rparr>"
    let ?vis = "length (filter (\<lambda>(n, own). ev_keep (ev n own) \<and> ev_visible (ev n own)) os)"
    show ?case
    proof (cases "?keep = []")
      case True
      then show ?thesis using Cons(1)[of "?stats\<lparr>removed_keys := removed_keys stats + 1\<rparr>" snap]
        by (simp add: kv Let_def case_prod_beta saturating_sub_def)
    next
      case False
      have "sweep_blocks ev (kv # bs) stats snap = (let (b, s, n) = sweep_blocks ev bs ?stats (snapshot_record ?vis snap)
          in ((k, ?keep) # b, s, n))"
        using False by (simp add: kv Let_def case_prod_beta)
      note step = this
      have IH: "removed_owners (fst (snd (sweep_blocks ev bs ?stats (snapshot_record ?vis snap))))
          + sum_list (map (\<lambda>(k, os). length os) (fst (sweep_blocks ev bs ?stats (snapshot_record ?vis snap))))
        = removed_owners stats + (length os - length ?keep) + sum_list (map (\<lambda>(k, os). length os) bs)"
        using Cons(1)[of ?stats "snapshot_record ?vis snap"] by (simp add: saturating_sub_def)
      obtain x y z where sw: "sweep_blocks ev bs ?stats (snapshot_record ?vis snap) = (x, y, z)"
        by (rule prod_cases3)
      show ?thesis
        unfolding step sw using IH[unfolded sw] le by (simp add: kv del: length_filter_le)
    qed
  next
    case 2
    show ?case using Cons(2) by (simp add: kv Let_def case_prod_beta)
  }
qed simp_all

lemma vis_counts_compact:
  assumes "\<And>k os n own. (k, os) \<in> set bs \<Longrightarrow> (n, own) \<in> set os \<Longrightarrow> ev_keep (ev n own) \<Longrightarrow>
      ev_visible (ev n own) \<longleftrightarrow> vis n own"
  shows "vis_counts ev bs = map (\<lambda>(k, os). length (filter (\<lambda>(n, own). vis n own) os))
      (compact (hm_retain (\<lambda>n own. ev_keep (ev n own))) bs)"
  using assms
proof (induction bs)
  case (Cons kv bs)
  obtain k os where kv: "kv = (k, os)" by force
  have e: "filter (\<lambda>(n, own). ev_keep (ev n own) \<and> ev_visible (ev n own)) os
      = filter (\<lambda>(n, own). vis n own) (filter (\<lambda>(n, own). ev_keep (ev n own)) os)"
    unfolding filter_filter using Cons.prems[of k os] kv by (intro filter_cong) auto
  have IH: "vis_counts ev bs = map (\<lambda>(k, os). length (filter (\<lambda>(n, own). vis n own) os))
      (compact (hm_retain (\<lambda>n own. ev_keep (ev n own))) bs)"
    by (rule Cons.IH) (use Cons.prems in auto)
  have h: "hm_retain (\<lambda>n own. ev_keep (ev n own)) os = filter (\<lambda>(n, own). ev_keep (ev n own)) os"
    by (simp add: hm_retain_def)
  have v: "vis_counts ev (kv # bs) = (if filter (\<lambda>(n, own). ev_keep (ev n own)) os = [] then vis_counts ev bs
      else length (filter (\<lambda>(n, own). ev_keep (ev n own) \<and> ev_visible (ev n own)) os) # vis_counts ev bs)"
    by (simp add: vis_counts_def kv)
  show ?case unfolding v e IH by (simp add: kv h)
qed (simp add: vis_counts_def)

lemma sweep_visible:
  assumes "store_inv cfg st" and "ev_keep (eval_owner cfg (s_nodes st) now n own)"
  shows "ev_visible (eval_owner cfg (s_nodes st) now n own)
    \<longleftrightarrow> is_owner_visible (snd (store_sweep_expired now st)) now n own"
proof -
  have wf: "hm_wf (s_nodes st)" and cfg: "s_config st = cfg" using assms(1) by (auto simp: store_inv_def)
  obtain rcd where r: "hm_get (s_nodes st) n = Some rcd" "now - last_seen rcd \<le> store_ttl cfg"
    using assms(2) by (auto simp: eval_owner_def Let_def duration_since_def split: option.splits)
  have "hm_get (s_nodes (snd (store_sweep_expired now st))) n = Some rcd"
    using r wf by (simp add: store_sweep_expired_def Let_def case_prod_beta cfg node_expiry.get_sweep
        node_alive_def duration_since_def)
  moreover have "s_config (snd (store_sweep_expired now st)) = cfg"
    by (simp add: store_sweep_expired_def Let_def case_prod_beta cfg)
  ultimately show ?thesis
    using r by (simp add: is_owner_visible_def eval_owner_def Let_def)
qed

lemma sweep_vis_counts:
  assumes "store_inv cfg st"
  shows "vis_counts (eval_owner (s_config st) (s_nodes st) now) (s_blocks st)
    = map (\<lambda>(k, os). length (live_nodes (snd (store_sweep_expired now st)) now os))
        (s_blocks (snd (store_sweep_expired now st)))"
proof -
  have cfg: "s_config st = cfg" using assms by (simp add: store_inv_def)
  have b: "s_blocks (snd (store_sweep_expired now st))
      = compact (hm_retain (\<lambda>n own. ev_keep (eval_owner cfg (s_nodes st) now n own))) (s_blocks st)"
    by (simp add: store_sweep_expired_def Let_def case_prod_beta sweep_blocks_compact cfg)
  show ?thesis
    unfolding b cfg live_nodes_def length_map
    by (rule vis_counts_compact) (rule sweep_visible[OF assms])
qed

text \<open>
  C34. A sweep: the counts it reports are exactly what it removed, and the snapshot it
  publishes is the exact distribution, over the keys that remain, of the number of owners a query at that
  instant would return. If a node goes stale before it expires, a later query loses
  only owners whose own registration had expired.
\<close>

theorem sweep_exact:
  assumes inv: "store_inv cfg st" and sw: "store_sweep_expired now st = (stats, st')"
  shows "owner_count st = owner_count st' + removed_owners stats
    \<and> entry_count st = entry_count st' + removed_keys stats
    \<and> length (s_nodes st) = length (s_nodes st') + removed_nodes stats
    \<and> (let vs = map (\<lambda>(k, os). length (live_nodes st' now os)) (s_blocks st'); snap = s_redundancy st'
       in copies snap = sum_list vs \<and> keys_1 snap = length (filter (\<lambda>v. v = 1) vs)
          \<and> keys_2 snap = length (filter (\<lambda>v. v = 2) vs) \<and> keys_3 snap = length (filter (\<lambda>v. v = 3) vs)
          \<and> keys_4plus snap = length (filter (\<lambda>v. 4 \<le> v) vs))
    \<and> (node_stale_after cfg \<le> store_ttl cfg \<longrightarrow> (\<forall>now' \<ge> now. \<forall>k.
         spec_visible cfg (abs_store st') now' k
         = {n \<in> spec_visible cfg (abs_store st) now' k.
              \<exists>own. owner_of (s_blocks st) k n = Some own \<and> now - key_register_time own \<le> store_ttl cfg}))"
proof -
  let ?sw = "sweep_blocks (eval_owner (s_config st) (s_nodes st) now) (s_blocks st) stats_zero snapshot_zero"
  let ?ns = "sweep (node_alive (store_ttl (s_config st))) now (s_nodes st)"
  have st': "st' = st\<lparr>s_blocks := fst ?sw, s_nodes := ?ns, s_redundancy := snd (snd ?sw)\<rparr>"
    and stats: "stats = (fst (snd ?sw))\<lparr>removed_nodes := length (s_nodes st) - length ?ns\<rparr>"
    using sw by (auto simp: store_sweep_expired_def Let_def case_prod_beta saturating_sub_def)
  have le: "length ?ns \<le> length (s_nodes st)" by (simp add: sweep_def hm_retain_def)
  have vs: "vis_counts (eval_owner (s_config st) (s_nodes st) now) (s_blocks st)
      = map (\<lambda>(k, os). length (live_nodes st' now os)) (s_blocks st')"
    using sweep_vis_counts[OF inv, of now] sw by simp
  have snap: "s_redundancy st' = foldl (\<lambda>s v. snapshot_record v s) snapshot_zero
      (map (\<lambda>(k, os). length (live_nodes st' now os)) (s_blocks st'))"
    unfolding vs[symmetric] by (simp add: st' sweep_blocks_snapshot)
  have "refines cfg (store_step (now, SweepExpired) st) (registry_step cfg (now, SweepExpired) (abs_store st))"
    by (rule sweep_refines[OF inv])
  then have abs: "abs_store st' = (abs_store st)\<lparr>r_owner := (\<lambda>k n. case r_owner (abs_store st) k n of None \<Rightarrow> None
                | Some own \<Rightarrow> if spec_keep cfg (abs_store st) now n own then Some own else None),
               r_node := (\<lambda>n. case r_node (abs_store st) n of None \<Rightarrow> None
                | Some record \<Rightarrow> if now - last_seen record \<le> store_ttl cfg then Some record else None)\<rparr>"
    using sw by (simp add: refines_def)
  have vis: "spec_visible cfg (abs_store st') now' k = {n \<in> spec_visible cfg (abs_store st) now' k.
              \<exists>own. owner_of (s_blocks st) k n = Some own \<and> now - key_register_time own \<le> store_ttl cfg}"
    if ttl: "node_stale_after cfg \<le> store_ttl cfg" and now': "now \<le> now'" for now' k
  proof -
    have fresh: "now - last_seen r \<le> store_ttl cfg" if "now' - last_seen r \<le> node_stale_after cfg" for r
      using that ttl now' by linarith
    have "n \<in> spec_visible cfg (abs_store st') now' k \<longleftrightarrow> n \<in> spec_visible cfg (abs_store st) now' k \<and>
        (\<exists>own. owner_of (s_blocks st) k n = Some own \<and> now - key_register_time own \<le> store_ttl cfg)" for n
      using fresh
      by (cases "hm_get (s_nodes st) n"; cases "owner_of (s_blocks st) k n")
        (auto simp: spec_visible_def abs spec_keep_def split: if_splits)
    then show ?thesis by blast
  qed
  show ?thesis
    using sweep_blocks_stats[of "eval_owner (s_config st) (s_nodes st) now" "s_blocks st" stats_zero snapshot_zero]
      fold_snapshot[of snapshot_zero] le vis
    by (simp add: snap Let_def) (simp add: st' stats owner_count_def entry_count_def stats_zero_def snapshot_zero_def)
qed

section \<open>Sessions\<close>

fun written_by :: "store_op \<Rightarrow> (string \<times> uuid) option" where
  "written_by (Heartbeat n uid) = Some (n, uid)"
| "written_by (Unregister n uid) = Some (n, uid)"
| "written_by (InsertHashes _ _ _ n uid) = Some (n, uid)"
| "written_by (RemoveHashes _ _ n uid) = Some (n, uid)"
| "written_by _ = None"

lemma touch_nodes:
  assumes "touch_node_session now m uid st = (r, st')" "hm_get (s_nodes st) n = Some cur"
  shows "\<exists>cur'. hm_get (s_nodes st') n = Some cur' \<and> n_node_id cur' = n_node_id cur"
    and "m = n \<Longrightarrow> uid \<noteq> n_node_id cur \<Longrightarrow> r = Inl StaleSession \<and> st' = st"
  using assms by (auto simp: touch_node_session_def hm_get_insert split: option.splits if_splits)

lemma insert_hashes_nodes:
  "insert_hashes now now' ns hs m uid st = (r, st') \<Longrightarrow>
     \<exists>t st0. touch_node_session now m uid st = (t, st0) \<and> s_nodes st' = s_nodes st0
       \<and> (\<forall>e. t = Inl e \<longrightarrow> r = Inl e \<and> st' = st0)"
  by (cases "touch_node_session now m uid st") (auto simp: insert_hashes_def split: sum.splits)

lemma remove_hashes_nodes:
  "remove_hashes now ns hs m uid st = (r, st') \<Longrightarrow>
     \<exists>t st0. touch_node_session now m uid st = (t, st0) \<and> s_nodes st' = s_nodes st0
       \<and> (\<forall>e. t = Inl e \<longrightarrow> r = Inl e \<and> st' = st0)"
  by (cases "touch_node_session now m uid st") (auto simp: remove_hashes_def case_prod_beta Let_def split: sum.splits)

definition session_kept :: "store_config \<Rightarrow> instant \<Rightarrow> store_op \<Rightarrow> string \<Rightarrow> node_record \<Rightarrow> node_record option \<Rightarrow> bool" where
  "session_kept cfg now op n cur after =
     (case after of
        Some cur' \<Rightarrow> n_node_id cur' = n_node_id cur
          \<or> (op = Heartbeat n (n_node_id cur') \<and> node_stale_after cfg < now - last_seen cur)
      | None \<Rightarrow> op = Unregister n (n_node_id cur) \<or> (op = SweepExpired \<and> store_ttl cfg < now - last_seen cur))"

lemma heartbeat_session:
  assumes "store_inv cfg st" "hm_get (s_nodes st) n = Some cur" "store_step (now, Heartbeat m uid) st = (res, st')"
  shows "session_kept cfg now (Heartbeat m uid) n cur (hm_get (s_nodes st') n)"
    and "m = n \<Longrightarrow> uid \<noteq> n_node_id cur \<Longrightarrow> now - last_seen cur \<le> node_stale_after cfg \<Longrightarrow>
      res = Ack (Inl StaleSession) \<and> st' = st"
  using assms
  by (auto simp: heartbeat_node_def ack_def session_kept_def store_inv_def hm_get_insert Let_def duration_since_def
      split: option.splits if_splits)

lemma unregister_session:
  assumes "hm_get (s_nodes st) n = Some cur" "store_step (now, Unregister m uid) st = (res, st')"
  shows "session_kept cfg now (Unregister m uid) n cur (hm_get (s_nodes st') n)"
    and "m = n \<Longrightarrow> uid \<noteq> n_node_id cur \<Longrightarrow> res = Ack (Inl StaleSession) \<and> st' = st"
  using assms
  by (auto simp: unregister_node_def session_kept_def hm_get_remove Let_def case_prod_beta
      split: option.splits if_splits)

lemma insert_session:
  assumes "hm_get (s_nodes st) n = Some cur" "store_step (now, InsertHashes now' ns hs m uid) st = (res, st')"
  shows "session_kept cfg now op n cur (hm_get (s_nodes st') n)"
    and "m = n \<Longrightarrow> uid \<noteq> n_node_id cur \<Longrightarrow> res = Ack (Inl StaleSession) \<and> st' = st"
proof -
  obtain r where i: "insert_hashes now now' ns hs m uid st = (r, st')" "res = Ack r"
    using assms(2) by (auto split: prod.splits)
  obtain t st0 where t: "touch_node_session now m uid st = (t, st0)" "s_nodes st' = s_nodes st0"
    "\<forall>e. t = Inl e \<longrightarrow> r = Inl e \<and> st' = st0"
    using insert_hashes_nodes[OF i(1)] by blast
  show "session_kept cfg now op n cur (hm_get (s_nodes st') n)"
    using touch_nodes(1)[OF t(1) assms(1)] t(2) by (auto simp: session_kept_def)
  show "res = Ack (Inl StaleSession) \<and> st' = st" if "m = n" "uid \<noteq> n_node_id cur"
    using touch_nodes(2)[OF t(1) assms(1) that] t(3) i(2) by simp
qed

lemma remove_session:
  assumes "hm_get (s_nodes st) n = Some cur" "store_step (now, RemoveHashes ns hs m uid) st = (res, st')"
  shows "session_kept cfg now op n cur (hm_get (s_nodes st') n)"
    and "m = n \<Longrightarrow> uid \<noteq> n_node_id cur \<Longrightarrow> res = Ack (Inl StaleSession) \<and> st' = st"
proof -
  obtain r where i: "remove_hashes now ns hs m uid st = (r, st')" "res = Ack r"
    using assms(2) by (auto split: prod.splits)
  obtain t st0 where t: "touch_node_session now m uid st = (t, st0)" "s_nodes st' = s_nodes st0"
    "\<forall>e. t = Inl e \<longrightarrow> r = Inl e \<and> st' = st0"
    using remove_hashes_nodes[OF i(1)] by blast
  show "session_kept cfg now op n cur (hm_get (s_nodes st') n)"
    using touch_nodes(1)[OF t(1) assms(1)] t(2) by (auto simp: session_kept_def)
  show "res = Ack (Inl StaleSession) \<and> st' = st" if "m = n" "uid \<noteq> n_node_id cur"
    using touch_nodes(2)[OF t(1) assms(1) that] t(3) i(2) by simp
qed

lemma sweep_session:
  assumes "store_inv cfg st" "hm_get (s_nodes st) n = Some cur" "store_step (now, SweepExpired) st = (res, st')"
  shows "session_kept cfg now SweepExpired n cur (hm_get (s_nodes st') n)"
proof -
  have "hm_get (s_nodes st') n = (if node_alive (store_ttl cfg) now cur then Some cur else None)"
    using assms
    by (auto simp: store_sweep_expired_def Let_def case_prod_beta store_inv_def node_expiry.get_sweep_eq)
  then show ?thesis by (simp add: session_kept_def node_alive_def duration_since_def)
qed

text \<open>
  C35. Sessions of a node: a node's current session changes only by a heartbeat of the new one
  after the old one was silent for longer than the staleness limit, and disappears only when that
  session unregisters or a sweep finds it silent past the TTL. A write of any other session is
  answered with \<open>StaleSession\<close> and changes nothing, as is its heartbeat before that limit.
\<close>

theorem session_exclusive:
  assumes "store_inv cfg st" and "hm_get (s_nodes st) n = Some cur" and "store_step (now, op) st = (res, st')"
  shows "session_kept cfg now op n cur (hm_get (s_nodes st') n)
    \<and> (\<forall>uid. written_by op = Some (n, uid) \<longrightarrow> uid \<noteq> n_node_id cur
         \<longrightarrow> (\<forall>m v. op = Heartbeat m v \<longrightarrow> now - last_seen cur \<le> node_stale_after cfg)
         \<longrightarrow> res = Ack (Inl StaleSession) \<and> st' = st)"
proof (cases op)
  case (Heartbeat m uid)
  then show ?thesis
    using heartbeat_session[OF assms(1,2) assms(3)[unfolded Heartbeat]] by auto
next
  case (Unregister m uid)
  then show ?thesis
    using unregister_session[OF assms(2) assms(3)[unfolded Unregister]] by auto
next
  case (InsertHashes now' ns hs m uid)
  then show ?thesis
    using insert_session[OF assms(2) assms(3)[unfolded InsertHashes]] by auto
next
  case (RemoveHashes ns hs m uid)
  then show ?thesis
    using remove_session[OF assms(2) assms(3)[unfolded RemoveHashes]] by auto
next
  case (QueryPrefix ns hs)
  then show ?thesis using assms(2,3) by (auto simp: session_kept_def)
next
  case SweepExpired
  then show ?thesis using sweep_session[OF assms(1,2) assms(3)[unfolded SweepExpired]] by simp
qed

section \<open>A store with one node\<close>

definition demo_config :: store_config where
  "demo_config = \<lparr>node_stale_after = 10, store_ttl = 100\<rparr>"

definition demo_store :: block_hash_store where
  "demo_store = \<lparr>s_blocks = [(mk_key ''m'' [7], [(''a'', \<lparr>o_node_id = 1, key_register_time = 5\<rparr>)])],
     s_nodes = [(''a'', \<lparr>n_node_id = 1, last_seen = 5\<rparr>)], s_config = demo_config, s_redundancy = snapshot_zero\<rparr>"

lemma demo_store_reached:
  "snd (store_run [(0, Heartbeat ''a'' 1), (5, InsertHashes 5 ''m'' [[7]] ''a'' 1)] (store_with_config demo_config)) = demo_store"
  by (simp add: store_with_config_def heartbeat_node_def ack_def insert_hashes_def touch_node_session_def
      insert_owner_def or_default_def demo_store_def)

lemma demo_store_inv: "store_inv demo_config demo_store"
  using run_refines[OF store_start(1), THEN conjunct1,
      of demo_config "[(0, Heartbeat ''a'' 1), (5, InsertHashes 5 ''m'' [[7]] ''a'' 1)]"]
  by (simp only: demo_store_reached)

lemma sweep_exact_witness:
  "owner_count demo_store = owner_count (snd (store_sweep_expired 200 demo_store))
     + removed_owners (fst (store_sweep_expired 200 demo_store))
   \<and> removed_owners (fst (store_sweep_expired 200 demo_store)) = 1"
  using sweep_exact[OF demo_store_inv, of 200 "fst (store_sweep_expired 200 demo_store)"
      "snd (store_sweep_expired 200 demo_store)"]
  by (simp add: store_sweep_expired_def demo_store_def demo_config_def eval_owner_def duration_since_def
      stats_zero_def saturating_sub_def Let_def)

lemma session_exclusive_witness:
  "store_step (12, Heartbeat ''a'' 2) demo_store = (Ack (Inl StaleSession), demo_store)"
proof -
  obtain res st' where s: "store_step (12, Heartbeat ''a'' 2) demo_store = (res, st')" by (rule prod.exhaust)
  have cur: "hm_get (s_nodes demo_store) ''a'' = Some \<lparr>n_node_id = 1, last_seen = 5\<rparr>"
    by (simp add: demo_store_def)
  have "res = Ack (Inl StaleSession) \<and> st' = demo_store"
    using session_exclusive[OF demo_store_inv cur s, THEN conjunct2, rule_format, of 2]
    by (simp add: demo_config_def)
  then show ?thesis using s by simp
qed

end
