(* ===== verification/Meta_Service.thy ===== *)
theory Meta_Service
  imports Meta_Store Meta_Client
begin

text \<open>
  The gRPC service of the MetaServer, \<^verbatim>\<open>pegaflow-metaserver/src/service.rs\<close>, over the registry of
  \<open>Meta_Store\<close>. Parsing a node id as a UUID is the \<^verbatim>\<open>uuid\<close> crate's: it is the argument \<open>parse\<close>. A
  handler that answers with an error status returns its code. The per-method metrics are left
  out.
\<close>

section \<open>Handlers\<close>

text \<open>The store and the clock the handlers read, one reading after another.\<close>

record service =
  svc_store :: block_hash_store
  svc_clock :: "nat \<Rightarrow> instant"
  svc_reads :: nat

definition svc_now :: "service \<Rightarrow> instant" where
  "svc_now s = svc_clock s (svc_reads s)"

definition svc_after :: "nat \<Rightarrow> block_hash_store \<Rightarrow> service \<Rightarrow> service" where
  "svc_after reads st s = s\<lparr>svc_store := st, svc_reads := svc_reads s + reads\<rparr>"

type_synonym uuid_parser = "string \<Rightarrow> uuid option"

definition parse_node_id :: "uuid_parser \<Rightarrow> string \<Rightarrow> code + uuid" where
  "parse_node_id parse node_id = (case parse node_id of None \<Rightarrow> Inl InvalidArgument | Some uid \<Rightarrow> Inr uid)"

fun store_error_status :: "store_error \<Rightarrow> code" where
  "store_error_status UnknownNode = FailedPrecondition"
| "store_error_status StaleSession = FailedPrecondition"

definition as_secs :: "duration \<Rightarrow> u64" where
  "as_secs d = d div 10 ^ 9"

definition svc_heartbeat_node :: "uuid_parser \<Rightarrow> string \<Rightarrow> string \<Rightarrow> service \<Rightarrow> (code + u64) \<times> service" where
  "svc_heartbeat_node parse node node_id s =
     (case parse_node_id parse node_id of
        Inl c \<Rightarrow> (Inl c, s)
      | Inr uid \<Rightarrow>
          (case heartbeat_node (svc_now s) node uid (svc_store s) of
             (Inl e, st) \<Rightarrow> (Inl (store_error_status e), svc_after 1 st s)
           | (Inr _, st) \<Rightarrow> (Inr (as_secs (node_stale_after (s_config st))), svc_after 1 st s)))"

definition svc_unregister_node :: "uuid_parser \<Rightarrow> string \<Rightarrow> string \<Rightarrow> service \<Rightarrow> (code + u64) \<times> service" where
  "svc_unregister_node parse node node_id s =
     (case parse_node_id parse node_id of
        Inl c \<Rightarrow> (Inl c, s)
      | Inr uid \<Rightarrow>
          (case unregister_node node uid (svc_store s) of
             (Inl e, st) \<Rightarrow> (Inl (store_error_status e), svc_after 0 st s)
           | (Inr removed, st) \<Rightarrow> (Inr removed, svc_after 0 st s)))"

text \<open>An empty list is answered with a status that is not ok and the count 0.\<close>

definition svc_insert_block_hashes ::
    "uuid_parser \<Rightarrow> string \<Rightarrow> hash list \<Rightarrow> string \<Rightarrow> string \<Rightarrow> service \<Rightarrow> (code + u64) \<times> service" where
  "svc_insert_block_hashes parse ns hashes node node_id s =
     (if hashes = [] then (Inr 0, s)
      else case parse_node_id parse node_id of
          Inl c \<Rightarrow> (Inl c, s)
        | Inr uid \<Rightarrow>
            (case insert_hashes (svc_now s) (svc_clock s (svc_reads s + 1)) ns hashes node uid (svc_store s) of
               (Inl e, st) \<Rightarrow> (Inl (store_error_status e), svc_after 2 st s)
             | (Inr inserted, st) \<Rightarrow> (Inr inserted, svc_after 2 st s)))"

definition svc_remove_block_hashes ::
    "uuid_parser \<Rightarrow> string \<Rightarrow> hash list \<Rightarrow> string \<Rightarrow> string \<Rightarrow> service \<Rightarrow> (code + u64) \<times> service" where
  "svc_remove_block_hashes parse ns hashes node node_id s =
     (if hashes = [] then (Inr 0, s)
      else case parse_node_id parse node_id of
          Inl c \<Rightarrow> (Inl c, s)
        | Inr uid \<Rightarrow>
            (case remove_hashes (svc_now s) ns hashes node uid (svc_store s) of
               (Inl e, st) \<Rightarrow> (Inl (store_error_status e), svc_after 1 st s)
             | (Inr removed, st) \<Rightarrow> (Inr removed, svc_after 1 st s)))"

text \<open>Counting consecutive hashes per node, with 32-bit counters.\<close>

definition bump :: "nat \<Rightarrow> (string, nat) hmap \<Rightarrow> string \<Rightarrow> (string, nat) hmap" where
  "bump i counts node =
     (let count = (case hm_get counts node of None \<Rightarrow> 0 | Some c \<Rightarrow> c)
      in hm_insert node (if count = i mod 2 ^ 32 then (count + 1) mod 2 ^ 32 else count) counts)"

fun node_prefixes :: "prefix_entry list \<Rightarrow> nat \<Rightarrow> (string, nat) hmap \<Rightarrow> (string, nat) hmap" where
  "node_prefixes [] i counts = counts"
| "node_prefixes (e # es) i counts = node_prefixes es (i + 1) (foldl (bump i) counts (entry_nodes e))"

definition svc_query_prefix_blocks ::
    "string \<Rightarrow> hash list \<Rightarrow> service \<Rightarrow> (code + (string \<times> nat) list) \<times> service" where
  "svc_query_prefix_blocks ns hashes s =
     (if hashes = [] then (Inl InvalidArgument, s)
      else let existing = query_prefix (svc_now s) ns hashes (svc_store s)
           in (Inr (filter (\<lambda>(_, count). 0 < count) (node_prefixes existing 0 [])), svc_after 1 (svc_store s) s))"

text \<open>The service as the client's MetaServer: always reachable, and fast enough for an unregister.\<close>

definition meta_service :: "uuid_parser \<Rightarrow> service metaserver" where
  "meta_service parse =
     \<lparr>ms_connect = (\<lambda>s. (True, s)),
      ms_heartbeat = svc_heartbeat_node parse,
      ms_insert = svc_insert_block_hashes parse,
      ms_remove = svc_remove_block_hashes parse,
      ms_unregister = (\<lambda>node node_id s. let (r, s') = svc_unregister_node parse node node_id s in (Some r, s'))\<rparr>"

section \<open>Insertions and removals of a current session\<close>

definition valid_session :: "uuid_parser \<Rightarrow> string \<Rightarrow> string \<Rightarrow> service \<Rightarrow> bool" where
  "valid_session parse node node_id s =
     (blocks_wf (s_blocks (svc_store s))
      \<and> (case (parse node_id, hm_get (s_nodes (svc_store s)) node) of
           (Some uid, Some record) \<Rightarrow> n_node_id record = uid
         | _ \<Rightarrow> False))"

definition session_keys :: "uuid_parser \<Rightarrow> string \<Rightarrow> string \<Rightarrow> service \<Rightarrow> (string \<times> hash) set" where
  "session_keys parse node node_id s =
     (case parse node_id of
        None \<Rightarrow> {}
      | Some uid \<Rightarrow> {(ns, h). mk_key ns h \<in> owned_keys node uid (owner_of (s_blocks (svc_store s)))})"

lemma valid_sessionE:
  assumes "valid_session parse node node_id s"
  obtains uid nr where "parse node_id = Some uid" "hm_get (s_nodes (svc_store s)) node = Some nr"
    "n_node_id nr = uid" "blocks_wf (s_blocks (svc_store s))"
  using assms by (auto simp: valid_session_def split: option.splits)

lemma owned_keys_insert:
  assumes "o_node_id own = uid"
  shows "owned_keys n uid (\<lambda>k. if k \<in> K then (f k)(n \<mapsto> own) else f k) = owned_keys n uid f \<union> K"
  using assms by (auto simp: owned_keys_def)

lemma owned_keys_remove:
  "owned_keys n uid (\<lambda>k. if k \<in> K then drop_from n uid (f k) else f k) = owned_keys n uid f - K"
  by (auto simp: owned_keys_def drop_from_def split: if_splits)

lemma touch_current:
  assumes "hm_get (s_nodes st) node = Some nr" "n_node_id nr = uid"
  shows "touch_node_session now node uid st =
    (Inr (), st\<lparr>s_nodes := hm_insert node (nr\<lparr>last_seen := now\<rparr>) (s_nodes st)\<rparr>)"
  using assms by (simp add: touch_node_session_def)

interpretation inserts: hash_rpc "svc_insert_block_hashes parse" node node_id "valid_session parse node node_id"
  "session_keys parse node node_id" "(\<union>)"
proof
  fix s :: service and hs :: "hash list" and ns :: string
  assume v: "valid_session parse node node_id s" and ne: "hs \<noteq> []"
  obtain uid nr where r: "parse node_id = Some uid" "hm_get (s_nodes (svc_store s)) node = Some nr"
    "n_node_id nr = uid" "blocks_wf (s_blocks (svc_store s))"
    by (rule valid_sessionE [OF v])
  define own where "own = \<lparr>o_node_id = uid, key_register_time = svc_clock s (svc_reads s + 1)\<rparr>"
  define st where "st = (svc_store s)\<lparr>
      s_nodes := hm_insert node (nr\<lparr>last_seen := svc_now s\<rparr>) (s_nodes (svc_store s)),
      s_blocks := foldl (\<lambda>bs h. insert_owner node own (mk_key ns h) bs) (s_blocks (svc_store s)) hs\<rparr>"
  have eval: "svc_insert_block_hashes parse ns hs node node_id s = (Inr (length hs), svc_after 2 st s)"
    using ne r by (simp add: svc_insert_block_hashes_def parse_node_id_def insert_hashes_def touch_current
        st_def own_def)
  have "valid_session parse node node_id (svc_after 2 st s)"
    using r by (simp add: valid_session_def svc_after_def st_def insert_fold_wf hm_get_insert)
  moreover have "session_keys parse node node_id (svc_after 2 st s)
      = session_keys parse node node_id s \<union> {ns} \<times> set hs"
    using r(1) by (auto simp: session_keys_def svc_after_def st_def insert_fold_owner own_def owned_keys_insert)
  ultimately show "\<exists>n s'. svc_insert_block_hashes parse ns hs node node_id s = (Inr n, s')
      \<and> valid_session parse node node_id s' \<and> session_keys parse node node_id s' = session_keys parse node node_id s \<union> {ns} \<times> set hs"
    using eval by blast
qed auto

interpretation removes: hash_rpc "svc_remove_block_hashes parse" node node_id "valid_session parse node node_id"
  "session_keys parse node node_id" "(-)"
proof
  fix s :: service and hs :: "hash list" and ns :: string
  assume v: "valid_session parse node node_id s" and ne: "hs \<noteq> []"
  obtain uid nr where r: "parse node_id = Some uid" "hm_get (s_nodes (svc_store s)) node = Some nr"
    "n_node_id nr = uid" "blocks_wf (s_blocks (svc_store s))"
    by (rule valid_sessionE [OF v])
  obtain n bs where bs: "remove_owners node uid (map (mk_key ns) hs) 0 (s_blocks (svc_store s)) = (n, bs)"
    by (rule prod.exhaust)
  note spec = remove_owners_spec [OF r(4), of node uid "map (mk_key ns) hs" 0, unfolded bs, simplified]
  define st where "st = (svc_store s)\<lparr>
      s_nodes := hm_insert node (nr\<lparr>last_seen := svc_now s\<rparr>) (s_nodes (svc_store s)), s_blocks := bs\<rparr>"
  have eval: "svc_remove_block_hashes parse ns hs node node_id s = (Inr n, svc_after 1 st s)"
    using ne r bs by (simp add: svc_remove_block_hashes_def parse_node_id_def remove_hashes_def touch_current st_def)
  have "valid_session parse node node_id (svc_after 1 st s)"
    using r spec by (simp add: valid_session_def svc_after_def st_def hm_get_insert)
  moreover have "session_keys parse node node_id (svc_after 1 st s)
      = session_keys parse node node_id s - {ns} \<times> set hs"
    using r(1) spec
    by (auto simp: session_keys_def svc_after_def st_def owned_keys_remove)
  ultimately show "\<exists>n s'. svc_remove_block_hashes parse ns hs node node_id s = (Inr n, s')
      \<and> valid_session parse node node_id s' \<and> session_keys parse node node_id s' = session_keys parse node node_id s - {ns} \<times> set hs"
    using eval by blast
qed auto

lemma heartbeat_registers:
  assumes p: "parse node_id = Some uid" and wf: "blocks_wf (s_blocks (svc_store s))"
    and free: "\<And>nr. hm_get (s_nodes (svc_store s)) node = Some nr \<Longrightarrow> n_node_id nr = uid
      \<or> node_stale_after (s_config (svc_store s)) < svc_now s - last_seen nr"
  shows "\<exists>n s'. svc_heartbeat_node parse node node_id s = (Inr n, s') \<and> valid_session parse node node_id s'
    \<and> session_keys parse node node_id s' = session_keys parse node node_id s"
proof -
  let ?st = "(svc_store s)\<lparr>s_nodes := hm_insert node \<lparr>n_node_id = uid, last_seen = svc_now s\<rparr> (s_nodes (svc_store s))\<rparr>"
  have "heartbeat_node (svc_now s) node uid (svc_store s) = (Inr (), ?st)"
  proof (cases "hm_get (s_nodes (svc_store s)) node")
    case (Some nr)
    with free [OF Some] show ?thesis by (auto simp: heartbeat_node_def duration_since_def Let_def)
  qed (simp add: heartbeat_node_def)
  hence "svc_heartbeat_node parse node node_id s =
      (Inr (as_secs (node_stale_after (s_config (svc_store s)))), svc_after 1 ?st s)"
    using p by (simp add: svc_heartbeat_node_def parse_node_id_def)
  moreover have "valid_session parse node node_id (svc_after 1 ?st s)"
    using p wf by (simp add: valid_session_def svc_after_def hm_get_insert)
  moreover have "session_keys parse node node_id (svc_after 1 ?st s) = session_keys parse node node_id s"
    using p by (simp add: session_keys_def svc_after_def)
  ultimately show ?thesis by blast
qed

section \<open>Prefix lengths per node\<close>

lemma bump_fold:
  assumes i: "i < 2 ^ 32 - 1"
  shows "hm_get (foldl (bump i) counts nodes) n =
    (if n \<in> set nodes
     then Some (let c = (case hm_get counts n of None \<Rightarrow> 0 | Some c \<Rightarrow> c) in if c = i then i + 1 else c)
     else hm_get counts n)"
  using i
proof (induction nodes arbitrary: counts)
  case (Cons m nodes)
  have "hm_get (bump i counts m) n =
      (if m = n then Some (let c = (case hm_get counts n of None \<Rightarrow> 0 | Some c \<Rightarrow> c) in if c = i then i + 1 else c)
       else hm_get counts n)"
    using i by (auto simp: bump_def Let_def hm_get_insert)
  then show ?case using Cons by (auto simp: Let_def split: option.splits if_splits)
qed simp

definition run_length :: "string \<Rightarrow> prefix_entry list \<Rightarrow> nat" where
  "run_length n es = length (takeWhile (\<lambda>e. n \<in> set (entry_nodes e)) es)"

lemma run_length_snoc:
  "run_length n (es @ [e]) = (if run_length n es = length es \<and> n \<in> set (entry_nodes e) then length es + 1 else run_length n es)"
proof (cases "\<forall>x \<in> set es. n \<in> set (entry_nodes x)")
  case True
  hence all: "takeWhile (\<lambda>e. n \<in> set (entry_nodes e)) es = es" by (simp add: takeWhile_eq_all_conv)
  with True show ?thesis by (simp add: run_length_def all)
next
  case False
  then obtain x where x: "x \<in> set es" "n \<notin> set (entry_nodes x)" by blast
  hence "takeWhile (\<lambda>e. n \<in> set (entry_nodes e)) (es @ [e]) = takeWhile (\<lambda>e. n \<in> set (entry_nodes e)) es"
    by (rule takeWhile_append1)
  moreover have "length (takeWhile (\<lambda>e. n \<in> set (entry_nodes e)) es) \<noteq> length es"
    using False by (metis takeWhile_eq_all_conv takeWhile_eq_take take_all order_refl)
  ultimately show ?thesis by (simp add: run_length_def)
qed

definition counts_for :: "prefix_entry list \<Rightarrow> (string, nat) hmap \<Rightarrow> bool" where
  "counts_for es counts =
     (\<forall>n. (case hm_get counts n of None \<Rightarrow> 0 | Some c \<Rightarrow> c) = run_length n es)"

lemma run_length_le: "run_length n es \<le> length es"
  by (simp add: run_length_def length_takeWhile_le)

lemma counts_for_step:
  assumes c: "counts_for es counts" and len: "length es < 2 ^ 32 - 1"
  shows "counts_for (es @ [e]) (foldl (bump (length es)) counts (entry_nodes e))"
  unfolding counts_for_def
proof
  fix n
  have rl: "(case hm_get counts n of None \<Rightarrow> 0 | Some c \<Rightarrow> c) = run_length n es"
    using c by (simp add: counts_for_def)
  have "hm_get (foldl (bump (length es)) counts (entry_nodes e)) n =
      (if n \<in> set (entry_nodes e)
       then Some (if run_length n es = length es then length es + 1 else run_length n es) else hm_get counts n)"
    using bump_fold [OF len, of counts "entry_nodes e" n] rl run_length_le [of n es]
    by (auto simp: Let_def split: option.splits)
  thus "(case hm_get (foldl (bump (length es)) counts (entry_nodes e)) n of None \<Rightarrow> 0 | Some c \<Rightarrow> c) = run_length n (es @ [e])"
    using rl by (auto simp: run_length_snoc)
qed

lemma node_prefixes_counts:
  assumes "counts_for es counts" "length es + length es' < 2 ^ 32"
  shows "counts_for (es @ es') (node_prefixes es' (length es) counts)"
  using assms
proof (induction es' arbitrary: es counts)
  case (Cons e es')
  have "counts_for (es @ [e]) (foldl (bump (length es)) counts (entry_nodes e))"
    using Cons.prems by (intro counts_for_step) auto
  from Cons.IH [OF this] Cons.prems(2) show ?case by simp
qed simp

lemma bump_wf: "hm_wf counts \<Longrightarrow> hm_wf (foldl (bump i) counts nodes)"
  by (induction nodes arbitrary: counts) (auto simp: bump_def Let_def)

lemma node_prefixes_wf: "hm_wf counts \<Longrightarrow> hm_wf (node_prefixes es i counts)"
  by (induction es i counts rule: node_prefixes.induct) (auto intro: bump_wf)

text \<open>The nodes that answer for a key now, and how many of the hashes a node answers for in a row.\<close>

definition serves :: "service \<Rightarrow> string \<Rightarrow> string \<Rightarrow> hash \<Rightarrow> bool" where
  "serves s ns n h =
     (\<exists>own. owner_of (s_blocks (svc_store s)) (mk_key ns h) n = Some own
        \<and> is_owner_visible (svc_store s) (svc_now s) n own)"

lemma query_entry_serves:
  assumes wf: "blocks_wf (s_blocks (svc_store s))"
  shows "query_entry (svc_store s) (svc_now s) ns h = Some e \<Longrightarrow> set (entry_nodes e) = {n. serves s ns n h}"
    and "query_entry (svc_store s) (svc_now s) ns h = None \<Longrightarrow> \<not> serves s ns n h"
proof -
  have live: "set (live_nodes (svc_store s) (svc_now s) os) = {n. serves s ns n h}"
    if os: "hm_get (s_blocks (svc_store s)) (mk_key ns h) = Some os" for os
  proof -
    have "hm_wf os" using blocks_wf_get [OF wf os] by simp
    from hm_get_in_set [OF this] os show ?thesis
      by (force simp: live_nodes_def serves_def owner_of_def)
  qed
  show "query_entry (svc_store s) (svc_now s) ns h = Some e \<Longrightarrow> set (entry_nodes e) = {n. serves s ns n h}"
    using live by (auto simp: query_entry_def split: option.splits if_splits)
  show "\<not> serves s ns n h" if "query_entry (svc_store s) (svc_now s) ns h = None"
  proof (cases "hm_get (s_blocks (svc_store s)) (mk_key ns h)")
    case None
    thus ?thesis by (simp add: serves_def owner_of_def)
  next
    case (Some os)
    with that have "live_nodes (svc_store s) (svc_now s) os = []" by (auto simp: query_entry_def split: if_splits)
    with live [OF Some] show ?thesis by auto
  qed
qed

lemma run_length_query:
  assumes wf: "blocks_wf (s_blocks (svc_store s))"
  shows "run_length n (query_prefix (svc_now s) ns hs (svc_store s)) = length (takeWhile (serves s ns n) hs)"
proof (induction hs)
  case (Cons h hs)
  show ?case
  proof (cases "query_entry (svc_store s) (svc_now s) ns h")
    case None
    with query_entry_serves(2) [OF wf None] show ?thesis by (simp add: query_prefix_def run_length_def)
  next
    case (Some e)
    with query_entry_serves(1) [OF wf Some] Cons show ?thesis by (simp add: query_prefix_def run_length_def)
  qed
qed (simp add: query_prefix_def run_length_def)

section \<open>Properties\<close>

text \<open>
  C40. A prefix query answers, for each node, how many of the requested hashes in a row from the first one that
  node can serve: a node is listed, once, with the length of its longest such prefix if that
  is not zero, and not listed otherwise.
\<close>

theorem query_prefix_per_node:
  assumes wf: "blocks_wf (s_blocks (svc_store s))" and len: "length hashes < 2 ^ 32" and ne: "hashes \<noteq> []"
  shows "\<exists>nodes s'. svc_query_prefix_blocks ns hashes s = (Inr nodes, s') \<and> distinct (map fst nodes)
    \<and> (\<forall>n k. (n, k) \<in> set nodes \<longleftrightarrow> 0 < k \<and> k = length (takeWhile (serves s ns n) hashes))"
proof -
  let ?es = "query_prefix (svc_now s) ns hashes (svc_store s)"
  define counts where "counts = node_prefixes ?es 0 []"
  have "length ?es < 2 ^ 32" using len map_while_length [of "query_entry (svc_store s) (svc_now s) ns" hashes]
    by (simp add: query_prefix_def)
  hence c: "counts_for ?es counts"
    using node_prefixes_counts [of "[]" "[]" ?es] by (simp add: counts_def counts_for_def run_length_def)
  have cwf: "hm_wf counts" unfolding counts_def by (rule node_prefixes_wf) simp
  have at: "(n, k) \<in> set (filter (\<lambda>(_, count). 0 < count) counts) \<longleftrightarrow> 0 < k \<and> k = length (takeWhile (serves s ns n) hashes)" for n k
  proof -
    have "(case hm_get counts n of None \<Rightarrow> 0 | Some c \<Rightarrow> c) = length (takeWhile (serves s ns n) hashes)"
      using c by (simp add: counts_for_def run_length_query [OF wf])
    thus ?thesis using hm_get_in_set [OF cwf, of n k] by (cases "hm_get counts n") auto
  qed
  have "distinct (map fst (filter (\<lambda>(_, count). 0 < count) counts))"
    using cwf by (simp add: hm_wf_def distinct_map_filter)
  moreover have "svc_query_prefix_blocks ns hashes s =
      (Inr (filter (\<lambda>(_, count). 0 < count) counts), svc_after 1 (svc_store s) s)"
    using ne by (simp add: svc_query_prefix_blocks_def counts_def)
  ultimately show ?thesis using at by blast
qed

definition demo_service :: service where
  "demo_service = \<lparr>svc_store = demo_store, svc_clock = (\<lambda>i. 8 + i), svc_reads = 0\<rparr>"

theorem query_prefix_per_node_witness:
  "blocks_wf (s_blocks (svc_store demo_service))
   \<and> (\<exists>nodes s'. svc_query_prefix_blocks ''m'' [[7], [8]] demo_service = (Inr nodes, s') \<and> (''a'', 1) \<in> set nodes)"
proof -
  have wf: "blocks_wf (s_blocks (svc_store demo_service))"
    using demo_store_inv by (simp add: demo_service_def store_inv_def)
  have "length (takeWhile (serves demo_service ''m'' ''a'') [[7], [8]]) = 1"
    by (simp add: serves_def demo_service_def svc_now_def demo_store_def owner_of_def visible_iff demo_config_def)
  with query_prefix_per_node [OF wf, of "[[7], [8]]" "''m''"] show ?thesis using wf by fastforce
qed

section \<open>A batch over a current session\<close>

lemma send_batch_current:
  assumes v: "valid_session parse addr node_id (server st)"
  shows "\<exists>s'. send_batch (meta_service parse) addr node_id ins rem st = st\<lparr>server := s'\<rparr>
    \<and> valid_session parse addr node_id s'
    \<and> session_keys parse addr node_id s' = (session_keys parse addr node_id (server st) \<union> batch_keys ins) - batch_keys rem"
proof -
  obtain s1 where s1: "send_namespaces (svc_insert_block_hashes parse) addr node_id ins 0 (server st) = (None, s1)"
    "valid_session parse addr node_id s1"
    "session_keys parse addr node_id s1 = session_keys parse addr node_id (server st) \<union> batch_keys ins"
    using inserts.send_namespaces_accepted [OF v] by blast
  obtain s2 where s2: "send_namespaces (svc_remove_block_hashes parse) addr node_id rem 0 s1 = (None, s2)"
    "valid_session parse addr node_id s2"
    "session_keys parse addr node_id s2 = session_keys parse addr node_id s1 - batch_keys rem"
    using removes.send_namespaces_accepted [OF s1(2)] by blast
  have "send_batch (meta_service parse) addr node_id ins rem st = st\<lparr>server := s2\<rparr>"
    using s1(1) s2(1) by (simp add: send_batch_def send_removes_def meta_service_def)
  with s2 s1(3) show ?thesis by auto
qed

text \<open>The client's session is established, or the node's entry on the server is free for it.\<close>

definition can_send :: "uuid_parser \<Rightarrow> string \<Rightarrow> string \<Rightarrow> instant \<Rightarrow> service loop_state \<Rightarrow> bool" where
  "can_send parse addr node_id now st =
     (if node_registered (heartbeat st) \<and> connected st then valid_session parse addr node_id (server st)
      else next_at (heartbeat st) \<le> now \<and> blocks_wf (s_blocks (svc_store (server st)))
        \<and> (case parse node_id of
             None \<Rightarrow> False
           | Some uid \<Rightarrow>
               (case hm_get (s_nodes (svc_store (server st))) addr of
                  None \<Rightarrow> True
                | Some nr \<Rightarrow> n_node_id nr = uid
                    \<or> node_stale_after (s_config (svc_store (server st))) < svc_now (server st) - last_seen nr)))"

text \<open>A session the client knows and the server holds, and the commands a turn of the loop takes.\<close>

definition established :: "uuid_parser \<Rightarrow> string \<Rightarrow> string \<Rightarrow> service loop_state \<Rightarrow> bool" where
  "established parse addr node_id st =
     (node_registered (heartbeat st) \<and> connected st \<and> valid_session parse addr node_id (server st))"

fun commands_of :: "wakeup \<Rightarrow> metaserver_command list" where
  "commands_of (Commands now later cmds) = cmds"
| "commands_of _ = []"

definition plain :: "wakeup \<Rightarrow> bool" where
  "plain w = (w \<noteq> Disconnected \<and> Shutdown \<notin> set (commands_of w))"

lemma established_tick:
  assumes "established parse addr node_id st"
  shows "established parse addr node_id (heartbeat_tick (meta_service parse) addr node_id later st)
    \<and> session_keys parse addr node_id (server (heartbeat_tick (meta_service parse) addr node_id later st)) =
        session_keys parse addr node_id (server st)
    \<and> l_metrics (heartbeat_tick (meta_service parse) addr node_id later st) = l_metrics st"
proof -
  from assms have v: "valid_session parse addr node_id (server st)" and c: "connected st"
    by (simp_all add: established_def)
  obtain uid nr where r: "parse node_id = Some uid" "hm_get (s_nodes (svc_store (server st))) addr = Some nr"
    "n_node_id nr = uid" "blocks_wf (s_blocks (svc_store (server st)))"
    by (rule valid_sessionE [OF v])
  obtain n s' where "svc_heartbeat_node parse addr node_id (server st) = (Inr n, s')"
    "valid_session parse addr node_id s'"
    "session_keys parse addr node_id s' = session_keys parse addr node_id (server st)"
    using heartbeat_registers [where node = addr and s = "server st" and parse = parse, OF r(1) r(4)] r(2,3) by auto
  with c show ?thesis
    by (simp add: heartbeat_tick_def send_heartbeat_def call_heartbeat_def meta_service_def established_def)
qed

lemma ensure_established:
  assumes c: "can_send parse addr node_id now st"
  shows "\<exists>st'. ensure_heartbeat_registered (meta_service parse) addr node_id now later st = (True, st')
    \<and> established parse addr node_id st' \<and> l_metrics st' = l_metrics st
    \<and> session_keys parse addr node_id (server st') = session_keys parse addr node_id (server st)"
proof (cases "node_registered (heartbeat st) \<and> connected st")
  case True
  with c show ?thesis by (simp add: ensure_heartbeat_registered_def can_send_def established_def)
next
  case False
  with c obtain uid where p: "parse node_id = Some uid" and at: "next_at (heartbeat st) \<le> now"
    and wf: "blocks_wf (s_blocks (svc_store (server st)))"
    and free: "\<And>nr. hm_get (s_nodes (svc_store (server st))) addr = Some nr \<Longrightarrow> n_node_id nr = uid
      \<or> node_stale_after (s_config (svc_store (server st))) < svc_now (server st) - last_seen nr"
    by (auto simp: can_send_def split: option.splits)
  obtain n s' where s': "svc_heartbeat_node parse addr node_id (server st) = (Inr n, s')"
    "valid_session parse addr node_id s'"
    "session_keys parse addr node_id s' = session_keys parse addr node_id (server st)"
    using heartbeat_registers [where node = addr and s = "server st" and parse = parse, OF p wf] free by blast
  with False at show ?thesis
    by (auto simp: ensure_heartbeat_registered_def send_heartbeat_def call_heartbeat_def meta_service_def established_def)
qed

lemma established_can_send: "established parse addr node_id st \<Longrightarrow> can_send parse addr node_id now st"
  by (simp add: established_def can_send_def)

lemma commands_applied:
  assumes c: "can_send parse addr node_id now st" and n: "Shutdown \<notin> set cmds"
  shows "\<exists>st'. handle_commands (meta_service parse) addr node_id now later cmds st = (True, st')
    \<and> established parse addr node_id st' \<and> l_metrics st' = l_metrics st
    \<and> session_keys parse addr node_id (server st') = replay cmds (session_keys parse addr node_id (server st))"
proof -
  obtain d ins rem where d: "drain cmds drain_start = Some d" "split_net d = (ins, rem)"
    "\<forall>S. (S \<union> batch_keys ins) - batch_keys rem = replay cmds S"
    using drained_batch [OF n] by blast
  obtain st1 where st1: "ensure_heartbeat_registered (meta_service parse) addr node_id now later st = (True, st1)"
    "established parse addr node_id st1" "l_metrics st1 = l_metrics st"
    "session_keys parse addr node_id (server st1) = session_keys parse addr node_id (server st)"
    using ensure_established [OF c] by blast
  from st1(2) have v: "valid_session parse addr node_id (server st1)" by (simp add: established_def)
  obtain s' where s': "send_batch (meta_service parse) addr node_id ins rem st1 = st1\<lparr>server := s'\<rparr>"
    "valid_session parse addr node_id s'"
    "session_keys parse addr node_id s' = (session_keys parse addr node_id (server st1) \<union> batch_keys ins) - batch_keys rem"
    using send_batch_current [OF v, of ins rem] by blast
  have "handle_commands (meta_service parse) addr node_id now later cmds st = (True, st1\<lparr>server := s'\<rparr>)"
    using d(1,2) st1(1) s'(1) by (simp add: handle_commands_def)
  with st1(2-4) s'(2,3) d(3) show ?thesis by (simp add: established_def)
qed

lemma established_turn:
  assumes e: "established parse addr node_id st" and p: "plain w"
  shows "\<exists>st'. registration_turn (meta_service parse) addr node_id w st = (True, st')
    \<and> established parse addr node_id st' \<and> l_metrics st' = l_metrics st
    \<and> session_keys parse addr node_id (server st') =
        replay (commands_of w) (session_keys parse addr node_id (server st))"
proof (cases w)
  case (Timer later)
  with established_tick [OF e, of later] show ?thesis by simp
next
  case (Commands now later cmds)
  with p commands_applied [OF established_can_send [OF e]] show ?thesis by (simp add: plain_def)
qed (use p in \<open>simp add: plain_def\<close>)

lemma established_loop:
  assumes "established parse addr node_id st" and "list_all plain ws"
  shows "established parse addr node_id (registration_loop (meta_service parse) addr node_id ws st)
    \<and> session_keys parse addr node_id (server (registration_loop (meta_service parse) addr node_id ws st)) =
        replay (concat (map commands_of ws)) (session_keys parse addr node_id (server st))
    \<and> l_metrics (registration_loop (meta_service parse) addr node_id ws st) = l_metrics st"
  using assms
proof (induction ws arbitrary: st)
  case (Cons w ws)
  then obtain st' where "registration_turn (meta_service parse) addr node_id w st = (True, st')"
    "established parse addr node_id st'" "l_metrics st' = l_metrics st"
    "session_keys parse addr node_id (server st') = replay (commands_of w) (session_keys parse addr node_id (server st))"
    using established_turn [of parse addr node_id st w] by auto
  with Cons.IH [of st'] Cons.prems show ?case by (simp add: replay_append)
qed simp

end
