(* ===== verification/Pd_Wire.thy ===== *)
theory Pd_Wire
  imports Pega_Prelude
begin

text \<open>
  The handshake a decode node sends to a prefill node, \<^verbatim>\<open>pegaflow-pd-wire/src/lib.rs\<close>: where the blocks of every
  layer must be written and which immediates signal completion, failure and abort. Reading and writing JSON is
  serde's: \<open>parse\<close> and \<open>print\<close> are arguments. Error messages are constructors of \<open>wire_error\<close>.
\<close>

unbundle bit_operations_syntax

section \<open>Immediates\<close>

type_synonym imm = "32 word"

definition FAIL_IMM_FLAG :: imm where "FAIL_IMM_FLAG = 0x80000000"
definition ABORT_IMM_FLAG :: imm where "ABORT_IMM_FLAG = 0x40000000"
definition IMM_FLAG_BITS :: imm where "IMM_FLAG_BITS = FAIL_IMM_FLAG OR ABORT_IMM_FLAG"
definition MAX_IMM_ID :: imm where "MAX_IMM_ID = NOT IMM_FLAG_BITS"

definition fail_imm :: "imm \<Rightarrow> imm" where
  "fail_imm imm_id = imm_id XOR FAIL_IMM_FLAG"

definition abort_imm :: "imm \<Rightarrow> imm" where
  "abort_imm imm_id = imm_id XOR ABORT_IMM_FLAG"

section \<open>The schema\<close>

datatype wire_error =
    InvalidJson | ExpectedImmCountZero | EmptyRequestId | InvalidTpRank nat nat | ZeroBlockSize
  | ReservedFlagBits imm | ImmNotDistinct imm imm imm | SignalWithoutFlag imm
  | EmptyLayerName u64 | NoBlockIds u64 | EmptyBlockIds u64 | BlockIdsNotIncreasing u64 | NoRegions u64
  | RegionOrder u64 | InvalidAddressRange u64 nat | StrideTooSmall u64 nat | DuplicateLayerIdx u64

record mr_desc =
  mr_ptr :: u64
  addr_rkey_list :: "(string \<times> u64) list"

record wire_region =
  region_idx :: nat
  wr_base_addr :: u64
  wr_block_len :: u64
  wr_block_stride :: "u64 option"

definition block_stride :: "wire_region \<Rightarrow> u64" where
  "block_stride r = (case wr_block_stride r of None \<Rightarrow> wr_block_len r | Some s \<Rightarrow> s)"

record wire_layer =
  layer_name :: string
  layer_idx :: u64
  wl_block_ids :: "u64 list option"
  wl_regions :: "wire_region list"
  wl_mr_desc :: "mr_desc option"

text \<open>The fields serde reads as they are, and the whole handshake.\<close>

record handshake_fields =
  request_id :: string
  engine_id :: string
  tp_rank :: nat
  tp_size :: nat
  block_size :: u64
  hs_block_ids :: "u64 list option"
  hs_layers :: "wire_layer list"
  imm_id :: imm
  hs_fail_imm_id :: "imm option"
  hs_abort_imm_id :: "imm option"

record handshake = handshake_fields +
  expected_imm_count :: nat

text \<open>A missing or null count is 1, a count of 0 is an error.\<close>

definition de_expected_imm_count :: "nat option \<Rightarrow> wire_error + nat" where
  "de_expected_imm_count v =
     (let n = (case v of None \<Rightarrow> 1 | Some n \<Rightarrow> n) in if n = 0 then Inl ExpectedImmCountZero else Inr n)"

definition layer_block_ids :: "'a handshake_fields_scheme \<Rightarrow> wire_layer \<Rightarrow> u64 list option" where
  "layer_block_ids h l = (case wl_block_ids l of Some ids \<Rightarrow> Some ids | None \<Rightarrow> hs_block_ids h)"

definition fail_imm_id :: "'a handshake_fields_scheme \<Rightarrow> imm" where
  "fail_imm_id h = (case hs_fail_imm_id h of Some i \<Rightarrow> i | None \<Rightarrow> fail_imm (imm_id h))"

definition abort_imm_id :: "'a handshake_fields_scheme \<Rightarrow> imm" where
  "abort_imm_id h = (case hs_abort_imm_id h of Some i \<Rightarrow> i | None \<Rightarrow> abort_imm (imm_id h))"

section \<open>Validation\<close>

definition validate_imm_ids :: "'a handshake_fields_scheme \<Rightarrow> wire_error + unit" where
  "validate_imm_ids h =
     (let imm = imm_id h; fail = fail_imm_id h; abort = abort_imm_id h
      in if imm AND IMM_FLAG_BITS \<noteq> 0 then Inl (ReservedFlagBits imm)
         else if fail = imm \<or> abort = imm \<or> abort = fail then Inl (ImmNotDistinct imm fail abort)
         else if fail AND IMM_FLAG_BITS = 0 then Inl (SignalWithoutFlag fail)
         else if abort AND IMM_FLAG_BITS = 0 then Inl (SignalWithoutFlag abort)
         else Inr ())"

text \<open>\<open>windows(2).all(|pair| pair[0] < pair[1])\<close>.\<close>

fun strictly_increasing :: "nat list \<Rightarrow> bool" where
  "strictly_increasing (a # b # xs) = (a < b \<and> strictly_increasing (b # xs))"
| "strictly_increasing _ = True"

fun validate_regions :: "u64 \<Rightarrow> nat \<Rightarrow> wire_region list \<Rightarrow> wire_error + unit" where
  "validate_regions idx position [] = Inr ()"
| "validate_regions idx position (r # rs) =
     (if region_idx r \<noteq> position then Inl (RegionOrder idx)
      else if wr_base_addr r = 0 \<or> wr_block_len r = 0 then Inl (InvalidAddressRange idx (region_idx r))
      else if block_stride r < wr_block_len r then Inl (StrideTooSmall idx (region_idx r))
      else validate_regions idx (position + 1) rs)"

definition validate_layer :: "'a handshake_fields_scheme \<Rightarrow> wire_layer \<Rightarrow> wire_error + unit" where
  "validate_layer h l =
     (if layer_name l = [] then Inl (EmptyLayerName (layer_idx l))
      else case layer_block_ids h l of
          None \<Rightarrow> Inl (NoBlockIds (layer_idx l))
        | Some ids \<Rightarrow>
            if ids = [] then Inl (EmptyBlockIds (layer_idx l))
            else if \<not> strictly_increasing ids then Inl (BlockIdsNotIncreasing (layer_idx l))
            else if wl_regions l = [] then Inl (NoRegions (layer_idx l))
            else validate_regions (layer_idx l) 0 (wl_regions l))"

fun validate_layers :: "'a handshake_fields_scheme \<Rightarrow> u64 list \<Rightarrow> wire_layer list \<Rightarrow> wire_error + unit" where
  "validate_layers h seen [] = Inr ()"
| "validate_layers h seen (l # ls) =
     (case validate_layer h l of
        Inl e \<Rightarrow> Inl e
      | Inr _ \<Rightarrow>
          if layer_idx l \<in> set seen then Inl (DuplicateLayerIdx (layer_idx l))
          else validate_layers h (layer_idx l # seen) ls)"

definition validate :: "'a handshake_fields_scheme \<Rightarrow> wire_error + unit" where
  "validate h =
     (if request_id h = [] then Inl EmptyRequestId
      else if tp_size h = 0 \<or> tp_size h \<le> tp_rank h then Inl (InvalidTpRank (tp_rank h) (tp_size h))
      else if block_size h = 0 then Inl ZeroBlockSize
      else case validate_imm_ids h of
          Inl e \<Rightarrow> Inl e
        | Inr _ \<Rightarrow> validate_layers h [] (hs_layers h))"

section \<open>JSON\<close>

type_synonym serde_parse = "string \<Rightarrow> (handshake_fields \<times> nat option) option"
type_synonym serde_print = "handshake \<Rightarrow> string option"

definition from_json :: "serde_parse \<Rightarrow> string \<Rightarrow> wire_error + handshake" where
  "from_json parse json =
     (case parse json of
        None \<Rightarrow> Inl InvalidJson
      | Some (raw, count) \<Rightarrow>
          (case de_expected_imm_count count of
             Inl e \<Rightarrow> Inl e
           | Inr n \<Rightarrow>
               let h = handshake_fields.extend raw (handshake.fields n)
               in case validate h of Inl e \<Rightarrow> Inl e | Inr _ \<Rightarrow> Inr h))"

definition to_json :: "serde_print \<Rightarrow> handshake \<Rightarrow> wire_error + string" where
  "to_json print h =
     (case validate h of
        Inl e \<Rightarrow> Inl e
      | Inr _ \<Rightarrow> (case print h of None \<Rightarrow> Inl InvalidJson | Some s \<Rightarrow> Inr s))"

text \<open>What serde's derived implementations promise: a printed value is read back field by field.\<close>

definition serde_contract :: "serde_parse \<Rightarrow> serde_print \<Rightarrow> bool" where
  "serde_contract parse print =
     (\<forall>h s. print h = Some s \<longrightarrow> parse s = Some (handshake_fields.truncate h, Some (expected_imm_count h)))"

section \<open>Well-formed handshakes\<close>

text \<open>Block \<open>b\<close> of a region occupies the addresses from \<open>base + b * stride\<close>, \<open>block_len\<close> of them.\<close>

definition block_addrs :: "nat \<Rightarrow> nat \<Rightarrow> nat \<Rightarrow> nat \<Rightarrow> nat set" where
  "block_addrs base len stride b = {base + b * stride ..< base + b * stride + len}"

definition region_ok :: "wire_region \<Rightarrow> bool" where
  "region_ok r = (0 < wr_base_addr r \<and> 0 < wr_block_len r \<and> wr_block_len r \<le> block_stride r)"

definition layer_ok :: "'a handshake_fields_scheme \<Rightarrow> wire_layer \<Rightarrow> bool" where
  "layer_ok h l =
     (layer_name l \<noteq> []
      \<and> (\<exists>ids. layer_block_ids h l = Some ids \<and> ids \<noteq> [] \<and> sorted_wrt (<) ids)
      \<and> wl_regions l \<noteq> []
      \<and> (\<forall>i < length (wl_regions l). region_idx (wl_regions l ! i) = i \<and> region_ok (wl_regions l ! i)))"

definition handshake_ok :: "'a handshake_fields_scheme \<Rightarrow> bool" where
  "handshake_ok h =
     (request_id h \<noteq> [] \<and> tp_rank h < tp_size h \<and> 0 < block_size h
      \<and> imm_id h \<le> MAX_IMM_ID \<and> fail_imm_id h \<noteq> abort_imm_id h
      \<and> MAX_IMM_ID < fail_imm_id h \<and> MAX_IMM_ID < abort_imm_id h
      \<and> list_all (layer_ok h) (hs_layers h) \<and> distinct (map layer_idx (hs_layers h)))"

lemma imm_flag_values: "IMM_FLAG_BITS = 0xC0000000" "MAX_IMM_ID = 0x3FFFFFFF"
  by (simp_all add: IMM_FLAG_BITS_def MAX_IMM_ID_def FAIL_IMM_FLAG_def ABORT_IMM_FLAG_def)

lemma max_imm_take_bit: "i \<le> MAX_IMM_ID \<longleftrightarrow> take_bit 30 i = i"
proof -
  have "take_bit 30 i = i \<longleftrightarrow> take_bit 30 (unat i) = unat i"
    by (metis unsigned_take_bit_eq unsigned_word_eqI)
  also have "\<dots> \<longleftrightarrow> i \<le> MAX_IMM_ID"
    by (auto simp: take_bit_nat_eq_self_iff imm_flag_values word_le_nat_alt)
  finally show ?thesis ..
qed

lemma imm_namespace: "(i AND IMM_FLAG_BITS = 0) = (i \<le> MAX_IMM_ID)"
proof -
  have flags: "IMM_FLAG_BITS = NOT (mask 30)" by (simp add: imm_flag_values mask_numeral)
  have "(i AND NOT (mask 30) = 0) = (take_bit 30 i = i)"
    by (auto simp: bit_eq_iff bit_simps)
  thus ?thesis by (simp add: flags max_imm_take_bit)
qed

lemma xor_cancel: "(a XOR c = b XOR c) = (a = b)" for a b c :: imm
proof
  assume "a XOR c = b XOR c"
  hence "(a XOR c) XOR c = (b XOR c) XOR c" by simp
  thus "a = b" by (simp add: xor.assoc)
qed simp

lemma derived_imms:
  assumes "i \<le> MAX_IMM_ID" "j \<le> MAX_IMM_ID"
  shows "MAX_IMM_ID < fail_imm i" "MAX_IMM_ID < abort_imm i" "fail_imm i \<noteq> abort_imm j"
    "fail_imm i = fail_imm j \<longleftrightarrow> i = j" "abort_imm i = abort_imm j \<longleftrightarrow> i = j"
proof -
  have clear: "\<not> bit k 31 \<and> \<not> bit k 30" if "k \<le> MAX_IMM_ID" for k :: imm
  proof -
    have "take_bit 30 k = k" using that by (simp add: max_imm_take_bit)
    hence "bit (take_bit 30 k) n = bit k n" for n by simp
    from this [of 31] this [of 30] show ?thesis by (simp add: bit_take_bit_iff)
  qed
  have f: "bit (fail_imm i) 31" and a: "bit (abort_imm k) 30" "\<not> bit (abort_imm k) 31" if "k \<le> MAX_IMM_ID" for k
    using clear [OF assms(1)] clear [OF that]
    by (simp_all add: fail_imm_def abort_imm_def FAIL_IMM_FLAG_def ABORT_IMM_FLAG_def bit_simps)
  show "MAX_IMM_ID < fail_imm i" using clear f [OF assms(1)] by (meson not_le)
  show "MAX_IMM_ID < abort_imm i" using clear a [OF assms(1)] by (meson not_le)
  show "fail_imm i \<noteq> abort_imm j" using f [OF assms(1)] a(2) [OF assms(2)] by (cases "fail_imm i = abort_imm j") simp_all
  show "fail_imm i = fail_imm j \<longleftrightarrow> i = j" "abort_imm i = abort_imm j \<longleftrightarrow> i = j"
    by (simp_all only: fail_imm_def abort_imm_def xor_cancel)
qed

lemma strictly_increasing_iff: "strictly_increasing xs = sorted_wrt (<) xs"
proof (induction xs rule: strictly_increasing.induct)
  case (1 a b xs)
  show ?case unfolding strictly_increasing.simps 1 by (auto intro: less_trans)
qed simp_all

lemma validate_regions_iff:
  "validate_regions idx p rs = Inr () \<longleftrightarrow> (\<forall>i < length rs. region_idx (rs ! i) = p + i \<and> region_ok (rs ! i))"
proof (induction rs arbitrary: p)
  case (Cons r rs)
  have "validate_regions idx p (r # rs) = Inr () \<longleftrightarrow>
      region_idx r = p \<and> region_ok r \<and> validate_regions idx (p + 1) rs = Inr ()"
    by (auto simp: region_ok_def)
  also have "\<dots> \<longleftrightarrow> (\<forall>i < length (r # rs). region_idx ((r # rs) ! i) = p + i \<and> region_ok ((r # rs) ! i))"
    unfolding Cons.IH by (simp add: All_less_Suc2)
  finally show ?case .
qed simp

lemma validate_layer_iff: "validate_layer h l = Inr () \<longleftrightarrow> layer_ok h l"
  by (auto simp: validate_layer_def layer_ok_def validate_regions_iff strictly_increasing_iff split: option.splits)

lemma validate_layers_iff:
  "validate_layers h seen ls = Inr () \<longleftrightarrow>
     list_all (layer_ok h) ls \<and> distinct (map layer_idx ls) \<and> layer_idx ` set ls \<inter> set seen = {}"
proof (induction ls arbitrary: seen)
  case (Cons l ls)
  have "validate_layers h seen (l # ls) = Inr () \<longleftrightarrow>
      validate_layer h l = Inr () \<and> layer_idx l \<notin> set seen \<and> validate_layers h (layer_idx l # seen) ls = Inr ()"
    by (auto split: sum.splits)
  thus ?case unfolding Cons.IH validate_layer_iff by auto
qed simp

lemma validate_imm_ids_iff:
  "validate_imm_ids h = Inr () \<longleftrightarrow>
     imm_id h \<le> MAX_IMM_ID \<and> fail_imm_id h \<noteq> abort_imm_id h
     \<and> MAX_IMM_ID < fail_imm_id h \<and> MAX_IMM_ID < abort_imm_id h"
  by (auto simp: validate_imm_ids_def imm_namespace Let_def not_le)

lemma validate_iff: "validate h = Inr () \<longleftrightarrow> handshake_ok h"
proof -
  have "validate h = Inr () \<longleftrightarrow> request_id h \<noteq> [] \<and> tp_rank h < tp_size h \<and> 0 < block_size h
      \<and> validate_imm_ids h = Inr () \<and> validate_layers h [] (hs_layers h) = Inr ()"
    by (auto simp: validate_def split: sum.splits)
  thus ?thesis by (simp add: validate_imm_ids_iff validate_layers_iff handshake_ok_def conj_assoc)
qed

lemma blocks_apart:
  assumes "region_ok r" "b \<noteq> b'"
  shows "block_addrs base (wr_block_len r) (block_stride r) b \<inter> block_addrs base (wr_block_len r) (block_stride r) b' = {}"
proof -
  have step: "c * block_stride r + wr_block_len r \<le> d * block_stride r" if "c < d" for c d
  proof -
    have "c * block_stride r + wr_block_len r \<le> Suc c * block_stride r" using assms(1) by (simp add: region_ok_def)
    also have "\<dots> \<le> d * block_stride r" using that by (intro mult_le_mono1) simp
    finally show ?thesis .
  qed
  consider "b < b'" | "b' < b" using assms(2) by linarith
  thus ?thesis by cases (use step in \<open>fastforce simp: block_addrs_def\<close>)+
qed

lemma handshake_layer_ok: "handshake_ok h \<Longrightarrow> l \<in> set (hs_layers h) \<Longrightarrow> layer_ok h l"
  by (simp add: handshake_ok_def list_all_iff)

lemma layer_region_ok: "layer_ok h l \<Longrightarrow> r \<in> set (wl_regions l) \<Longrightarrow> region_ok r"
  by (auto simp: layer_ok_def in_set_conv_nth)

lemma from_json_valid:
  assumes "from_json parse s = Inr h"
  shows "handshake_ok h" "0 < expected_imm_count h"
  using assms
  by (auto simp: from_json_def de_expected_imm_count_def validate_iff Let_def handshake_fields.defs handshake.defs
      split: option.splits sum.splits if_splits)

lemma extend_truncate: "handshake_fields.extend (handshake_fields.truncate h) (handshake.fields (expected_imm_count h)) = h"
  by (cases h) (simp add: handshake_fields.defs handshake.defs)

section \<open>Properties\<close>


text \<open>The compact form with two layers, one of them with its own list.\<close>

definition ex_handshake :: handshake where
  "ex_handshake =
     \<lparr>request_id = ''cmpl-42-0'', engine_id = ''d-node0'', tp_rank = 0, tp_size = 2, block_size = 64,
      hs_block_ids = Some [3, 7, 9],
      hs_layers =
        [\<lparr>layer_name = ''l0'', layer_idx = 0, wl_block_ids = None,
          wl_regions = [\<lparr>region_idx = 0, wr_base_addr = 4096, wr_block_len = 1024, wr_block_stride = None\<rparr>,
                        \<lparr>region_idx = 1, wr_base_addr = 1048576, wr_block_len = 1024, wr_block_stride = Some 2048\<rparr>],
          wl_mr_desc = Some \<lparr>mr_ptr = 4096, addr_rkey_list = [(''0a1b'', 17)]\<rparr>\<rparr>,
         \<lparr>layer_name = ''l1'', layer_idx = 1, wl_block_ids = Some [3, 7],
          wl_regions = [\<lparr>region_idx = 0, wr_base_addr = 8192, wr_block_len = 1024, wr_block_stride = None\<rparr>],
          wl_mr_desc = Some \<lparr>mr_ptr = 8192, addr_rkey_list = [(''0a1b'', 18)]\<rparr>\<rparr>],
      imm_id = 5, hs_fail_imm_id = None, hs_abort_imm_id = None, expected_imm_count = 2\<rparr>"

definition ex_parse :: serde_parse where
  "ex_parse s = (if s = ''h'' then Some (handshake_fields.truncate ex_handshake, Some 2) else None)"

lemma ex_handshake_validates: "validate ex_handshake = Inr ()"
  by (simp add: validate_def ex_handshake_def validate_imm_ids_def fail_imm_id_def abort_imm_id_def fail_imm_def
      abort_imm_def imm_flag_values FAIL_IMM_FLAG_def ABORT_IMM_FLAG_def validate_layer_def layer_block_ids_def
      block_stride_def)

lemma ex_from_json: "from_json ex_parse ''h'' = Inr ex_handshake"
  using ex_handshake_validates extend_truncate [of ex_handshake]
  by (simp add: from_json_def ex_parse_def de_expected_imm_count_def ex_handshake_def)


lemma handshake_ok_extend: "handshake_ok (handshake_fields.extend f x) = handshake_ok f"
proof -
  have "layer_ok (handshake_fields.extend f x) = layer_ok f"
    by (rule ext) (simp add: layer_ok_def layer_block_ids_def handshake_fields.defs cong: option.case_cong)
  thus ?thesis
    by (simp add: handshake_ok_def fail_imm_id_def abort_imm_id_def handshake_fields.defs cong: option.case_cong)
qed

lemma to_json_iff: "to_json print h = Inr s \<longleftrightarrow> handshake_ok h \<and> print h = Some s"
  unfolding validate_iff [symmetric] by (auto simp: to_json_def split: sum.splits option.splits)

lemma from_json_iff:
  "from_json parse s = Inr h \<longleftrightarrow>
     (\<exists>f n. parse s = Some (f, n) \<and> n \<noteq> Some 0 \<and> handshake_ok f
        \<and> h = handshake_fields.extend f (handshake.fields (case n of None \<Rightarrow> 1 | Some k \<Rightarrow> k)))"
proof (cases "parse s")
  case (Some fn)
  obtain f n where fn: "fn = (f, n)" by (rule prod.exhaust)
  let ?h = "handshake_fields.extend f (handshake.fields (case n of None \<Rightarrow> 1 | Some k \<Rightarrow> k))"
  have "from_json parse s = Inr h \<longleftrightarrow> n \<noteq> Some 0 \<and> validate ?h = Inr () \<and> h = ?h"
    using Some fn by (auto simp: from_json_def de_expected_imm_count_def Let_def split: option.splits sum.splits)
  with Some fn show ?thesis by (auto simp: validate_iff handshake_ok_extend)
qed (simp add: from_json_def)

text \<open>
  C10. Both directions accept exactly the well-formed handshakes. \<open>to_json\<close> writes a handshake if and only if it is
  well-formed (and serde prints it) and gives an error otherwise; \<open>from_json\<close> returns a handshake if and only if the
  text holds the fields of a well-formed one with a count that is not zero, a missing count read as one, and gives an
  error otherwise. What \<open>to_json\<close> writes, \<open>from_json\<close> reads back unchanged; the count of a handshake is not zero by its
  type.
\<close>

theorem handshake_round_trip:
  assumes "serde_contract parse print" and "0 < expected_imm_count h"
  shows "(to_json print h = Inr s \<longleftrightarrow> handshake_ok h \<and> print h = Some s)
    \<and> (from_json parse t = Inr g \<longleftrightarrow>
         (\<exists>f n. parse t = Some (f, n) \<and> n \<noteq> Some 0 \<and> handshake_ok f
            \<and> g = handshake_fields.extend f (handshake.fields (case n of None \<Rightarrow> 1 | Some k \<Rightarrow> k))))
    \<and> (to_json print h = Inr s \<longrightarrow> from_json parse s = Inr h)"
proof -
  have "from_json parse s = Inr h" if "to_json print h = Inr s"
  proof -
    have ok: "handshake_ok h" and "print h = Some s" using that by (simp_all add: to_json_iff)
    hence "parse s = Some (handshake_fields.truncate h, Some (expected_imm_count h))"
      using assms(1) by (simp add: serde_contract_def)
    moreover have "handshake_ok (handshake_fields.truncate h)"
      using ok handshake_ok_extend [of "handshake_fields.truncate h" "handshake.fields (expected_imm_count h)"]
      by (simp add: extend_truncate)
    ultimately show ?thesis using assms(2) by (simp add: from_json_iff extend_truncate)
  qed
  thus ?thesis by (intro conjI to_json_iff from_json_iff impI)
qed

text \<open>The same handshake with a layer twice is refused by both sides.\<close>

definition ex_duplicate :: handshake where
  "ex_duplicate = ex_handshake\<lparr>hs_layers := hs_layers ex_handshake @ hs_layers ex_handshake\<rparr>"

definition ex_parse2 :: serde_parse where
  "ex_parse2 s =
     (if s = ''h'' then Some (handshake_fields.truncate ex_handshake, Some 2)
      else if s = ''d'' then Some (handshake_fields.truncate ex_duplicate, Some 2) else None)"

definition ex_print2 :: serde_print where
  "ex_print2 h = (if h = ex_handshake then Some ''h'' else if h = ex_duplicate then Some ''d'' else None)"

lemma ex_duplicate_invalid: "\<not> handshake_ok ex_duplicate"
  by (simp add: handshake_ok_def ex_duplicate_def ex_handshake_def)

theorem handshake_round_trip_witness:
  "serde_contract ex_parse2 ex_print2 \<and> ex_print2 ex_duplicate = Some ''d'' \<and> to_json ex_print2 ex_duplicate \<noteq> Inr ''d''
   \<and> from_json ex_parse2 ''d'' \<noteq> Inr ex_duplicate \<and> from_json ex_parse2 ''h'' = Inr ex_handshake"
proof -
  have apart: "ex_duplicate \<noteq> ex_handshake" by (simp add: ex_duplicate_def ex_handshake_def)
  have counts: "expected_imm_count ex_handshake = 2" "expected_imm_count ex_duplicate = 2"
    by (simp_all add: ex_duplicate_def ex_handshake_def)
  have c: "serde_contract ex_parse2 ex_print2"
    using counts by (simp add: serde_contract_def ex_print2_def ex_parse2_def)
  have t: "to_json ex_print2 ex_handshake = Inr ''h''"
    by (simp add: to_json_def ex_handshake_validates ex_print2_def)
  have d: "\<not> handshake_ok (handshake_fields.truncate ex_duplicate)"
    using ex_duplicate_invalid handshake_ok_extend [of "handshake_fields.truncate ex_duplicate" "handshake.fields 2"]
      extend_truncate [of ex_duplicate] by (simp add: counts)
  have p: "ex_parse2 ''d'' = Some (handshake_fields.truncate ex_duplicate, Some 2)" by (simp add: ex_parse2_def)
  have pos: "0 < expected_imm_count ex_handshake" "0 < expected_imm_count ex_duplicate" unfolding counts by simp_all
  note valid = handshake_round_trip [OF c pos(1), of "''h''" "''h''" ex_handshake]
  note invalid = handshake_round_trip [OF c pos(2), of "''d''" "''d''" ex_duplicate]
  have "from_json ex_parse2 ''h'' = Inr ex_handshake" by (rule conjunct2 [OF conjunct2 [OF valid], THEN mp, OF t])
  moreover have "to_json ex_print2 ex_duplicate \<noteq> Inr ''d''" using conjunct1 [OF invalid] ex_duplicate_invalid by blast
  moreover have "from_json ex_parse2 ''d'' \<noteq> Inr ex_duplicate"
  proof
    assume "from_json ex_parse2 ''d'' = Inr ex_duplicate"
    then obtain f n where f: "ex_parse2 ''d'' = Some (f, n)" "handshake_ok f"
      using conjunct1 [OF conjunct2 [OF invalid]] by blast
    from f(1) have "f = handshake_fields.truncate ex_duplicate" unfolding p by simp
    with f(2) d show False by simp
  qed
  ultimately show ?thesis using c apart by (simp add: ex_print2_def)
qed

end
