(* ===== verification/Imm_Count.thy ===== *)
theory Imm_Count
  imports Pd_Wire
begin

text \<open>
  Counting immediates: \<^verbatim>\<open>pegaflow-transfer/src/v2/imm_count.rs\<close> and the \<open>ImmCounter\<close> of \<^verbatim>\<open>v2/api.rs\<close>. The
  counters are shared (\<open>Arc<AtomicI64>\<close>): a counter is an index into the list of all counters ever made, so that
  clones alias. A counter value is an \<open>int\<close>; it would need \<open>2 ^ 63\<close> arrivals to leave 64 bits. The
  casts to \<open>u32\<close> are written out.
\<close>

section \<open>The counters and their map\<close>


type_synonym counter_id = nat

datatype imm_count = Expected counter_id nat | ImmOnly counter_id

datatype imm_count_status = Vacant | NotReached | Reached

record imm_count_map =
  imm_map :: "(imm, imm_count) hmap"
  counters :: "int list"

definition as_u32 :: "int \<Rightarrow> nat" where
  "as_u32 x = nat (x mod 2 ^ 32)"

definition fetch_add :: "counter_id \<Rightarrow> int \<Rightarrow> int list \<Rightarrow> int \<times> int list" where
  "fetch_add c n cs = (cs ! c, cs[c := cs ! c + n])"

definition count_consume :: "imm_count \<Rightarrow> int list \<Rightarrow> nat \<times> nat option" where
  "count_consume ic cs =
     (case ic of
        Expected c expected \<Rightarrow> (as_u32 (cs ! c), Some expected)
      | ImmOnly c \<Rightarrow> (as_u32 (cs ! c), None))"

text \<open>The two atomic steps of counting: adding the arrival, and taking a full count off again.\<close>

definition count_add :: "counter_id \<Rightarrow> nat \<Rightarrow> int list \<Rightarrow> bool \<times> int list" where
  "count_add c expected cs =
     (let (prev, cs') = fetch_add c 1 cs in ((as_u32 prev + 1) mod 2 ^ 32 = expected, cs'))"

definition count_reset :: "counter_id \<Rightarrow> nat \<Rightarrow> int list \<Rightarrow> int list" where
  "count_reset c expected cs = snd (fetch_add c (- int expected) cs)"

definition count_inc :: "imm_count \<Rightarrow> int list \<Rightarrow> bool \<times> int list" where
  "count_inc ic cs =
     (case ic of
        Expected c expected \<Rightarrow>
          let (reached, cs') = count_add c expected cs
          in (reached, if reached then count_reset c expected cs' else cs')
      | ImmOnly c \<Rightarrow> (False, snd (fetch_add c 1 cs)))"

definition imm_map_new :: imm_count_map where
  "imm_map_new = \<lparr>imm_map = [], counters = []\<rparr>"

definition set_expected :: "imm \<Rightarrow> nat \<Rightarrow> imm_count_map \<Rightarrow> imm_count option \<times> imm_count_map" where
  "set_expected imm expected s =
     (hm_get (imm_map s) imm,
      s\<lparr>imm_map := hm_insert imm (Expected (length (counters s)) expected) (imm_map s), counters := counters s @ [0]\<rparr>)"

definition get_imm_counter :: "imm \<Rightarrow> imm_count_map \<Rightarrow> counter_id \<times> imm_count_map" where
  "get_imm_counter imm s =
     (case hm_get (imm_map s) imm of
        Some (ImmOnly c) \<Rightarrow> (c, s)
      | _ \<Rightarrow>
          (length (counters s),
           s\<lparr>imm_map := hm_insert imm (ImmOnly (length (counters s))) (imm_map s), counters := counters s @ [0]\<rparr>))"

definition remove_imm_count :: "imm \<Rightarrow> imm_count_map \<Rightarrow> imm_count option \<times> imm_count_map" where
  "remove_imm_count imm s = (hm_get (imm_map s) imm, s\<lparr>imm_map := hm_remove imm (imm_map s)\<rparr>)"

definition imm_get :: "imm \<Rightarrow> imm_count_map \<Rightarrow> nat option" where
  "imm_get imm s = map_option (\<lambda>ic. fst (count_consume ic (counters s))) (hm_get (imm_map s) imm)"

definition imm_get_expected :: "imm \<Rightarrow> imm_count_map \<Rightarrow> nat option" where
  "imm_get_expected imm s =
     (case hm_get (imm_map s) imm of Some (Expected _ expected) \<Rightarrow> Some expected | _ \<Rightarrow> None)"

definition imm_inc :: "imm \<Rightarrow> imm_count_map \<Rightarrow> imm_count_status \<times> imm_count_map" where
  "imm_inc imm s =
     (case hm_get (imm_map s) imm of
        None \<Rightarrow> (Vacant, s)
      | Some ic \<Rightarrow>
          let (reached, cs) = count_inc ic (counters s)
          in (if reached then Reached else NotReached, s\<lparr>counters := cs\<rparr>))"

section \<open>Waiting on a counter\<close>

text \<open>
  While a waiter spins, each look at the counter comes with the number of immediates that arrived since the last
  one and the instant the clock is read. The result is \<open>None\<close> while the observations do not end the wait.
\<close>

fun spin :: "nat \<Rightarrow> instant \<Rightarrow> (nat \<times> instant) list \<Rightarrow> int \<Rightarrow> (bool \<times> int) option" where
  "spin target deadline [] c = None"
| "spin target deadline ((arrived, now) # obs) c =
     (if c + int arrived < 0
      then if deadline \<le> now then Some (False, c + int arrived + int target)
           else spin target deadline obs (c + int arrived)
      else Some (True, c + int arrived))"

definition wait_timeout ::
    "nat \<Rightarrow> duration \<Rightarrow> instant \<Rightarrow> (nat \<times> instant) list \<Rightarrow> int \<Rightarrow> (bool \<times> int) option" where
  "wait_timeout target timeout start obs c =
     (if int target \<le> c then Some (True, c - int target)
      else spin target (start + timeout) obs (c - int target))"

text \<open>\<open>wait\<close> is the same loop without a deadline.\<close>

fun spin_forever :: "nat list \<Rightarrow> int \<Rightarrow> int option" where
  "spin_forever [] c = None"
| "spin_forever (arrived # obs) c =
     (if c + int arrived < 0 then spin_forever obs (c + int arrived) else Some (c + int arrived))"

definition wait_imm :: "nat \<Rightarrow> nat list \<Rightarrow> int \<Rightarrow> int option" where
  "wait_imm target obs c =
     (if int target \<le> c then Some (c - int target) else spin_forever obs (c - int target))"

section \<open>Counting\<close>

text \<open>The outcomes of \<open>n\<close> arrivals in a row.\<close>

fun imm_arrivals :: "imm \<Rightarrow> nat \<Rightarrow> imm_count_map \<Rightarrow> imm_count_status list \<times> imm_count_map" where
  "imm_arrivals imm 0 s = ([], s)"
| "imm_arrivals imm (Suc n) s =
     (let (r, s') = imm_inc imm s; (rs, s'') = imm_arrivals imm n s' in (r # rs, s''))"

definition expects :: "imm \<Rightarrow> nat \<Rightarrow> nat \<Rightarrow> imm_count_map \<Rightarrow> bool" where
  "expects imm e k s =
     (\<exists>c. hm_get (imm_map s) imm = Some (Expected c e) \<and> c < length (counters s) \<and> counters s ! c = int k \<and> k < e \<and> e < 2 ^ 32)"

lemma as_u32_small: "k < 2 ^ 32 \<Longrightarrow> as_u32 (int k) = k"
  by (simp add: as_u32_def flip: of_nat_mod)

lemma inc_expects:
  assumes "expects imm e k s"
  shows "\<exists>s'. imm_inc imm s = (if Suc k = e then Reached else NotReached, s') \<and> expects imm e (Suc k mod e) s'"
proof -
  obtain c where c: "hm_get (imm_map s) imm = Some (Expected c e)" "c < length (counters s)"
    "counters s ! c = int k" "k < e" "e < 2 ^ 32"
    using assms by (auto simp: expects_def)
  have "count_add c e (counters s) = (Suc k = e, (counters s)[c := int (Suc k)])"
    using c by (simp add: count_add_def fetch_add_def as_u32_small add.commute)
  moreover have "Suc k mod e = (if Suc k = e then 0 else Suc k)" using c(4) by auto
  ultimately show ?thesis using c
    by (auto simp: imm_inc_def count_inc_def expects_def count_reset_def fetch_add_def)
qed

lemma arrivals_expects:
  assumes "expects imm e k s"
  shows "\<exists>s'. imm_arrivals imm n s = (map (\<lambda>i. if e dvd k + i then Reached else NotReached) [1..<Suc n], s')
    \<and> expects imm e ((k + n) mod e) s'"
  using assms
proof (induction n arbitrary: k s)
  case 0
  then show ?case by (auto simp: expects_def)
next
  case (Suc n)
  from Suc.prems have ke: "k < e" by (auto simp: expects_def)
  obtain s1 where s1: "imm_inc imm s = (if Suc k = e then Reached else NotReached, s1)" "expects imm e (Suc k mod e) s1"
    using inc_expects [OF Suc.prems] by blast
  obtain s2 where s2: "imm_arrivals imm n s1 = (map (\<lambda>i. if e dvd Suc k mod e + i then Reached else NotReached) [1..<Suc n], s2)"
    "expects imm e ((Suc k mod e + n) mod e) s2"
    using Suc.IH [OF s1(2)] by blast
  have first: "Suc k = e \<longleftrightarrow> e dvd k + 1" using ke by (auto dest: dvd_imp_le)
  have shift: "e dvd Suc k mod e + i \<longleftrightarrow> e dvd k + Suc i" for i
    by (metis add_Suc_right add_Suc mod_add_left_eq dvd_eq_mod_eq_0)
  have "[1..<Suc (Suc n)] = 1 # map Suc [1..<Suc n]" by (simp add: map_Suc_upt upt_conv_Cons del: upt_Suc)
  moreover have "(Suc k mod e + n) mod e = (k + Suc n) mod e" by (simp add: mod_add_left_eq)
  ultimately show ?case using s1(1) s2 first shift by (simp add: comp_def del: upt_Suc)
qed

text \<open>
  C97. After \<open>set_expected\<close> for an immediate with a positive count, every further arrival of it is answered, and
  exactly the arrivals number \<open>expected\<close>, \<open>2 * expected\<close>, and so on, report that the count is reached; the counter
  always holds the arrivals since the last report.
\<close>

theorem expected_count_reached:
  assumes "0 < expected" "expected < 2 ^ 32" and "set_expected imm expected s = (old, s')"
  shows "\<exists>s''. imm_arrivals imm n s' = (map (\<lambda>i. if expected dvd i then Reached else NotReached) [1..<Suc n], s'')
    \<and> imm_get imm s'' = Some (n mod expected)"
proof -
  have "expects imm expected 0 s'"
    using assms by (auto simp: expects_def set_expected_def hm_get_insert nth_append)
  then obtain s'' where s'': "imm_arrivals imm n s' = (map (\<lambda>i. if expected dvd 0 + i then Reached else NotReached) [1..<Suc n], s'')"
    "expects imm expected ((0 + n) mod expected) s''"
    using arrivals_expects by blast
  moreover have "n mod expected < 2 ^ 32" using assms(1,2) by (meson mod_less_divisor less_trans)
  ultimately show ?thesis by (auto simp: expects_def imm_get_def count_consume_def as_u32_small)
qed

theorem expected_count_reached_witness:
  "fst (imm_arrivals 5 4 (snd (set_expected 5 2 imm_map_new))) = [NotReached, Reached, NotReached, Reached]"
proof -
  obtain old s' where s: "set_expected 5 2 imm_map_new = (old, s')" by (rule prod.exhaust)
  have "\<exists>s''. imm_arrivals 5 4 s' = (map (\<lambda>i. if 2 dvd i then Reached else NotReached) [1..<Suc 4], s'')
      \<and> imm_get 5 s'' = Some (4 mod 2)"
    by (rule expected_count_reached [OF _ _ s]) simp_all
  thus ?thesis using s by (auto simp: upt_rec)
qed

text \<open>
  Two threads counting the same immediate interleave between the addition and the subtraction. With an expected
  count of 1 the second arrival is then counted but never reported, and no later one is either.
\<close>

lemma interleaved_arrival_lost:
  assumes "count_add c 1 cs = (r1, cs1)" "count_add c 1 cs1 = (r2, cs2)" "c < length cs" "cs ! c = 0"
  shows "r1 \<and> \<not> r2 \<and> count_reset c 1 cs2 ! c = 1 \<and> \<not> fst (count_add c 1 (count_reset c 1 cs2))"
  using assms by (auto simp: count_add_def count_reset_def fetch_add_def as_u32_def)

section \<open>Waiting\<close>

lemma spin_result:
  assumes "spin target deadline obs c = Some (b, c')" "c < 0"
  shows "\<exists>n \<le> length obs. n \<noteq> 0 \<and> (let a = int (sum_list (map fst (take n obs))) in
     (b \<longleftrightarrow> 0 \<le> c + a) \<and> c' = c + a + (if b then 0 else int target))"
  using assms
proof (induction target deadline obs c rule: spin.induct)
  case (2 target deadline arrived now obs c)
  show ?case
  proof (cases "c + int arrived < 0 \<and> \<not> deadline \<le> now")
    case True
    with 2 obtain n where "n \<le> length obs" "n \<noteq> 0" "let a = int (sum_list (map fst (take n obs))) in
        (b \<longleftrightarrow> 0 \<le> c + int arrived + a) \<and> c' = c + int arrived + a + (if b then 0 else int target)"
      by auto
    thus ?thesis by (intro exI [of _ "Suc n"]) (auto simp: Let_def algebra_simps)
  next
    case False
    with 2 show ?thesis by (intro exI [of _ 1]) (auto simp: Let_def split: if_splits)
  qed
qed simp

lemma spin_ends:
  assumes "\<exists>(arrived, now) \<in> set obs. deadline \<le> now"
  shows "\<exists>b c'. spin target deadline obs c = Some (b, c')"
  using assms by (induction target deadline obs c rule: spin.induct) auto

lemma wait_timeout_result:
  assumes "wait_timeout target timeout start obs c = Some (b, c')"
  shows "\<exists>n \<le> length obs. let a = int (sum_list (map fst (take n obs))) in
     (b \<longleftrightarrow> int target \<le> c + a) \<and> c' = c + a - (if b then int target else 0)"
proof (cases "int target \<le> c")
  case True
  with assms show ?thesis by (intro exI [of _ 0]) (simp add: wait_timeout_def)
next
  case False
  with assms have "spin target (start + timeout) obs (c - int target) = Some (b, c')" "c - int target < 0"
    by (simp_all add: wait_timeout_def)
  from spin_result [OF this] show ?thesis by (auto simp: Let_def algebra_simps)
qed

text \<open>A wait with a zero timeout looks once.\<close>

lemma wait_timeout_zero:
  "start \<le> now \<Longrightarrow> wait_timeout target 0 start [(arrived, now)] c =
     Some (if int target \<le> c then (True, c - int target)
           else if int target \<le> c + int arrived then (True, c + int arrived - int target)
           else (False, c + int arrived))"
  by (simp add: wait_timeout_def)

end
