(* ===== verification/Domain_Address.thy ===== *)
theory Domain_Address
  imports Pega_Prelude
begin

text \<open>
  Domain addresses and their hexadecimal text, \<^verbatim>\<open>pegaflow-transfer/src/v2/utils/hex.rs\<close> and \<open>DomainAddress\<close> of
  \<^verbatim>\<open>v2/api.rs\<close>. A string is its UTF-8 bytes, as in the code: slicing it between two characters is fine, slicing
  inside one panics.
\<close>

section \<open>Text\<close>

type_synonym domain_address = "byte list"

definition hex_digit :: "nat \<Rightarrow> char" where
  "hex_digit d = ''0123456789abcdef'' ! d"

definition digit_value :: "char \<Rightarrow> nat option" where
  "digit_value ch =
     (let c = (of_char ch :: nat)
      in if 48 \<le> c \<and> c \<le> 57 then Some (c - 48)
         else if 97 \<le> c \<and> c \<le> 102 then Some (c - 87)
         else if 65 \<le> c \<and> c \<le> 70 then Some (c - 55)
         else None)"

text \<open>\<open>write!(f, "{:02x}", x)\<close> for every byte.\<close>

definition fmt_hex :: "byte list \<Rightarrow> string" where
  "fmt_hex bytes = concat (map (\<lambda>b. [hex_digit (unat b div 16), hex_digit (unat b mod 16)]) bytes)"

text \<open>\<open>u8::from_str_radix(_, 16)\<close> on two characters: a leading plus sign is allowed before a digit.\<close>

definition u8_from_str_radix16 :: "char \<Rightarrow> char \<Rightarrow> byte option" where
  "u8_from_str_radix16 a b =
     (if a = CHR ''+'' then map_option of_nat (digit_value b)
      else case (digit_value a, digit_value b) of
          (Some x, Some y) \<Rightarrow> Some (of_nat (16 * x + y))
        | _ \<Rightarrow> None)"

text \<open>The byte at a position is not a continuation byte, or the position is the end.\<close>

definition is_char_boundary :: "string \<Rightarrow> bool" where
  "is_char_boundary rest = (case rest of [] \<Rightarrow> True | ch # _ \<Rightarrow> (of_char ch :: nat) div 64 \<noteq> 2)"

text \<open>The outer \<open>None\<close> is a panic: a slice that ends inside a character or beyond the string.\<close>

fun from_hex :: "string \<Rightarrow> byte list option option" where
  "from_hex [] = Some (Some [])"
| "from_hex [a] = None"
| "from_hex (a # b # rest) =
     (if \<not> is_char_boundary (a # b # rest) \<or> \<not> is_char_boundary rest then None
      else case u8_from_str_radix16 a b of
          None \<Rightarrow> Some None
        | Some x \<Rightarrow> map_option (map_option ((#) x)) (from_hex rest))"

datatype address_error = InvalidAddressLength | InvalidAddress

definition address_from_str :: "string \<Rightarrow> (address_error + domain_address) option" where
  "address_from_str s =
     (if odd (length s) \<or> s = [] then Some (Inl InvalidAddressLength)
      else map_option (\<lambda>r. case r of None \<Rightarrow> Inl InvalidAddress | Some bytes \<Rightarrow> Inr bytes) (from_hex s))"

section \<open>Round trip\<close>

lemma digit_round_trip:
  assumes "d < 16"
  shows "digit_value (hex_digit d) = Some d" "hex_digit d \<noteq> CHR ''+''" "(of_char (hex_digit d) :: nat) < 128"
proof -
  from assms consider "d = 0" | "d = 1" | "d = 2" | "d = 3" | "d = 4" | "d = 5" | "d = 6" | "d = 7"
    | "d = 8" | "d = 9" | "d = 10" | "d = 11" | "d = 12" | "d = 13" | "d = 14" | "d = 15"
    by (force simp: numeral_eq_Suc less_Suc_eq)
  hence "digit_value (hex_digit d) = Some d \<and> hex_digit d \<noteq> CHR ''+'' \<and> (of_char (hex_digit d) :: nat) < 128"
    by cases (simp_all add: digit_value_def hex_digit_def)
  thus "digit_value (hex_digit d) = Some d" "hex_digit d \<noteq> CHR ''+''" "(of_char (hex_digit d) :: nat) < 128"
    by simp_all
qed

lemma boundary_ascii: "(of_char ch :: nat) < 128 \<Longrightarrow> is_char_boundary (ch # rest)"
  by (simp add: is_char_boundary_def)

lemma boundary_fmt_hex: "is_char_boundary (fmt_hex bytes)"
proof (cases bytes)
  case (Cons b bs)
  have "unat b div 16 < 16" using unsigned_less [where w = b and ?'a = nat] by simp
  with Cons digit_round_trip(3) show ?thesis by (simp add: fmt_hex_def boundary_ascii)
qed (simp add: fmt_hex_def is_char_boundary_def)

lemma from_hex_fmt_hex: "from_hex (fmt_hex bytes) = Some (Some bytes)"
proof (induction bytes)
  case (Cons b bs)
  have d: "unat b div 16 < 16" "unat b mod 16 < 16" using unsigned_less [where w = b and ?'a = nat] by simp_all
  have radix: "u8_from_str_radix16 (hex_digit (unat b div 16)) (hex_digit (unat b mod 16)) = Some b"
    using digit_round_trip [OF d(1)] digit_round_trip [OF d(2)] by (simp add: u8_from_str_radix16_def)
  have cons: "fmt_hex (b # bs) = hex_digit (unat b div 16) # hex_digit (unat b mod 16) # fmt_hex bs"
    by (simp add: fmt_hex_def)
  have "is_char_boundary (hex_digit (unat b div 16) # rest)" for rest
    by (rule boundary_ascii) (rule digit_round_trip(3) [OF d(1)])
  with Cons.IH radix show ?case by (simp add: cons boundary_fmt_hex)
qed (simp add: fmt_hex_def)

text \<open>Every address is read back from its text.\<close>

lemma address_round_trip:
  assumes "addr \<noteq> []"
  shows "address_from_str (fmt_hex addr) = Some (Inr addr)"
proof -
  have "even (length (fmt_hex addr))" by (induction addr) (simp_all add: fmt_hex_def)
  moreover have "fmt_hex addr \<noteq> []" using assms by (cases addr) (simp_all add: fmt_hex_def)
  ultimately show ?thesis by (simp add: address_from_str_def from_hex_fmt_hex)
qed

text \<open>
  Text from elsewhere need not be hexadecimal: a two-byte character after one letter makes the parser panic,
  and two different texts can name one address.
\<close>

lemma address_parse_panics: "address_from_str [CHR ''a'', CHR 0xC3, CHR 0xA9, CHR ''b''] = None"
  by (simp add: address_from_str_def is_char_boundary_def)

lemma address_text_not_unique: "address_from_str ''+f'' = address_from_str ''0f''"
  by (simp add: address_from_str_def is_char_boundary_def u8_from_str_radix16_def digit_value_def)

end
