(* ===== verification/Pd_Rdma.thy ===== *)
theory Pd_Rdma
  imports Pd_Wire Imm_Count Domain_Address
begin

text \<open>
  The prefill/decode engine of the Python module, \<^verbatim>\<open>python/src/pd_rdma.rs\<close>: registering local layers and remote
  requests, turning block slices into scatter targets, pushing layers under a window of outstanding
  writes, and signalling and awaiting completion. Arguments that arrive as Python dictionaries are records. Registering
  memory, posting a transfer and the callbacks of the transfer engine are the environment's: what they answer is an argument,
  and while a loop waits, every look at the counters comes with the completions and arrivals since the last look.
  Statistics and log messages are left out.
\<close>

section \<open>Data\<close>

definition PD_RDMA_WRITE_WINDOW :: int where "PD_RDMA_WRITE_WINDOW = 64"

record pd_mr_desc =
  md_ptr :: u64
  md_pairs :: "(domain_address \<times> u64) list"

record pd_local_layer =
  pl_base_addr :: u64
  pl_mr :: nat
  pl_mr_desc :: pd_mr_desc

record pd_remote_region =
  rr_base_addr :: u64
  rr_block_len :: u64
  rr_block_stride :: u64

record pd_remote_layer =
  rl_mr_desc :: pd_mr_desc
  allowed_block_ids :: "u64 list"
  rl_regions :: "pd_remote_region list"

record pd_remote_request =
  remote_request_id :: string
  imm_data :: imm
  fail_imm_data :: imm
  abort_imm_data :: imm
  rq_expected_imm_count :: nat
  rq_layers :: "(u64, pd_remote_layer) hmap"

record scatter_target =
  dst_mr :: pd_mr_desc
  st_length :: u64
  st_src_offset :: u64
  st_dst_offset :: u64

text \<open>The counters of the writes of a request, shared with the callbacks of the writes under way.\<close>

record write_counters =
  wc_completed :: int
  wc_errors :: int

record pending_rdma_writes =
  pw_submitted :: int
  pw_counters :: nat

record pd_engine =
  pd_imms :: imm_count_map
  local_layers :: "(u64, pd_local_layer) hmap"
  remote_requests :: "(string, pd_remote_request) hmap"
  imm_counters :: "(string, counter_id) hmap"
  pending_writes :: "(string, pending_rdma_writes) hmap"
  write_counts :: "write_counters list"
  write_submitted :: int
  write_completed :: int
  imm_to_req :: "(imm, string) hmap"
  finished_sending :: "string list"
  finished_recving :: "string list"
  in_flight :: "nat list"
  sent_imms :: "(string \<times> imm) list"

text \<open>The Python exception and its message, without the values it shows.\<close>

datatype pd_error = PyValueError string | PyRuntimeError string | PegaFlowError string

definition ok_or :: "'e \<Rightarrow> 'a option \<Rightarrow> 'e + 'a" where
  "ok_or e r = (case r of None \<Rightarrow> Inl e | Some x \<Rightarrow> Inr x)"

definition and_then :: "'e + 'a \<Rightarrow> ('a \<Rightarrow> 'e + 'b) \<Rightarrow> 'e + 'b" where
  "and_then r f = (case r of Inl e \<Rightarrow> Inl e | Inr x \<Rightarrow> f x)"

definition pd_engine_new :: pd_engine where
  "pd_engine_new =
     \<lparr>pd_imms = imm_map_new, local_layers = [], remote_requests = [], imm_counters = [], pending_writes = [],
      write_counts = [], write_submitted = 0, write_completed = 0, imm_to_req = [], finished_sending = [],
      finished_recving = [], in_flight = [], sent_imms = []\<rparr>"

section \<open>Registering local layers\<close>

record local_region =
  lr_region_idx :: nat
  lr_base_addr :: u64
  lr_block_len :: u64

record local_layer =
  ll_layer_idx :: u64
  ll_block_ids :: "u64 list"
  ll_regions :: "local_region list"

text \<open>The lowest and the highest address and the number of the regions.\<close>

fun local_range :: "u64 \<Rightarrow> u64 \<Rightarrow> nat \<Rightarrow> u64 \<Rightarrow> u64 \<Rightarrow> local_region list \<Rightarrow> pd_error + u64 \<times> u64 \<times> nat" where
  "local_range idx max_block_id n min_addr max_addr [] = Inr (min_addr, max_addr, n)"
| "local_range idx max_block_id n min_addr max_addr (r # rs) =
     (if lr_region_idx r \<noteq> n then Inl (PyValueError ''local layer regions must be ordered by region_idx'')
      else if lr_base_addr r = 0 \<or> lr_block_len r = 0 then Inl (PyValueError ''local layer region has invalid address range'')
      else case Option.bind (checked_add max_block_id 1)
                  (\<lambda>block_count. Option.bind (checked_mul block_count (lr_block_len r)) (checked_add (lr_base_addr r))) of
          None \<Rightarrow> Inl (PyValueError ''local layer address range overflow'')
        | Some end_addr \<Rightarrow>
            local_range idx max_block_id (n + 1) (min min_addr (lr_base_addr r)) (max max_addr end_addr) rs)"

definition layer_range :: "local_layer \<Rightarrow> pd_error + u64 \<times> u64" where
  "layer_range l =
     (if ll_block_ids l = [] then Inl (PyValueError ''local layer has no block_ids'')
      else and_then (local_range (ll_layer_idx l) (Max (set (ll_block_ids l))) 0 u64_max 0 (ll_regions l))
             (\<lambda>(min_addr, max_addr, region_count).
                if region_count = 0 then Inl (PyValueError ''local layer has no regions'')
                else case checked_sub max_addr min_addr of
                    None \<Rightarrow> Inl (PyValueError ''invalid layer address range'')
                  | Some len \<Rightarrow> if len = 0 then Inl (PyValueError ''invalid layer address range'')
                               else if min_addr = 0 then Inl (PyValueError ''base_addr must be non-zero'') else Inr (min_addr, len)))"

text \<open>The layers before one that fails stay registered.\<close>

fun register_local_layers ::
    "(u64 \<Rightarrow> u64 \<Rightarrow> (nat \<times> pd_mr_desc) option) \<Rightarrow> local_layer list \<Rightarrow> pd_engine \<Rightarrow> (pd_error + pd_mr_desc list) \<times> pd_engine" where
  "register_local_layers register_memory [] st = (Inr [], st)"
| "register_local_layers register_memory (l # ls) st =
     (case and_then (layer_range l) (\<lambda>(ptr, len). map_sum id (Pair ptr) (ok_or (PegaFlowError ''register_memory_allow_remote failed'') (register_memory ptr len))) of
        Inl e \<Rightarrow> (Inl e, st)
      | Inr (ptr, mr, desc) \<Rightarrow>
          let st' = st\<lparr>local_layers := hm_insert (ll_layer_idx l)
                         \<lparr>pl_base_addr = ptr, pl_mr = mr, pl_mr_desc = desc\<rparr> (local_layers st)\<rparr>;
              (r, st'') = register_local_layers register_memory ls st'
          in (and_then r (\<lambda>ds. Inr (desc # ds)), st''))"

section \<open>Registering a remote request\<close>

text \<open>The outer \<open>None\<close> is the panic of the address parser.\<close>

fun parse_pairs :: "(string \<times> u64) list \<Rightarrow> (pd_error + (domain_address \<times> u64) list) option" where
  "parse_pairs [] = Some (Inr [])"
| "parse_pairs ((addr, rkey) # rest) =
     (case address_from_str addr of
        None \<Rightarrow> None
      | Some (Inl _) \<Rightarrow> Some (Inl (PegaFlowError ''invalid DomainAddress''))
      | Some (Inr a) \<Rightarrow> map_option (\<lambda>r. and_then r (\<lambda>ps. Inr ((a, rkey) # ps))) (parse_pairs rest))"

definition mr_desc_from_wire :: "mr_desc \<Rightarrow> (pd_error + pd_mr_desc) option" where
  "mr_desc_from_wire d =
     map_option (\<lambda>r. and_then r (\<lambda>ps. Inr \<lparr>md_ptr = mr_ptr d, md_pairs = ps\<rparr>)) (parse_pairs (addr_rkey_list d))"

definition mr_desc_to_wire :: "pd_mr_desc \<Rightarrow> mr_desc" where
  "mr_desc_to_wire d = \<lparr>mr_ptr = md_ptr d, addr_rkey_list = map (\<lambda>(a, k). (fmt_hex a, k)) (md_pairs d)\<rparr>"

definition remote_region :: "wire_region \<Rightarrow> pd_remote_region" where
  "remote_region r = \<lparr>rr_base_addr = wr_base_addr r, rr_block_len = wr_block_len r, rr_block_stride = block_stride r\<rparr>"

definition remote_layer :: "handshake \<Rightarrow> wire_layer \<Rightarrow> (pd_error + pd_remote_layer) option" where
  "remote_layer h l =
     (case layer_block_ids h l of
        None \<Rightarrow> Some (Inl (PyValueError ''remote layer has no block_ids''))
      | Some ids \<Rightarrow>
          (case wl_mr_desc l of
             None \<Rightarrow> Some (Inl (PyValueError ''remote layer missing mr_desc''))
           | Some d \<Rightarrow>
               map_option (\<lambda>r. and_then r (\<lambda>desc. Inr \<lparr>rl_mr_desc = desc, allowed_block_ids = ids,
                                                        rl_regions = map remote_region (wl_regions l)\<rparr>))
                 (mr_desc_from_wire d)))"

fun remote_layers ::
    "handshake \<Rightarrow> wire_layer list \<Rightarrow> (u64, pd_remote_layer) hmap \<Rightarrow> (pd_error + (u64, pd_remote_layer) hmap) option" where
  "remote_layers h [] m = Some (Inr m)"
| "remote_layers h (l # ls) m =
     (case remote_layer h l of
        None \<Rightarrow> None
      | Some (Inl e) \<Rightarrow> Some (Inl e)
      | Some (Inr rl) \<Rightarrow> remote_layers h ls (hm_insert (layer_idx l) rl m))"

definition fail_counter_key :: "string \<Rightarrow> string" where "fail_counter_key req_id = req_id @ ''#fail''"
definition abort_counter_key :: "string \<Rightarrow> string" where "abort_counter_key req_id = req_id @ ''#abort''"

text \<open>\<open>imm_counters.entry(key).or_insert_with(|| engine.get_imm_counter(imm))\<close>.\<close>

definition counter_for :: "string \<Rightarrow> imm \<Rightarrow> pd_engine \<Rightarrow> counter_id \<times> pd_engine" where
  "counter_for key imm st =
     (case hm_get (imm_counters st) key of
        Some c \<Rightarrow> (c, st)
      | None \<Rightarrow>
          let (c, s) = get_imm_counter imm (pd_imms st)
          in (c, st\<lparr>pd_imms := s, imm_counters := hm_insert key c (imm_counters st)\<rparr>))"

definition register_remote ::
    "serde_parse \<Rightarrow> string \<Rightarrow> string \<Rightarrow> pd_engine \<Rightarrow> ((pd_error + unit) \<times> pd_engine) option" where
  "register_remote parse req_id handshake_json st =
     (case from_json parse handshake_json of
        Inl e \<Rightarrow> Some (Inl (PyValueError ''pd-wire''), st)
      | Inr h \<Rightarrow>
          map_option (\<lambda>r. case r of
              Inl e \<Rightarrow> (Inl e, st)
            | Inr ls \<Rightarrow>
                let st1 = st\<lparr>imm_to_req := hm_insert (imm_id h) req_id (imm_to_req st)\<rparr>;
                    st2 = snd (counter_for req_id (imm_id h) st1);
                    st3 = snd (counter_for (fail_counter_key req_id) (fail_imm_id h) st2);
                    st4 = snd (counter_for (abort_counter_key req_id) (abort_imm_id h) st3)
                in (Inr (),
                    st4\<lparr>remote_requests := hm_insert req_id
                          \<lparr>remote_request_id = request_id h, imm_data = imm_id h, fail_imm_data = fail_imm_id h,
                           abort_imm_data = abort_imm_id h, rq_expected_imm_count = expected_imm_count h,
                           rq_layers = ls\<rparr> (remote_requests st4)\<rparr>))
            (remote_layers h (hs_layers h) []))"

section \<open>Scatter targets\<close>

record block_slice =
  bs_region_idx :: nat
  bs_block_id :: u64
  bs_src_offset :: u64
  bs_bytes :: u64

definition make_scatter_target ::
    "pd_local_layer \<Rightarrow> pd_remote_layer \<Rightarrow> u64 \<Rightarrow> u64 \<Rightarrow> u64 \<Rightarrow> pd_remote_region \<Rightarrow> pd_error + scatter_target" where
  "make_scatter_target local remote block_id src_off bytes region =
     and_then (ok_or (PyValueError ''remote block address overflow'')
         (Option.bind (checked_mul block_id (rr_block_stride region)) (checked_add (rr_base_addr region)))) (\<lambda>remote_addr.
     and_then (ok_or (PyRuntimeError ''remote block address is below MR base'') (checked_sub remote_addr (md_ptr (rl_mr_desc remote)))) (\<lambda>dst_off.
     and_then (ok_or (PyValueError ''source offset overflow'') (checked_add (pl_base_addr local) src_off)) (\<lambda>src_absolute.
       if src_absolute < md_ptr (pl_mr_desc local) then Inl (PyValueError ''source block address is below local MR base'')
       else Inr \<lparr>dst_mr = rl_mr_desc remote, st_length = bytes,
                 st_src_offset = src_absolute - md_ptr (pl_mr_desc local), st_dst_offset = dst_off\<rparr>)))"

fun check_block_ids :: "u64 list \<Rightarrow> u64 \<Rightarrow> nat list \<Rightarrow> pd_error + unit" where
  "check_block_ids allowed block_id [] = Inr ()"
| "check_block_ids allowed block_id (k # ks) =
     (case checked_add block_id k of
        None \<Rightarrow> Inl (PyValueError ''remote block id overflow'')
      | Some b \<Rightarrow> if b \<in> set allowed then check_block_ids allowed block_id ks else Inl (PyRuntimeError ''remote block is not registered''))"

fun block_targets ::
    "pd_local_layer \<Rightarrow> pd_remote_layer \<Rightarrow> pd_remote_region \<Rightarrow> u64 \<Rightarrow> u64 \<Rightarrow> nat list \<Rightarrow> pd_error + scatter_target list" where
  "block_targets local remote region block_id src_off [] = Inr []"
| "block_targets local remote region block_id src_off (k # ks) =
     and_then (ok_or (PyValueError ''remote block id overflow'') (checked_add block_id k)) (\<lambda>b.
     and_then (ok_or (PyValueError ''source offset overflow'') (Option.bind (checked_mul k (rr_block_len region)) (checked_add src_off))) (\<lambda>source.
     and_then (make_scatter_target local remote b source (rr_block_len region) region) (\<lambda>t.
     and_then (block_targets local remote region block_id src_off ks) (\<lambda>ts. Inr (t # ts)))))"

definition block_slice_to_scatter_targets ::
    "pd_local_layer \<Rightarrow> pd_remote_layer \<Rightarrow> block_slice \<Rightarrow> pd_error + scatter_target list" where
  "block_slice_to_scatter_targets local remote s =
     (if bs_bytes s = 0 then Inl (PyValueError ''block slice bytes must be positive'')
      else if length (rl_regions remote) \<le> bs_region_idx s then Inl (PyValueError ''remote region is not registered'')
      else let region = rl_regions remote ! bs_region_idx s
           in if bs_bytes s mod rr_block_len region \<noteq> 0 then Inl (PyValueError ''block slice bytes must be a positive multiple of remote region block_len'')
              else let block_count = bs_bytes s div rr_block_len region
                   in and_then (check_block_ids (allowed_block_ids remote) (bs_block_id s) [0..<block_count]) (\<lambda>_.
                        if block_count = 1 \<or> rr_block_stride region = rr_block_len region
                        then and_then (make_scatter_target local remote (bs_block_id s) (bs_src_offset s) (bs_bytes s) region)
                               (\<lambda>t. Inr [t])
                        else block_targets local remote region (bs_block_id s) (bs_src_offset s) [0..<block_count]))"

fun add_targets :: "scatter_target list \<Rightarrow> u64 \<Rightarrow> pd_error + u64" where
  "add_targets [] bytes = Inr bytes"
| "add_targets (t # ts) bytes = and_then (ok_or (PyValueError ''RDMA scatter byte count overflow'') (checked_add bytes (st_length t))) (add_targets ts)"

text \<open>The slices of one block, one per region, in the order of the regions.\<close>

fun region_targets ::
    "pd_local_layer \<Rightarrow> pd_remote_layer \<Rightarrow> nat \<Rightarrow> block_slice list \<Rightarrow> u64 \<Rightarrow> pd_error + scatter_target list \<times> u64" where
  "region_targets local remote expected [] bytes = Inr ([], bytes)"
| "region_targets local remote expected (s # ss) bytes =
     (if bs_region_idx s \<noteq> expected then Inl (PyValueError ''block regions must be ordered by region_idx'')
      else and_then (block_slice_to_scatter_targets local remote s) (\<lambda>ts.
           and_then (add_targets ts bytes) (\<lambda>bytes'.
           and_then (region_targets local remote (expected + 1) ss bytes') (\<lambda>(us, total). Inr (ts @ us, total)))))"

fun push_targets ::
    "pd_local_layer \<Rightarrow> pd_remote_layer \<Rightarrow> block_slice list list \<Rightarrow> u64 \<Rightarrow> pd_error + scatter_target list \<times> u64" where
  "push_targets local remote [] bytes = Inr ([], bytes)"
| "push_targets local remote (b # bs) bytes =
     and_then (region_targets local remote 0 b bytes) (\<lambda>(ts, bytes').
     and_then (push_targets local remote bs bytes') (\<lambda>(us, total). Inr (ts @ us, total)))"

section \<open>Pushing layers\<close>

text \<open>A write's callback runs once, when the transfer engine reports it done or failed.\<close>

definition pd_complete_write :: "pd_engine \<Rightarrow> nat \<times> bool \<Rightarrow> pd_engine" where
  "pd_complete_write st c =
     (let (w, ok) = c; wc = write_counts st ! w
      in if w \<in> set (in_flight st)
         then st\<lparr>write_counts := (write_counts st)[w := wc\<lparr>wc_completed := wc_completed wc + 1,
                                   wc_errors := (if ok then wc_errors wc else wc_errors wc + 1)\<rparr>],
                 write_completed := write_completed st + 1,
                 in_flight := remove1 w (in_flight st)\<rparr>
         else st)"

text \<open>
  A call runs beside the other threads and the callbacks: it reads and changes the engine at instants of its own, and
  between two of them the engine moves on. A call is given the engine as it finds it at each of these instants, and the
  time. It answers its result and its changes, each the engine it found and the engine it left.
\<close>

type_synonym looks = "(pd_engine \<times> instant) list"
type_synonym changes = "(pd_engine \<times> pd_engine) list"

text \<open>\<open>wait_atomic_count\<close>: one load a round, then the clock.\<close>

fun wait_atomic_count ::
    "(pd_engine \<Rightarrow> int) \<Rightarrow> int \<Rightarrow> instant \<Rightarrow> looks \<Rightarrow> (bool \<times> looks) option" where
  "wait_atomic_count counter target deadline [] = None"
| "wait_atomic_count counter target deadline ((s, now) # obs) =
     (if \<not> counter s < target then Some (True, obs)
      else if deadline \<le> now then Some (False, obs)
      else wait_atomic_count counter target deadline obs)"

text \<open>The window loads the writes submitted, and after them the writes completed.\<close>

fun wait_write_window :: "int \<Rightarrow> instant \<Rightarrow> looks \<Rightarrow> (bool \<times> looks) option" where
  "wait_write_window limit deadline ((s1, _) # (s2, now) # obs) =
     (if \<not> limit \<le> write_submitted s1 - write_completed s2 then Some (True, obs)
      else if deadline \<le> now then Some (False, obs)
      else wait_write_window limit deadline obs)"
| "wait_write_window limit deadline obs = None"

text \<open>The request's counters, made on its first write.\<close>

definition pending_entry :: "string \<Rightarrow> pd_engine \<Rightarrow> pending_rdma_writes \<times> pd_engine" where
  "pending_entry req_id st =
     (case hm_get (pending_writes st) req_id of
        Some p \<Rightarrow> (p, st)
      | None \<Rightarrow> (\<lparr>pw_submitted = 0, pw_counters = length (write_counts st)\<rparr>,
                 st\<lparr>write_counts := write_counts st @ [\<lparr>wc_completed = 0, wc_errors = 0\<rparr>]\<rparr>))"

definition submit_write :: "string \<Rightarrow> bool \<Rightarrow> pd_engine \<Rightarrow> (pd_error + unit) \<times> pd_engine" where
  "submit_write req_id accepted st =
     (let st1 = st\<lparr>write_submitted := write_submitted st + 1\<rparr>;
          (p, st2) = pending_entry req_id st1;
          p' = p\<lparr>pw_submitted := pw_submitted p + 1\<rparr>;
          st3 = st2\<lparr>pending_writes := hm_insert req_id p' (pending_writes st2),
                    in_flight := pw_counters p # in_flight st2\<rparr>
      in if accepted then (Inr (), st3) else (Inl (PegaFlowError ''submit RDMA WRITE failed''), pd_complete_write st3 (pw_counters p, False)))"

text \<open>The window is looked at with the interpreter released, the write is submitted in a later state.\<close>

definition push_layer ::
    "string \<Rightarrow> u64 \<Rightarrow> block_slice list list \<Rightarrow> instant \<Rightarrow> bool \<Rightarrow> pd_engine \<Rightarrow> looks \<Rightarrow> ((pd_error + unit) \<times> changes) option" where
  "push_layer req_id idx blocks deadline accepted st obs =
     (case hm_get (local_layers st) idx of
        None \<Rightarrow> Some (Inl (PyRuntimeError ''local layer is not registered''), [])
      | Some local \<Rightarrow>
          (case Option.bind (hm_get (remote_requests st) req_id) (\<lambda>rq. hm_get (rq_layers rq) idx) of
             None \<Rightarrow> Some (Inl (PyRuntimeError ''remote layer is not registered''), [])
           | Some remote \<Rightarrow>
               (case push_targets local remote blocks 0 of
                  Inl e \<Rightarrow> Some (Inl e, [])
                | Inr (dsts, _) \<Rightarrow>
                    if dsts = [] then Some (Inr (), [])
                    else (case wait_write_window PD_RDMA_WRITE_WINDOW deadline obs of
                            None \<Rightarrow> None
                          | Some (False, _) \<Rightarrow> Some (Inl (PegaFlowError ''RDMA WRITE window timed out''), [])
                          | Some (True, []) \<Rightarrow> None
                          | Some (True, (s, _) # _) \<Rightarrow>
                              let (r, s') = submit_write req_id accepted s in Some (r, [(s, s')])))))"

section \<open>Completion\<close>

text \<open>The number of writes to wait for is read once; the errors are loaded when they have completed.\<close>

definition wait_for_request_writes ::
    "string \<Rightarrow> instant \<Rightarrow> pd_engine \<Rightarrow> looks \<Rightarrow> ((pd_error + unit) \<times> looks) option" where
  "wait_for_request_writes req_id deadline st obs =
     (case hm_get (pending_writes st) req_id of
        None \<Rightarrow> Some (Inr (), obs)
      | Some p \<Rightarrow>
          if pw_submitted p = 0 then Some (Inr (), obs)
          else (case wait_atomic_count (\<lambda>s. wc_completed (write_counts s ! pw_counters p)) (pw_submitted p) deadline obs of
                  None \<Rightarrow> None
                | Some (False, obs') \<Rightarrow> Some (Inl (PegaFlowError ''RDMA WRITE timed out''), obs')
                | Some (True, []) \<Rightarrow> None
                | Some (True, (s, _) # obs') \<Rightarrow>
                    Some (if wc_errors (write_counts s ! pw_counters p) \<noteq> 0 then Inl (PegaFlowError ''RDMA WRITE failed'') else Inr (), obs')))"

datatype pd_request_imm_kind = ImmDone | ImmFail | ImmAbort
datatype imm_outcome = NotPosted | NoCompletion | CompletedWithError | CompletedOk

definition request_imm :: "pd_request_imm_kind \<Rightarrow> pd_remote_request \<Rightarrow> imm" where
  "request_imm kind rq = (case kind of ImmDone \<Rightarrow> imm_data rq | ImmFail \<Rightarrow> fail_imm_data rq | ImmAbort \<Rightarrow> abort_imm_data rq)"

definition send_request_imm ::
    "string \<Rightarrow> pd_request_imm_kind \<Rightarrow> imm_outcome \<Rightarrow> pd_engine \<Rightarrow> (pd_error + unit) \<times> pd_engine" where
  "send_request_imm req_id kind outcome st =
     (case hm_get (remote_requests st) req_id of
        None \<Rightarrow> (Inl (PyRuntimeError ''remote req is not registered''), st)
      | Some rq \<Rightarrow>
          if rq_layers rq = [] then (Inl (PyRuntimeError ''remote req has no layers''), st)
          else if outcome = NotPosted then (Inl (PegaFlowError ''submit IMM failed''), st)
          else let st' = st\<lparr>sent_imms := sent_imms st @ [(req_id, request_imm kind rq)]\<rparr>
               in (if outcome = NoCompletion then Inl (PegaFlowError ''IMM timed out'')
                   else if outcome = CompletedWithError then Inl (PegaFlowError ''IMM failed'') else Inr (), st'))"

text \<open>The immediate is posted in one state, its completion awaited, the request marked as sent in a later state.\<close>

definition mark_sent :: "string \<Rightarrow> pd_engine \<Rightarrow> pd_engine" where
  "mark_sent req_id st = st\<lparr>finished_sending := List.insert req_id (finished_sending st)\<rparr>"

definition push_done ::
    "string \<Rightarrow> instant \<Rightarrow> imm_outcome \<Rightarrow> pd_engine \<Rightarrow> looks \<Rightarrow> ((pd_error + unit) \<times> changes) option" where
  "push_done req_id deadline outcome st obs =
     (case wait_for_request_writes req_id deadline st obs of
        None \<Rightarrow> None
      | Some (Inl e, _) \<Rightarrow> Some (Inl e, [])
      | Some (Inr _, []) \<Rightarrow> None
      | Some (Inr _, (s, _) # obs') \<Rightarrow>
          (case send_request_imm req_id ImmDone outcome s of
             (Inl e, s') \<Rightarrow> Some (Inl e, [(s, s')])
           | (Inr _, s') \<Rightarrow>
               (case obs' of
                  [] \<Rightarrow> None
                | (t, _) # _ \<Rightarrow> Some (Inr (), [(s, s'), (t, mark_sent req_id t)]))))"

definition fail_request :: "string \<Rightarrow> imm_outcome \<Rightarrow> pd_engine \<Rightarrow> (pd_error + unit) \<times> pd_engine" where
  "fail_request req_id outcome st = send_request_imm req_id ImmFail outcome st"

definition abort_request :: "string \<Rightarrow> imm_outcome \<Rightarrow> pd_engine \<Rightarrow> (pd_error + unit) \<times> pd_engine" where
  "abort_request req_id outcome st = send_request_imm req_id ImmAbort outcome st"

definition pop_finished_sending :: "pd_engine \<Rightarrow> string list \<times> pd_engine" where
  "pop_finished_sending st = (finished_sending st, st\<lparr>finished_sending := []\<rparr>)"

definition pop_finished_recving :: "pd_engine \<Rightarrow> string list \<times> pd_engine" where
  "pop_finished_recving st = (finished_recving st, st\<lparr>finished_recving := []\<rparr>)"

definition close_request :: "string \<Rightarrow> pd_engine \<Rightarrow> pd_engine" where
  "close_request req_id st =
     (let st1 = (case hm_get (remote_requests st) req_id of
            None \<Rightarrow> st
          | Some rq \<Rightarrow>
              st\<lparr>remote_requests := hm_remove req_id (remote_requests st),
                 pd_imms := snd (remove_imm_count (abort_imm_data rq) (snd (remove_imm_count (fail_imm_data rq)
                              (snd (remove_imm_count (imm_data rq) (pd_imms st)))))),
                 imm_to_req := hm_remove (imm_data rq) (imm_to_req st)\<rparr>)
      in st1\<lparr>imm_counters := hm_remove (abort_counter_key req_id) (hm_remove (fail_counter_key req_id)
                               (hm_remove req_id (imm_counters st1))),
             pending_writes := hm_remove req_id (pending_writes st1),
             finished_sending := removeAll req_id (finished_sending st1),
             finished_recving := removeAll req_id (finished_recving st1)\<rparr>)"

text \<open>An immediate arrives: a counter takes it, or the engine's callback marks its request as received.\<close>

definition imm_arrives :: "imm \<Rightarrow> pd_engine \<Rightarrow> pd_engine" where
  "imm_arrives imm st =
     (case imm_inc imm (pd_imms st) of
        (Vacant, s) \<Rightarrow>
          (case hm_get (imm_to_req st) imm of
             None \<Rightarrow> st\<lparr>pd_imms := s\<rparr>
           | Some req_id \<Rightarrow> st\<lparr>pd_imms := s, finished_recving := List.insert req_id (finished_recving st)\<rparr>)
      | (_, s) \<Rightarrow> st\<lparr>pd_imms := s\<rparr>)"

section \<open>Waiting for completion\<close>

datatype pd_imm_wait_result = WaitDone | WaitFailed | WaitAborted | WaitTimedOut

text \<open>
  One round of the wait: what has arrived for each counter when it is polled, and the instant read. An immediate
  that arrives while a poll has its target subtracted counts as one that arrived before it.
\<close>

record imm_round =
  r_fail :: nat
  r_abort :: nat
  r_done :: nat
  r_now :: instant

text \<open>\<open>wait_timeout(target, ZERO)\<close> looks once and always answers.\<close>

definition poll :: "nat \<Rightarrow> nat \<Rightarrow> instant \<Rightarrow> int \<Rightarrow> bool \<times> int" where
  "poll target arrived now c =
     (case wait_timeout target 0 now [(0, now)] (c + int arrived) of Some r \<Rightarrow> r | None \<Rightarrow> (False, c))"

fun wait_imm_or_fail ::
    "nat \<Rightarrow> instant \<Rightarrow> imm_round list \<Rightarrow> int \<times> int \<times> int \<Rightarrow> (pd_imm_wait_result \<times> int \<times> int \<times> int) option" where
  "wait_imm_or_fail expected deadline [] cs = None"
| "wait_imm_or_fail expected deadline (r # rs) (f, a, d) =
     (let (failed, f') = poll 1 (r_fail r) (r_now r) f
      in if failed then Some (WaitFailed, f', a, d)
         else let (aborted, a') = poll 1 (r_abort r) (r_now r) a
              in if aborted then Some (WaitAborted, f', a', d)
                 else let (arrived, d') = poll expected (r_done r) (r_now r) d
                      in if arrived then Some (WaitDone, f', a', d')
                         else if deadline \<le> r_now r then Some (WaitTimedOut, f', a', d')
                         else wait_imm_or_fail expected deadline rs (f', a', d'))"

definition wait_done :: "string \<Rightarrow> instant \<Rightarrow> imm_round list \<Rightarrow> pd_engine \<Rightarrow> ((pd_error + unit) \<times> pd_engine) option" where
  "wait_done req_id deadline rounds st =
     (if req_id \<in> set (finished_recving st) then Some (Inr (), st)
      else case hm_get (remote_requests st) req_id of
          None \<Rightarrow> Some (Inl (PyRuntimeError ''remote req is not registered''), st)
        | Some rq \<Rightarrow>
            let (d, st1) = counter_for req_id (imm_data rq) st;
                (f, st2) = counter_for (fail_counter_key req_id) (fail_imm_data rq) st1;
                (a, st3) = counter_for (abort_counter_key req_id) (abort_imm_data rq) st2;
                cs = counters (pd_imms st3)
            in map_option (\<lambda>(res, f', a', d').
                 let st4 = st3\<lparr>pd_imms := (pd_imms st3)\<lparr>counters := cs[f := f', a := a', d := d']\<rparr>\<rparr>
                 in case res of
                      WaitFailed \<Rightarrow> (Inl (PegaFlowError ''RDMA IMM wait failed''), st4)
                    | WaitTimedOut \<Rightarrow> (Inl (PegaFlowError ''RDMA IMM wait timed out''), st4)
                    | _ \<Rightarrow> (Inr (), st4\<lparr>finished_recving := List.insert req_id (finished_recving st4)\<rparr>))
               (wait_imm_or_fail (rq_expected_imm_count rq) deadline rounds (cs ! f, cs ! a, cs ! d)))"

section \<open>What a push copies\<close>

lemma and_then_Inr [simp]: "and_then r f = Inr y \<longleftrightarrow> (\<exists>x. r = Inr x \<and> f x = Inr y)"
  by (cases r) (simp_all add: and_then_def)

lemma ok_or_Inr [simp]: "ok_or e r = Inr x \<longleftrightarrow> r = Some x"
  by (cases r) (simp_all add: ok_or_def)

text \<open>The pairs of source and destination addresses a target copies between, byte by byte.\<close>

definition copied :: "pd_local_layer \<Rightarrow> scatter_target \<Rightarrow> (nat \<times> nat) set" where
  "copied local t =
     (\<lambda>j. (md_ptr (pl_mr_desc local) + st_src_offset t + j, md_ptr (dst_mr t) + st_dst_offset t + j)) ` {..<st_length t}"

text \<open>Byte \<open>i\<close> of a slice belongs at byte \<open>i mod len\<close> of the block \<open>i div len\<close> behind the first.\<close>

definition slice_bytes :: "pd_local_layer \<Rightarrow> pd_remote_region \<Rightarrow> block_slice \<Rightarrow> (nat \<times> nat) set" where
  "slice_bytes local region s =
     (\<lambda>i. (pl_base_addr local + bs_src_offset s + i,
           rr_base_addr region + (bs_block_id s + i div rr_block_len region) * rr_block_stride region
             + i mod rr_block_len region)) ` {..<bs_bytes s}"

lemma scatter_target_copied:
  assumes "make_scatter_target local remote b off n region = Inr t"
  shows "copied local t =
    (\<lambda>j. (pl_base_addr local + off + j, rr_base_addr region + b * rr_block_stride region + j)) ` {..<n}"
  using assms by (auto simp: make_scatter_target_def copied_def Option.bind_eq_Some_conv split: if_splits)

lemma block_targets_copied:
  assumes "block_targets local remote region b off ks = Inr ts"
  shows "(\<Union>t \<in> set ts. copied local t) =
    (\<Union>k \<in> set ks. (\<lambda>j. (pl_base_addr local + (off + k * rr_block_len region) + j,
       rr_base_addr region + (b + k) * rr_block_stride region + j)) ` {..<rr_block_len region})"
  using assms
proof (induction ks arbitrary: ts)
  case (Cons k ks)
  then obtain t us where t: "make_scatter_target local remote (b + k) (off + k * rr_block_len region) (rr_block_len region) region = Inr t"
    and us: "block_targets local remote region b off ks = Inr us" and ts: "ts = t # us"
    by (auto simp: Option.bind_eq_Some_conv)
  show ?case unfolding ts list.set UN_insert Cons.IH [OF us] scatter_target_copied [OF t] ..
qed simp

lemma check_block_ids_ok: "check_block_ids allowed b ks = Inr () \<Longrightarrow> k \<in> set ks \<Longrightarrow> b + k \<in> set allowed"
  by (induction ks) (auto split: option.splits if_splits)

lemma blocks_cover:
  fixes len :: nat
  assumes "0 < len"
  shows "(\<Union>k \<in> {0..<n}. (\<lambda>j. f (k * len + j) k j) ` {..<len}) = (\<lambda>i. f i (i div len) (i mod len)) ` {..<n * len}"
proof (intro equalityI subsetI)
  fix x assume "x \<in> (\<Union>k \<in> {0..<n}. (\<lambda>j. f (k * len + j) k j) ` {..<len})"
  then obtain k j where kj: "k < n" "j < len" "x = f (k * len + j) k j" by auto
  have "k * len + j < n * len"
  proof -
    have "k * len + j < Suc k * len" using kj(2) by simp
    also have "\<dots> \<le> n * len" using kj(1) by (intro mult_le_mono1) simp
    finally show ?thesis .
  qed
  with kj show "x \<in> (\<lambda>i. f i (i div len) (i mod len)) ` {..<n * len}"
    by (intro image_eqI [of _ _ "k * len + j"]) simp_all
next
  fix x assume "x \<in> (\<lambda>i. f i (i div len) (i mod len)) ` {..<n * len}"
  then obtain i where i: "i < n * len" "x = f i (i div len) (i mod len)" by auto
  have "i div len < n" using i(1) by (simp add: less_mult_imp_div_less)
  with i(2) assms show "x \<in> (\<Union>k \<in> {0..<n}. (\<lambda>j. f (k * len + j) k j) ` {..<len})"
    by (intro UN_I [of "i div len"] image_eqI [of _ _ "i mod len"]) simp_all
qed

lemma slice_copied:
  assumes ok: "block_slice_to_scatter_targets local remote s = Inr ts"
    and pos: "\<And>r. r \<in> set (rl_regions remote) \<Longrightarrow> 0 < rr_block_len r"
  shows "bs_region_idx s < length (rl_regions remote)
    \<and> (\<Union>t \<in> set ts. copied local t) = slice_bytes local (rl_regions remote ! bs_region_idx s) s
    \<and> (\<forall>i < bs_bytes s. bs_block_id s + i div rr_block_len (rl_regions remote ! bs_region_idx s) \<in> set (allowed_block_ids remote))"
proof -
  let ?r = "rl_regions remote ! bs_region_idx s" and ?n = "bs_bytes s div rr_block_len (rl_regions remote ! bs_region_idx s)"
  let ?one = "?n = 1 \<or> rr_block_stride ?r = rr_block_len ?r"
  have idx: "bs_region_idx s < length (rl_regions remote)" and mult: "bs_bytes s mod rr_block_len ?r = 0"
    and ids: "check_block_ids (allowed_block_ids remote) (bs_block_id s) [0..<?n] = Inr ()"
    and rest: "(if ?one then and_then (make_scatter_target local remote (bs_block_id s) (bs_src_offset s) (bs_bytes s) ?r) (\<lambda>t. Inr [t])
       else block_targets local remote ?r (bs_block_id s) (bs_src_offset s) [0..<?n]) = Inr ts"
    using ok by (auto simp: block_slice_to_scatter_targets_def Let_def split: if_splits)
  have len: "0 < rr_block_len ?r" using pos idx by simp
  have bytes: "bs_bytes s = ?n * rr_block_len ?r" using mult by (metis div_mult_mod_eq add.right_neutral)
  have allowed: "bs_block_id s + i div rr_block_len ?r \<in> set (allowed_block_ids remote)" if "i < bs_bytes s" for i
  proof -
    have "i div rr_block_len ?r < ?n" using that bytes by (metis less_mult_imp_div_less)
    thus ?thesis using check_block_ids_ok [OF ids] by simp
  qed
  have "(\<Union>t \<in> set ts. copied local t) = slice_bytes local ?r s"
  proof (cases ?one)
    case True
    then obtain t where t: "make_scatter_target local remote (bs_block_id s) (bs_src_offset s) (bs_bytes s) ?r = Inr t" "ts = [t]"
      using rest by auto
    have same: "bs_block_id s * rr_block_stride ?r + i =
        (bs_block_id s + i div rr_block_len ?r) * rr_block_stride ?r + i mod rr_block_len ?r" if "i < bs_bytes s" for i
    proof (cases "?n = 1")
      case True
      with that bytes have "i < rr_block_len ?r" by simp
      thus ?thesis by simp
    next
      case False
      with True have "rr_block_stride ?r = rr_block_len ?r" by simp
      thus ?thesis by (simp add: algebra_simps)
    qed
    show ?thesis using t(2) same by (auto simp: scatter_target_copied [OF t(1)] slice_bytes_def intro!: image_cong)
  next
    case False
    hence "block_targets local remote ?r (bs_block_id s) (bs_src_offset s) [0..<?n] = Inr ts" using rest by simp
    note block_targets_copied [OF this]
    also have "(\<Union>k \<in> set [0..<?n]. (\<lambda>j. (pl_base_addr local + (bs_src_offset s + k * rr_block_len ?r) + j,
         rr_base_addr ?r + (bs_block_id s + k) * rr_block_stride ?r + j)) ` {..<rr_block_len ?r})
       = (\<Union>k \<in> {0..<?n}. (\<lambda>j. (\<lambda>i k j. (pl_base_addr local + bs_src_offset s + i,
         rr_base_addr ?r + (bs_block_id s + k) * rr_block_stride ?r + j)) (k * rr_block_len ?r + j) k j) ` {..<rr_block_len ?r})"
      by (simp add: add.assoc)
    also have "\<dots> = slice_bytes local ?r s"
      using blocks_cover [OF len, of "\<lambda>i k j. (pl_base_addr local + bs_src_offset s + i,
         rr_base_addr ?r + (bs_block_id s + k) * rr_block_stride ?r + j)" ?n]
      unfolding bytes [symmetric] slice_bytes_def by simp
    finally show ?thesis .
  qed
  with idx allowed show ?thesis by blast
qed

lemma add_targets_total: "add_targets ts n = Inr m \<Longrightarrow> m = n + sum_list (map st_length ts)"
  by (induction ts arbitrary: n) (fastforce simp: add.assoc)+

definition slice_allowed :: "pd_remote_layer \<Rightarrow> block_slice \<Rightarrow> bool" where
  "slice_allowed remote s =
     (bs_region_idx s < length (rl_regions remote)
      \<and> (\<forall>i < bs_bytes s. bs_block_id s + i div rr_block_len (rl_regions remote ! bs_region_idx s) \<in> set (allowed_block_ids remote)))"

definition layer_bytes :: "pd_local_layer \<Rightarrow> pd_remote_layer \<Rightarrow> block_slice list \<Rightarrow> (nat \<times> nat) set" where
  "layer_bytes local remote ss = (\<Union>s \<in> set ss. slice_bytes local (rl_regions remote ! bs_region_idx s) s)"

lemma region_targets_copied:
  assumes "\<And>r. r \<in> set (rl_regions remote) \<Longrightarrow> 0 < rr_block_len r"
    and "region_targets local remote e ss n = Inr (ts, sum_bytes)"
  shows "(\<Union>t \<in> set ts. copied local t) = layer_bytes local remote ss
    \<and> list_all (slice_allowed remote) ss \<and> sum_bytes = n + sum_list (map st_length ts)"
  using assms(2)
proof (induction ss arbitrary: e n ts)
  case (Cons s ss)
  then obtain us vs m where us: "block_slice_to_scatter_targets local remote s = Inr us" and m: "add_targets us n = Inr m"
    and vs: "region_targets local remote (e + 1) ss m = Inr (vs, sum_bytes)" and ts: "ts = us @ vs"
    by (auto split: if_splits prod.splits)
  note IH = Cons.IH [OF vs] and s = slice_copied [OF us assms(1)]
  have "(\<Union>t \<in> set ts. copied local t) = layer_bytes local remote (s # ss)"
    using IH s by (simp add: ts layer_bytes_def UN_Un)
  with IH s add_targets_total [OF m] show ?case by (simp add: ts slice_allowed_def)
qed (simp add: layer_bytes_def)

lemma push_targets_copied:
  assumes "\<And>r. r \<in> set (rl_regions remote) \<Longrightarrow> 0 < rr_block_len r"
    and "push_targets local remote bs n = Inr (ts, sum_bytes)"
  shows "(\<Union>t \<in> set ts. copied local t) = layer_bytes local remote (concat bs)
    \<and> list_all (slice_allowed remote) (concat bs) \<and> sum_bytes = n + sum_list (map st_length ts)"
  using assms(2)
proof (induction bs arbitrary: n ts)
  case (Cons b bs)
  then obtain us vs m where us: "region_targets local remote 0 b n = Inr (us, m)"
    and vs: "push_targets local remote bs m = Inr (vs, sum_bytes)" and ts: "ts = us @ vs"
    by (auto split: prod.splits)
  note IH = Cons.IH [OF vs] and b = region_targets_copied [OF assms(1) us]
  have "(\<Union>t \<in> set ts. copied local t) = layer_bytes local remote (concat (b # bs))"
    using IH b by (simp add: ts layer_bytes_def UN_Un)
  with IH b show ?case by (simp add: ts)
qed (simp add: layer_bytes_def)

lemma remote_layers_get:
  assumes "remote_layers h ls m = Some (Inr m')" "hm_get m' idx = Some rl"
  shows "hm_get m idx = Some rl \<or> (\<exists>l \<in> set ls. layer_idx l = idx \<and> remote_layer h l = Some (Inr rl))"
  using assms
proof (induction ls arbitrary: m)
  case (Cons l ls)
  then obtain r where r: "remote_layer h l = Some (Inr r)" "remote_layers h ls (hm_insert (layer_idx l) r m) = Some (Inr m')"
    by (auto split: option.splits sum.splits)
  from Cons.IH [OF r(2) Cons.prems(2)] r(1) show ?case by (auto simp: hm_get_insert split: if_splits)
qed simp

lemma remote_layer_fields:
  assumes "remote_layer h l = Some (Inr rl)"
  shows "\<exists>ids. layer_block_ids h l = Some ids \<and> allowed_block_ids rl = ids \<and> rl_regions rl = map remote_region (wl_regions l)"
  using assms by (auto simp: remote_layer_def split: option.splits)

text \<open>What the last registration of a request leaves behind.\<close>

lemma register_remote_request:
  assumes "register_remote parse req json st = Some (Inr (), st1)" "hm_get (remote_requests st1) req = Some rq"
  shows "\<exists>h. from_json parse json = Inr h \<and> remote_layers h (hs_layers h) [] = Some (Inr (rq_layers rq))
    \<and> imm_data rq = imm_id h \<and> fail_imm_data rq = fail_imm_id h \<and> abort_imm_data rq = abort_imm_id h
    \<and> rq_expected_imm_count rq = expected_imm_count h"
proof -
  obtain h where h1: "from_json parse json = Inr h"
    using assms(1) by (cases "from_json parse json") (simp_all add: register_remote_def)
  obtain r where r: "remote_layers h (hs_layers h) [] = Some r"
    using assms(1) h1 by (cases "remote_layers h (hs_layers h) []") (simp_all add: register_remote_def)
  obtain ls where h: "from_json parse json = Inr h" "remote_layers h (hs_layers h) [] = Some (Inr ls)"
    using assms(1) h1 r by (cases r) (simp_all add: register_remote_def)
  with assms show ?thesis by (auto simp: register_remote_def Let_def hm_get_insert)
qed

lemma slice_in_blocks:
  assumes "slice_allowed remote s" "rl_regions remote ! bs_region_idx s = remote_region r" "0 < wr_block_len r"
    "x \<in> snd ` slice_bytes local (rl_regions remote ! bs_region_idx s) s"
  shows "\<exists>b \<in> set (allowed_block_ids remote). x \<in> block_addrs (wr_base_addr r) (wr_block_len r) (block_stride r) b"
proof -
  obtain i where "i < bs_bytes s" "x = wr_base_addr r + (bs_block_id s + i div wr_block_len r) * block_stride r + i mod wr_block_len r"
    using assms(2,4) by (auto simp: slice_bytes_def remote_region_def)
  moreover from this(1) assms(1,2) have "bs_block_id s + i div wr_block_len r \<in> set (allowed_block_ids remote)"
    by (simp add: slice_allowed_def remote_region_def)
  moreover have "i mod wr_block_len r < wr_block_len r" using assms(3) by simp
  ultimately show ?thesis by (intro bexI [of _ "bs_block_id s + i div wr_block_len r"]) (simp_all add: block_addrs_def)
qed

text \<open>
  C6. What a push writes is what the decode node announced: for a request registered from its handshake, every byte
  of every scatter target lands inside a block of the layer whose id the handshake lists, byte \<open>i\<close> of a slice goes
  to byte \<open>i mod block_len\<close> of the block \<open>i div block_len\<close> behind the slice's first, whether the region is tightly
  packed or strided, nothing else is written, and the byte count is the sum of the lengths.
\<close>

theorem pushed_bytes_announced:
  assumes reg: "register_remote parse req json st = Some (Inr (), st1)"
    and rq: "hm_get (remote_requests st1) req = Some rq" and rl: "hm_get (rq_layers rq) idx = Some remote"
    and push: "push_targets local remote blocks 0 = Inr (dsts, sum_bytes)"
  shows "\<exists>h l ids. from_json parse json = Inr h \<and> l \<in> set (hs_layers h) \<and> layer_idx l = idx
    \<and> layer_block_ids h l = Some ids
    \<and> (\<Union>t \<in> set dsts. copied local t) =
        (\<Union>s \<in> set (concat blocks). slice_bytes local (remote_region (wl_regions l ! bs_region_idx s)) s)
    \<and> snd ` (\<Union>t \<in> set dsts. copied local t) \<subseteq>
        (\<Union>r \<in> set (wl_regions l). \<Union>b \<in> set ids. block_addrs (wr_base_addr r) (wr_block_len r) (block_stride r) b)
    \<and> sum_bytes = sum_list (map st_length dsts)"
proof -
  obtain h where h: "from_json parse json = Inr h" "remote_layers h (hs_layers h) [] = Some (Inr (rq_layers rq))"
    using register_remote_request [OF reg rq] by blast
  obtain l where l: "l \<in> set (hs_layers h)" "layer_idx l = idx" "remote_layer h l = Some (Inr remote)"
    using remote_layers_get [OF h(2) rl] by auto
  obtain ids where ids: "layer_block_ids h l = Some ids" "allowed_block_ids remote = ids"
    and regions: "rl_regions remote = map remote_region (wl_regions l)"
    using remote_layer_fields [OF l(3)] by blast
  have ok: "region_ok r" if "r \<in> set (wl_regions l)" for r
    using that layer_region_ok handshake_layer_ok [OF from_json_valid(1) [OF h(1)] l(1)] by blast
  hence pos: "0 < rr_block_len r" if "r \<in> set (rl_regions remote)" for r
    using that by (auto simp: regions remote_region_def region_ok_def)
  note c = push_targets_copied [OF pos push]
  have at: "bs_region_idx s < length (wl_regions l) \<and> slice_allowed remote s" if "s \<in> set (concat blocks)" for s
  proof -
    from c that have "slice_allowed remote s" by (meson list_all_iff)
    moreover from this have "bs_region_idx s < length (wl_regions l)" by (simp add: slice_allowed_def regions)
    ultimately show ?thesis by simp
  qed
  have nth: "rl_regions remote ! bs_region_idx s = remote_region (wl_regions l ! bs_region_idx s)" if "s \<in> set (concat blocks)" for s
    using at [OF that] by (simp add: regions)
  have eq: "(\<Union>t \<in> set dsts. copied local t) =
      (\<Union>s \<in> set (concat blocks). slice_bytes local (remote_region (wl_regions l ! bs_region_idx s)) s)"
    using c nth unfolding layer_bytes_def by (metis (no_types, lifting) SUP_cong)
  have sub: "snd ` (\<Union>t \<in> set dsts. copied local t) \<subseteq>
      (\<Union>r \<in> set (wl_regions l). \<Union>b \<in> set ids. block_addrs (wr_base_addr r) (wr_block_len r) (block_stride r) b)"
  proof
    fix x assume "x \<in> snd ` (\<Union>t \<in> set dsts. copied local t)"
    then obtain s where s: "s \<in> set (concat blocks)" "x \<in> snd ` slice_bytes local (rl_regions remote ! bs_region_idx s) s"
      using nth unfolding eq by (auto simp del: set_concat)
    let ?r = "wl_regions l ! bs_region_idx s"
    have r: "?r \<in> set (wl_regions l)" using at [OF s(1)] by simp
    hence "0 < wr_block_len ?r" using ok by (simp add: region_ok_def)
    from slice_in_blocks [OF _ nth [OF s(1)] this s(2)] at [OF s(1)] ids(2) r
    show "x \<in> (\<Union>r \<in> set (wl_regions l). \<Union>b \<in> set ids. block_addrs (wr_base_addr r) (wr_block_len r) (block_stride r) b)"
      by blast
  qed
  from c have "sum_bytes = sum_list (map st_length dsts)" by simp
  with h(1) l(1,2) ids(1) eq sub show ?thesis by blast
qed

section \<open>The counters of writes\<close>

definition counts_ok :: "pd_engine \<Rightarrow> string \<Rightarrow> pending_rdma_writes \<Rightarrow> bool" where
  "counts_ok st req p =
     (pw_counters p < length (write_counts st)
      \<and> wc_completed (write_counts st ! pw_counters p) + int (count_list (in_flight st) (pw_counters p)) = pw_submitted p)"

definition writes_ok :: "pd_engine \<Rightarrow> bool" where
  "writes_ok st =
     (write_submitted st - write_completed st = int (length (in_flight st))
      \<and> set (in_flight st) \<subseteq> {..<length (write_counts st)}
      \<and> (\<forall>wc \<in> set (write_counts st). 0 \<le> wc_errors wc \<and> wc_errors wc \<le> wc_completed wc)
      \<and> (\<forall>req p. hm_get (pending_writes st) req = Some p \<longrightarrow> counts_ok st req p)
      \<and> (\<forall>r1 r2 p1 p2. hm_get (pending_writes st) r1 = Some p1 \<longrightarrow> hm_get (pending_writes st) r2 = Some p2 \<longrightarrow>
           pw_counters p1 = pw_counters p2 \<longrightarrow> r1 = r2))"

lemma writes_okD:
  assumes "writes_ok st"
  shows "write_submitted st - write_completed st = int (length (in_flight st))"
    "set (in_flight st) \<subseteq> {..<length (write_counts st)}"
    "\<forall>wc \<in> set (write_counts st). 0 \<le> wc_errors wc \<and> wc_errors wc \<le> wc_completed wc"
    "\<And>req p. hm_get (pending_writes st) req = Some p \<Longrightarrow> counts_ok st req p"
    "\<And>r1 r2 p1 p2. hm_get (pending_writes st) r1 = Some p1 \<Longrightarrow> hm_get (pending_writes st) r2 = Some p2 \<Longrightarrow>
       pw_counters p1 = pw_counters p2 \<Longrightarrow> r1 = r2"
  using assms unfolding writes_ok_def by blast+

lemma writes_okI:
  assumes "write_submitted st - write_completed st = int (length (in_flight st))"
    "set (in_flight st) \<subseteq> {..<length (write_counts st)}"
    "\<And>wc. wc \<in> set (write_counts st) \<Longrightarrow> 0 \<le> wc_errors wc \<and> wc_errors wc \<le> wc_completed wc"
    "\<And>req p. hm_get (pending_writes st) req = Some p \<Longrightarrow> counts_ok st req p"
    "\<And>r1 r2 p1 p2. hm_get (pending_writes st) r1 = Some p1 \<Longrightarrow> hm_get (pending_writes st) r2 = Some p2 \<Longrightarrow>
       pw_counters p1 = pw_counters p2 \<Longrightarrow> r1 = r2"
  shows "writes_ok st"
  using assms unfolding writes_ok_def by blast

lemma writes_ok_cong:
  assumes "pending_writes st' = pending_writes st" "write_counts st' = write_counts st"
    "write_submitted st' = write_submitted st" "write_completed st' = write_completed st" "in_flight st' = in_flight st"
  shows "writes_ok st' = writes_ok st"
  unfolding writes_ok_def counts_ok_def assms ..

lemma count_list_remove1: "count_list (remove1 x xs) y = (if x = y \<and> x \<in> set xs then count_list xs y - 1 else count_list xs y)"
  by (induction xs) (auto simp: count_list_0_iff)

lemma pd_complete_write_fields:
  "pending_writes (pd_complete_write st c) = pending_writes st" "write_submitted (pd_complete_write st c) = write_submitted st"
  "sent_imms (pd_complete_write st c) = sent_imms st" "remote_requests (pd_complete_write st c) = remote_requests st"
  "length (write_counts (pd_complete_write st c)) = length (write_counts st)"
  by (simp_all add: pd_complete_write_def Let_def split: prod.splits)

lemma pd_complete_write_ok:
  assumes ok: "writes_ok st"
  shows "writes_ok (pd_complete_write st c)"
proof -
  obtain w b where c: "c = (w, b)" by (rule prod.exhaust)
  show ?thesis
  proof (cases "w \<in> set (in_flight st)")
    case True
    note d = writes_okD [OF ok]
    let ?wc = "(write_counts st ! w)\<lparr>wc_completed := wc_completed (write_counts st ! w) + 1,
      wc_errors := (if b then wc_errors (write_counts st ! w) else wc_errors (write_counts st ! w) + 1)\<rparr>"
    let ?st = "st\<lparr>write_counts := (write_counts st)[w := ?wc], write_completed := write_completed st + 1,
      in_flight := remove1 w (in_flight st)\<rparr>"
    have st: "pd_complete_write st c = ?st" using True c by (simp add: pd_complete_write_def Let_def)
    have w: "w < length (write_counts st)" using True d(2) by auto
    have len: "Suc (length (remove1 w (in_flight st))) = length (in_flight st)"
      using True length_pos_if_in_set [OF True] by (simp add: length_remove1)
    have pos: "0 < count_list (in_flight st) w" using True by (metis count_list_0_iff gr0I)
    have counts: "counts_ok ?st req p" if "hm_get (pending_writes st) req = Some p" for req p
      using d(4) [OF that] w pos True by (auto simp: counts_ok_def count_list_remove1)
    have errors: "0 \<le> wc_errors x \<and> wc_errors x \<le> wc_completed x" if "x \<in> set ((write_counts st)[w := ?wc])" for x
    proof -
      from that set_update_subset_insert have "x = ?wc \<or> x \<in> set (write_counts st)" by fastforce
      moreover have "write_counts st ! w \<in> set (write_counts st)" using w by simp
      ultimately show ?thesis using d(3) by fastforce
    qed
    show ?thesis unfolding st
    proof (rule writes_okI)
      show "set (in_flight ?st) \<subseteq> {..<length (write_counts ?st)}" using d(2) set_remove1_subset by fastforce
    qed (use d(1) len counts errors d(5) in simp_all)
  qed (use ok c in \<open>simp add: pd_complete_write_def\<close>)
qed

lemma pd_complete_writes_ok: "writes_ok st \<Longrightarrow> writes_ok (foldl pd_complete_write st cs)"
  by (induction cs arbitrary: st) (simp_all add: pd_complete_write_ok)

lemma pd_complete_writes_fields:
  "pending_writes (foldl pd_complete_write st cs) = pending_writes st"
  "write_submitted (foldl pd_complete_write st cs) = write_submitted st"
  "sent_imms (foldl pd_complete_write st cs) = sent_imms st"
  "remote_requests (foldl pd_complete_write st cs) = remote_requests st"
  by (induction cs arbitrary: st) (simp_all add: pd_complete_write_fields)

lemma submit_write_ok:
  assumes ok: "writes_ok st"
  shows "writes_ok (snd (submit_write req accepted st))"
proof -
  note d = writes_okD [OF ok]
  obtain p st2 where pe: "pending_entry req (st\<lparr>write_submitted := write_submitted st + 1\<rparr>) = (p, st2)" by (rule prod.exhaust)
  define st3 where "st3 = st2\<lparr>pending_writes := hm_insert req (p\<lparr>pw_submitted := pw_submitted p + 1\<rparr>) (pending_writes st2),
      in_flight := pw_counters p # in_flight st2\<rparr>"
  have "writes_ok st3"
  proof (cases "hm_get (pending_writes st) req")
    case (Some q)
    with pe have e: "p = q" "st2 = st\<lparr>write_submitted := write_submitted st + 1\<rparr>" by (simp_all add: pending_entry_def)
    note q = d(4) [OF Some, unfolded counts_ok_def]
    have get: "hm_get (pending_writes st3) r = (if r = req then Some (q\<lparr>pw_submitted := pw_submitted q + 1\<rparr>) else hm_get (pending_writes st) r)" for r
      by (simp add: st3_def e hm_get_insert)
    have other: "pw_counters x \<noteq> pw_counters q" if "hm_get (pending_writes st) r = Some x" "r \<noteq> req" for r x
      using d(5) [OF Some that(1)] that(2) by auto
    show ?thesis
    proof (rule writes_okI)
      fix r x assume "hm_get (pending_writes st3) r = Some x"
      then consider "r = req" "x = q\<lparr>pw_submitted := pw_submitted q + 1\<rparr>" | "r \<noteq> req" "hm_get (pending_writes st) r = Some x"
        by (auto simp: get split: if_splits)
      thus "counts_ok st3 r x"
      proof cases
        case 1
        with q show ?thesis by (simp add: counts_ok_def st3_def e)
      next
        case 2
        with d(4) [OF 2(2)] other [OF 2(2,1)] show ?thesis by (simp add: counts_ok_def st3_def e)
      qed
    next
      fix r1 r2 p1 p2
      assume "hm_get (pending_writes st3) r1 = Some p1" "hm_get (pending_writes st3) r2 = Some p2" "pw_counters p1 = pw_counters p2"
      thus "r1 = r2" using other [of r1 p1] other [of r2 p2] d(5) [of r1 p1 r2 p2]
        by (cases "r1 = req"; cases "r2 = req") (auto simp: get)
    qed (use d(1-3) q in \<open>simp_all add: st3_def e\<close>)
  next
    case None
    let ?c = "length (write_counts st)"
    from None pe have e: "p = \<lparr>pw_submitted = 0, pw_counters = ?c\<rparr>"
      "st2 = st\<lparr>write_submitted := write_submitted st + 1, write_counts := write_counts st @ [\<lparr>wc_completed = 0, wc_errors = 0\<rparr>]\<rparr>"
      by (simp_all add: pending_entry_def)
    have get: "hm_get (pending_writes st3) r = (if r = req then Some \<lparr>pw_submitted = 1, pw_counters = ?c\<rparr> else hm_get (pending_writes st) r)" for r
      by (simp add: st3_def e hm_get_insert)
    have fresh: "count_list (in_flight st) ?c = 0" using d(2) by (auto simp: count_list_0_iff)
    have below: "pw_counters x < ?c" if "hm_get (pending_writes st) r = Some x" for r x
      using d(4) [OF that] by (simp add: counts_ok_def)
    show ?thesis
    proof (rule writes_okI)
      fix r x assume "hm_get (pending_writes st3) r = Some x"
      then consider "r = req" "x = \<lparr>pw_submitted = 1, pw_counters = ?c\<rparr>" | "r \<noteq> req" "hm_get (pending_writes st) r = Some x"
        unfolding get by (cases "r = req") simp_all
      thus "counts_ok st3 r x"
      proof cases
        case 1
        with fresh show ?thesis by (simp add: counts_ok_def st3_def e)
      next
        case 2
        with d(4) [OF 2(2)] below [OF 2(2)] show ?thesis by (simp add: counts_ok_def st3_def e nth_append)
      qed
    next
      fix r1 r2 p1 p2
      assume "hm_get (pending_writes st3) r1 = Some p1" "hm_get (pending_writes st3) r2 = Some p2" "pw_counters p1 = pw_counters p2"
      thus "r1 = r2" using below [of r1 p1] below [of r2 p2] d(5) [of r1 p1 r2 p2]
        by (cases "r1 = req"; cases "r2 = req") (auto simp: get)
    next
      show "set (in_flight st3) \<subseteq> {..<length (write_counts st3)}" using d(2) by (auto simp: st3_def e)
    next
      fix wc assume "wc \<in> set (write_counts st3)"
      thus "0 \<le> wc_errors wc \<and> wc_errors wc \<le> wc_completed wc" using d(3) by (auto simp: st3_def e)
    qed (use d(1) in \<open>simp_all add: st3_def e\<close>)
  qed
  thus ?thesis using pd_complete_write_ok by (simp add: submit_write_def Let_def pe st3_def)
qed

section \<open>Runs of the engine\<close>

text \<open>
  One change of the engine by any thread, labelled with the request it submits a write for, if it does. A write may be
  submitted at any time: the window only delays it.
\<close>

inductive pd_step ::
    "serde_parse \<Rightarrow> (u64 \<Rightarrow> u64 \<Rightarrow> (nat \<times> pd_mr_desc) option) \<Rightarrow> string option \<Rightarrow> pd_engine \<Rightarrow> pd_engine \<Rightarrow> bool"
  for parse register_memory where
  Local: "pd_step parse register_memory None st (snd (register_local_layers register_memory ls st))"
| Remote: "register_remote parse req json st = Some (r, st') \<Longrightarrow> pd_step parse register_memory None st st'"
| Submit: "pd_step parse register_memory (Some req) st (snd (submit_write req accepted st))"
| Completion: "pd_step parse register_memory None st (pd_complete_write st c)"
| Done: "pd_step parse register_memory None st (snd (send_request_imm req ImmDone outcome st))"
| Sent: "pd_step parse register_memory None st (mark_sent req st)"
| Fail: "pd_step parse register_memory None st (snd (fail_request req outcome st))"
| Abort: "pd_step parse register_memory None st (snd (abort_request req outcome st))"
| WaitDone: "wait_done req deadline rounds st = Some (r, st') \<Longrightarrow> pd_step parse register_memory None st st'"
| PopSending: "pd_step parse register_memory None st (snd (pop_finished_sending st))"
| PopRecving: "pd_step parse register_memory None st (snd (pop_finished_recving st))"
| Close: "pd_step parse register_memory None st (close_request req st)"
| Arrival: "pd_step parse register_memory None st (imm_arrives imm st)"

text \<open>The steps of all threads, and those that submit no write for a request.\<close>

definition pd_steps ::
    "serde_parse \<Rightarrow> (u64 \<Rightarrow> u64 \<Rightarrow> (nat \<times> pd_mr_desc) option) \<Rightarrow> pd_engine \<Rightarrow> pd_engine \<Rightarrow> bool" where
  "pd_steps parse register_memory st st' = (\<exists>who. pd_step parse register_memory who st st')"

definition steps_beside ::
    "serde_parse \<Rightarrow> (u64 \<Rightarrow> u64 \<Rightarrow> (nat \<times> pd_mr_desc) option) \<Rightarrow> string \<Rightarrow> pd_engine \<Rightarrow> pd_engine \<Rightarrow> bool" where
  "steps_beside parse register_memory req st st' = (\<exists>who. who \<noteq> Some req \<and> pd_step parse register_memory who st st')"

text \<open>The states a call finds are states the engine goes through, in this order.\<close>

fun follows :: "(pd_engine \<Rightarrow> pd_engine \<Rightarrow> bool) \<Rightarrow> pd_engine \<Rightarrow> looks \<Rightarrow> bool" where
  "follows step st [] = True"
| "follows step st ((s, now) # obs) = (step\<^sup>*\<^sup>* st s \<and> follows step s obs)"

text \<open>The changes of the calls are such steps.\<close>

lemma push_layer_steps:
  assumes "push_layer req idx blocks deadline accepted st obs = Some (r, cs)" "(s, s') \<in> set cs"
  shows "pd_step parse reg (Some req) s s'"
proof -
  from assms have "s' = snd (submit_write req accepted s)"
    by (auto simp: push_layer_def Let_def split: option.splits sum.splits if_splits prod.splits bool.splits list.splits)
  thus ?thesis using pd_step.Submit by simp
qed

lemma push_done_cases:
  assumes "push_done req deadline outcome st obs = Some (r, cs)" "(s, s') \<in> set cs"
  obtains now obs' where "wait_for_request_writes req deadline st obs = Some (Inr (), (s, now) # obs')"
      "s' = snd (send_request_imm req ImmDone outcome s)"
    | "s' = mark_sent req s"
proof -
  from assms(1) consider (none) "cs = []" | (some) t now obs'
    where "wait_for_request_writes req deadline st obs = Some (Inr (), (t, now) # obs')"
    by (auto simp: push_done_def split: option.splits prod.splits sum.splits list.splits)
  thus thesis
  proof cases
    case (some t now obs')
    obtain q t' where q: "send_request_imm req ImmDone outcome t = (q, t')" by (rule prod.exhaust)
    have "(s, s') = (t, t') \<or> s' = mark_sent req s"
      using assms some q by (cases q; cases obs') (auto simp: push_done_def split: prod.splits)
    with that some q show thesis by auto
  qed (use assms(2) in simp)
qed

lemma push_done_steps:
  assumes "push_done req deadline outcome st obs = Some (r, cs)" "(s, s') \<in> set cs"
  shows "pd_step parse reg None s s'"
  by (rule push_done_cases [OF assms]) (use pd_step.Done pd_step.Sent in simp_all)

definition writes_of ::
    "pd_engine \<Rightarrow> (string, pending_rdma_writes) hmap \<times> write_counters list \<times> int \<times> int \<times> nat list" where
  "writes_of st = (pending_writes st, write_counts st, write_submitted st, write_completed st, in_flight st)"

lemma writes_of_ok: "writes_of st' = writes_of st \<Longrightarrow> writes_ok st \<Longrightarrow> writes_ok st'"
  using writes_ok_cong [of st' st] by (simp add: writes_of_def)

lemma writes_of_counter_for: "writes_of (snd (counter_for key imm st)) = writes_of st"
  by (simp add: counter_for_def writes_of_def split: option.splits prod.splits)

lemma writes_of_local: "writes_of (snd (register_local_layers reg ls st)) = writes_of st"
proof (induction ls arbitrary: st)
  case (Cons l ls)
  let ?r = "and_then (layer_range l) (\<lambda>(ptr, len). map_sum id (Pair ptr)
      (ok_or (PegaFlowError ''register_memory_allow_remote failed'') (reg ptr len)))"
  show ?case
  proof (cases ?r)
    case (Inr x)
    obtain ptr mr desc where x: "x = (ptr, mr, desc)" by (rule prod_cases3)
    let ?st = "st\<lparr>local_layers := hm_insert (ll_layer_idx l) \<lparr>pl_base_addr = ptr, pl_mr = mr, pl_mr_desc = desc\<rparr> (local_layers st)\<rparr>"
    have "writes_of ?st = writes_of st" by (simp add: writes_of_def)
    with Cons.IH [of ?st] Inr x show ?thesis by (simp add: Let_def split_beta del: and_then_Inr)
  qed simp
qed simp

lemma writes_of_updates [simp]:
  "writes_of (st\<lparr>remote_requests := a\<rparr>) = writes_of st" "writes_of (st\<lparr>imm_to_req := b\<rparr>) = writes_of st"
  "writes_of (st\<lparr>pd_imms := c\<rparr>) = writes_of st" "writes_of (st\<lparr>finished_recving := d\<rparr>) = writes_of st"
  "writes_of (st\<lparr>finished_sending := d\<rparr>) = writes_of st" "writes_of (st\<lparr>sent_imms := e\<rparr>) = writes_of st"
  "writes_of (st\<lparr>imm_counters := f\<rparr>) = writes_of st"
  by (simp_all add: writes_of_def)

lemma writes_of_remote: "register_remote parse req json st = Some (r, st') \<Longrightarrow> writes_of st' = writes_of st"
proof (cases "from_json parse json")
  case (Inr h)
  assume a: "register_remote parse req json st = Some (r, st')"
  then obtain x where x: "remote_layers h (hs_layers h) [] = Some x"
    using Inr by (cases "remote_layers h (hs_layers h) []") (simp_all add: register_remote_def)
  show ?thesis
    by (cases x) (use a Inr x in \<open>auto simp: register_remote_def Let_def writes_of_counter_for\<close>)
qed (simp add: register_remote_def)

lemma writes_of_imm: "writes_of (snd (send_request_imm req kind outcome st)) = writes_of st"
  by (simp add: send_request_imm_def Let_def split: option.splits)

lemma writes_of_arrival: "writes_of (imm_arrives imm st) = writes_of st"
  by (simp add: imm_arrives_def split: prod.splits imm_count_status.splits option.splits)

lemma writes_of_wait_done:
  assumes "wait_done req deadline rounds st = Some (r, st')"
  shows "writes_of st' = writes_of st"
proof (cases "req \<in> set (finished_recving st)")
  case False
  show ?thesis
  proof (cases "hm_get (remote_requests st) req")
    case (Some rq)
    obtain d st1 where d: "counter_for req (imm_data rq) st = (d, st1)" by (rule prod.exhaust)
    obtain f st2 where f: "counter_for (fail_counter_key req) (fail_imm_data rq) st1 = (f, st2)" by (rule prod.exhaust)
    obtain a st3 where a: "counter_for (abort_counter_key req) (abort_imm_data rq) st2 = (a, st3)" by (rule prod.exhaust)
    have "writes_of st3 = writes_of st"
      using d f a by (metis snd_conv writes_of_counter_for)
    let ?cs = "counters (pd_imms st3)"
    obtain res where res: "wait_imm_or_fail (rq_expected_imm_count rq) deadline rounds (?cs ! f, ?cs ! a, ?cs ! d) = Some res"
      using assms False Some by (auto simp: wait_done_def d f a Let_def)
    obtain k f' a' d' where k: "res = (k, f', a', d')" by (rule prod_cases4)
    with \<open>writes_of st3 = writes_of st\<close> assms False Some res show ?thesis
      by (cases k) (auto simp: wait_done_def d f a Let_def)
  qed (use assms False in \<open>simp add: wait_done_def\<close>)
qed (use assms in \<open>simp add: wait_done_def\<close>)

lemma close_ok:
  assumes "writes_ok st"
  shows "writes_ok (close_request req st)"
proof (rule writes_okI)
  note d = writes_okD [OF assms]
  have parts: "pending_writes (close_request req st) = hm_remove req (pending_writes st)"
    "write_counts (close_request req st) = write_counts st" "in_flight (close_request req st) = in_flight st"
    "write_submitted (close_request req st) = write_submitted st" "write_completed (close_request req st) = write_completed st"
    by (simp_all add: close_request_def Let_def split: option.splits)
  show "write_submitted (close_request req st) - write_completed (close_request req st) = int (length (in_flight (close_request req st)))"
    "set (in_flight (close_request req st)) \<subseteq> {..<length (write_counts (close_request req st))}"
    using d(1,2) by (simp_all add: parts)
  show "0 \<le> wc_errors wc \<and> wc_errors wc \<le> wc_completed wc" if "wc \<in> set (write_counts (close_request req st))" for wc
    using that d(3) by (simp add: parts)
  have get: "hm_get (pending_writes st) r = Some p" if "hm_get (pending_writes (close_request req st)) r = Some p" for r p
    using that by (auto simp: parts hm_get_remove split: if_splits)
  show "counts_ok (close_request req st) r p" if "hm_get (pending_writes (close_request req st)) r = Some p" for r p
    using d(4) [OF get [OF that]] by (simp add: counts_ok_def parts)
  show "r1 = r2" if "hm_get (pending_writes (close_request req st)) r1 = Some p1"
    "hm_get (pending_writes (close_request req st)) r2 = Some p2" "pw_counters p1 = pw_counters p2" for r1 r2 p1 p2
    using d(5) [OF get [OF that(1)] get [OF that(2)] that(3)] .
qed

lemma pd_engine_new_ok: "writes_ok pd_engine_new"
  by (simp add: writes_ok_def pd_engine_new_def)

lemma writes_of_mark_sent: "writes_of (mark_sent req st) = writes_of st"
  by (simp add: mark_sent_def)

lemmas writes_of_steps = writes_of_local writes_of_remote writes_of_imm writes_of_mark_sent writes_of_wait_done writes_of_arrival

text \<open>A step submits a write, completes one, closes a request or leaves the writes alone.\<close>

lemma pd_step_writes:
  assumes "pd_step parse reg who st st'"
  obtains (submits) req accepted where "who = Some req" "st' = snd (submit_write req accepted st)"
    | (completes) c where "st' = pd_complete_write st c"
    | (closes) req where "st' = close_request req st"
    | (other) "writes_of st' = writes_of st"
  using assms
  by (cases rule: pd_step.cases)
    (use writes_of_steps in \<open>auto simp: fail_request_def abort_request_def pop_finished_sending_def pop_finished_recving_def\<close>)

lemma pd_step_ok: "pd_step parse reg who st st' \<Longrightarrow> writes_ok st \<Longrightarrow> writes_ok st'"
  by (erule pd_step_writes) (auto intro: submit_write_ok pd_complete_write_ok close_ok writes_of_ok)

lemma reachable_ok: "(pd_steps parse reg)\<^sup>*\<^sup>* pd_engine_new st \<Longrightarrow> writes_ok st"
  by (induction rule: rtranclp_induct) (use pd_engine_new_ok pd_step_ok in \<open>auto simp: pd_steps_def\<close>)

section \<open>A request's counter beside the other threads\<close>

text \<open>Counter \<open>w\<close> belongs to the request, also after the request is closed: writes for other requests count elsewhere.\<close>

definition owned :: "string \<Rightarrow> nat \<Rightarrow> pd_engine \<Rightarrow> bool" where
  "owned req w st =
     (w < length (write_counts st) \<and> (\<forall>r p. hm_get (pending_writes st) r = Some p \<longrightarrow> r \<noteq> req \<longrightarrow> pw_counters p \<noteq> w))"

definition issued :: "nat \<Rightarrow> pd_engine \<Rightarrow> int" where
  "issued w st = wc_completed (write_counts st ! w) + int (count_list (in_flight st) w)"

text \<open>What the wait relies on: no write is added to the counter, and once all have completed it stands still.\<close>

definition calm :: "string \<Rightarrow> nat \<Rightarrow> pd_engine \<Rightarrow> pd_engine \<Rightarrow> bool" where
  "calm req w st st' =
     (owned req w st' \<and> issued w st' = issued w st
      \<and> (w \<notin> set (in_flight st) \<longrightarrow> w \<notin> set (in_flight st') \<and> write_counts st' ! w = write_counts st ! w))"

lemma calm_trans: "calm req w a b \<Longrightarrow> calm req w b c \<Longrightarrow> calm req w a c"
  by (auto simp: calm_def)

lemma pd_complete_write_calm:
  assumes "owned req w st"
  shows "calm req w st (pd_complete_write st c)"
proof -
  obtain v ok where c: "c = (v, ok)" by (rule prod.exhaust)
  show ?thesis
  proof (cases "v \<in> set (in_flight st)")
    case True
    hence "0 < count_list (in_flight st) v" by (metis count_list_0_iff gr0I)
    thus ?thesis using True c assms
      by (cases "v = w") (auto simp: calm_def owned_def issued_def pd_complete_write_def Let_def count_list_remove1 in_set_remove1)
  qed (use c assms in \<open>simp add: calm_def pd_complete_write_def\<close>)
qed

lemma submit_write_calm:
  assumes own: "owned req w st" and other: "r \<noteq> req"
  shows "calm req w st (snd (submit_write r accepted st))"
proof -
  obtain p st2 where pe: "pending_entry r (st\<lparr>write_submitted := write_submitted st + 1\<rparr>) = (p, st2)" by (rule prod.exhaust)
  define st3 where "st3 = st2\<lparr>pending_writes := hm_insert r (p\<lparr>pw_submitted := pw_submitted p + 1\<rparr>) (pending_writes st2),
      in_flight := pw_counters p # in_flight st2\<rparr>"
  have parts: "pw_counters p \<noteq> w" "pending_writes st2 = pending_writes st" "in_flight st2 = in_flight st"
    "w < length (write_counts st2)" "write_counts st2 ! w = write_counts st ! w"
    using pe own other by (auto simp: pending_entry_def owned_def nth_append split: option.splits)
  have "calm req w st st3" using parts own
    by (auto simp: calm_def owned_def issued_def st3_def hm_get_insert split: if_splits)
  moreover have "calm req w st3 (pd_complete_write st3 c)" for c
    using calculation by (intro pd_complete_write_calm) (simp add: calm_def)
  ultimately show ?thesis
    using calm_trans [of req w st st3] by (simp add: submit_write_def Let_def pe st3_def [symmetric])
qed

lemma close_calm: "owned req w st \<Longrightarrow> calm req w st (close_request r st)"
  by (auto simp: calm_def owned_def issued_def close_request_def Let_def hm_get_remove split: option.splits if_splits)

lemma steps_beside_calm:
  assumes "steps_beside parse reg req st st'" "owned req w st"
  shows "calm req w st st'"
proof -
  obtain who where "pd_step parse reg who st st'" "who \<noteq> Some req" using assms(1) by (auto simp: steps_beside_def)
  thus ?thesis
  proof (cases rule: pd_step_writes)
    case other
    with assms(2) show ?thesis by (simp add: calm_def owned_def issued_def writes_of_def)
  qed (use assms(2) submit_write_calm pd_complete_write_calm close_calm in auto)
qed

lemma beside_calm: "(steps_beside parse reg req)\<^sup>*\<^sup>* st st' \<Longrightarrow> owned req w st \<Longrightarrow> calm req w st st'"
proof (induction rule: rtranclp_induct)
  case base
  thus ?case by (simp add: calm_def)
next
  case (step y z)
  thus ?case using steps_beside_calm calm_trans by (metis calm_def)
qed

lemma follows_calm:
  assumes "follows (steps_beside parse reg req) st obs" "owned req w st" "(s, now) \<in> set obs"
  shows "calm req w st s"
  using assms
proof (induction obs arbitrary: st)
  case (Cons o1 obs)
  obtain t n where o1: "o1 = (t, n)" by (rule prod.exhaust)
  have t: "calm req w st t" using Cons.prems(1,2) o1 beside_calm by auto
  hence "owned req w t" by (simp add: calm_def)
  with Cons o1 t show ?case using calm_trans by auto
qed simp

lemma follows_append: "follows step st (xs @ (s, now) # ys) \<Longrightarrow> follows step s ys"
  by (induction step st xs rule: follows.induct) auto

lemma follows_steps: "follows step st obs \<Longrightarrow> (s, now) \<in> set obs \<Longrightarrow> step\<^sup>*\<^sup>* st s"
  by (induction step st obs rule: follows.induct) (auto dest: rtranclp_trans)

section \<open>The wait for a request's writes\<close>

lemma wait_atomic_count_result:
  assumes "wait_atomic_count counter target deadline obs = Some (b, rest)"
  shows "\<exists>pre s now. obs = pre @ (s, now) # rest \<and> (b \<longrightarrow> target \<le> counter s)"
  using assms
proof (induction counter target deadline obs rule: wait_atomic_count.induct)
  case (2 counter target deadline s now obs)
  show ?case
  proof (cases "counter s < target \<and> \<not> deadline \<le> now")
    case True
    with 2 obtain pre t n where "obs = pre @ (t, n) # rest" "b \<longrightarrow> target \<le> counter t" by auto
    thus ?thesis by (metis append_Cons)
  next
    case False
    with 2(2) show ?thesis by (intro exI [of _ "[]"]) (auto split: if_splits)
  qed
qed simp

text \<open>A wait that succeeds has seen every write completed, and after that no error.\<close>

lemma wait_writes_settled:
  assumes w: "wait_for_request_writes req deadline st obs = Some (Inr (), rest)" and p: "hm_get (pending_writes st) req = Some p"
    and n: "pw_submitted p \<noteq> 0"
  obtains pre s now e now' where "obs = pre @ (s, now) # (e, now') # rest"
    "pw_submitted p \<le> wc_completed (write_counts s ! pw_counters p)" "wc_errors (write_counts e ! pw_counters p) = 0"
proof -
  let ?c = "\<lambda>s. wc_completed (write_counts s ! pw_counters p)"
  from w p n obtain e now' where a: "wait_atomic_count ?c (pw_submitted p) deadline obs = Some (True, (e, now') # rest)"
    and e: "wc_errors (write_counts e ! pw_counters p) = 0"
    by (auto simp: wait_for_request_writes_def split: option.splits prod.splits bool.splits list.splits if_splits)
  from wait_atomic_count_result [OF a] e that show thesis by blast
qed

lemma wait_writes_rest:
  assumes "wait_for_request_writes req deadline st obs = Some (r, rest)"
  shows "\<exists>pre. obs = pre @ rest"
proof (cases "hm_get (pending_writes st) req")
  case (Some p)
  show ?thesis
  proof (cases "pw_submitted p = 0")
    case False
    let ?c = "\<lambda>s. wc_completed (write_counts s ! pw_counters p)"
    from assms Some False obtain b more where a: "wait_atomic_count ?c (pw_submitted p) deadline obs = Some (b, more)"
      and m: "more = rest \<or> (\<exists>e. more = e # rest)"
      by (auto simp: wait_for_request_writes_def split: option.splits prod.splits bool.splits list.splits)
    from wait_atomic_count_result [OF a] obtain pre x where "obs = pre @ x # more" by blast
    with m show ?thesis by (metis append.assoc append_Cons append_Nil)
  qed (use assms Some in \<open>simp add: wait_for_request_writes_def\<close>)
qed (use assms in \<open>simp add: wait_for_request_writes_def\<close>)

lemma send_done_imm:
  assumes "sent_imms (snd (send_request_imm req ImmDone outcome s)) \<noteq> sent_imms s"
  shows "\<exists>rq. hm_get (remote_requests s) req = Some rq
    \<and> sent_imms (snd (send_request_imm req ImmDone outcome s)) = sent_imms s @ [(req, imm_data rq)]"
  using assms by (auto simp: send_request_imm_def request_imm_def Let_def split: option.splits if_splits)

text \<open>In the state in which a successful wait is used, the writes it waited for have completed without an error.\<close>

lemma writes_settled:
  assumes ok: "writes_ok st" "writes_ok s" and f: "follows (steps_beside parse reg req) st obs"
    and w: "wait_for_request_writes req deadline st obs = Some (Inr (), (s, now) # rest)"
    and p: "hm_get (pending_writes st) req = Some p"
  shows "pw_counters p \<notin> set (in_flight s) \<and> wc_completed (write_counts s ! pw_counters p) = pw_submitted p
    \<and> wc_errors (write_counts s ! pw_counters p) = 0"
proof -
  let ?w = "pw_counters p"
  have c: "counts_ok st req p" by (rule writes_okD(4) [OF ok(1) p])
  have own: "owned req ?w st" using c writes_okD(5) [OF ok(1) p] by (auto simp: owned_def counts_ok_def)
  have total: "issued ?w st = pw_submitted p" using c by (simp add: issued_def counts_ok_def)
  obtain pre where obs: "obs = pre @ (s, now) # rest" using wait_writes_rest [OF w] by blast
  have calm: "calm req ?w st s" by (rule follows_calm [OF f own, of _ now]) (simp add: obs)
  have inv: "0 \<le> wc_errors (write_counts s ! ?w) \<and> wc_errors (write_counts s ! ?w) \<le> wc_completed (write_counts s ! ?w)"
    using writes_okD(3) [OF ok(2)] calm by (simp add: calm_def owned_def)
  have issued: "issued ?w s = pw_submitted p" using calm total by (simp add: calm_def)
  show ?thesis
  proof (cases "pw_submitted p = 0")
    case True
    with inv issued have "count_list (in_flight s) ?w = 0" "wc_completed (write_counts s ! ?w) = 0"
      "wc_errors (write_counts s ! ?w) = 0" by (simp_all add: issued_def)
    with True show ?thesis by (simp add: count_list_0_iff)
  next
    case False
    obtain pre t n e n' where obs: "obs = pre @ (t, n) # (e, n') # (s, now) # rest"
      and done_: "pw_submitted p \<le> wc_completed (write_counts t ! ?w)" and err: "wc_errors (write_counts e ! ?w) = 0"
      by (rule wait_writes_settled [OF w p False])
    have t: "calm req ?w st t" by (rule follows_calm [OF f own, of _ n]) (simp add: obs)
    hence "issued ?w t = pw_submitted p" using total by (simp add: calm_def)
    with done_ have "count_list (in_flight t) ?w = 0" "wc_completed (write_counts t ! ?w) = pw_submitted p"
      by (simp_all add: issued_def)
    hence rest: "?w \<notin> set (in_flight t)" by (simp add: count_list_0_iff)
    have later: "follows (steps_beside parse reg req) t ((e, n') # (s, now) # rest)" using f unfolding obs by (rule follows_append)
    have "owned req ?w t" using t by (simp add: calm_def)
    from follows_calm [OF later this, of e n'] follows_calm [OF later this, of s now]
    have "write_counts e ! ?w = write_counts t ! ?w" "write_counts s ! ?w = write_counts t ! ?w" "?w \<notin> set (in_flight s)"
      using rest by (simp_all add: calm_def)
    with err \<open>wc_completed (write_counts t ! ?w) = pw_submitted p\<close> show ?thesis by simp
  qed
qed

section \<open>Registered ranges\<close>

lemma local_range_bounds:
  assumes "local_range idx m n lo hi rs = Inr (lo', hi', k)"
  shows "lo' \<le> lo \<and> hi \<le> hi' \<and> k = n + length rs
    \<and> (\<forall>r \<in> set rs. lo' \<le> lr_base_addr r \<and> lr_base_addr r + (m + 1) * lr_block_len r \<le> hi')"
  using assms
proof (induction rs arbitrary: n lo hi)
  case (Cons r rs)
  let ?e = "lr_base_addr r + (m + 1) * lr_block_len r"
  from Cons.prems have rest: "local_range idx m (n + 1) (min lo (lr_base_addr r)) (max hi ?e) rs = Inr (lo', hi', k)"
    by (auto simp: Option.bind_eq_Some_conv split: if_splits option.splits)
  from Cons.IH [OF rest] show ?case by auto
qed simp

text \<open>The memory registered for a local layer covers every block of every region.\<close>

lemma layer_range_covers:
  assumes "layer_range l = Inr (ptr, len)" "r \<in> set (ll_regions l)" "b \<in> set (ll_block_ids l)"
  shows "block_addrs (lr_base_addr r) (lr_block_len r) (lr_block_len r) b \<subseteq> {ptr ..< ptr + len}"
proof -
  obtain hi k where lr: "local_range (ll_layer_idx l) (Max (set (ll_block_ids l))) 0 u64_max 0 (ll_regions l) = Inr (ptr, hi, k)"
    and len: "ptr \<le> hi" "len = hi - ptr"
    using assms(1) by (auto simp: layer_range_def split: if_splits option.splits)
  have "(b + 1) * lr_block_len r \<le> (Max (set (ll_block_ids l)) + 1) * lr_block_len r"
    using assms(3) by (intro mult_le_mono1) simp
  moreover have "ptr \<le> lr_base_addr r" "lr_base_addr r + (Max (set (ll_block_ids l)) + 1) * lr_block_len r \<le> hi"
    using local_range_bounds [OF lr] assms(2) by blast+
  moreover have "(b + 1) * lr_block_len r = b * lr_block_len r + lr_block_len r" by simp
  ultimately have "ptr \<le> lr_base_addr r" "lr_base_addr r + b * lr_block_len r + lr_block_len r \<le> hi" by linarith+
  with len show ?thesis by (auto simp: block_addrs_def)
qed

text \<open>A request registered again before it is closed keeps the counter of its first completion immediate.\<close>

lemma counter_for_keeps: "hm_get (imm_counters st) k = Some c \<Longrightarrow> hm_get (imm_counters (snd (counter_for key imm st))) k = Some c"
  by (auto simp: counter_for_def Let_def hm_get_insert split: option.splits prod.splits)

lemma reregistered_counter_kept:
  assumes "register_remote parse req json st = Some (r, st')" "hm_get (imm_counters st) req = Some c"
  shows "hm_get (imm_counters st') req = Some c"
proof (cases "from_json parse json")
  case (Inr h)
  obtain x where x: "remote_layers h (hs_layers h) [] = Some x"
    using assms(1) Inr by (cases "remote_layers h (hs_layers h) []") (simp_all add: register_remote_def)
  show ?thesis
    by (cases x) (use assms Inr x in \<open>auto simp: register_remote_def Let_def intro!: counter_for_keeps\<close>)
qed (use assms in \<open>simp add: register_remote_def\<close>)

section \<open>Waiting for immediates\<close>

lemma poll_spec:
  "poll target arrived now c =
     (let n = c + int arrived in if int target \<le> n then (True, n - int target) else (False, n))"
  by (simp add: poll_def wait_timeout_zero Let_def)

text \<open>What has arrived for a counter by the end of a round, nothing being taken from it.\<close>

definition arrived :: "int \<Rightarrow> (imm_round \<Rightarrow> nat) \<Rightarrow> imm_round list \<Rightarrow> nat \<Rightarrow> int" where
  "arrived c what rounds n = c + int (sum_list (map what (take (n + 1) rounds)))"

text \<open>A round decides when an immediate is in or the deadline has passed.\<close>

definition decides :: "nat \<Rightarrow> instant \<Rightarrow> imm_round list \<Rightarrow> int \<times> int \<times> int \<Rightarrow> nat \<Rightarrow> bool" where
  "decides expected deadline rounds start n =
     (let (f, a, d) = start
      in n < length rounds
         \<and> (1 \<le> arrived f r_fail rounds n \<or> 1 \<le> arrived a r_abort rounds n \<or> int expected \<le> arrived d r_done rounds n
            \<or> deadline \<le> r_now (rounds ! n)))"

text \<open>
  The answer a round gives: failure before abort before completion before the timeout. It takes off the counters what it
  reports; the counters it does not come to are as the round before has left them.
\<close>

definition before :: "int \<Rightarrow> (imm_round \<Rightarrow> nat) \<Rightarrow> imm_round list \<Rightarrow> nat \<Rightarrow> int" where
  "before c what rounds n = c + int (sum_list (map what (take n rounds)))"

definition round_answer ::
    "nat \<Rightarrow> imm_round list \<Rightarrow> int \<times> int \<times> int \<Rightarrow> nat \<Rightarrow> pd_imm_wait_result \<times> int \<times> int \<times> int" where
  "round_answer expected rounds start n =
     (let (f, a, d) = start;
          fails = arrived f r_fail rounds n; aborts = arrived a r_abort rounds n; dones = arrived d r_done rounds n
      in if 1 \<le> fails then (WaitFailed, fails - 1, before a r_abort rounds n, before d r_done rounds n)
         else if 1 \<le> aborts then (WaitAborted, fails, aborts - 1, before d r_done rounds n)
         else if int expected \<le> dones then (WaitDone, fails, aborts, dones - int expected)
         else (WaitTimedOut, fails, aborts, dones))"

lemma arrived_Cons [simp]:
  "arrived c what (r # rs) 0 = c + int (what r)" "arrived c what (r # rs) (Suc n) = arrived (c + int (what r)) what rs n"
  "before c what (r # rs) 0 = c" "before c what (r # rs) (Suc n) = before (c + int (what r)) what rs n"
  by (simp_all add: arrived_def before_def)

lemma wait_imm_first:
  assumes "decides expected deadline rounds start n"
  shows "wait_imm_or_fail expected deadline rounds start =
    Some (round_answer expected rounds start (LEAST n. decides expected deadline rounds start n))"
  using assms
proof (induction rounds arbitrary: start n)
  case (Cons r rs)
  obtain f a d where start: "start = (f, a, d)" by (rule prod_cases3)
  let ?next = "(f + int (r_fail r), a + int (r_abort r), d + int (r_done r))"
  let ?here = "decides expected deadline (r # rs) start" and ?there = "decides expected deadline rs ?next"
  have step: "?here (Suc k) \<longleftrightarrow> ?there k" for k by (simp add: decides_def start)
  show ?case
  proof (cases "?here 0")
    case True
    hence "(LEAST n. ?here n) = 0" by (rule Least_eq_0)
    with True show ?thesis by (auto simp: decides_def start round_answer_def poll_spec Let_def)
  next
    case False
    with Cons.prems obtain k where k: "n = Suc k" "?there k" by (cases n) (auto simp: step)
    have least: "(LEAST n. ?here n) = Suc (LEAST k. ?there k)"
      using Least_Suc [of ?here n] Cons.prems False by (simp add: step)
    have "wait_imm_or_fail expected deadline (r # rs) start = wait_imm_or_fail expected deadline rs ?next"
      using False by (auto simp: decides_def start poll_spec Let_def)
    moreover have "round_answer expected (r # rs) start (Suc m) = round_answer expected rs ?next m" for m
      by (simp add: round_answer_def start Let_def)
    ultimately show ?thesis unfolding least by (simp only: Cons.IH [OF k(2)])
  qed
qed (simp add: decides_def split_beta)

lemma wait_imm_pending:
  assumes "\<And>n. \<not> decides expected deadline rounds start n"
  shows "wait_imm_or_fail expected deadline rounds start = None"
  using assms
proof (induction rounds arbitrary: start)
  case (Cons r rs)
  obtain f a d where start: "start = (f, a, d)" by (rule prod_cases3)
  let ?next = "(f + int (r_fail r), a + int (r_abort r), d + int (r_done r))"
  have "\<not> decides expected deadline rs ?next k" for k
    using Cons.prems [of "Suc k"] by (simp add: decides_def start)
  from Cons.IH [OF this] Cons.prems [of 0] show ?case by (auto simp: decides_def start poll_spec Let_def)
qed simp

text \<open>
  C8. The wait for a request's immediates ends in the first round in which one of them is in or the deadline has passed,
  and in no other. There it reports failure before abort before completion, completion only when the expected number has
  arrived, and a timeout only when none is in; it takes off the counters exactly what it reports, so a wait that timed
  out leaves every arrival for the next. While no round decides it goes on waiting.
\<close>

theorem imm_wait_exact:
  "wait_imm_or_fail expected deadline rounds start =
     (if \<exists>n. decides expected deadline rounds start n
      then Some (round_answer expected rounds start (LEAST n. decides expected deadline rounds start n)) else None)"
  using wait_imm_first wait_imm_pending by (metis (full_types))

text \<open>
  C7. The completion immediate of a request is handed to the network only in a state in which every write submitted for
  the request before \<open>push_done\<close> was called has completed, none of them with an error. All other threads and callbacks
  run meanwhile, push writes of other requests and may close the request; only writes of the request itself are not
  submitted while \<open>push_done\<close> waits, which the caller sees to.
\<close>

theorem done_imm_after_writes:
  assumes run: "(pd_steps parse reg)\<^sup>*\<^sup>* pd_engine_new st" and beside: "follows (steps_beside parse reg req) st obs"
    and d: "push_done req deadline outcome st obs = Some (r, cs)" and c: "(s, s') \<in> set cs" and sent: "sent_imms s' \<noteq> sent_imms s"
  shows "(\<exists>rq. hm_get (remote_requests s) req = Some rq \<and> sent_imms s' = sent_imms s @ [(req, imm_data rq)])
    \<and> (\<forall>p. hm_get (pending_writes st) req = Some p \<longrightarrow> pw_counters p \<notin> set (in_flight s)
         \<and> wc_completed (write_counts s ! pw_counters p) = pw_submitted p
         \<and> wc_errors (write_counts s ! pw_counters p) = 0)"
proof -
  obtain now rest where w: "wait_for_request_writes req deadline st obs = Some (Inr (), (s, now) # rest)"
    and s': "s' = snd (send_request_imm req ImmDone outcome s)"
    by (rule push_done_cases [OF d c]) (use sent in \<open>simp_all add: mark_sent_def\<close>)
  have ok: "writes_ok st" by (rule reachable_ok [OF run])
  have "(steps_beside parse reg req)\<^sup>*\<^sup>* st s"
    using wait_writes_rest [OF w] follows_steps [OF beside, of s now] by auto
  hence "(pd_steps parse reg)\<^sup>*\<^sup>* st s"
    by (rule rtranclp_mono [THEN predicate2D, rotated]) (auto simp: steps_beside_def pd_steps_def)
  hence "writes_ok s" using run reachable_ok rtranclp_trans by metis
  with writes_settled [OF ok this beside w] send_done_imm [of req outcome s] sent s' show ?thesis by blast
qed

section \<open>Examples\<close>

text \<open>One local layer, the handshake of \<open>Pd_Wire\<close> registered for a request, one block pushed.\<close>

definition ex_desc :: "u64 \<Rightarrow> u64 \<Rightarrow> pd_mr_desc" where
  "ex_desc ptr key = \<lparr>md_ptr = ptr, md_pairs = [([0x0a, 0x1b], key)]\<rparr>"

definition ex_local :: pd_local_layer where
  "ex_local = \<lparr>pl_base_addr = 65536, pl_mr = 1, pl_mr_desc = ex_desc 65536 1\<rparr>"

definition ex_memory :: "u64 \<Rightarrow> u64 \<Rightarrow> (nat \<times> pd_mr_desc) option" where
  "ex_memory ptr len = Some (1, ex_desc ptr 1)"

definition ex_local_layer :: local_layer where
  "ex_local_layer = \<lparr>ll_layer_idx = 0, ll_block_ids = [0, 1],
     ll_regions = [\<lparr>lr_region_idx = 0, lr_base_addr = 65536, lr_block_len = 1024\<rparr>,
                   \<lparr>lr_region_idx = 1, lr_base_addr = 131072, lr_block_len = 1024\<rparr>]\<rparr>"

definition ex_layer :: pd_remote_layer where
  "ex_layer = \<lparr>rl_mr_desc = ex_desc 4096 17, allowed_block_ids = [3, 7, 9],
     rl_regions = [\<lparr>rr_base_addr = 4096, rr_block_len = 1024, rr_block_stride = 1024\<rparr>,
                   \<lparr>rr_base_addr = 1048576, rr_block_len = 1024, rr_block_stride = 2048\<rparr>]\<rparr>"

definition ex_layer1 :: pd_remote_layer where
  "ex_layer1 = \<lparr>rl_mr_desc = ex_desc 8192 18, allowed_block_ids = [3, 7],
     rl_regions = [\<lparr>rr_base_addr = 8192, rr_block_len = 1024, rr_block_stride = 1024\<rparr>]\<rparr>"

definition ex_request :: pd_remote_request where
  "ex_request = \<lparr>remote_request_id = ''cmpl-42-0'', imm_data = 5, fail_imm_data = 0x80000005, abort_imm_data = 0x40000005,
     rq_expected_imm_count = 2, rq_layers = [(0, ex_layer), (1, ex_layer1)]\<rparr>"

definition ex_registered :: pd_engine where
  "ex_registered = pd_engine_new\<lparr>local_layers := [(0, ex_local)],
     pd_imms := \<lparr>imm_map = [(5, ImmOnly 0), (0x80000005, ImmOnly 1), (0x40000005, ImmOnly 2)], counters = [0, 0, 0]\<rparr>,
     imm_counters := [(''r'', 0), (''r#fail'', 1), (''r#abort'', 2)], imm_to_req := [(5, ''r'')],
     remote_requests := [(''r'', ex_request)]\<rparr>"

definition ex_pushed :: pd_engine where
  "ex_pushed = ex_registered\<lparr>write_submitted := 1, pending_writes := [(''r'', \<lparr>pw_submitted = 1, pw_counters = 0\<rparr>)],
     write_counts := [\<lparr>wc_completed = 0, wc_errors = 0\<rparr>], in_flight := [0]\<rparr>"

definition ex_blocks :: "block_slice list list" where
  "ex_blocks = [[\<lparr>bs_region_idx = 0, bs_block_id = 3, bs_src_offset = 0, bs_bytes = 1024\<rparr>,
                 \<lparr>bs_region_idx = 1, bs_block_id = 3, bs_src_offset = 65536, bs_bytes = 1024\<rparr>]]"

definition ex_dsts :: "scatter_target list" where
  "ex_dsts = [\<lparr>dst_mr = ex_desc 4096 17, st_length = 1024, st_src_offset = 0, st_dst_offset = 3072\<rparr>,
              \<lparr>dst_mr = ex_desc 4096 17, st_length = 1024, st_src_offset = 65536, st_dst_offset = 1050624\<rparr>]"

lemma ex_register_local:
  "snd (register_local_layers ex_memory [ex_local_layer] pd_engine_new) = pd_engine_new\<lparr>local_layers := [(0, ex_local)]\<rparr>"
  by (simp add: ex_local_layer_def layer_range_def and_then_def ok_or_def ex_memory_def ex_local_def pd_engine_new_def
      checked_add_def checked_mul_def checked_sub_def u64_max_def)

lemma ex_address: "address_from_str ''0a1b'' = Some (Inr [0x0a, 0x1b])"
  by (simp add: address_from_str_def is_char_boundary_def u8_from_str_radix16_def digit_value_def)

lemma ex_remote_layers: "remote_layers ex_handshake (hs_layers ex_handshake) [] = Some (Inr (rq_layers ex_request))"
  by (simp add: ex_handshake_def remote_layer_def layer_block_ids_def mr_desc_from_wire_def ex_address and_then_def
      remote_region_def block_stride_def ex_request_def ex_layer_def ex_layer1_def ex_desc_def)

lemma ex_register_remote:
  "register_remote ex_parse ''r'' ''h'' (pd_engine_new\<lparr>local_layers := [(0, ex_local)]\<rparr>) = Some (Inr (), ex_registered)"
  using ex_remote_layers
  by (simp add: register_remote_def ex_from_json Let_def counter_for_def get_imm_counter_def pd_engine_new_def imm_map_new_def
      fail_counter_key_def abort_counter_key_def ex_registered_def ex_request_def fail_imm_id_def abort_imm_id_def
      ex_handshake_def fail_imm_def abort_imm_def FAIL_IMM_FLAG_def ABORT_IMM_FLAG_def)

lemma ex_push_targets: "push_targets ex_local ex_layer ex_blocks 0 = Inr (ex_dsts, 2048)"
  by (simp add: ex_blocks_def block_slice_to_scatter_targets_def ex_layer_def ex_local_def make_scatter_target_def and_then_def
      ok_or_def ex_desc_def ex_dsts_def checked_add_def checked_mul_def checked_sub_def u64_max_def)

lemma ex_push_layer:
  "push_layer ''r'' 0 ex_blocks 30 True ex_registered [(ex_registered, 1), (ex_registered, 1), (ex_registered, 1)] =
     Some (Inr (), [(ex_registered, ex_pushed)])"
  using ex_push_targets
  by (simp add: push_layer_def ex_registered_def pd_engine_new_def ex_request_def PD_RDMA_WRITE_WINDOW_def
      submit_write_def pending_entry_def ex_pushed_def ex_dsts_def Let_def)

text \<open>Then a write of another request is submitted, the first one completes, and its request's immediate is posted.\<close>

definition ex_other :: pd_engine where "ex_other = snd (submit_write ''q'' True ex_pushed)"
definition ex_settled :: pd_engine where "ex_settled = pd_complete_write ex_other (0, True)"
definition ex_sent :: pd_engine where "ex_sent = snd (send_request_imm ''r'' ImmDone CompletedOk ex_settled)"

definition ex_looks :: looks where
  "ex_looks = [(ex_other, 1), (ex_settled, 2), (ex_settled, 3), (ex_settled, 4), (ex_sent, 5)]"

theorem pushed_bytes_announced_witness:
  "push_targets ex_local ex_layer ex_blocks 0 = Inr (ex_dsts, 2048)
   \<and> (\<exists>l ids. l \<in> set (hs_layers ex_handshake) \<and> layer_idx l = 0 \<and> layer_block_ids ex_handshake l = Some ids
        \<and> snd ` (\<Union>t \<in> set ex_dsts. copied ex_local t) \<subseteq>
          (\<Union>r \<in> set (wl_regions l). \<Union>b \<in> set ids. block_addrs (wr_base_addr r) (wr_block_len r) (block_stride r) b))"
proof -
  have "hm_get (remote_requests ex_registered) ''r'' = Some ex_request" "hm_get (rq_layers ex_request) 0 = Some ex_layer"
    by (simp_all add: ex_registered_def ex_request_def)
  from pushed_bytes_announced [OF ex_register_remote this ex_push_targets] ex_push_targets show ?thesis
    unfolding ex_from_json by auto
qed

lemma ex_run: "(pd_steps ex_parse ex_memory)\<^sup>*\<^sup>* pd_engine_new ex_pushed"
proof -
  let ?local = "pd_engine_new\<lparr>local_layers := [(0, ex_local)]\<rparr>"
  have "pd_steps ex_parse ex_memory pd_engine_new ?local"
    using pd_step.Local [of ex_parse ex_memory pd_engine_new "[ex_local_layer]"] unfolding ex_register_local pd_steps_def by blast
  moreover have "pd_steps ex_parse ex_memory ?local ex_registered"
    using pd_step.Remote [OF ex_register_remote] unfolding pd_steps_def by blast
  moreover have "pd_steps ex_parse ex_memory ex_registered ex_pushed"
    using push_layer_steps [OF ex_push_layer] unfolding pd_steps_def by fastforce
  ultimately show ?thesis by (meson converse_rtranclp_into_rtranclp rtranclp.rtrancl_refl)
qed

lemma ex_beside: "follows (steps_beside ex_parse ex_memory ''r'') ex_pushed ex_looks"
proof -
  let ?beside = "steps_beside ex_parse ex_memory ''r''"
  have "?beside ex_pushed ex_other"
    using pd_step.Submit [of ex_parse ex_memory "''q''" ex_pushed True] by (auto simp: steps_beside_def ex_other_def intro!: exI [of _ "Some ''q''"])
  moreover have "?beside ex_other ex_settled"
    using pd_step.Completion [of ex_parse ex_memory ex_other "(0, True)"] by (auto simp: steps_beside_def ex_settled_def)
  moreover have "?beside ex_settled ex_sent"
    using pd_step.Done [of ex_parse ex_memory ex_settled "''r''" CompletedOk] by (auto simp: steps_beside_def ex_sent_def)
  ultimately show ?thesis by (simp add: ex_looks_def r_into_rtranclp)
qed

lemmas ex_states = ex_looks_def ex_sent_def ex_settled_def ex_other_def ex_pushed_def ex_registered_def pd_engine_new_def

theorem done_imm_after_writes_witness:
  "push_done ''r'' 30 CompletedOk ex_pushed ex_looks =
     Some (Inr (), [(ex_settled, ex_sent), (ex_sent, mark_sent ''r'' ex_sent)])
   \<and> sent_imms ex_sent = [(''r'', 5)] \<and> 0 \<in> set (in_flight ex_pushed) \<and> 0 \<notin> set (in_flight ex_settled)
   \<and> in_flight ex_settled = [1]"
proof -
  have d: "push_done ''r'' 30 CompletedOk ex_pushed ex_looks =
      Some (Inr (), [(ex_settled, ex_sent), (ex_sent, mark_sent ''r'' ex_sent)])"
    by (simp add: push_done_def wait_for_request_writes_def ex_states submit_write_def pending_entry_def pd_complete_write_def
        send_request_imm_def ex_request_def request_imm_def Let_def)
  have sent: "sent_imms ex_sent = [(''r'', 5)]" "sent_imms ex_settled = []"
    by (simp_all add: ex_states submit_write_def pending_entry_def pd_complete_write_def
        send_request_imm_def ex_request_def request_imm_def Let_def)
  have p: "hm_get (pending_writes ex_pushed) ''r'' = Some \<lparr>pw_submitted = 1, pw_counters = 0\<rparr>" "in_flight ex_pushed = [0]"
    "in_flight ex_settled = [1]"
    by (simp_all add: ex_states submit_write_def pending_entry_def pd_complete_write_def Let_def)
  from done_imm_after_writes [OF ex_run ex_beside d, of ex_settled ex_sent] sent p d show ?thesis by auto
qed

text \<open>
  Two threads that both look while 63 writes are under way both find the window open, and both submit: 65 writes are
  under way then, one more than the window allows.
\<close>

lemma window_overshoot:
  assumes "hm_get (local_layers st) idx = Some local" "hm_get (remote_requests st) req = Some rq"
    "hm_get (rq_layers rq) idx = Some remote" "push_targets local remote blocks 0 = Inr (t # ts, n)"
    and full: "write_submitted st - write_completed st = PD_RDMA_WRITE_WINDOW - 1"
  shows "\<exists>s1 s2. push_layer req idx blocks deadline True st [(st, t1), (st, t2), (st, t3)] = Some (Inr (), [(st, s1)])
    \<and> push_layer req idx blocks deadline True st [(st, t1), (st, t2), (s1, t4)] = Some (Inr (), [(s1, s2)])
    \<and> write_submitted s2 - write_completed s2 = PD_RDMA_WRITE_WINDOW + 1"
proof -
  have sub: "\<exists>s'. submit_write req True s = (Inr (), s') \<and> write_submitted s' = write_submitted s + 1 \<and> write_completed s' = write_completed s"
    for s by (simp add: submit_write_def pending_entry_def Let_def split: option.splits)
  obtain s1 where s1: "submit_write req True st = (Inr (), s1)" "write_submitted s1 = write_submitted st + 1"
    "write_completed s1 = write_completed st" using sub by blast
  obtain s2 where s2: "submit_write req True s1 = (Inr (), s2)" "write_submitted s2 = write_submitted s1 + 1"
    "write_completed s2 = write_completed s1" using sub by blast
  show ?thesis by (rule exI [of _ s1], rule exI [of _ s2]) (use assms s1 s2 in \<open>simp add: push_layer_def\<close>)
qed

end
