(* ===== verification/Spec2Isabelle.thy ===== *)
theory Spec2Isabelle
  imports Gpu_Copy Write_Path Ssd_Writer Lease Prefetch Topology Hll Storage_Engine Meta_Service Pd_Rdma
begin

text \<open>
  PegaFlow keeps the KV caches of inference engines outside the accelerator: in pinned host memory, on SSD and on other
  nodes. Workers of an instance register their device buffers; saving copies blocks into pinned memory, groups
  them by content hash and seals a block when all its slots are there; sealed blocks are cached, written to SSD and
  registered with a MetaServer; a query finds the longest prefix that is resident or can be fetched, pins it under a
  lease, and loading copies it back. A second path pushes the blocks of a prefill node straight
  into the memory of a decode node. This development models these parts definition by definition and proves what
  makes each of them correct.

  Conventions. \<open>usize\<close> and \<open>u64\<close> values are natural numbers, and every operation writes out what the code
  does at the edge of the range: checked, saturating, wrapping, or a panic. Bit-level code (immediates,
  hash registers, the frequency sketch) uses words of the source's width. A panic is \<open>None\<close> of an outer option, a
  \<open>Result\<close> is a sum with the error on the left. A struct is a record, an enum a datatype, a hash map an association
  list with one entry per key (its iteration order is an arbitrary permutation, a parameter \<open>order\<close>, where the
  code's result could depend on it). Instants are nanoseconds passed in by the caller. Shared counters are an explicit
  store. Concurrency is interleaving of the critical sections: an inductive step relation where tasks or
  threads interleave, a sequence of commands where a channel or lock serializes them.

  Theories.
  \<^item> \<open>Pega_Prelude\<close>: the arithmetic, hash maps, and the locale \<open>expiring\<close> for everything that is swept by
  age (leases, sessions, in-flight blocks, prefetch entries, nodes of the registry interpret it).
  \<^item> \<open>Blocks\<close> (\<^verbatim>\<open>pegaflow-core/src/block.rs\<close>, \<^verbatim>\<open>seal_offload.rs\<close>): segments inside pinned allocations, raw, sealed
  and in-flight blocks, rebuilding a block from its metadata.
  \<^item> \<open>Core_Metrics\<close> (\<^verbatim>\<open>metrics.rs\<close>): the gauges the other theories prove exact.
  \<^item> \<open>Lru\<close>, \<open>Tiny_Lfu\<close>, \<open>Read_Cache\<close> (\<^verbatim>\<open>cache.rs\<close>, \<^verbatim>\<open>storage/read_cache.rs\<close>): the LRU crate as the locale \<open>lru_map\<close>,
  interpreted on an executable list; the count-min sketch with admission; the resident cache and its longest-prefix scan.
  \<^item> \<open>Offload_Entries\<close>, \<open>Write_Path\<close> (\<^verbatim>\<open>offload.rs\<close>, \<^verbatim>\<open>storage/write_path.rs\<close>): grouping a saved batch by hash, the insert
  worker that merges slots first writer wins and seals complete blocks.
  \<^item> \<open>Pinned_Pool\<close>, \<open>Storage_Engine\<close> (\<^verbatim>\<open>allocator.rs\<close>, \<^verbatim>\<open>pinned_pool.rs\<close>, \<^verbatim>\<open>storage/mod.rs\<close>): the pools, shards and NUMA
  nodes over the offset allocator crate; allocation that evicts from the cache until it succeeds. Reference counting is
  modelled by reachability: what a dropped block leaves without a reference from the state is freed.
  \<^item> \<open>Ssd_Ring\<close>, \<open>Ssd_Writer\<close>, \<open>Ssd_Store\<close> (\<^verbatim>\<open>backing/ssd_cache.rs\<close>, \<^verbatim>\<open>backing/ssd.rs\<close>): the ring with reserve and
  commit, the writer task with its flush barrier, placing and completing prefetch reads.
  \<^item> \<open>Prefetch\<close>, \<open>Lease\<close>, \<open>Transfer_Lock\<close> (\<^verbatim>\<open>storage/prefetch.rs\<close>, \<^verbatim>\<open>lease.rs\<close>, \<^verbatim>\<open>storage/transfer_lock.rs\<close>,
  \<^verbatim>\<open>storage/tier_attribution.rs\<close>): what a query finds and what keeps it alive.
  \<^item> \<open>Layout\<close>, \<open>Topology\<close> (\<^verbatim>\<open>layout.rs\<close>, \<^verbatim>\<open>instance.rs\<close>): where a block lies in device memory; registering the workers
  of an instance and sealing its topology.
  \<^item> \<open>Gpu_Copy\<close> (\<^verbatim>\<open>gpu_worker.rs\<close>, \<^verbatim>\<open>transfer/mod.rs\<close>, \<^verbatim>\<open>transfer/memcpy.rs\<close>, \<^verbatim>\<open>transfer/kernel.rs\<close>): the copy
  descriptors of a load or save task, their coalescing, the memcpy backend and the copy kernel, over a memory of bytes.
  A block that was saved is loaded back byte by byte; the threads of the kernel, in any order, copy the batch once.
  \<^item> \<open>Hll\<close> (\<^verbatim>\<open>pegaflow-common/src/hll.rs\<close>): HyperLogLog and sliding windows.
  \<^item> \<open>Meta_Store\<close>, \<open>Meta_Service\<close> (\<^verbatim>\<open>pegaflow-metaserver/src/store.rs\<close>, \<^verbatim>\<open>service.rs\<close>) and \<open>Meta_Client\<close>
  (\<^verbatim>\<open>pegaflow-core/src/internode/metaserver_client.rs\<close>): the registry of block owners, its gRPC handlers, and the
  client's draining loop; the locale \<open>hash_rpc\<close> is what the client relies on, interpreted on the service's
  handlers. This theory composes both ends.
  \<^item> \<open>Pd_Wire\<close>, \<open>Imm_Count\<close>, \<open>Domain_Address\<close>, \<open>Pd_Rdma\<close> (\<^verbatim>\<open>pegaflow-pd-wire\<close>, \<^verbatim>\<open>pegaflow-transfer/src/v2/imm_count.rs\<close>,
  \<^verbatim>\<open>v2/api.rs\<close>, \<^verbatim>\<open>v2/utils/hex.rs\<close>, \<^verbatim>\<open>python/src/pd_rdma.rs\<close>): the handshake and its validation, the counters of
  immediates, and the engine that pushes layers and signals their completion. A call of the engine is given the states
  it finds at its atomic accesses and returns the changes it makes, so other threads and callbacks run in between; the
  window of outstanding writes is tested and taken in two such accesses, and \<open>window_overshoot\<close> shows what that allows.

  What is shown. Memory safety: device blocks, pinned allocations, SSD entries, page-first slots and pushed bytes lie inside
  their region and apart from each other. Round trips: blocks through host memory, through the SSD's metadata and
  handshakes through text come back unchanged. Accounting: every byte
  gauge and counter equals what it stands for. Functional behaviour: longest prefixes, grouping, last write wins, windows,
  admission, on every branch. Refinement: leases, the block registry and the client with the service are maps with obvious
  operations. Progress: allocation ends, flushes return, waits end.

  Bounds and fuel. Loops of the code that may run forever are \<open>partial_function (option)\<close> or read a list of observations,
  one per turn, where \<open>None\<close> means still waiting; the theorems on progress show that they return. No definition takes
  fuel. Byte counts of a batch below \<open>2^63\<close> are a hypothesis where the code adds to a signed gauge.

  Parameters. The offset allocator, the LRU map, serde, UUID parsing, gRPC channels, SSD reads and writes, device
  copies and the mapping of pinned memory are not part of the sources. They are arguments of the definitions, and what is
  relied on is a named predicate or locale, with an executable instance.

  Not modelled. What calls devices, the kernel, the network card or other processes and has no logic of its own beyond
  that: the CUDA and Ascend runtimes and the worker threads that call them, mapping and registering pinned memory, io_uring, the
  verbs and RC transfer backends with their topology discovery in sysfs, shared-memory load states, the RDMA fetch
  between nodes; gRPC and HTTP servers, argument parsing, logging and tracing; the Python connectors, which
  are hooks into inference engines whose code is not part of the sources; generated protocol code, benchmarks, scripts and tests.
\<close>

section \<open>A node and the MetaServer\<close>

text \<open>
  C3. Once its session can be established, the registration loop of a node and the MetaServer's
  service agree: whatever batches of registrations and removals the loop drains, split and sends, with
  heartbeats in between, the keys the server holds for the session are those of the commands applied one after
  another, no failure is counted and the session stays established.
\<close>

theorem registration_agrees:
  assumes "can_send parse addr node_id now st" and "Shutdown \<notin> set cmds" and "list_all plain ws"
    and "registration_loop (meta_service parse) addr node_id (Commands now later cmds # ws) st = st'"
  shows "established parse addr node_id st' \<and> l_metrics st' = l_metrics st
    \<and> session_keys parse addr node_id (server st') =
        replay (cmds @ concat (map commands_of ws)) (session_keys parse addr node_id (server st))"
proof -
  obtain st1 where "handle_commands (meta_service parse) addr node_id now later cmds st = (True, st1)"
    "established parse addr node_id st1" "l_metrics st1 = l_metrics st"
    "session_keys parse addr node_id (server st1) = replay cmds (session_keys parse addr node_id (server st))"
    using commands_applied [OF assms(1,2)] by blast
  with established_loop [of parse addr node_id st1 ws] assms(3,4) show ?thesis by (auto simp: replay_append)
qed

definition demo_loop :: "service loop_state" where
  "demo_loop = \<lparr>connected = False, heartbeat = heartbeat_new 7, l_metrics = no_metrics, server = demo_service\<rparr>"

theorem registration_agrees_witness:
  "session_keys (\<lambda>_. Some 1) ''a'' ''id'' demo_service = {(''m'', [7])}
   \<and> session_keys (\<lambda>_. Some 1) ''a'' ''id'' (server (registration_loop (meta_service (\<lambda>_. Some 1)) ''a'' ''id''
        [Commands 8 8 [Insert [(''m'', [[8]])], Remove [(''m'', [[7]])]], Timer 9] demo_loop)) = {(''m'', [8])}"
proof -
  have start: "session_keys (\<lambda>_. Some 1) ''a'' ''id'' demo_service = {(''m'', [7])}"
    by (auto simp: session_keys_def demo_service_def demo_store_def owned_keys_def owner_of_def)
  have c: "can_send (\<lambda>_. Some 1) ''a'' ''id'' 8 demo_loop"
    using demo_store_inv by (simp add: can_send_def demo_loop_def heartbeat_new_def demo_service_def store_inv_def demo_store_def)
  have p: "list_all plain [Timer 9]" by (simp add: plain_def)
  have n: "Shutdown \<notin> set [Insert [(''m'', [[8]])], Remove [(''m'', [[7]])]]" by simp
  have "session_keys (\<lambda>_. Some 1) ''a'' ''id'' (server (registration_loop (meta_service (\<lambda>_. Some 1)) ''a'' ''id''
        [Commands 8 8 [Insert [(''m'', [[8]])], Remove [(''m'', [[7]])]], Timer 9] demo_loop))
      = replay [Insert [(''m'', [[8]])], Remove [(''m'', [[7]])]] {(''m'', [7])}"
    using registration_agrees [OF c n p refl, where later = 8] start
    by (simp only: demo_loop_def loop_state.simps commands_of.simps list.map concat.simps append.simps)
  moreover have "replay [Insert [(''m'', [[8]])], Remove [(''m'', [[7]])]] {(''m'', [7])} = {(''m'', [8])}"
    by (auto simp: batch_keys_def)
  ultimately show ?thesis using start by simp
qed

end
